(* ===== verification/Box_Prelude.thy ===== *)
theory Box_Prelude
  imports Main "HOL-Library.Word" "HOL-Library.Char_ord"
begin

text \<open>
  What the components share: the faults C can raise (an \<open>assert\<close> that fails, a bad
  memory access, the use of an indeterminate value, a
  conversion with no defined result), the result type \<open>fault + 'a\<close> with its bind, bounds-checked reads and
  writes of a buffer, C characters and strings, and the library functions of \<open>string.h\<close>,
  \<open>stdlib.h\<close> and \<open>arpa/inet.h\<close> the sources call.
  A C string is modelled by its contents (a \<open>char list\<close> without the terminator); a buffer
  by the list of its bytes, terminator included.
\<close>

unbundle bit_operations_syntax

section \<open>Collections of facts\<close>

named_theorems res_simps \<open>equations of results and bind\<close>
named_theorems buf_simps \<open>lengths and contents of written buffers\<close>
named_theorems cstr_simps \<open>facts on C strings\<close>

section \<open>Faults and results\<close>

text \<open>
  The Makefile compiles with \<open>-Wall -O2\<close> and no \<open>-DNDEBUG\<close>, so a failing
  \<open>assert\<close> aborts the process: it is a fault of the model like a wild access.
\<close>

datatype fault =
    Assert_Failed
  | Null_Deref
  | Out_Of_Bounds
  | Use_After_Free
  | Diverges
  | Undefined

type_synonym 'a res = "fault + 'a"

fun bind :: "'a res \<Rightarrow> ('a \<Rightarrow> 'b res) \<Rightarrow> 'b res" where
  "bind (Inl e) f = Inl e"
| "bind (Inr x) f = f x"

definition check :: "bool \<Rightarrow> 'a res \<Rightarrow> 'a res" where
  "check b r = (if b then r else Inl Assert_Failed)"

lemma check_simps [simp, res_simps]:
  "check True r = r" "check False r = Inl Assert_Failed"
  by (simp_all add: check_def)

lemma bind_Inr_iff [res_simps]:
  "bind r f = Inr y \<longleftrightarrow> (\<exists>x. r = Inr x \<and> f x = Inr y)"
  by (cases r) auto

lemma check_Inr_iff [res_simps]: "check b r = Inr y \<longleftrightarrow> b \<and> r = Inr y"
  by (simp add: check_def)

lemma bind_assoc: "bind (bind r f) g = bind r (\<lambda>x. bind (f x) g)"
  by (cases r) auto

lemma bind_cong [fundef_cong]:
  "r = r' \<Longrightarrow> (\<And>x. r' = Inr x \<Longrightarrow> f x = g x) \<Longrightarrow> bind r f = bind r' g"
  by (cases r') auto

section \<open>Buffers\<close>

definition rd :: "'a list \<Rightarrow> nat \<Rightarrow> 'a res" where
  "rd buf i = (if i < length buf then Inr (buf ! i) else Inl Out_Of_Bounds)"

definition wr :: "'a list \<Rightarrow> nat \<Rightarrow> 'a \<Rightarrow> 'a list res" where
  "wr buf i v = (if i < length buf then Inr (buf[i := v]) else Inl Out_Of_Bounds)"

text \<open>\<open>memcpy(buf + i, src, |src|)\<close>.\<close>

definition wr_block :: "'a list \<Rightarrow> nat \<Rightarrow> 'a list \<Rightarrow> 'a list res" where
  "wr_block buf i src =
     (if i + length src \<le> length buf
      then Inr (take i buf @ src @ drop (i + length src) buf)
      else Inl Out_Of_Bounds)"

definition rd_block :: "'a list \<Rightarrow> nat \<Rightarrow> nat \<Rightarrow> 'a list res" where
  "rd_block buf i n =
     (if i + n \<le> length buf then Inr (take n (drop i buf)) else Inl Out_Of_Bounds)"

lemma rd_block_in [simp]: "i + n \<le> length buf \<Longrightarrow> rd_block buf i n = Inr (take n (drop i buf))"
  by (simp add: rd_block_def)

lemma rd_in [simp]: "i < length buf \<Longrightarrow> rd buf i = Inr (buf ! i)"
  by (simp add: rd_def)

lemma wr_in [simp]: "i < length buf \<Longrightarrow> wr buf i v = Inr (buf[i := v])"
  by (simp add: wr_def)

lemma wr_length [buf_simps]: "wr buf i v = Inr buf' \<Longrightarrow> length buf' = length buf"
  by (auto simp: wr_def split: if_splits)

lemma wr_block_in [simp]:
  "i + length src \<le> length buf \<Longrightarrow>
   wr_block buf i src = Inr (take i buf @ src @ drop (i + length src) buf)"
  by (simp add: wr_block_def)

lemma wr_block_length [buf_simps]:
  "wr_block buf i src = Inr buf' \<Longrightarrow> length buf' = length buf"
  by (auto simp: wr_block_def split: if_splits)

text \<open>A buffer filled from the left: the next byte written extends the filled part.\<close>

lemma take_Suc_update:
  "i < length buf \<Longrightarrow> take (Suc i) (buf[i := v]) = take i buf @ [v]"
  by (simp add: take_Suc_conv_app_nth)

lemma drop_update_later: "i < j \<Longrightarrow> drop j (buf[i := v]) = drop j buf"
  by (simp add: drop_update_cancel)

section \<open>C characters\<close>

definition NUL :: char where "NUL = CHR 0x00"

abbreviation code_of :: "char \<Rightarrow> nat" where "code_of c \<equiv> of_char c"

definition in_range :: "char \<Rightarrow> char \<Rightarrow> char \<Rightarrow> bool" where
  "in_range lo c hi \<longleftrightarrow> code_of lo \<le> code_of c \<and> code_of c \<le> code_of hi"

definition tolower :: "char \<Rightarrow> char" where
  "tolower c = (if in_range CHR ''A'' c CHR ''Z'' then char_of (code_of c + 32) else c)"

definition isdigit :: "char \<Rightarrow> bool" where
  "isdigit c \<longleftrightarrow> in_range CHR ''0'' c CHR ''9''"

definition isspace :: "char \<Rightarrow> bool" where
  "isspace c \<longleftrightarrow> c = CHR '' '' \<or> 9 \<le> code_of c \<and> code_of c \<le> 13"

definition digit_val :: "char \<Rightarrow> nat" where
  "digit_val c = code_of c - 48"

text \<open>The value of a hexadecimal digit.\<close>

definition hex_digit :: "char \<Rightarrow> nat option" where
  "hex_digit c =
     (if in_range CHR ''0'' c CHR ''9'' then Some (code_of c - 48)
      else if in_range CHR ''a'' c CHR ''f'' then Some (code_of c - 97 + 10)
      else if in_range CHR ''A'' c CHR ''F'' then Some (code_of c - 65 + 10)
      else None)"

section \<open>C strings\<close>

text \<open>
  \<open>cstr mem\<close> is the string a \<open>char *\<close> into \<open>mem\<close> denotes: the bytes before the first
  \<open>NUL\<close>. Without a \<open>NUL\<close> the read runs off the buffer.
\<close>

definition cstr_at :: "char list \<Rightarrow> nat \<Rightarrow> char list res" where
  "cstr_at mem i =
     (if i < length mem \<and> NUL \<in> set (drop i mem)
      then Inr (takeWhile (\<lambda>c. c \<noteq> NUL) (drop i mem))
      else Inl Out_Of_Bounds)"

lemma takeWhile_NUL: "NUL \<notin> set s \<Longrightarrow> takeWhile (\<lambda>c. c \<noteq> NUL) (s @ NUL # r) = s"
  by (induction s) auto

lemma cstr_at_terminated [cstr_simps]: "NUL \<notin> set s \<Longrightarrow> cstr_at (s @ NUL # rest) 0 = Inr s"
  by (simp add: cstr_at_def takeWhile_NUL)

definition strcaseeq :: "char list \<Rightarrow> char list \<Rightarrow> bool" where
  "strcaseeq s t \<longleftrightarrow> map tolower s = map tolower t"

definition strncaseeq :: "nat \<Rightarrow> char list \<Rightarrow> char list \<Rightarrow> bool" where
  "strncaseeq n s t \<longleftrightarrow> strcaseeq (take n s) (take n t)"

fun prefix_of :: "char list \<Rightarrow> char list \<Rightarrow> bool" where
  "prefix_of [] t = True"
| "prefix_of (x # s) [] = False"
| "prefix_of (x # s) (y # t) = (x = y \<and> prefix_of s t)"

text \<open>\<open>strstr\<close>: the offset of the first occurrence.\<close>

fun strstr :: "char list \<Rightarrow> char list \<Rightarrow> nat option" where
  "strstr [] n = (if n = [] then Some 0 else None)"
| "strstr (h # hs) n =
     (if prefix_of n (h # hs) then Some 0 else map_option Suc (strstr hs n))"

fun strchr :: "char list \<Rightarrow> char \<Rightarrow> nat option" where
  "strchr [] c = None"
| "strchr (h # hs) c = (if h = c then Some 0 else map_option Suc (strchr hs c))"

lemma strcaseeq_refl [simp, cstr_simps]: "strcaseeq s s"
  by (simp add: strcaseeq_def)

lemma strcaseeq_sym: "strcaseeq s t \<Longrightarrow> strcaseeq t s"
  by (simp add: strcaseeq_def)

lemma prefix_of_iff [cstr_simps]: "prefix_of s t \<longleftrightarrow> (\<exists>u. t = s @ u)"
  by (induction s t rule: prefix_of.induct) auto

lemma strstr_Some [cstr_simps]:
  "strstr h n = Some i \<Longrightarrow> i \<le> length h \<and> prefix_of n (drop i h)"
  by (induction h n arbitrary: i rule: strstr.induct) (auto split: if_splits)

lemma strstr_first:
  "strstr h n = Some i \<Longrightarrow> j < i \<Longrightarrow> \<not> prefix_of n (drop j h)"
proof (induction h n arbitrary: i j rule: strstr.induct)
  case (1 n)
  then show ?case by (auto split: if_splits)
next
  case (2 h hs n)
  then show ?case by (cases j) (auto split: if_splits)
qed

lemma strstr_None:
  "strstr h n = None \<longleftrightarrow> (\<forall>j \<le> length h. \<not> prefix_of n (drop j h))"
proof (induction h n rule: strstr.induct)
  case (1 n)
  then show ?case by (cases n) auto
next
  case (2 h hs n)
  show ?case
  proof (cases "prefix_of n (h # hs)")
    case True
    then show ?thesis by (auto intro: exI [of _ 0])
  next
    case False
    have "(\<forall>j \<le> length (h # hs). \<not> prefix_of n (drop j (h # hs)))
        \<longleftrightarrow> (\<forall>j \<le> length hs. \<not> prefix_of n (drop j hs))"
      using False by (auto simp: less_Suc_eq_le all_conj_distrib
          elim: allE [of _ "Suc _"] split: nat.splits)
        (metis drop0 drop_Suc_Cons not0_implies_Suc Suc_le_mono)
    with 2 False show ?thesis by simp
  qed
qed

lemma strchr_Some [cstr_simps]:
  "strchr h c = Some i \<Longrightarrow> i < length h \<and> h ! i = c"
  by (induction h arbitrary: i) (auto split: if_splits)

lemma strchr_None [cstr_simps]: "strchr h c = None \<longleftrightarrow> c \<notin> set h"
  by (induction h) auto

section \<open>Numbers in strings\<close>

text \<open>
  \<open>atoi\<close> on the default target (\<open>BOX_TYPE?=hisi_v300\<close>, a 32-bit ARM): blanks, a sign,
  digits; \<open>strtol\<close> saturates at the ends of the 32-bit \<open>long\<close>.
\<close>

definition INT_MAX :: int where "INT_MAX = 2147483647"
definition INT_MIN :: int where "INT_MIN = - 2147483648"

definition clamp_int :: "int \<Rightarrow> int" where
  "clamp_int n = max INT_MIN (min INT_MAX n)"

definition dec_val :: "char list \<Rightarrow> nat" where
  "dec_val ds = foldl (\<lambda>n c. 10 * n + digit_val c) 0 ds"

text \<open>Blanks, an optional sign, the digits and what follows them.\<close>

definition scan_int :: "char list \<Rightarrow> (int \<times> char list \<times> char list)" where
  "scan_int s =
     (let s = dropWhile isspace s;
          (sg, s) = (case s of
              [] \<Rightarrow> (1, [])
            | c # cs \<Rightarrow> if c = CHR ''-'' then (-1, cs)
                       else if c = CHR ''+'' then (1, cs) else (1, s));
          ds = takeWhile isdigit s
      in (clamp_int (sg * int (dec_val ds)), ds, dropWhile isdigit s))"

definition atoi :: "char list \<Rightarrow> int" where
  "atoi s = fst (scan_int s)"

lemma clamp_int_range: "INT_MIN \<le> clamp_int n \<and> clamp_int n \<le> INT_MAX"
  by (auto simp: clamp_int_def INT_MIN_def INT_MAX_def)

lemma atoi_range: "INT_MIN \<le> atoi s \<and> atoi s \<le> INT_MAX"
  by (simp add: atoi_def scan_int_def Let_def clamp_int_range split: prod.splits)

section \<open>Reasoning about results\<close>

text \<open>
  \<open>holds F Q r\<close>: the result satisfies \<open>Q\<close>, or is one of the faults \<open>F\<close>. With \<open>F = {}\<close> it
  is total correctness, with \<open>F = UNIV\<close> partial correctness, with \<open>F = {Assert_Failed}\<close>
  memory safety. The rules below are used backwards, like weakest preconditions.
\<close>

definition holds :: "fault set \<Rightarrow> ('a \<Rightarrow> bool) \<Rightarrow> 'a res \<Rightarrow> bool" where
  "holds F Q r = (case r of Inl f \<Rightarrow> f \<in> F | Inr x \<Rightarrow> Q x)"

named_theorems wp \<open>backward rules for holds\<close>

lemma holds_Inr [wp]: "Q x \<Longrightarrow> holds F Q (Inr x)" by (simp add: holds_def)

lemma holds_Inl [wp]: "f \<in> F \<Longrightarrow> holds F Q (Inl f)" by (simp add: holds_def)

lemma holds_simps [simp]:
  "holds F Q (Inr x) = Q x" "holds F Q (Inl f) = (f \<in> F)"
  by (simp_all add: holds_def)

lemma holds_bind [wp]: "holds F (\<lambda>x. holds F Q (f x)) m \<Longrightarrow> holds F Q (bind m f)"
  by (cases m) (simp_all add: holds_def)

lemma holds_check [wp]:
  "(\<not> b \<Longrightarrow> Assert_Failed \<in> F) \<Longrightarrow> (b \<Longrightarrow> holds F Q r) \<Longrightarrow> holds F Q (check b r)"
  by (simp add: holds_def check_def)

lemma holds_if [wp]:
  "(b \<Longrightarrow> holds F Q r) \<Longrightarrow> (\<not> b \<Longrightarrow> holds F Q r') \<Longrightarrow> holds F Q (if b then r else r')"
  by simp

lemma holds_option [wp]:
  "(ov = None \<Longrightarrow> holds F Q r) \<Longrightarrow> (\<And>v. ov = Some v \<Longrightarrow> holds F Q (g v)) \<Longrightarrow>
   holds F Q (case ov of None \<Rightarrow> r | Some v \<Rightarrow> g v)"
  by (cases ov) simp_all

lemma holds_prod [wp]:
  "(\<And>a b. x = (a, b) \<Longrightarrow> holds F Q (g a b)) \<Longrightarrow> holds F Q (case x of (a, b) \<Rightarrow> g a b)"
  by (cases x) simp_all

lemma holds_mono: "holds F R r \<Longrightarrow> (\<And>x. r = Inr x \<Longrightarrow> R x \<Longrightarrow> Q x) \<Longrightarrow> holds F Q r"
  by (cases r) simp_all

lemma holds_faults: "holds F Q r \<Longrightarrow> F \<subseteq> G \<Longrightarrow> holds G Q r"
  by (cases r) auto

lemma holds_conj: "holds F Q r \<Longrightarrow> holds G R r \<Longrightarrow> holds F (\<lambda>x. Q x \<and> R x) r"
  by (cases r) auto

lemma holds_InrD: "holds F Q r \<Longrightarrow> r = Inr x \<Longrightarrow> Q x"
  by simp

lemma holds_rd [wp]:
  "(length buf \<le> i \<Longrightarrow> Out_Of_Bounds \<in> F) \<Longrightarrow> (i < length buf \<Longrightarrow> Q (buf ! i)) \<Longrightarrow>
   holds F Q (rd buf i)"
  by (simp add: rd_def)

lemma holds_wr [wp]:
  "(length buf \<le> i \<Longrightarrow> Out_Of_Bounds \<in> F) \<Longrightarrow> (i < length buf \<Longrightarrow> Q (buf[i := v])) \<Longrightarrow>
   holds F Q (wr buf i v)"
  by (simp add: wr_def)

lemma holds_rd_block [wp]:
  "(length buf < i + n \<Longrightarrow> Out_Of_Bounds \<in> F) \<Longrightarrow> (i + n \<le> length buf \<Longrightarrow> Q (take n (drop i buf))) \<Longrightarrow>
   holds F Q (rd_block buf i n)"
  by (simp add: rd_block_def)

lemma holds_wr_block [wp]:
  "(length buf < i + length s \<Longrightarrow> Out_Of_Bounds \<in> F) \<Longrightarrow>
   (i + length s \<le> length buf \<Longrightarrow> Q (take i buf @ s @ drop (i + length s) buf)) \<Longrightarrow>
   holds F Q (wr_block buf i s)"
  by (simp add: wr_block_def)

lemma holds_cstr_at:
  "(NUL \<notin> set (drop i mem) \<Longrightarrow> Out_Of_Bounds \<in> F) \<Longrightarrow>
   (\<And>s t. drop i mem = s @ NUL # t \<Longrightarrow> NUL \<notin> set s \<Longrightarrow> i < length mem \<Longrightarrow> Q s) \<Longrightarrow>
   holds F Q (cstr_at mem i)"
proof (cases "NUL \<in> set (drop i mem)")
  case True
  assume Q: "\<And>s t. drop i mem = s @ NUL # t \<Longrightarrow> NUL \<notin> set s \<Longrightarrow> i < length mem \<Longrightarrow> Q s"
  obtain s t where st: "drop i mem = s @ NUL # t" "NUL \<notin> set s"
    using True split_list_first by fast
  have i: "i < length mem" using True by (cases "i < length mem") auto
  with st Q [OF st i] show ?thesis by (simp add: cstr_at_def takeWhile_NUL)
qed (simp add: cstr_at_def)

text \<open>A buffer with a \<open>NUL\<close> at \<open>n\<close>: a string that starts before it ends before it.\<close>

definition terminated :: "char list \<Rightarrow> nat \<Rightarrow> bool" where
  "terminated mem n \<longleftrightarrow> n < length mem \<and> mem ! n = NUL"

lemma terminated_update [simp, intro]: "terminated mem n \<Longrightarrow> terminated (mem[i := NUL]) n"
  by (cases "i = n") (simp_all add: terminated_def)

lemma terminated_length: "terminated mem n \<Longrightarrow> n < length mem"
  by (simp add: terminated_def)

lemma holds_cstr_terminated:
  assumes "terminated mem n" and "i \<le> n"
    and Q: "\<And>s. NUL \<notin> set s \<Longrightarrow> i + length s \<le> n \<Longrightarrow> take (length s) (drop i mem) = s \<Longrightarrow> Q s"
  shows "holds F Q (cstr_at mem i)"
proof (rule holds_cstr_at)
  have "mem ! n \<in> set (drop i mem)"
    using assms(1,2) by (auto simp: terminated_def in_set_conv_nth intro!: exI [of _ "n - i"])
  moreover have "mem ! n = NUL" using assms(1) by (simp add: terminated_def)
  ultimately show "NUL \<notin> set (drop i mem) \<Longrightarrow> Out_Of_Bounds \<in> F" by simp
next
  fix s t assume st: "drop i mem = s @ NUL # t" "NUL \<notin> set s" "i < length mem"
  have "i + length s \<le> n"
  proof (rule ccontr)
    assume "\<not> i + length s \<le> n"
    then have "n - i < length s" using assms(2) by linarith
    then have "drop i mem ! (n - i) = s ! (n - i)" by (simp add: st(1) nth_append)
    moreover have "drop i mem ! (n - i) = NUL" using assms(1,2) by (simp add: terminated_def)
    ultimately have "NUL \<in> set s" using \<open>n - i < length s\<close> nth_mem by metis
    then show False using st(2) by contradiction
  qed
  then show "Q s" using Q st by simp
qed

end
