(* ===== verification/Url_Code.thy ===== *)
theory Url_Code
  imports Box_Prelude
begin

text \<open>
  \<open>src/src/common/url_code.c\<close>: percent encoding and decoding into a caller's buffer.
  \<open>source\<close> is the rest of the C string at \<open>p\<close> (the empty list is a \<open>p\<close> that points at
  the terminator), \<open>k\<close> counts the bytes consumed (\<open>p - source\<close>), \<open>i\<close> the bytes written;
  \<open>target\<close> is the memory behind the caller's pointer, written through \<open>wr\<close>, so a write
  outside it is a fault. \<open>srcBytes = -1\<close> means "up to the terminator".
\<close>

section \<open>Definitions\<close>

definition s_encode :: "char list" where
  "s_encode = ''0123456789ABCDEF''"

definition char_isnum :: "char \<Rightarrow> bool" where
  "char_isnum c \<longleftrightarrow> in_range CHR ''0'' c CHR ''9''"

definition char_isalpha :: "char \<Rightarrow> bool" where
  "char_isalpha c \<longleftrightarrow> in_range CHR ''a'' c CHR ''z'' \<or> in_range CHR ''A'' c CHR ''Z''"

definition char_isalnum :: "char \<Rightarrow> bool" where
  "char_isalnum c \<longleftrightarrow> char_isnum c \<or> char_isalpha c"

definition char_ishex :: "char \<Rightarrow> bool" where
  "char_ishex c \<longleftrightarrow>
     char_isnum c \<or> in_range CHR ''a'' c CHR ''f'' \<or> in_range CHR ''A'' c CHR ''F''"

text \<open>The result is the C \<open>char\<close> of an \<open>int\<close> expression: taken modulo 256.\<close>

definition ToHex :: "char \<Rightarrow> nat" where
  "ToHex c = (if char_isnum c then code_of c - 48 else (code_of (tolower c) + 169) mod 256)"

definition hex_byte :: "char \<Rightarrow> char \<Rightarrow> char" where
  "hex_byte a b = char_of ((push_bit 4 (ToHex a)) OR ToHex b)"

definition in_source :: "int \<Rightarrow> nat \<Rightarrow> bool" where
  "in_source srcBytes k \<longleftrightarrow> srcBytes = -1 \<or> int k < srcBytes"

fun url_encode_loop ::
  "char list \<Rightarrow> int \<Rightarrow> nat \<Rightarrow> nat \<Rightarrow> nat \<Rightarrow> char list \<Rightarrow> (int \<times> nat \<times> char list) res" where
  "url_encode_loop [] srcBytes k i tgtBytes target = Inr (0, i, target)"
| "url_encode_loop (c # p) srcBytes k i tgtBytes target =
     (if c \<noteq> NUL \<and> in_source srcBytes k \<and> i < tgtBytes then
        if char_isalnum c \<or> c \<in> set ''-_.~'' then
          bind (wr target i c) (\<lambda>target.
            url_encode_loop p srcBytes (Suc k) (Suc i) tgtBytes target)
        else if c = CHR '' '' then
          bind (wr target i CHR ''+'') (\<lambda>target.
            url_encode_loop p srcBytes (Suc k) (Suc i) tgtBytes target)
        else if i + 2 \<ge> tgtBytes then Inr (-1, i, target)
        else
          bind (wr target i CHR ''%'') (\<lambda>target.
          bind (wr target (i + 1) (s_encode ! (drop_bit 4 (code_of c) AND 15))) (\<lambda>target.
          bind (wr target (i + 2) (s_encode ! (code_of c AND 15))) (\<lambda>target.
            url_encode_loop p srcBytes (Suc k) (i + 3) tgtBytes target)))
      else Inr (0, i, target))"

text \<open>The terminator is written only when a byte is left for it.\<close>

definition url_end :: "(int \<times> nat \<times> char list) \<Rightarrow> nat \<Rightarrow> (int \<times> char list) res" where
  "url_end st tgtBytes = (case st of (r, i, target) \<Rightarrow>
     if i < tgtBytes then bind (wr target i NUL) (\<lambda>target. Inr (r, target))
     else Inr (r, target))"

definition url_encode ::
  "char list \<Rightarrow> int \<Rightarrow> char list \<Rightarrow> nat \<Rightarrow> (int \<times> char list) res" where
  "url_encode source srcBytes target tgtBytes =
     bind (url_encode_loop source srcBytes 0 0 tgtBytes target) (\<lambda>st. url_end st tgtBytes)"

text \<open>
  \<open>p[1]\<close> and \<open>p[2]\<close> are read in the order of the \<open>||\<close>: past the terminator never, since
  the terminator is not a hex digit.
\<close>

fun url_decode_loop ::
  "char list \<Rightarrow> int \<Rightarrow> nat \<Rightarrow> nat \<Rightarrow> nat \<Rightarrow> char list \<Rightarrow> (int \<times> nat \<times> char list) res" where
  "url_decode_loop [] srcBytes k i tgtBytes target = Inr (0, i, target)"
| "url_decode_loop (c # p) srcBytes k i tgtBytes target =
     (if c \<noteq> NUL \<and> in_source srcBytes k \<and> i < tgtBytes then
        if c = CHR ''+'' then
          bind (wr target i CHR '' '') (\<lambda>target.
            url_decode_loop p srcBytes (Suc k) (Suc i) tgtBytes target)
        else if c = CHR ''%'' then
          (case p of
             a # b # q \<Rightarrow>
               if \<not> char_ishex a \<or> \<not> char_ishex b \<or> (srcBytes \<noteq> -1 \<and> int k + 2 \<ge> srcBytes)
               then Inr (-1, i, target)
               else bind (wr target i (hex_byte a b)) (\<lambda>target.
                      url_decode_loop q srcBytes (k + 3) (Suc i) tgtBytes target)
           | _ \<Rightarrow> Inr (-1, i, target))
        else
          bind (wr target i c) (\<lambda>target.
            url_decode_loop p srcBytes (Suc k) (Suc i) tgtBytes target)
      else Inr (0, i, target))"

definition url_decode ::
  "char list \<Rightarrow> int \<Rightarrow> char list \<Rightarrow> nat \<Rightarrow> (int \<times> char list) res" where
  "url_decode source srcBytes target tgtBytes =
     bind (url_decode_loop source srcBytes 0 0 tgtBytes target) (\<lambda>st. url_end st tgtBytes)"

section \<open>What the two routines compute\<close>

definition url_unreserved :: "char \<Rightarrow> bool" where
  "url_unreserved c \<longleftrightarrow> char_isalnum c \<or> c \<in> set ''-_.~''"

definition pct :: "char \<Rightarrow> char list" where
  "pct c = [CHR ''%'', s_encode ! (drop_bit 4 (code_of c) AND 15), s_encode ! (code_of c AND 15)]"

definition enc_char :: "char \<Rightarrow> char list" where
  "enc_char c = (if url_unreserved c then [c] else if c = CHR '' '' then ''+'' else pct c)"

definition url_enc :: "char list \<Rightarrow> char list" where
  "url_enc s = concat (map enc_char s)"

fun url_dec :: "char list \<Rightarrow> char list option" where
  "url_dec [] = Some []"
| "url_dec (c # p) =
     (if c = CHR ''+'' then map_option (Cons CHR '' '') (url_dec p)
      else if c = CHR ''%'' then
        (case p of
           a # b # q \<Rightarrow>
             if char_ishex a \<and> char_ishex b then map_option (Cons (hex_byte a b)) (url_dec q)
             else None
         | _ \<Rightarrow> None)
      else map_option (Cons c) (url_dec p))"

text \<open>
  The two digits written for a byte are hexadecimal and read back as that byte.
\<close>

lemma s_encode_digit:
  "n < 16 \<Longrightarrow> char_ishex (s_encode ! n) \<and> ToHex (s_encode ! n) = n \<and> s_encode ! n \<noteq> NUL"
proof -
  have "list_all (\<lambda>n. char_ishex (s_encode ! n) \<and> ToHex (s_encode ! n) = n \<and> s_encode ! n \<noteq> NUL)
      [0..<16]" by code_simp
  moreover assume "n < 16"
  ultimately show ?thesis by (simp add: list_all_iff del: upt_rec_numeral)
qed

lemma nibbles:
  "drop_bit 4 (n::nat) = n div 16" "n AND 15 = n mod 16"
proof -
  have "(15::nat) = mask 4" by (simp add: mask_eq_exp_minus_1)
  then show "n AND 15 = n mod 16"
    by (simp only: flip: take_bit_eq_mask) (simp add: take_bit_eq_mod)
qed (simp add: drop_bit_eq_div)

lemma nibble_or: "l < 16 \<Longrightarrow> push_bit 4 h OR l = 16 * h + (l::nat)"
proof -
  assume l: "l < 16"
  then have "take_bit 4 l = l" by (simp add: take_bit_nat_eq_self)
  then have "\<And>n. bit l n \<Longrightarrow> n < 4" by (metis bit_take_bit_iff)
  then have "push_bit 4 h AND l = 0"
    by (intro bit_eqI) (fastforce simp: bit_and_iff bit_push_bit_iff)
  then have "push_bit 4 h OR l = push_bit 4 h + l"
    by (simp add: disjunctive_add_eq_or)
  then show ?thesis by (simp add: push_bit_eq_mult)
qed

lemma pct_back:
  "char_ishex (s_encode ! (drop_bit 4 (code_of c) AND 15))"
  "char_ishex (s_encode ! (code_of c AND 15))"
  "hex_byte (s_encode ! (drop_bit 4 (code_of c) AND 15)) (s_encode ! (code_of c AND 15)) = c"
proof -
  have "code_of c div 16 < 16" by (simp add: less_mult_imp_div_less)
  then have eq: "16 * (code_of c div 16 mod 16) + code_of c mod 16 = code_of c"
    by (simp only: mod_less mult_div_mod_eq)
  show "hex_byte (s_encode ! (drop_bit 4 (code_of c) AND 15)) (s_encode ! (code_of c AND 15)) = c"
    unfolding hex_byte_def nibbles by (simp only: s_encode_digit nibble_or mod_less_divisor zero_less_numeral eq char_of_char)
qed (simp_all only: nibbles s_encode_digit mod_less_divisor zero_less_numeral)

lemma unreserved_plain: "url_unreserved c \<Longrightarrow> c \<noteq> CHR ''+'' \<and> c \<noteq> CHR ''%'' \<and> c \<noteq> NUL"
  by (auto simp: url_unreserved_def char_isalnum_def char_isnum_def char_isalpha_def in_range_def NUL_def)

lemma url_dec_enc_char: "url_dec (enc_char c @ s) = map_option (Cons c) (url_dec s)"
  using unreserved_plain [of c] by (auto simp: enc_char_def pct_def pct_back)

lemma url_enc_simps [simp]:
  "url_enc [] = []" "url_enc (c # s) = enc_char c @ url_enc s"
  by (simp_all add: url_enc_def)

lemma url_dec_enc: "url_dec (url_enc s) = Some s"
  by (induction s) (simp_all add: url_dec_enc_char)

lemma enc_char_no_NUL: "c \<noteq> NUL \<Longrightarrow> NUL \<notin> set (enc_char c)"
  using s_encode_digit [of "code_of c div 16 mod 16"] s_encode_digit [of "code_of c mod 16"]
  by (auto simp: enc_char_def pct_def nibbles) (auto simp: NUL_def)

section \<open>The encoder\<close>

text \<open>Every run, whatever the source: no fault, the length kept, nothing past \<open>tgtBytes\<close>.\<close>

definition writes_within :: "nat \<Rightarrow> char list \<Rightarrow> (int \<times> nat \<times> char list) res \<Rightarrow> bool" where
  "writes_within n target r \<longleftrightarrow>
     (\<exists>e j t. r = Inr (e, j, t) \<and> j \<le> n \<and> e \<in> {0, -1} \<and> length t = length target
        \<and> drop n t = drop n target)"

lemma writes_within_stop [intro, simp]:
  "i \<le> n \<Longrightarrow> writes_within n target (Inr (0, i, target))"
  "i \<le> n \<Longrightarrow> writes_within n target (Inr (-1, i, target))"
  by (auto simp: writes_within_def)

lemma writes_within_write [simp]:
  "i < n \<Longrightarrow> writes_within n (target[i := c]) r = writes_within n target r"
  by (simp add: writes_within_def drop_update_later)

lemma url_encode_loop_within:
  "tgtBytes \<le> length target \<Longrightarrow> i \<le> tgtBytes \<Longrightarrow>
   writes_within tgtBytes target (url_encode_loop p srcBytes k i tgtBytes target)"
proof (induction p arbitrary: k i target)
  case Nil
  then show ?case by simp
next
  case (Cons c p)
  have IH: "writes_within tgtBytes target (url_encode_loop p srcBytes k' j tgtBytes (target[a := x]))"
    if "a < tgtBytes" "j \<le> tgtBytes" for k' j a x
    using Cons.IH [of "target[a := x]" j k'] Cons.prems that by simp
  have IH3: "writes_within tgtBytes target
      (url_encode_loop p srcBytes k' j tgtBytes (target[a := x, b := y, d := z]))"
    if "a < tgtBytes" "b < tgtBytes" "d < tgtBytes" "j \<le> tgtBytes" for k' j a x b y d z
    using Cons.IH [of "target[a := x, b := y, d := z]" j k'] Cons.prems that by simp
  show ?case
  proof (cases "c \<noteq> NUL \<and> in_source srcBytes k \<and> i < tgtBytes")
    case True
    consider "url_unreserved c" | "\<not> url_unreserved c" "c = CHR '' ''"
      | "\<not> url_unreserved c" "c \<noteq> CHR '' ''" by blast
    then show ?thesis
      using Cons.prems True by cases (simp_all add: url_unreserved_def IH IH3)
  next
    case False
    then show ?thesis
      unfolding url_encode_loop.simps if_not_P [OF False] using Cons.prems by simp
  qed
qed

lemma url_decode_loop_within:
  "tgtBytes \<le> length target \<Longrightarrow> i \<le> tgtBytes \<Longrightarrow>
   writes_within tgtBytes target (url_decode_loop p srcBytes k i tgtBytes target)"
proof (induction p arbitrary: k i target rule: length_induct)
  case (1 p)
  show ?case
  proof (cases p)
    case Nil
    with "1.prems" show ?thesis by simp
  next
    case (Cons c p')
    have IH: "writes_within tgtBytes target (url_decode_loop q srcBytes k' j tgtBytes (target[a := x]))"
      if "length q \<le> length p'" "a < tgtBytes" "j \<le> tgtBytes" for q k' j a x
      using "1.IH" [rule_format, of q "target[a := x]" j k'] "1.prems" that Cons by simp
    show ?thesis
    proof (cases "c \<noteq> NUL \<and> in_source srcBytes k \<and> i < tgtBytes")
      case True
      consider "c = CHR ''+''" | "c = CHR ''%''" "p' = []" | a where "c = CHR ''%''" "p' = [a]"
        | a b q where "c = CHR ''%''" "p' = a # b # q" | "c \<notin> set ''+%''"
        by (metis (no_types) list.exhaust list.set_intros empty_iff set_ConsD empty_set)
      then show ?thesis
        using "1.prems" True by cases (auto simp: Cons IH split: list.split)
    next
      case False
      then show ?thesis
        unfolding Cons url_decode_loop.simps if_not_P [OF False] using "1.prems" by simp
    qed
  qed
qed

lemma url_end_within:
  "writes_within n target r \<Longrightarrow> n \<le> length target \<Longrightarrow>
   \<exists>e t. bind r (\<lambda>st. url_end st n) = Inr (e, t) \<and> e \<in> {0, -1} \<and> length t = length target
     \<and> drop n t = drop n target"
  by (auto simp: writes_within_def url_end_def drop_update_later)

text \<open>A run that starts from the left and has room: the image of the string, then the terminator.\<close>

definition filled :: "char list \<Rightarrow> nat \<Rightarrow> char list \<Rightarrow> char list" where
  "filled target i out = take i target @ out @ drop (i + length out) target"

lemma filled_Nil [simp]: "filled target i [] = target"
  by (simp add: filled_def)

lemma filled_step:
  "i < length target \<Longrightarrow> filled (target[i := c]) (Suc i) out = filled target i (c # out)"
  by (simp add: filled_def take_Suc_update drop_update_later)

lemma filled_length [simp]:
  "i + length out \<le> length target \<Longrightarrow> length (filled target i out) = length target"
  by (simp add: filled_def)

lemma filled_0: "filled target 0 out = out @ drop (length out) target"
  by (simp add: filled_def)

lemma url_encode_loop_spec:
  assumes "NUL \<notin> set p" and "srcBytes = -1 \<or> srcBytes = int (k + length p)"
    and "i + length (url_enc p) \<le> tgtBytes" and "tgtBytes \<le> length target"
  shows "url_encode_loop p srcBytes k i tgtBytes target =
    Inr (0, i + length (url_enc p), filled target i (url_enc p))"
  using assms
proof (induction p arbitrary: k i target)
  case Nil
  then show ?case by (simp add: url_enc_def)
next
  case (Cons c p)
  have src: "c \<noteq> NUL" "in_source srcBytes k" using Cons.prems by (auto simp: in_source_def)
  have src': "srcBytes = -1 \<or> srcBytes = int (Suc k + length p)" using Cons.prems(2) by auto
  have IH: "url_encode_loop p srcBytes (Suc k) j tgtBytes t =
      Inr (0, j + length (url_enc p), filled t j (url_enc p))"
    if "length t = length target" "j + length (url_enc p) \<le> tgtBytes" for j t
    using Cons.IH [OF _ src'] Cons.prems that by simp
  consider "url_unreserved c" | "\<not> url_unreserved c" "c = CHR '' ''"
    | "\<not> url_unreserved c" "c \<noteq> CHR '' ''" by blast
  then show ?case
  proof cases
    case 1
    with Cons.prems src show ?thesis
      by (simp add: enc_char_def url_unreserved_def filled_step IH)
  next
    case 2
    with Cons.prems src show ?thesis
      by (simp add: enc_char_def url_unreserved_def filled_step IH NUL_def)
  next
    case 3
    with Cons.prems src show ?thesis
      by (simp add: enc_char_def pct_def url_unreserved_def filled_step IH numeral_3_eq_3)
  qed
qed

lemma url_decode_loop_spec:
  assumes "NUL \<notin> set p" and "srcBytes = -1 \<or> srcBytes = int (k + length p)"
    and "url_dec p = Some t"
    and "i + length t \<le> tgtBytes" and "tgtBytes \<le> length target"
  shows "url_decode_loop p srcBytes k i tgtBytes target =
    Inr (0, i + length t, filled target i t)"
  using assms
proof (induction p arbitrary: k i target t rule: url_dec.induct)
  case 1
  then show ?case by simp
next
  case (2 c p)
  then show ?case
    by (auto simp: in_source_def filled_step split: if_splits list.splits)
qed

lemma url_decode_loop_bad:
  assumes "NUL \<notin> set p" and "srcBytes = -1 \<or> srcBytes = int (k + length p)"
    and "url_dec p = None"
    and "i + length p \<le> tgtBytes" and "tgtBytes \<le> length target"
  shows "\<exists>j t. url_decode_loop p srcBytes k i tgtBytes target = Inr (-1, j, t)"
  using assms
proof (induction p arbitrary: k i target rule: url_dec.induct)
  case 1
  then show ?case by simp
next
  case (2 c p)
  then show ?case
    by (auto simp: in_source_def split: if_splits list.splits)
qed

section \<open>Properties\<close>

lemma url_dec_length: "url_dec s = Some t \<Longrightarrow> length t \<le> length s"
  by (induction s arbitrary: t rule: url_dec.induct) (auto split: if_splits list.splits, fastforce)

lemma url_enc_no_NUL: "NUL \<notin> set s \<Longrightarrow> NUL \<notin> set (url_enc s)"
  by (induction s) (auto simp: enc_char_no_NUL not_sym [THEN enc_char_no_NUL])

lemma url_end_filled:
  "length out < n \<Longrightarrow> n \<le> length target \<Longrightarrow>
   url_end (r, length out, filled target 0 out) n
     = Inr (r, out @ NUL # drop (Suc (length out)) target)"
  by (simp add: url_end_def filled_0 list_update_append Cons_nth_drop_Suc [symmetric])

lemma url_encode_room:
  assumes "NUL \<notin> set s" and "length (url_enc s) < n" and "n \<le> length target"
    and "srcBytes = -1 \<or> srcBytes = int (length s)"
  shows "url_encode s srcBytes target n =
    Inr (0, url_enc s @ NUL # drop (Suc (length (url_enc s))) target)"
  using assms url_encode_loop_spec [of s srcBytes 0 0 n target]
  by (simp add: url_encode_def url_end_filled)

lemma url_decode_room:
  assumes "NUL \<notin> set s" and "url_dec s = Some t" and "length t < n" and "n \<le> length target"
    and "srcBytes = -1 \<or> srcBytes = int (length s)"
  shows "url_decode s srcBytes target n = Inr (0, t @ NUL # drop (Suc (length t)) target)"
  using assms url_decode_loop_spec [of s srcBytes 0 t 0 n target]
  by (simp add: url_decode_def url_end_filled)

text \<open>
  C37: encoding a string and decoding the result, each into a buffer with room for the
  output and its terminator, succeeds twice and gives the string back.
\<close>
theorem url_roundtrip:
  assumes "NUL \<notin> set s"
    and "length (url_enc s) < m" and "m \<le> length buf"
    and "length s < n" and "n \<le> length buf'"
  shows "\<exists>b e b'. url_encode s (-1) buf m = Inr (0, b) \<and> cstr_at b 0 = Inr e
    \<and> url_decode e (int (length e)) buf' n = Inr (0, b') \<and> cstr_at b' 0 = Inr s"
proof -
  note enc = url_encode_room [OF assms(1-3), of "-1"]
  note dec = url_decode_room [OF url_enc_no_NUL [OF assms(1)] url_dec_enc assms(4,5)]
  show ?thesis
    using enc dec assms(1) by (simp add: cstr_at_terminated url_enc_no_NUL)
qed

lemma url_roundtrip_witness:
  "\<exists>b e b'. url_encode ''a b/?'' (-1) (replicate 16 NUL) 16 = Inr (0, b) \<and> cstr_at b 0 = Inr e
    \<and> url_decode e (int (length e)) (replicate 8 NUL) 8 = Inr (0, b')
    \<and> cstr_at b' 0 = Inr ''a b/?''"
proof -
  have "length (url_enc ''a b/?'') < 16" by code_simp
  then show ?thesis
    using url_roundtrip [of "''a b/?''" 16 "replicate 16 NUL" 8 "replicate 8 NUL"]
    by (simp add: NUL_def)
qed

text \<open>
  whatever bytes the source holds, and whatever \<open>srcBytes\<close> is, both routines return
  \<open>0\<close> or \<open>-1\<close> without a memory fault and leave every byte at or past \<open>tgtBytes\<close> alone.
\<close>
theorem url_code_in_bounds:
  assumes "tgtBytes \<le> length target"
    and "out = url_encode source srcBytes target tgtBytes
       \<or> out = url_decode source srcBytes target tgtBytes"
  shows "\<exists>r t. out = Inr (r, t) \<and> r \<in> {0, -1}
      \<and> length t = length target \<and> drop tgtBytes t = drop tgtBytes target"
proof -
  note enc = url_encode_loop_within [OF assms(1), of 0 source srcBytes 0, simplified]
  note dec = url_decode_loop_within [OF assms(1), of 0 source srcBytes 0, simplified]
  show ?thesis
    using assms(2) url_end_within [OF enc assms(1)] url_end_within [OF dec assms(1)]
    unfolding url_encode_def url_decode_def by (elim disjE) simp_all
qed

lemma url_code_in_bounds_witness:
  "\<exists>r t. url_decode ''%4'' 9 ''abcd'' 2 = Inr (r, t) \<and> r \<in> {0, -1}
      \<and> length t = length ''abcd'' \<and> drop 2 t = drop 2 ''abcd''"
  by (rule url_code_in_bounds [where source = "''%4''" and srcBytes = 9]) simp_all

text \<open>
  with room for the result, decoding returns \<open>0\<close> and the terminated image of the
  string exactly when every \<open>%\<close> is followed by two hexadecimal digits, and \<open>-1\<close> otherwise.
\<close>
theorem url_decode_correct:
  assumes "NUL \<notin> set s" and "length s < n" and "n \<le> length target"
  shows "case url_dec s of
      Some t \<Rightarrow> url_decode s (int (length s)) target n
                  = Inr (0, t @ NUL # drop (Suc (length t)) target)
    | None \<Rightarrow> \<exists>t. url_decode s (int (length s)) target n = Inr (-1, t)"
proof (cases "url_dec s")
  case None
  then obtain j t where
    "url_decode_loop s (int (length s)) 0 0 n target = Inr (-1, j, t)"
    using url_decode_loop_bad [of s "int (length s)" 0 0 n target] assms by auto
  moreover have "writes_within n target (url_decode_loop s (int (length s)) 0 0 n target)"
    using assms by (intro url_decode_loop_within) simp_all
  ultimately show ?thesis
    using assms None by (auto simp: url_decode_def url_end_def writes_within_def)
next
  case (Some t)
  then show ?thesis
    using assms url_decode_room [of s t n target] url_dec_length [of s t] by simp
qed

lemma url_decode_correct_witness:
  "url_decode ''%41b'' 4 ''xxxxx'' 5 = Inr (0, ''Ab'' @ NUL # ''xx'')"
proof -
  have "url_dec ''%41b'' = Some ''Ab''" by code_simp
  then show ?thesis using url_decode_correct [of "''%41b''" 5 "''xxxxx''"] by (simp add: NUL_def)
qed

text \<open>
  when the decoded string fills the target exactly, the call still returns \<open>0\<close>, with
  no terminator inside the target: a caller that reads the result as a C string runs past it.
\<close>
theorem url_decode_full_unterminated:
  assumes "NUL \<notin> set s" and "url_dec s = Some t" and "NUL \<notin> set t"
    and "length t = n" and "length target = n" and "0 < n"
  shows "url_decode s (int (length s)) target n = Inr (0, t) \<and> cstr_at t 0 = Inl Out_Of_Bounds"
  using assms url_decode_loop_spec [of s "int (length s)" 0 t 0 n target]
  by (simp add: url_decode_def url_end_def filled_0 cstr_at_def)

lemma url_decode_full_unterminated_witness:
  "url_decode ''%41b'' (int (length ''%41b'')) ''xx'' 2 = Inr (0, ''Ab'')
    \<and> cstr_at ''Ab'' 0 = Inl Out_Of_Bounds"
proof -
  have "url_dec ''%41b'' = Some ''Ab''" by code_simp
  then show ?thesis
    using url_decode_full_unterminated [of "''%41b''" "''Ab''" 2 "''xx''"] by (simp add: NUL_def)
qed

end
