(* ===== verification/Md5.thy ===== *)
theory Md5
  imports Box_Prelude
begin

text \<open>
  \<open>src/src/common/md5.c\<close> and \<open>md5gen.c\<close>: the MD5 context with its 64-bit bit counter kept
  in two 32-bit words, the transform over 64-byte blocks, the incremental
  \<open>MD5Init\<close>/\<open>MD5Update\<close>/\<open>MD5Final\<close>, and the routines built on them (a digest as hex, HMAC,
  CHAP). The reference is RFC 1321 (pad, cut into blocks, fold) and RFC 2104.
  \<open>Encode\<close> and \<open>Decode\<close> are \<open>memcpy\<close>s between words and bytes: little-endian on the
  targets of the Makefile (x86, x86-64 and little-endian ARM).
\<close>

section \<open>Words and bytes\<close>

type_synonym u8 = "8 word"
type_synonym u32 = "32 word"
type_synonym md_state = "u32 \<times> u32 \<times> u32 \<times> u32"

definition le32 :: "u8 list \<Rightarrow> nat \<Rightarrow> u32" where
  "le32 b i = ucast (b ! (4 * i)) OR push_bit 8 (ucast (b ! (4 * i + 1)))
     OR push_bit 16 (ucast (b ! (4 * i + 2))) OR push_bit 24 (ucast (b ! (4 * i + 3)))"

definition le_bytes :: "u32 \<Rightarrow> u8 list" where
  "le_bytes w = [ucast w, ucast (drop_bit 8 w), ucast (drop_bit 16 w), ucast (drop_bit 24 w)]"

definition Decode :: "u8 list \<Rightarrow> u32 list" where
  "Decode block = map (le32 block) [0, 1, 2, 3, 4, 5, 6, 7, 8, 9, 10, 11, 12, 13, 14, 15]"

definition Encode :: "md_state \<Rightarrow> u8 list" where
  "Encode s = (case s of (a, b, c, d) \<Rightarrow> le_bytes a @ le_bytes b @ le_bytes c @ le_bytes d)"

section \<open>The transform\<close>

definition md5_F :: "u32 \<Rightarrow> u32 \<Rightarrow> u32 \<Rightarrow> u32" where
  "md5_F x y z = (x AND y) OR (NOT x AND z)"
definition md5_G :: "u32 \<Rightarrow> u32 \<Rightarrow> u32 \<Rightarrow> u32" where
  "md5_G x y z = (x AND z) OR (y AND NOT z)"
definition md5_H :: "u32 \<Rightarrow> u32 \<Rightarrow> u32 \<Rightarrow> u32" where
  "md5_H x y z = x XOR y XOR z"
definition md5_I :: "u32 \<Rightarrow> u32 \<Rightarrow> u32 \<Rightarrow> u32" where
  "md5_I x y z = y XOR (x OR NOT z)"

definition ROTATE_LEFT :: "u32 \<Rightarrow> nat \<Rightarrow> u32" where
  "ROTATE_LEFT x n = push_bit n x OR drop_bit (32 - n) x"

definition FF :: "u32 \<Rightarrow> u32 \<Rightarrow> u32 \<Rightarrow> u32 \<Rightarrow> u32 \<Rightarrow> nat \<Rightarrow> u32 \<Rightarrow> u32" where
  "FF a b c d x s ac = ROTATE_LEFT (a + (md5_F b c d + x + ac)) s + b"
definition GG :: "u32 \<Rightarrow> u32 \<Rightarrow> u32 \<Rightarrow> u32 \<Rightarrow> u32 \<Rightarrow> nat \<Rightarrow> u32 \<Rightarrow> u32" where
  "GG a b c d x s ac = ROTATE_LEFT (a + (md5_G b c d + x + ac)) s + b"
definition HH :: "u32 \<Rightarrow> u32 \<Rightarrow> u32 \<Rightarrow> u32 \<Rightarrow> u32 \<Rightarrow> nat \<Rightarrow> u32 \<Rightarrow> u32" where
  "HH a b c d x s ac = ROTATE_LEFT (a + (md5_H b c d + x + ac)) s + b"
definition II :: "u32 \<Rightarrow> u32 \<Rightarrow> u32 \<Rightarrow> u32 \<Rightarrow> u32 \<Rightarrow> nat \<Rightarrow> u32 \<Rightarrow> u32" where
  "II a b c d x s ac = ROTATE_LEFT (a + (md5_I b c d + x + ac)) s + b"

definition md5_S1 :: "nat \<times> nat \<times> nat \<times> nat" where "md5_S1 = (7, 12, 17, 22)"
definition md5_S2 :: "nat \<times> nat \<times> nat \<times> nat" where "md5_S2 = (5, 9, 14, 20)"
definition md5_S3 :: "nat \<times> nat \<times> nat \<times> nat" where "md5_S3 = (4, 11, 16, 23)"
definition md5_S4 :: "nat \<times> nat \<times> nat \<times> nat" where "md5_S4 = (6, 10, 15, 21)"

text \<open>
  Four lines of the source, \<open>M(a,b,c,d,..); M(d,a,b,c,..); M(c,d,a,b,..); M(b,c,d,a,..)\<close>:
  the 64 lines are 16 such groups.
\<close>

definition md5_quad ::
  "(u32 \<Rightarrow> u32 \<Rightarrow> u32 \<Rightarrow> u32 \<Rightarrow> u32 \<Rightarrow> nat \<Rightarrow> u32 \<Rightarrow> u32) \<Rightarrow> nat \<times> nat \<times> nat \<times> nat \<Rightarrow>
   u32 \<times> u32 \<Rightarrow> u32 \<times> u32 \<Rightarrow> u32 \<times> u32 \<Rightarrow> u32 \<times> u32 \<Rightarrow> md_state \<Rightarrow> md_state" where
  "md5_quad M sh xk1 xk2 xk3 xk4 s =
     (case sh of (s1, s2, s3, s4) \<Rightarrow> case s of (a, b, c, d) \<Rightarrow>
      let a = M a b c d (fst xk1) s1 (snd xk1);
          d = M d a b c (fst xk2) s2 (snd xk2);
          c = M c d a b (fst xk3) s3 (snd xk3);
          b = M b c d a (fst xk4) s4 (snd xk4)
      in (a, b, c, d))"

definition md_add :: "md_state \<Rightarrow> md_state \<Rightarrow> md_state" where
  "md_add s t = (case s of (a, b, c, d) \<Rightarrow> case t of (a', b', c', d') \<Rightarrow>
     (a + a', b + b', c + c', d + d'))"

definition MD5Transform :: "md_state \<Rightarrow> u8 list \<Rightarrow> md_state" where
  "MD5Transform state block =
     (let x = Decode block;
      s = state;
      s = md5_quad FF md5_S1
            (x ! 0, 0xd76aa478) (x ! 1, 0xe8c7b756) (x ! 2, 0x242070db) (x ! 3, 0xc1bdceee) s;
      s = md5_quad FF md5_S1
            (x ! 4, 0xf57c0faf) (x ! 5, 0x4787c62a) (x ! 6, 0xa8304613) (x ! 7, 0xfd469501) s;
      s = md5_quad FF md5_S1
            (x ! 8, 0x698098d8) (x ! 9, 0x8b44f7af) (x ! 10, 0xffff5bb1) (x ! 11, 0x895cd7be) s;
      s = md5_quad FF md5_S1
            (x ! 12, 0x6b901122) (x ! 13, 0xfd987193) (x ! 14, 0xa679438e) (x ! 15, 0x49b40821) s;
      s = md5_quad GG md5_S2
            (x ! 1, 0xf61e2562) (x ! 6, 0xc040b340) (x ! 11, 0x265e5a51) (x ! 0, 0xe9b6c7aa) s;
      s = md5_quad GG md5_S2
            (x ! 5, 0xd62f105d) (x ! 10, 0x2441453) (x ! 15, 0xd8a1e681) (x ! 4, 0xe7d3fbc8) s;
      s = md5_quad GG md5_S2
            (x ! 9, 0x21e1cde6) (x ! 14, 0xc33707d6) (x ! 3, 0xf4d50d87) (x ! 8, 0x455a14ed) s;
      s = md5_quad GG md5_S2
            (x ! 13, 0xa9e3e905) (x ! 2, 0xfcefa3f8) (x ! 7, 0x676f02d9) (x ! 12, 0x8d2a4c8a) s;
      s = md5_quad HH md5_S3
            (x ! 5, 0xfffa3942) (x ! 8, 0x8771f681) (x ! 11, 0x6d9d6122) (x ! 14, 0xfde5380c) s;
      s = md5_quad HH md5_S3
            (x ! 1, 0xa4beea44) (x ! 4, 0x4bdecfa9) (x ! 7, 0xf6bb4b60) (x ! 10, 0xbebfbc70) s;
      s = md5_quad HH md5_S3
            (x ! 13, 0x289b7ec6) (x ! 0, 0xeaa127fa) (x ! 3, 0xd4ef3085) (x ! 6, 0x4881d05) s;
      s = md5_quad HH md5_S3
            (x ! 9, 0xd9d4d039) (x ! 12, 0xe6db99e5) (x ! 15, 0x1fa27cf8) (x ! 2, 0xc4ac5665) s;
      s = md5_quad II md5_S4
            (x ! 0, 0xf4292244) (x ! 7, 0x432aff97) (x ! 14, 0xab9423a7) (x ! 5, 0xfc93a039) s;
      s = md5_quad II md5_S4
            (x ! 12, 0x655b59c3) (x ! 3, 0x8f0ccc92) (x ! 10, 0xffeff47d) (x ! 1, 0x85845dd1) s;
      s = md5_quad II md5_S4
            (x ! 8, 0x6fa87e4f) (x ! 15, 0xfe2ce6e0) (x ! 6, 0xa3014314) (x ! 13, 0x4e0811a1) s;
      s = md5_quad II md5_S4
            (x ! 4, 0xf7537e82) (x ! 11, 0xbd3af235) (x ! 2, 0x2ad7d2bb) (x ! 9, 0xeb86d391) s
      in md_add state s)"

section \<open>The context and its operations\<close>

record MD5_CTX =
  ctx_state :: md_state
  ctx_count0 :: u32
  ctx_count1 :: u32
  ctx_buffer :: "u8 list"

definition PADDING :: "u8 list" where "PADDING = 0x80 # replicate 63 0"

text \<open>The buffer is not initialised by the code: its contents are an argument.\<close>

definition MD5Init :: "u8 list \<Rightarrow> MD5_CTX" where
  "MD5Init junk = \<lparr>ctx_state = (0x67452301, 0xefcdab89, 0x98badcfe, 0x10325476),
     ctx_count0 = 0, ctx_count1 = 0, ctx_buffer = junk\<rparr>"

text \<open>
  \<open>for (i = partLen; i + 63 < inputLen; i += 64)\<close>: the sum \<open>i + 63\<close> is an unsigned 32-bit
  one. A block outside the input is a fault.
\<close>

function MD5Update_loop :: "md_state \<Rightarrow> u8 list \<Rightarrow> nat \<Rightarrow> nat \<Rightarrow> (md_state \<times> nat) res" where
  "MD5Update_loop s input i inputLen =
     (if (i + 63) mod 2 ^ 32 < inputLen then
        if i + 64 \<le> length input
        then MD5Update_loop (MD5Transform s (take 64 (drop i input))) input (i + 64) inputLen
        else Inl Out_Of_Bounds
      else Inr (s, i))"
  by pat_completeness auto
termination
  by (relation "measure (\<lambda>(s, input, i, inputLen). length input - i)") auto

declare MD5Update_loop.simps [simp del]

definition MD5Update :: "MD5_CTX \<Rightarrow> u8 list \<Rightarrow> u32 \<Rightarrow> MD5_CTX res" where
  "MD5Update ctx input inputLen =
     (let index = unat (drop_bit 3 (ctx_count0 ctx) AND 0x3F);
          c0 = ctx_count0 ctx + push_bit 3 inputLen;
          c1 = (if c0 < push_bit 3 inputLen then ctx_count1 ctx + 1 else ctx_count1 ctx);
          c1 = c1 + drop_bit 29 inputLen;
          ctx = ctx\<lparr>ctx_count0 := c0, ctx_count1 := c1\<rparr>;
          partLen = 64 - index;
          n = unat inputLen
      in if n \<ge> partLen then
           bind (rd_block input 0 partLen) (\<lambda>part.
           bind (wr_block (ctx_buffer ctx) index part) (\<lambda>b.
           bind (MD5Update_loop (MD5Transform (ctx_state ctx) b) input partLen n) (\<lambda>(s, i).
           bind (rd_block input i (n - i)) (\<lambda>rest.
           bind (wr_block b 0 rest) (\<lambda>b.
             Inr (ctx\<lparr>ctx_state := s, ctx_buffer := b\<rparr>))))))
         else
           bind (rd_block input 0 n) (\<lambda>rest.
           bind (wr_block (ctx_buffer ctx) index rest) (\<lambda>b.
             Inr (ctx\<lparr>ctx_buffer := b\<rparr>))))"

definition zero_ctx :: MD5_CTX where
  "zero_ctx = \<lparr>ctx_state = (0, 0, 0, 0), ctx_count0 = 0, ctx_count1 = 0,
     ctx_buffer = replicate 64 0\<rparr>"

definition MD5Final :: "MD5_CTX \<Rightarrow> (u8 list \<times> MD5_CTX) res" where
  "MD5Final ctx =
     (let bits = le_bytes (ctx_count0 ctx) @ le_bytes (ctx_count1 ctx);
          index = drop_bit 3 (ctx_count0 ctx) AND 0x3f;
          padLen = (if index < 56 then 56 - index else 120 - index)
      in bind (MD5Update ctx PADDING padLen) (\<lambda>ctx.
         bind (MD5Update ctx bits 8) (\<lambda>ctx.
           Inr (Encode (ctx_state ctx), zero_ctx))))"

section \<open>Routines built on the digest\<close>

definition MDString :: "u8 list \<Rightarrow> u8 list \<Rightarrow> u32 \<Rightarrow> u8 list res" where
  "MDString junk string nLen =
     bind (MD5Update (MD5Init junk) string nLen) (\<lambda>ctx.
     bind (MD5Final ctx) (\<lambda>(digest, ctx). Inr digest))"

definition PADLEN :: nat where "PADLEN = 64"
definition MAXMD5SOURCESTRINGLEN :: nat where "MAXMD5SOURCESTRINGLEN = 128"

text \<open>\<open>firstPad[i] = 0x36 ^ K[i]\<close>, \<open>midResult[i] = 0x5c ^ K[i]\<close>; the sizes are those of the arrays.\<close>

definition MD5Encode ::
  "u8 list \<Rightarrow> u8 list \<Rightarrow> nat \<Rightarrow> u8 list \<Rightarrow> nat \<Rightarrow> u8 list res" where
  "MD5Encode junk szData nSize szKey nKeyLen =
     bind (rd_block szKey 0 nKeyLen) (\<lambda>key.
     bind (wr_block (replicate PADLEN 0) 0 key) (\<lambda>K.
     bind (rd_block szData 0 nSize) (\<lambda>data.
     bind (wr_block (map (\<lambda>k. 0x36 XOR k) K @ replicate (MAXMD5SOURCESTRINGLEN + 1) 0)
             PADLEN data) (\<lambda>firstPad.
     bind (wr firstPad (PADLEN + nSize) 0) (\<lambda>firstPad.
     bind (MDString junk firstPad (of_nat (PADLEN + nSize))) (\<lambda>inner.
     bind (wr_block (map (\<lambda>k. 0x5c XOR k) K @ replicate 16 0) PADLEN inner) (\<lambda>midResult.
       MDString junk midResult (of_nat (PADLEN + 16)))))))))"

definition chap_auth ::
  "u8 list \<Rightarrow> u8 \<Rightarrow> u8 list \<Rightarrow> u32 \<Rightarrow> u8 list \<Rightarrow> u32 \<Rightarrow> u8 list res" where
  "chap_auth junk ident pwd pwd_size chal chal_size =
     bind (MD5Update (MD5Init junk) [ident] 1) (\<lambda>ctx.
     bind (MD5Update ctx pwd pwd_size) (\<lambda>ctx.
     bind (MD5Update ctx chal chal_size) (\<lambda>ctx.
     bind (MD5Final ctx) (\<lambda>(hash, ctx). Inr hash))))"

definition enc_chal :: "u8 list" where
  "enc_chal = [0x50, 0xfd, 0xfd, 0x87, 0x1c, 0x1b, 0xd1, 0x44,
     0x9b, 0x67, 0xdb, 0x0d, 0x7e, 0xed, 0xd9, 0x1e]"

definition MD5_enc :: "u8 list \<Rightarrow> u8 \<Rightarrow> u8 list \<Rightarrow> u32 \<Rightarrow> u8 list res" where
  "MD5_enc junk ident pwd pwdlen = chap_auth junk ident pwd pwdlen enc_chal 16"

definition hex_chars :: "char list" where "hex_chars = ''0123456789abcdef''"

definition int2hex :: "u8 \<Rightarrow> char" where
  "int2hex c = hex_chars ! unat (c AND 0x0F)"

definition CvtHex :: "u8 list \<Rightarrow> char list" where
  "CvtHex Bin = concat (map (\<lambda>b. [int2hex (drop_bit 4 b AND 0xf), int2hex (b AND 0xf)]) Bin) @ [NUL]"

definition byte_of :: "char \<Rightarrow> u8" where "byte_of c = of_nat (code_of c)"

definition md5_packages_string ::
  "u8 list \<Rightarrow> char list \<Rightarrow> char list \<Rightarrow> u32 \<Rightarrow> char list res" where
  "md5_packages_string junk desc_str src_str src_str_len =
     bind (MD5Update (MD5Init junk) (map byte_of src_str) src_str_len) (\<lambda>ctx.
     bind (MD5Final ctx) (\<lambda>(HA1, ctx).
       wr_block desc_str 0 (CvtHex HA1)))"

end
