(* ===== verification/Md5_Spec.thy ===== *)
theory Md5_Spec
  imports Md5
begin

text \<open>
  The reference for \<open>src/src/common/md5.c\<close>: RFC 1321 as a table of 64 steps, its padding
  and its fold over the blocks, with the proof that the unrolled \<open>MD5Transform\<close> of the code
  (four macros, 64 lines, the constants inline) is the table-driven transform.
\<close>

section \<open>RFC 1321, table driven\<close>

definition rfc_K :: "u32 list" where
  "rfc_K =
   [ 0xd76aa478, 0xe8c7b756, 0x242070db, 0xc1bdceee,
     0xf57c0faf, 0x4787c62a, 0xa8304613, 0xfd469501,
     0x698098d8, 0x8b44f7af, 0xffff5bb1, 0x895cd7be,
     0x6b901122, 0xfd987193, 0xa679438e, 0x49b40821,
     0xf61e2562, 0xc040b340, 0x265e5a51, 0xe9b6c7aa,
     0xd62f105d, 0x2441453, 0xd8a1e681, 0xe7d3fbc8,
     0x21e1cde6, 0xc33707d6, 0xf4d50d87, 0x455a14ed,
     0xa9e3e905, 0xfcefa3f8, 0x676f02d9, 0x8d2a4c8a,
     0xfffa3942, 0x8771f681, 0x6d9d6122, 0xfde5380c,
     0xa4beea44, 0x4bdecfa9, 0xf6bb4b60, 0xbebfbc70,
     0x289b7ec6, 0xeaa127fa, 0xd4ef3085, 0x4881d05,
     0xd9d4d039, 0xe6db99e5, 0x1fa27cf8, 0xc4ac5665,
     0xf4292244, 0x432aff97, 0xab9423a7, 0xfc93a039,
     0x655b59c3, 0x8f0ccc92, 0xffeff47d, 0x85845dd1,
     0x6fa87e4f, 0xfe2ce6e0, 0xa3014314, 0x4e0811a1,
     0xf7537e82, 0xbd3af235, 0x2ad7d2bb, 0xeb86d391]"

text \<open>RFC 1321, 3.4: the function, the block index and the rotation of step \<open>i\<close>.\<close>

definition rfc_fun :: "nat \<Rightarrow> u32 \<Rightarrow> u32 \<Rightarrow> u32 \<Rightarrow> u32" where
  "rfc_fun i x y z =
     (if i < 16 then (x AND y) OR (NOT x AND z)
      else if i < 32 then (x AND z) OR (y AND NOT z)
      else if i < 48 then x XOR y XOR z
      else y XOR (x OR NOT z))"

definition rfc_idx :: "nat \<Rightarrow> nat" where
  "rfc_idx i = (if i < 16 then i else if i < 32 then (5 * i + 1) mod 16
     else if i < 48 then (3 * i + 5) mod 16 else (7 * i) mod 16)"

definition rfc_shift :: "nat \<Rightarrow> nat" where
  "rfc_shift i = (if i < 16 then [7, 12, 17, 22] else if i < 32 then [5, 9, 14, 20]
     else if i < 48 then [4, 11, 16, 23] else [6, 10, 15, 21]) ! (i mod 4)"

definition rfc_step :: "u32 list \<Rightarrow> nat \<Rightarrow> md_state \<Rightarrow> md_state" where
  "rfc_step x i s = (case s of (a, b, c, d) \<Rightarrow>
     (d, b + word_rotl (rfc_shift i) (a + rfc_fun i b c d + x ! rfc_idx i + rfc_K ! i), b, c))"

definition rfc_transform :: "md_state \<Rightarrow> u8 list \<Rightarrow> md_state" where
  "rfc_transform s block = md_add s (fold (rfc_step (Decode block)) [0..<64] s)"

text \<open>RFC 1321, 3.1-3.3 and 3.5: padding, the blocks, the output.\<close>

definition len64 :: "nat \<Rightarrow> u8 list" where
  "len64 n = le_bytes (of_nat n) @ le_bytes (of_nat (n div 2 ^ 32))"

definition rfc_pad :: "u8 list \<Rightarrow> u8 list" where
  "rfc_pad msg = msg @ 0x80 # replicate ((119 - length msg mod 64) mod 64) 0
     @ len64 (8 * length msg)"

fun absorb :: "md_state \<Rightarrow> u8 list \<Rightarrow> md_state" where
  "absorb s D = (if length D < 64 then s
     else absorb (rfc_transform s (take 64 D)) (drop 64 D))"

declare absorb.simps [simp del]

definition md5_iv :: md_state where
  "md5_iv = (0x67452301, 0xefcdab89, 0x98badcfe, 0x10325476)"

definition md5_spec :: "u8 list \<Rightarrow> u8 list" where
  "md5_spec msg = Encode (absorb md5_iv (rfc_pad msg))"

section \<open>The unrolled transform is the RFC's\<close>

lemma ROTATE_LEFT_rotl:
  assumes "0 < n" and "n < 32"
  shows "ROTATE_LEFT x n = word_rotl n x"
  unfolding ROTATE_LEFT_def
proof (rule bit_word_eqI)
  fix i assume "i < LENGTH(32)"
  then have i: "i < 32" by simp
  have eq: "(i + (32 - n mod 32)) mod 32 = (if n \<le> i then i - n else i + 32 - n)"
    using assms i by (auto simp: mod_if)
  have len: "LENGTH(32) = 32" by simp
  have "bit (word_rotl n x) i = bit x (if n \<le> i then i - n else i + 32 - n)"
    using i by (simp only: bit_word_rotl_iff len eq simp_thms)
  moreover have "bit (drop_bit (32 - n) x) i = bit x (i + 32 - n)"
    using assms by (simp add: bit_simps add.commute)
  moreover have "bit x (i + 32 - n) \<Longrightarrow> \<not> n \<le> i"
    by (auto dest!: bit_imp_le_length)
  ultimately show "bit (push_bit n x OR drop_bit (32 - n) x) i = bit (word_rotl n x) i"
    using i by (auto simp: bit_or_iff bit_push_bit_iff)
qed

lemma shift_range: "0 < rfc_shift i \<and> rfc_shift i < 32"
proof -
  have "i mod 4 = 0 \<or> i mod 4 = 1 \<or> i mod 4 = 2 \<or> i mod 4 = 3" by presburger
  then show ?thesis unfolding rfc_shift_def by (elim disjE) simp_all
qed

lemma rfc_step_rounds:
  "i < 16 \<Longrightarrow> rfc_step x i (a, b, c, d) =
     (d, FF a b c d (x ! rfc_idx i) (rfc_shift i) (rfc_K ! i), b, c)"
  "16 \<le> i \<Longrightarrow> i < 32 \<Longrightarrow> rfc_step x i (a, b, c, d) =
     (d, GG a b c d (x ! rfc_idx i) (rfc_shift i) (rfc_K ! i), b, c)"
  "32 \<le> i \<Longrightarrow> i < 48 \<Longrightarrow> rfc_step x i (a, b, c, d) =
     (d, HH a b c d (x ! rfc_idx i) (rfc_shift i) (rfc_K ! i), b, c)"
  "48 \<le> i \<Longrightarrow> rfc_step x i (a, b, c, d) =
     (d, II a b c d (x ! rfc_idx i) (rfc_shift i) (rfc_K ! i), b, c)"
  using shift_range [of i]
  by (simp_all add: rfc_step_def rfc_fun_def FF_def GG_def HH_def II_def md5_F_def md5_G_def
      md5_H_def md5_I_def ROTATE_LEFT_rotl ac_simps)

lemma rfc_quad:
  assumes "\<And>a b c d j. j < 4 \<Longrightarrow> rfc_step x (4 * q + j) (a, b, c, d) =
      (d, M a b c d (x ! rfc_idx (4 * q + j)) (sh j) (rfc_K ! (4 * q + j)), b, c)"
  shows "rfc_step x (4 * q + 3) (rfc_step x (4 * q + 2) (rfc_step x (4 * q + 1) (rfc_step x (4 * q + 0) s)))
    = md5_quad M (sh 0, sh 1, sh 2, sh 3)
        (x ! rfc_idx (4 * q + 0), rfc_K ! (4 * q + 0)) (x ! rfc_idx (4 * q + 1), rfc_K ! (4 * q + 1))
        (x ! rfc_idx (4 * q + 2), rfc_K ! (4 * q + 2)) (x ! rfc_idx (4 * q + 3), rfc_K ! (4 * q + 3)) s"
  using assms [of 0] assms [of 1] assms [of 2] assms [of 3]
  by (cases s) (simp add: md5_quad_def Let_def)

lemma mod4: "j < 4 \<Longrightarrow> (4 * q + j) mod 4 = (j::nat)"
  by presburger

lemma rfc_quads:
  "q < 4 \<Longrightarrow> rfc_step x (4 * q + 3) (rfc_step x (4 * q + 2) (rfc_step x (4 * q + 1) (rfc_step x (4 * q + 0) s)))
    = md5_quad FF md5_S1
        (x ! rfc_idx (4 * q + 0), rfc_K ! (4 * q + 0)) (x ! rfc_idx (4 * q + 1), rfc_K ! (4 * q + 1))
        (x ! rfc_idx (4 * q + 2), rfc_K ! (4 * q + 2)) (x ! rfc_idx (4 * q + 3), rfc_K ! (4 * q + 3)) s"
  "4 \<le> q \<Longrightarrow> q < 8 \<Longrightarrow> rfc_step x (4 * q + 3) (rfc_step x (4 * q + 2) (rfc_step x (4 * q + 1) (rfc_step x (4 * q + 0) s)))
    = md5_quad GG md5_S2
        (x ! rfc_idx (4 * q + 0), rfc_K ! (4 * q + 0)) (x ! rfc_idx (4 * q + 1), rfc_K ! (4 * q + 1))
        (x ! rfc_idx (4 * q + 2), rfc_K ! (4 * q + 2)) (x ! rfc_idx (4 * q + 3), rfc_K ! (4 * q + 3)) s"
  "8 \<le> q \<Longrightarrow> q < 12 \<Longrightarrow> rfc_step x (4 * q + 3) (rfc_step x (4 * q + 2) (rfc_step x (4 * q + 1) (rfc_step x (4 * q + 0) s)))
    = md5_quad HH md5_S3
        (x ! rfc_idx (4 * q + 0), rfc_K ! (4 * q + 0)) (x ! rfc_idx (4 * q + 1), rfc_K ! (4 * q + 1))
        (x ! rfc_idx (4 * q + 2), rfc_K ! (4 * q + 2)) (x ! rfc_idx (4 * q + 3), rfc_K ! (4 * q + 3)) s"
  "12 \<le> q \<Longrightarrow> q < 16 \<Longrightarrow> rfc_step x (4 * q + 3) (rfc_step x (4 * q + 2) (rfc_step x (4 * q + 1) (rfc_step x (4 * q + 0) s)))
    = md5_quad II md5_S4
        (x ! rfc_idx (4 * q + 0), rfc_K ! (4 * q + 0)) (x ! rfc_idx (4 * q + 1), rfc_K ! (4 * q + 1))
        (x ! rfc_idx (4 * q + 2), rfc_K ! (4 * q + 2)) (x ! rfc_idx (4 * q + 3), rfc_K ! (4 * q + 3)) s"
  using rfc_quad [of x q FF "\<lambda>j. [7, 12, 17, 22] ! j" s] rfc_quad [of x q GG "\<lambda>j. [5, 9, 14, 20] ! j" s]
    rfc_quad [of x q HH "\<lambda>j. [4, 11, 16, 23] ! j" s] rfc_quad [of x q II "\<lambda>j. [6, 10, 15, 21] ! j" s]
  by (simp_all add: rfc_step_rounds rfc_shift_def mod4 md5_S1_def md5_S2_def md5_S3_def md5_S4_def)

definition rfc_quad_step :: "u32 list \<Rightarrow> nat \<Rightarrow> md_state \<Rightarrow> md_state" where
  "rfc_quad_step x q =
     (let row = (\<lambda>j. (x ! rfc_idx (4 * q + j), rfc_K ! (4 * q + j)))
      in if q < 4 then md5_quad FF md5_S1 (row 0) (row 1) (row 2) (row 3)
         else if q < 8 then md5_quad GG md5_S2 (row 0) (row 1) (row 2) (row 3)
         else if q < 12 then md5_quad HH md5_S3 (row 0) (row 1) (row 2) (row 3)
         else md5_quad II md5_S4 (row 0) (row 1) (row 2) (row 3))"

lemma rfc_quad_step:
  "q < 16 \<Longrightarrow> fold (rfc_step x) [4 * q + 0, 4 * q + 1, 4 * q + 2, 4 * q + 3] s = rfc_quad_step x q s"
  using rfc_quads [of q x s] by (auto simp: rfc_quad_step_def Let_def not_less)

lemma fold_concat_map: "fold f (concat (map g qs)) s = fold (\<lambda>q. fold f (g q)) qs s"
  by (induction qs arbitrary: s) simp_all

lemma rfc_by_quads: "fold (rfc_step x) [0..<64] s = fold (rfc_quad_step x) [0..<16] s"
proof -
  have "[0..<64] = concat (map (\<lambda>q. [4 * q + 0, 4 * q + 1, 4 * q + 2, 4 * q + 3]) [0..<16])"
    by code_simp
  then have "fold (rfc_step x) [0..<64] s =
      fold (\<lambda>q. fold (rfc_step x) [4 * q + 0, 4 * q + 1, 4 * q + 2, 4 * q + 3]) [0..<16] s"
    by (simp only: fold_concat_map)
  also have "\<dots> = fold (rfc_quad_step x) [0..<16] s"
    by (intro fold_cong ext) (auto simp only: set_upt atLeastLessThan_iff rfc_quad_step)
  finally show ?thesis .
qed

lemma upt_16: "[0..<16] = [0, 1, 2, 3, 4, 5, 6, 7, 8, 9, 10, 11, 12, 13, 14, 15]"
  by code_simp

lemma MD5Transform_rfc: "MD5Transform s block = rfc_transform s block"
  unfolding rfc_transform_def rfc_by_quads MD5Transform_def upt_16
  by (simp add: Let_def rfc_quad_step_def rfc_idx_def rfc_K_def)

end
