(* ===== verification/Md5_Digest.thy ===== *)
theory Md5_Digest
  imports Md5_Spec
begin

text \<open>
  Incremental hashing: the context of \<open>md5.c\<close> as a representation of the bytes absorbed so
  far, the laws of \<open>MD5Init\<close>, \<open>MD5Update\<close> and \<open>MD5Final\<close> as the locale
  \<open>streaming_digest\<close> interpreted on them, and what its clients (\<open>MDString\<close>, \<open>MD5Encode\<close>,
  \<open>chap_auth\<close>, \<open>MD5_enc\<close>, \<open>md5_packages_string\<close>) compute.
\<close>

section \<open>Incremental hashing\<close>

definition rest64 :: "'a list \<Rightarrow> 'a list" where
  "rest64 D = drop (64 * (length D div 64)) D"

lemma length_rest64: "length (rest64 D) = length D mod 64"
  by (simp add: rest64_def minus_mult_div_eq_mod)

lemma rest64_short: "length D < 64 \<Longrightarrow> rest64 D = D"
  by (simp add: rest64_def)

lemma rest64_block: "64 \<le> length D \<Longrightarrow> rest64 D = rest64 (drop 64 D)"
  by (simp add: rest64_def le_div_geq add.commute)

lemma absorb_short: "length D < 64 \<Longrightarrow> absorb s D = s"
  by (simp add: absorb.simps)

lemma absorb_block:
  "64 \<le> length D \<Longrightarrow> absorb s D = absorb (rfc_transform s (take 64 D)) (drop 64 D)"
  by (subst absorb.simps) simp

lemma absorb_append: "absorb s (D @ X) = absorb (absorb s D) (rest64 D @ X)"
proof (induction s D rule: absorb.induct)
  case (1 s D)
  show ?case
  proof (cases "length D < 64")
    case True
    then show ?thesis by (simp add: absorb_short rest64_short)
  next
    case False
    with 1 have "absorb s (D @ X) = absorb (absorb s D) (rest64 (drop 64 D) @ X)"
      by (simp add: absorb_block [of "D @ X"] absorb_block [of D])
    with False show ?thesis by (simp add: rest64_block [of D])
  qed
qed

lemma rest64_append: "rest64 (D @ X) = rest64 (rest64 D @ X)"
proof (induction D rule: measure_induct_rule [of length])
  case (less D)
  show ?case
  proof (cases "length D < 64")
    case True
    then show ?thesis by (simp add: rest64_short [of D])
  next
    case False
    with less [of "drop 64 D"] show ?thesis
      by (simp add: rest64_block [of "D @ X"] rest64_block [of D])
  qed
qed

lemma MD5Update_loop_absorb:
  assumes "i \<le> n" and "n \<le> length input" and "n + 63 < 2 ^ 32"
  shows "MD5Update_loop s input i n =
    Inr (absorb s (take (n - i) (drop i input)), i + 64 * ((n - i) div 64))"
  using assms
proof (induction s input i n rule: MD5Update_loop.induct)
  case (1 s input i n)
  have wrap: "(i + 63) mod 2 ^ 32 = i + 63" using "1.prems" by (intro mod_less) linarith
  show ?case
  proof (cases "i + 63 < n")
    case True
    have "take 64 (take (n - i) (drop i input)) = take 64 (drop i input)"
      using True by simp
    moreover have "drop 64 (take (n - i) (drop i input)) = take (n - (i + 64)) (drop (i + 64) input)"
      using True by (simp add: drop_take add.commute)
    moreover have "(n - i) div 64 = Suc ((n - (i + 64)) div 64)"
      using True by (simp add: le_div_geq)
    ultimately show ?thesis
      using True "1.prems" "1.IH" wrap
      by (subst MD5Update_loop.simps)
        (simp add: absorb_block [of "take (n - i) (drop i input)"] MD5Transform_rfc)
  next
    case False
    then show ?thesis
      using "1.prems" wrap by (subst MD5Update_loop.simps) (simp add: absorb_short)
  qed
qed

subsection \<open>The 64-bit counter in two words\<close>

definition count_lo :: "nat \<Rightarrow> u32" where "count_lo L = of_nat (8 * L)"
definition count_hi :: "nat \<Rightarrow> u32" where "count_hi L = of_nat (8 * L div 2 ^ 32)"

lemma div_add_carry:
  assumes "0 < m"
  shows "(x + y) div m = x div m + y div m + (if m \<le> x mod m + y mod m then 1 else (0::nat))"
proof -
  have "x mod m + y mod m - m < m"
    using mod_less_divisor [OF assms, of x] mod_less_divisor [OF assms, of y] by linarith
  then show ?thesis
    using assms by (auto simp: div_add1_eq [of x y m] not_le le_div_geq div_less)
qed

lemma carry_iff: "(a::u32) + b < b \<longleftrightarrow> 2 ^ 32 \<le> unat a + unat b"
proof -
  have "unat (a + b) = (unat a + unat b) mod 2 ^ 32"
    by (simp add: unat_word_ariths)
  moreover have "unat a < 2 ^ 32" "unat b < 2 ^ 32" using unsigned_less [of a] unsigned_less [of b] by simp_all
  ultimately show ?thesis by (auto simp: word_less_nat_alt mod_if)
qed

lemma unat_drop_bit: "unat (drop_bit k (w::u32)) = unat w div 2 ^ k"
  by (subst unat_drop_bit_eq) (simp only: drop_bit_eq_div)

lemma mod_div_mod64: "(8 * L mod 2 ^ 32) div 2 ^ 3 mod 2 ^ 6 = (L::nat) mod 64"
proof -
  have "(8::nat) * L mod (8 * 2 ^ 29) = 8 * (L mod 2 ^ 29)"
    by (rule mult_mod_right [symmetric])
  then have "8 * L mod 2 ^ 32 = 8 * (L mod 2 ^ 29)" by simp
  then have "(8 * L mod 2 ^ 32) div 2 ^ 3 = L mod 2 ^ 29" by simp
  moreover have "L mod 2 ^ 29 mod 64 = L mod 64" by (rule mod_mod_cancel) simp
  ultimately show ?thesis by simp
qed

lemma unat_count_lo: "unat (count_lo L) = 8 * L mod 2 ^ 32"
  unfolding count_lo_def unat_of_nat by simp

lemma count_index: "unat (drop_bit 3 (count_lo L) AND 0x3F) = L mod 64"
proof -
  have "(63::u32) = mask 6" by (simp add: mask_eq_exp_minus_1)
  then have "unat (drop_bit 3 (count_lo L) AND 0x3F) = unat (take_bit 6 (drop_bit 3 (count_lo L)))"
    by (simp only: flip: take_bit_eq_mask)
  also have "\<dots> = (8 * L mod 2 ^ 32) div 2 ^ 3 mod 2 ^ 6"
    by (simp only: unsigned_take_bit_eq unat_drop_bit unat_count_lo) (simp only: take_bit_eq_mod)
  also have "\<dots> = L mod 64" by (rule mod_div_mod64)
  finally show ?thesis .
qed

lemma count_step:
  fixes n :: u32
  shows "count_lo L + push_bit 3 n = count_lo (L + unat n)"
    and "(if count_lo L + push_bit 3 n < push_bit 3 n then count_hi L + 1 else count_hi L)
      + drop_bit 29 n = count_hi (L + unat n)"
proof -
  have p: "push_bit 3 n = of_nat (8 * unat n)"
    by (simp add: push_bit_eq_mult mult.commute)
  show lo: "count_lo L + push_bit 3 n = count_lo (L + unat n)"
    by (simp add: p count_lo_def distrib_left)
  have d: "drop_bit 29 n = of_nat (8 * unat n div 2 ^ 32)"
  proof -
    have "8 * unat n div 2 ^ 32 = unat n div 2 ^ 29" by simp
    then have "of_nat (8 * unat n div 2 ^ 32) = (of_nat (unat (drop_bit 29 n)) :: u32)"
      by (simp only: unat_drop_bit)
    then show ?thesis by simp
  qed
  have "count_lo L + push_bit 3 n < push_bit 3 n \<longleftrightarrow>
      2 ^ 32 \<le> 8 * L mod 2 ^ 32 + 8 * unat n mod 2 ^ 32"
  proof -
    have "unat (push_bit 3 n) = 8 * unat n mod 2 ^ 32" unfolding p unat_of_nat by simp
    then show ?thesis by (simp only: carry_iff unat_count_lo)
  qed
  then show "(if count_lo L + push_bit 3 n < push_bit 3 n then count_hi L + 1 else count_hi L)
      + drop_bit 29 n = count_hi (L + unat n)"
    using div_add_carry [of "2 ^ 32" "8 * L" "8 * unat n"]
    by (simp add: d count_hi_def distrib_left)
qed

subsection \<open>The context represents the bytes absorbed\<close>

definition md5_repr :: "u8 list \<Rightarrow> MD5_CTX \<Rightarrow> bool" where
  "md5_repr D ctx \<longleftrightarrow> ctx_state ctx = absorb md5_iv D \<and> length (ctx_buffer ctx) = 64
     \<and> ctx_count0 ctx = count_lo (length D) \<and> ctx_count1 ctx = count_hi (length D)
     \<and> take (length D mod 64) (ctx_buffer ctx) = rest64 D"

lemma md5_repr_init: "length junk = 64 \<Longrightarrow> md5_repr [] (MD5Init junk)"
  by (simp add: md5_repr_def MD5Init_def md5_iv_def absorb_short rest64_short
      count_lo_def count_hi_def)

definition upd_counts :: "MD5_CTX \<Rightarrow> u32 \<Rightarrow> MD5_CTX" where
  "upd_counts ctx n = ctx\<lparr>ctx_count0 := ctx_count0 ctx + push_bit 3 n,
     ctx_count1 := (if ctx_count0 ctx + push_bit 3 n < push_bit 3 n
       then ctx_count1 ctx + 1 else ctx_count1 ctx) + drop_bit 29 n\<rparr>"

lemma upd_counts_repr:
  assumes "md5_repr D ctx"
  shows "ctx_count0 (upd_counts ctx n) = count_lo (length D + unat n)"
    and "ctx_count1 (upd_counts ctx n) = count_hi (length D + unat n)"
proof -
  have c: "ctx_count0 ctx = count_lo (length D)" "ctx_count1 ctx = count_hi (length D)"
    using assms by (simp_all add: md5_repr_def)
  show "ctx_count0 (upd_counts ctx n) = count_lo (length D + unat n)"
    by (simp add: upd_counts_def c count_step(1))
  have "ctx_count1 (upd_counts ctx n) = (if count_lo (length D) + push_bit 3 n < push_bit 3 n
      then count_hi (length D) + 1 else count_hi (length D)) + drop_bit 29 n"
    by (simp add: upd_counts_def c)
  then show "ctx_count1 (upd_counts ctx n) = count_hi (length D + unat n)"
    by (simp only: count_step(2))
qed

lemma MD5Update_split:
  assumes "md5_repr D ctx"
  shows "MD5Update ctx input len =
    (let r = length D mod 64; n = unat len; b = ctx_buffer ctx
     in if 64 - r \<le> n then
          bind (rd_block input 0 (64 - r)) (\<lambda>part.
          bind (wr_block b r part) (\<lambda>b.
          bind (MD5Update_loop (MD5Transform (ctx_state ctx) b) input (64 - r) n) (\<lambda>(s, i).
          bind (rd_block input i (n - i)) (\<lambda>rest.
          bind (wr_block b 0 rest) (\<lambda>b.
            Inr ((upd_counts ctx len)\<lparr>ctx_state := s, ctx_buffer := b\<rparr>))))))
        else bind (rd_block input 0 n) (\<lambda>rest. bind (wr_block b r rest) (\<lambda>b.
            Inr ((upd_counts ctx len)\<lparr>ctx_buffer := b\<rparr>))))"
proof -
  have "ctx_count0 ctx = count_lo (length D)" using assms by (simp add: md5_repr_def)
  then have "unat (drop_bit 3 (ctx_count0 ctx) AND 0x3F) = length D mod 64"
    by (simp only: count_index)
  then show ?thesis
    unfolding MD5Update_def upd_counts_def Let_def by (simp only:) simp
qed

lemma absorb_fill:
  assumes "64 \<le> length D mod 64 + length X"
  shows "absorb s (D @ X) = absorb (rfc_transform (absorb s D) (rest64 D @ take (64 - length D mod 64) X))
      (drop (64 - length D mod 64) X)"
    and "rest64 (D @ X) = rest64 (drop (64 - length D mod 64) X)"
  using assms
  by (simp_all add: absorb_append [of s D X] rest64_append [of D X] absorb_block [of "rest64 D @ X"]
      rest64_block [of "rest64 D @ X"] length_rest64)

lemma MD5Update_repr_long:
  assumes D: "md5_repr D ctx" and n: "unat len \<le> length input" "unat len + 63 < 2 ^ 32"
    and long: "64 - length D mod 64 \<le> unat len"
  shows "\<exists>ctx'. MD5Update ctx input len = Inr ctx' \<and> md5_repr (D @ take (unat len) input) ctx'"
proof -
  define r p m where "r = length D mod 64" and "p = 64 - r" and "m = unat len"
  define X i' where "X = take m input" and "i' = p + 64 * ((m - p) div 64)"
  define b where "b = rest64 D @ take p X"
  have rp: "r < 64" "p \<le> m" "r + p = 64" "m \<le> length input" "length X = m"
    using n long by (auto simp: r_def p_def m_def X_def)
  have buf: "length (ctx_buffer ctx) = 64" "take r (ctx_buffer ctx) = rest64 D"
    using D by (simp_all add: md5_repr_def r_def)
  have lb: "length b = 64" using rp by (simp add: b_def length_rest64 r_def)
  have part: "rd_block input 0 p = Inr (take p X)" using rp by (simp add: X_def min_def)
  have fill: "wr_block (ctx_buffer ctx) r (take p X) = Inr b"
    using rp buf by (simp add: b_def min_def)
  have dX: "take (m - p) (drop p input) = drop p X" by (simp add: X_def drop_take)
  have loop: "MD5Update_loop (MD5Transform (ctx_state ctx) b) input p m =
      Inr (absorb (rfc_transform (ctx_state ctx) b) (drop p X), i')"
    using rp n MD5Update_loop_absorb [of p m input] by (simp add: dX i'_def MD5Transform_rfc) (simp add: m_def)
  have i': "i' \<le> m"
  proof -
    have "64 * ((m - p) div 64) \<le> m - p" by (metis mult.commute div_times_less_eq_dividend)
    then show ?thesis using rp by (simp add: i'_def)
  qed
  have tail: "take (m - i') (drop i' input) = rest64 (drop p X)"
    using rp by (simp add: rest64_def i'_def X_def drop_take add.commute)
  have "rd_block input i' (m - i') = Inr (rest64 (drop p X))"
    using i' rp by (simp add: tail)
  moreover have short: "length (rest64 (drop p X)) < 64" by (simp add: length_rest64)
  ultimately have upd: "MD5Update ctx input len = Inr ((upd_counts ctx len)
      \<lparr>ctx_state := absorb (rfc_transform (ctx_state ctx) b) (drop p X),
       ctx_buffer := rest64 (drop p X) @ drop (length (rest64 (drop p X))) b\<rparr>)"
    using long lb part fill loop
    by (simp add: MD5Update_split [OF D] Let_def p_def [symmetric] r_def [symmetric] m_def [symmetric])
  have big: "64 \<le> length D mod 64 + length X" using rp by (simp add: r_def)
  have ab: "absorb md5_iv (D @ X) = absorb (rfc_transform (ctx_state ctx) b) (drop p X)"
    using absorb_fill(1) [OF big] D by (simp add: md5_repr_def b_def p_def r_def)
  have rs: "rest64 (D @ X) = rest64 (drop p X)"
    using absorb_fill(2) [OF big] by (simp add: p_def r_def)
  have ln: "length (rest64 (drop p X)) = (length D + m) mod 64"
    using rp(5) by (simp only: rs [symmetric] length_rest64) simp
  have "md5_repr (D @ X) ((upd_counts ctx len)
      \<lparr>ctx_state := absorb (rfc_transform (ctx_state ctx) b) (drop p X),
       ctx_buffer := rest64 (drop p X) @ drop (length (rest64 (drop p X))) b\<rparr>)"
    using rp lb ln upd_counts_repr [OF D, of len] short
    by (simp add: md5_repr_def ab rs m_def)
  with upd show ?thesis by (auto simp: X_def m_def)
qed

lemma MD5Update_repr_short:
  assumes D: "md5_repr D ctx" and n: "unat len \<le> length input"
    and short: "\<not> 64 - length D mod 64 \<le> unat len"
  shows "\<exists>ctx'. MD5Update ctx input len = Inr ctx' \<and> md5_repr (D @ take (unat len) input) ctx'"
proof -
  define r m X where "r = length D mod 64" and "m = unat len" and "X = take m input"
  have rp: "r + m < 64" "m \<le> length input" "length X = m"
    using n short by (auto simp: r_def m_def X_def)
  have buf: "length (ctx_buffer ctx) = 64" "take r (ctx_buffer ctx) = rest64 D" "length (rest64 D) = r"
    using D by (simp_all add: md5_repr_def r_def length_rest64)
  have upd: "MD5Update ctx input len = Inr ((upd_counts ctx len)
      \<lparr>ctx_buffer := rest64 D @ X @ drop (r + m) (ctx_buffer ctx)\<rparr>)"
    using short rp buf
    by (simp add: MD5Update_split [OF D] Let_def r_def [symmetric] m_def [symmetric] X_def)
  have ln: "(length D + m) mod 64 = r + m"
    using rp(1) by (simp add: r_def) (metis mod_add_left_eq mod_less)
  have rs: "rest64 (D @ X) = rest64 D @ X" "absorb md5_iv (D @ X) = absorb md5_iv D"
    using rp buf(3) by (simp_all add: rest64_append [of D X] absorb_append [of _ D X] rest64_short absorb_short)
  have "ctx_state (upd_counts ctx len) = absorb md5_iv D"
    using D by (simp add: md5_repr_def upd_counts_def)
  then have "md5_repr (D @ X) ((upd_counts ctx len)
      \<lparr>ctx_buffer := rest64 D @ X @ drop (r + m) (ctx_buffer ctx)\<rparr>)"
    using rp buf ln upd_counts_repr [OF D, of len]
    by (simp add: md5_repr_def rs m_def)
  with upd show ?thesis by (auto simp: X_def m_def)
qed

lemma MD5Update_repr:
  "md5_repr D ctx \<Longrightarrow> unat len \<le> length input \<Longrightarrow> unat len + 63 < 2 ^ 32 \<Longrightarrow>
   \<exists>ctx'. MD5Update ctx input len = Inr ctx' \<and> md5_repr (D @ take (unat len) input) ctx'"
  using MD5Update_repr_long MD5Update_repr_short by blast


lemma MD5Final_padLen:
  fixes index :: u32
  assumes "unat index = r" and "r < 64"
  shows "unat (if index < 56 then 56 - index else 120 - index) = 1 + (119 - r) mod 64"
proof (cases "r < 56")
  case True
  then have "index < 56" using assms by (simp add: word_less_nat_alt)
  then have "unat (56 - index) = 56 - r" using assms True by (simp add: unat_sub word_le_nat_alt)
  moreover have "(119 - r) mod 64 = 55 - r"
    using True by (simp add: mod_if)
  ultimately show ?thesis using \<open>index < 56\<close> True by simp
next
  case False
  then have "\<not> index < 56" using assms by (simp add: word_less_nat_alt)
  moreover have "unat (120 - index) = 120 - r"
    using assms False by (simp add: unat_sub word_le_nat_alt)
  moreover have "(119 - r) mod 64 = 119 - r" using False by simp
  ultimately show ?thesis using assms(2) False by simp
qed

lemma le_bytes_length [simp]: "length (le_bytes w) = 4"
  by (simp add: le_bytes_def)

lemma MD5Final_repr:
  assumes D: "md5_repr D ctx"
  shows "MD5Final ctx = Inr (md5_spec D, zero_ctx)"
proof -
  define r padLen where "r = length D mod 64"
    and "padLen = (if drop_bit 3 (ctx_count0 ctx) AND 0x3f < 56 then 56 - (drop_bit 3 (ctx_count0 ctx) AND 0x3f)
      else 120 - (drop_bit 3 (ctx_count0 ctx) AND 0x3f))"
  define bits where "bits = le_bytes (ctx_count0 ctx) @ le_bytes (ctx_count1 ctx)"
  have c: "ctx_count0 ctx = count_lo (length D)" "ctx_count1 ctx = count_hi (length D)"
    using D by (simp_all add: md5_repr_def)
  have r64: "r < 64" by (simp add: r_def)
  have p: "unat padLen = 1 + (119 - r) mod 64"
    using MD5Final_padLen [OF _ r64] unfolding padLen_def c by (simp only: count_index r_def)
  have pb: "unat padLen \<le> 64"
    using mod_less_divisor [of 64 "119 - r"] p by linarith
  have lp: "length PADDING = 64" by (simp add: PADDING_def)
  have tp: "take (unat padLen) PADDING = 0x80 # replicate ((119 - r) mod 64) 0"
    using pb by (simp add: p PADDING_def)
  obtain ctx1 where 1: "MD5Update ctx PADDING padLen = Inr ctx1"
      "md5_repr (D @ take (unat padLen) PADDING) ctx1"
    using MD5Update_repr [OF D, of padLen PADDING] lp pb by auto
  obtain ctx2 where 2: "MD5Update ctx1 bits 8 = Inr ctx2"
      "md5_repr ((D @ take (unat padLen) PADDING) @ take (unat (8::u32)) bits) ctx2"
    using MD5Update_repr [OF 1(2), of 8 bits] by (auto simp: bits_def)
  have "bits = len64 (8 * length D)"
    by (simp add: bits_def c len64_def count_lo_def count_hi_def)
  then have all: "(D @ take (unat padLen) PADDING) @ take (unat (8::u32)) bits = rfc_pad D"
    unfolding tp by (simp add: rfc_pad_def r_def len64_def)
  show ?thesis
    using 1(1) 2(1) 2(2) [unfolded all]
    by (simp add: MD5Final_def Let_def padLen_def [symmetric] bits_def [symmetric]
        md5_repr_def md5_spec_def)
qed

section \<open>The interface its clients use\<close>

text \<open>
  What a client of an incremental digest relies on: a context that represents the bytes
  absorbed so far. \<open>feed\<close> below is the sequence of updates of any client.
\<close>

fun feed :: "('c \<Rightarrow> u8 list \<Rightarrow> u32 \<Rightarrow> 'c res) \<Rightarrow> 'c \<Rightarrow> (u8 list \<times> u32) list \<Rightarrow> 'c res" where
  "feed upd ctx [] = Inr ctx"
| "feed upd ctx ((d, n) # ds) = bind (upd ctx d n) (\<lambda>ctx. feed upd ctx ds)"

fun chunk_ok :: "u8 list \<times> u32 \<Rightarrow> bool" where
  "chunk_ok (d, n) \<longleftrightarrow> unat n \<le> length d \<and> unat n + 63 < 2 ^ 32"

fun chunk_bytes :: "u8 list \<times> u32 \<Rightarrow> u8 list" where
  "chunk_bytes (d, n) = take (unat n) d"

locale streaming_digest =
  fixes repr :: "u8 list \<Rightarrow> 'c \<Rightarrow> bool"
    and init :: "u8 list \<Rightarrow> 'c"
    and upd :: "'c \<Rightarrow> u8 list \<Rightarrow> u32 \<Rightarrow> 'c res"
    and fin :: "'c \<Rightarrow> (u8 list \<times> 'c) res"
    and hash :: "u8 list \<Rightarrow> u8 list"
    and wiped :: 'c
  assumes init_repr: "length junk = 64 \<Longrightarrow> repr [] (init junk)"
    and upd_repr: "repr D c \<Longrightarrow> unat n \<le> length d \<Longrightarrow> unat n + 63 < 2 ^ 32 \<Longrightarrow>
      \<exists>c'. upd c d n = Inr c' \<and> repr (D @ take (unat n) d) c'"
    and fin_hash: "repr D c \<Longrightarrow> fin c = Inr (hash D, wiped)"
begin

lemma feed_repr:
  "repr D c \<Longrightarrow> list_all chunk_ok ds \<Longrightarrow>
   \<exists>c'. feed upd c ds = Inr c' \<and> repr (D @ concat (map chunk_bytes ds)) c'"
proof (induction ds arbitrary: D c)
  case (Cons x ds)
  obtain d n where x: "x = (d, n)" by (cases x)
  obtain c1 where "upd c d n = Inr c1" "repr (D @ take (unat n) d) c1"
    using Cons.prems upd_repr [of D c n d] by (auto simp: x)
  with Cons.IH [of "D @ take (unat n) d" c1] Cons.prems show ?case by (auto simp: x)
qed simp

lemma feed_fin:
  assumes "length junk = 64" and "list_all chunk_ok ds"
  shows "bind (feed upd (init junk) ds) fin = Inr (hash (concat (map chunk_bytes ds)), wiped)"
proof -
  obtain c' where "feed upd (init junk) ds = Inr c'" "repr (concat (map chunk_bytes ds)) c'"
    using feed_repr [OF init_repr [OF assms(1)] assms(2)] by auto
  then show ?thesis by (simp add: fin_hash)
qed

lemma chunking_irrelevant:
  assumes "length junk = 64" "length junk' = 64" "list_all chunk_ok ds" "list_all chunk_ok ds'"
    and "concat (map chunk_bytes ds) = concat (map chunk_bytes ds')"
  shows "bind (feed upd (init junk) ds) fin = bind (feed upd (init junk') ds') fin"
  using assms by (simp add: feed_fin)

end

interpretation md5: streaming_digest md5_repr MD5Init MD5Update MD5Final md5_spec zero_ctx
proof unfold_locales
  fix junk D d :: "u8 list" and c :: MD5_CTX and n :: u32
  show "length junk = 64 \<Longrightarrow> md5_repr [] (MD5Init junk)"
    by (rule md5_repr_init)
  show "md5_repr D c \<Longrightarrow> unat n \<le> length d \<Longrightarrow> unat n + 63 < 2 ^ 32 \<Longrightarrow>
      \<exists>c'. MD5Update c d n = Inr c' \<and> md5_repr (D @ take (unat n) d) c'"
    by (rule MD5Update_repr)
  show "md5_repr D c \<Longrightarrow> MD5Final c = Inr (md5_spec D, zero_ctx)"
    by (rule MD5Final_repr)
qed

section \<open>The clients\<close>

lemma MDString_spec:
  "length junk = 64 \<Longrightarrow> unat n \<le> length d \<Longrightarrow> unat n + 63 < 2 ^ 32 \<Longrightarrow>
   MDString junk d n = Inr (md5_spec (take (unat n) d))"
  using md5.feed_fin [of junk "[(d, n)]"]
  by (cases "MD5Update (MD5Init junk) d n") (simp_all add: MDString_def)

text \<open>RFC 2104 with the 64-byte block and a key no longer than it.\<close>

definition hmac_md5 :: "u8 list \<Rightarrow> u8 list \<Rightarrow> u8 list" where
  "hmac_md5 key msg =
     (let k = key @ replicate (64 - length key) 0
      in md5_spec (map (\<lambda>b. b XOR 0x5c) k @ md5_spec (map (\<lambda>b. b XOR 0x36) k @ msg)))"

lemma md5_spec_length [simp]: "length (md5_spec D) = 16"
  by (simp add: md5_spec_def Encode_def split: prod.splits)

text \<open>
  C27: any sequence of \<open>MD5Update\<close>s on a fresh context, none of them with \<open>2 ^ 32 - 63\<close> bytes or more
  (beyond that \<open>i + 63\<close> can wrap in the loop over the blocks), followed by \<open>MD5Final\<close> returns
  the RFC 1321 digest of the concatenated bytes and leaves the context wiped: the cut of the
  message into calls, the buffering of partial blocks and the carry of the bit counter do
  not show.
\<close>

theorem md5_stream_correct:
  "length junk = 64 \<Longrightarrow> list_all chunk_ok ds \<Longrightarrow>
   bind (feed MD5Update (MD5Init junk) ds) MD5Final =
     Inr (md5_spec (concat (map chunk_bytes ds)), zero_ctx)"
  by (rule md5.feed_fin)

theorem md5_stream_correct_witness:
  "bind (feed MD5Update (MD5Init (replicate 64 7)) [([1, 2, 3], 2), (replicate 100 5, 100)]) MD5Final =
     Inr (md5_spec ([1, 2] @ replicate 100 5), zero_ctx)"
  using md5_stream_correct [of "replicate 64 7" "[([1, 2, 3], 2), (replicate 100 5, 100)]"] by simp

lemma xor_pad:
  "length key \<le> 64 \<Longrightarrow> wr_block (replicate PADLEN 0) 0 key = Inr (key @ replicate (64 - length key) (0::u8))"
  by (simp add: PADLEN_def)

text \<open>
  for a key of at most 64 bytes and data of at most 128, \<open>MD5Encode\<close> is HMAC-MD5
  (RFC 2104) and stays inside its buffers.
\<close>

theorem MD5Encode_hmac:
  assumes "length junk = 64" and "nKeyLen \<le> 64" and "nKeyLen \<le> length szKey"
    and "nSize \<le> 128" and "nSize \<le> length szData"
  shows "MD5Encode junk szData nSize szKey nKeyLen =
    Inr (hmac_md5 (take nKeyLen szKey) (take nSize szData))"
proof -
  define K where "K = take nKeyLen szKey @ replicate (64 - nKeyLen) 0"
  have K: "length K = 64" "wr_block (replicate PADLEN 0) 0 (take nKeyLen szKey) = Inr K"
    using assms xor_pad [of "take nKeyLen szKey"] by (simp_all add: K_def min_def)
  define A where "A = map (\<lambda>k. 0x36 XOR k) K @ take nSize szData"
  define B where "B = drop nSize (replicate (MAXMD5SOURCESTRINGLEN + 1) (0::u8))"
  have A: "length A = PADLEN + nSize" "B \<noteq> []"
    using assms K by (simp_all add: A_def B_def PADLEN_def MAXMD5SOURCESTRINGLEN_def)
  have inner: "MDString junk (A @ 0 # tl B) (of_nat (PADLEN + nSize)) = Inr (md5_spec A)"
  proof -
    have "unat (of_nat (PADLEN + nSize) :: u32) = PADLEN + nSize"
      using assms by (subst unat_of_nat) (simp add: PADLEN_def)
    then show ?thesis
      using MDString_spec [OF assms(1), of "of_nat (PADLEN + nSize)" "A @ 0 # tl B"] assms A
      by (simp add: PADLEN_def)
  qed
  have outer: "MDString junk (map (\<lambda>k. 0x5c XOR k) K @ md5_spec A) (of_nat (PADLEN + 16)) =
      Inr (md5_spec (map (\<lambda>k. 0x5c XOR k) K @ md5_spec A))"
    using MDString_spec [OF assms(1), of "of_nat (PADLEN + 16)" "map (\<lambda>k. 0x5c XOR k) K @ md5_spec A"] K
    by (simp add: PADLEN_def)
  have W: "wr_block (map (\<lambda>k. 0x36 XOR k) K @ replicate (MAXMD5SOURCESTRINGLEN + 1) 0) PADLEN
      (take nSize szData) = Inr (A @ B)"
    using assms K by (simp add: A_def B_def PADLEN_def MAXMD5SOURCESTRINGLEN_def)
  have N: "wr (A @ B) (PADLEN + nSize) 0 = Inr (A @ 0 # tl B)"
    using A by (cases B) (simp_all add: A(1) [symmetric])
  have M: "wr_block (map (\<lambda>k. 0x5c XOR k) K @ replicate 16 0) PADLEN (md5_spec A) =
      Inr (map (\<lambda>k. 0x5c XOR k) K @ md5_spec A)"
    using K by (simp add: PADLEN_def)
  have "MD5Encode junk szData nSize szKey nKeyLen = Inr (md5_spec (map (\<lambda>k. 0x5c XOR k) K @ md5_spec A))"
    unfolding MD5Encode_def using assms
    by (simp only: rd_block_in add_0_left drop_0 bind.simps K(2) W N inner M outer)
  moreover have "min (length szKey) nKeyLen = nKeyLen" using assms by simp
  ultimately show ?thesis
    by (simp add: hmac_md5_def Let_def A_def K_def xor.commute)
qed

theorem MD5Encode_hmac_witness:
  "MD5Encode (replicate 64 9) [104, 105] 2 (replicate 20 0x0b) 20 = Inr (hmac_md5 (replicate 20 0x0b) [104, 105])"
  using MD5Encode_hmac [of "replicate 64 9" 20 "replicate 20 0x0b" 2 "[104, 105]"] by simp

text \<open>
  a key longer than the 64-byte array \<open>K\<close> overruns it: \<open>MD5Encode\<close> does not hash long
  keys first, as RFC 2104 has it.
\<close>

theorem MD5Encode_long_key:
  "64 < nKeyLen \<Longrightarrow> nKeyLen \<le> length szKey \<Longrightarrow>
   MD5Encode junk szData nSize szKey nKeyLen = Inl Out_Of_Bounds"
  by (simp add: MD5Encode_def wr_block_def PADLEN_def)

theorem MD5Encode_long_key_witness:
  "MD5Encode [] [] 0 (replicate 65 1) 65 = Inl Out_Of_Bounds"
  using MD5Encode_long_key [of 65 "replicate 65 1" "[]" "[]" 0] by simp

text \<open>
  \<open>MD5_enc\<close> hashes the CHAP identifier, the password and the built-in challenge, in this
  order.
\<close>

theorem MD5_enc_chap:
  assumes "length junk = 64" and "unat pwdlen \<le> length pwd" and "unat pwdlen + 63 < 2 ^ 32"
  shows "MD5_enc junk ident pwd pwdlen = Inr (md5_spec (ident # take (unat pwdlen) pwd @ enc_chal))"
proof -
  let ?ds = "[([ident], 1), (pwd, pwdlen), (enc_chal, 16)]"
  have e: "take 16 enc_chal = enc_chal" "16 \<le> length enc_chal" by (simp_all add: enc_chal_def)
  have "bind (feed MD5Update (MD5Init junk) ?ds) MD5Final =
      Inr (md5_spec (concat (map chunk_bytes ?ds)), zero_ctx)"
    using assms e(2) by (intro md5.feed_fin) simp_all
  then have "bind (feed MD5Update (MD5Init junk) ?ds) MD5Final =
      Inr (md5_spec (ident # take (unat pwdlen) pwd @ enc_chal), zero_ctx)"
    by (simp add: e(1))
  moreover have "MD5_enc junk ident pwd pwdlen =
      bind (bind (feed MD5Update (MD5Init junk) ?ds) MD5Final) (\<lambda>(h, c). Inr h)"
    by (simp add: MD5_enc_def chap_auth_def bind_assoc)
  ultimately show ?thesis by (simp only: bind.simps prod.case)
qed

theorem MD5_enc_chap_witness:
  "MD5_enc (replicate 64 0) 1 [65, 66, 67] 2 = Inr (md5_spec (1 # [65, 66] @ enc_chal))"
  using MD5_enc_chap [of "replicate 64 0" 2 "[65, 66, 67]" 1] by simp

text \<open>The 32 hexadecimal digits of a digest, most significant first.\<close>

definition hex_digest :: "u8 list \<Rightarrow> char list" where
  "hex_digest ds = concat (map (\<lambda>b. [''0123456789abcdef'' ! (unat b div 16),
     ''0123456789abcdef'' ! (unat b mod 16)]) ds)"

lemma nibble_lo: "unat ((b::u8) AND 0xf) = unat b mod 16"
proof -
  have "(15::u8) = mask 4" by (simp add: mask_eq_exp_minus_1)
  then have "unat (b AND 0xf) = unat (take_bit 4 b)" by (simp only: flip: take_bit_eq_mask)
  also have "\<dots> = unat b mod 2 ^ 4" by (simp only: unsigned_take_bit_eq) (rule take_bit_eq_mod)
  finally show ?thesis by simp
qed

lemma nibble_hi: "unat (drop_bit 4 (b::u8)) = unat b div 16"
  by (subst unat_drop_bit_eq) (simp add: drop_bit_eq_div)

lemma nibble_hi_masked: "unat (drop_bit 4 (b::u8) AND 0xf) = unat b div 16"
proof -
  have "unat b < 256" using unsigned_less [of b] by simp
  then have "unat b div 16 < 16" by simp
  then show ?thesis by (simp only: nibble_lo nibble_hi mod_less)
qed

lemma CvtHex_byte:
  "int2hex (drop_bit 4 c AND 0xf) = ''0123456789abcdef'' ! (unat c div 16)"
  "int2hex (c AND 0xf) = ''0123456789abcdef'' ! (unat c mod 16)"
proof -
  have i: "(w AND 0xf) AND 0xf = w AND 0xf" for w :: u8 by (simp only: and.assoc and.idem)
  show "int2hex (drop_bit 4 c AND 0xf) = ''0123456789abcdef'' ! (unat c div 16)"
    unfolding int2hex_def hex_chars_def i nibble_hi_masked ..
  show "int2hex (c AND 0xf) = ''0123456789abcdef'' ! (unat c mod 16)"
    unfolding int2hex_def hex_chars_def i nibble_lo ..
qed

lemma CvtHex_digest: "CvtHex Bin = hex_digest Bin @ [NUL]"
proof -
  have "[int2hex (drop_bit 4 c AND 0xf), int2hex (c AND 0xf)] =
      [''0123456789abcdef'' ! (unat c div 16), ''0123456789abcdef'' ! (unat c mod 16)]" for c
    by (intro list.inject [THEN iffD2] conjI CvtHex_byte refl)
  then show ?thesis by (simp only: CvtHex_def hex_digest_def)
qed

lemma hex_digest_length [simp]: "length (hex_digest ds) = 2 * length ds"
  by (induction ds) (simp_all add: hex_digest_def)

lemma md5_packages_string_run:
  assumes "length junk = 64" and "unat n \<le> length src" and "unat n + 63 < 2 ^ 32" and "33 \<le> length desc"
  shows "md5_packages_string junk desc src n =
    Inr (hex_digest (md5_spec (map byte_of (take (unat n) src))) @ NUL # drop 33 desc)"
proof -
  have "bind (feed MD5Update (MD5Init junk) [(map byte_of src, n)]) MD5Final =
      Inr (md5_spec (map byte_of (take (unat n) src)), zero_ctx)"
    using assms md5.feed_fin [of junk "[(map byte_of src, n)]"] by (simp add: take_map)
  then have "bind (MD5Update (MD5Init junk) (map byte_of src) n) MD5Final =
      Inr (md5_spec (map byte_of (take (unat n) src)), zero_ctx)"
    by (simp add: bind_assoc)
  moreover have "md5_packages_string junk desc src n =
      bind (bind (MD5Update (MD5Init junk) (map byte_of src) n) MD5Final) (\<lambda>(h, c).
        wr_block desc 0 (CvtHex h))"
    by (simp add: md5_packages_string_def bind_assoc)
  ultimately show ?thesis using assms(4) by (simp add: CvtHex_digest)
qed

text \<open>
  \<open>md5_packages_string\<close> leaves in its output buffer the 32 hexadecimal digits of the
  MD5 of the input string and a terminator, and nothing beyond them.
\<close>

theorem md5_packages_string_hex:
  assumes "length junk = 64" and "unat n \<le> length src" and "unat n + 63 < 2 ^ 32" and "33 \<le> length desc"
  shows "md5_packages_string junk desc src n =
    Inr (hex_digest (md5_spec (map byte_of (take (unat n) src))) @ NUL # drop 33 desc)"
  using assms by (rule md5_packages_string_run)

theorem md5_packages_string_hex_witness:
  "md5_packages_string (replicate 64 0) (replicate 40 CHR ''x'') ''admin:rtsp:12345'' 16 =
    Inr (hex_digest (md5_spec (map byte_of ''admin:rtsp:12345'')) @ NUL # replicate 7 CHR ''x'')"
  using md5_packages_string_hex [of "replicate 64 0" 16 "''admin:rtsp:12345''" "replicate 40 CHR ''x''"]
  by simp

end
