(* ===== verification/Rtsp_Parser.thy ===== *)
theory Rtsp_Parser
  imports Box_Prelude
begin

text \<open>
  \<open>src/src/common/rtsp-parser.c\<close>: the incremental parser of RTSP messages. The parser keeps
  the raw bytes received so far, parses them in place (fields are offsets into the raw
  bytes, and a field is made a C string by writing a \<open>NUL\<close> behind it) and can be left and
  re-entered at any byte. Each \<open>for\<close>/\<open>switch\<close> of the source is a step function on the
  parser and the current byte; \<open>Stay\<close> is the source's \<open>offset -= 1\<close> before the loop's
  \<open>++offset\<close>. A loop ends because a \<open>Stay\<close> moves to a later state.

  \<open>raw\<close> is the list of the initialised bytes of the allocation. \<open>size_t\<close> is 32 bits wide
  (the Makefile's default target); offsets are bounded by the allocation (at most 114 MB)
  and are natural numbers, the chunk length, which the peer chooses, wraps.
\<close>

section \<open>Data\<close>

record rtsp_string =
  rs_pos :: nat
  rs_len :: nat

record rtsp_status_line =
  st_code :: int
  st_reason :: rtsp_string

record rtsp_request_line =
  rq_method :: rtsp_string
  rq_uri :: rtsp_string

record rtsp_header =
  h_name :: rtsp_string
  h_value :: rtsp_string

record rtsp_chunk =
  ck_offset :: nat
  ck_len :: nat
  ck_pos :: nat

datatype rtsp_mode = RTSP_PARSER_CLIENT | RTSP_PARSER_SERVER

text \<open>
  The two members of the union \<open>u\<close> are two fields: the mode, which never changes, decides
  which one is used. \<open>header_size\<close> is the length of \<open>p_headers\<close>.
\<close>

record rtsp_parser =
  p_raw :: "char list"
  p_raw_size :: nat
  p_raw_capacity :: nat
  p_server_mode :: rtsp_mode
  p_stateM :: nat
  p_offset :: nat
  p_header :: rtsp_header
  p_chunk :: rtsp_chunk
  p_verminor :: int
  p_vermajor :: int
  p_req :: rtsp_request_line
  p_reply :: rtsp_status_line
  p_headers :: "rtsp_header list"
  p_header_capacity :: nat
  p_content_length :: int
  p_connection_close :: int
  p_content_encoding :: nat
  p_transfer_encoding :: nat
  p_cookie :: nat
  p_location :: nat

text \<open>What the parser reads besides its own state: the allocator and the static \<open>s_body_max_size\<close>.\<close>

record rtsp_env =
  env_alloc :: "nat \<Rightarrow> bool"
  env_body_max_size :: "32 word"

abbreviation (input) KB :: nat where "KB \<equiv> 1024"
abbreviation (input) MB :: nat where "MB \<equiv> 1048576"
abbreviation (input) E2BIG :: int where "E2BIG \<equiv> 7"
abbreviation (input) ENOMEM :: int where "ENOMEM \<equiv> 12"
abbreviation (input) EINVAL :: int where "EINVAL \<equiv> 22"

abbreviation (input) SM_START_LINE :: nat where "SM_START_LINE \<equiv> 0"
abbreviation (input) SM_HEADER :: nat where "SM_HEADER \<equiv> 100"
abbreviation (input) SM_BODY :: nat where "SM_BODY \<equiv> 200"
abbreviation (input) SM_DONE :: nat where "SM_DONE \<equiv> 300"

abbreviation TAB :: char where "TAB \<equiv> CHR 0x09"
abbreviation LF :: char where "LF \<equiv> CHR 0x0A"
abbreviation CR :: char where "CR \<equiv> CHR 0x0D"
abbreviation SP :: char where "SP \<equiv> CHR '' ''"

datatype step_out = Stay | Advance | Return int

definition is_blank :: "char \<Rightarrow> bool" where
  "is_blank c \<longleftrightarrow> c = SP \<or> c = TAB"

definition is_stop :: "char \<Rightarrow> bool" where
  "is_stop c \<longleftrightarrow> c = SP \<or> c = TAB \<or> c = CR \<or> c = LF"

definition poke :: "rtsp_parser \<Rightarrow> nat \<Rightarrow> char \<Rightarrow> rtsp_parser res" where
  "poke p i c = bind (wr (p_raw p) i c) (\<lambda>r. Inr (p\<lparr>p_raw := r\<rparr>))"

definition set_state :: "nat \<Rightarrow> rtsp_parser \<Rightarrow> rtsp_parser" where
  "set_state s p = p\<lparr>p_stateM := s\<rparr>"

section \<open>Helpers\<close>

definition token_separators :: "char list" where
  "token_separators = ''()<>@,;:'' @ [CHR 0x5C, CHR 0x22] @ ''/[]?={} '' @ [TAB]"

fun is_valid_token :: "char list \<Rightarrow> nat \<Rightarrow> bool res" where
  "is_valid_token [] n = (if n = 0 then Inr True else Inl Out_Of_Bounds)"
| "is_valid_token (c # s) n =
     (if n = 0 then Inr True
      else if c = NUL \<or> code_of c \<le> 31 \<or> code_of c \<ge> 127 \<or> c \<in> set token_separators
      then Inr False else is_valid_token s (n - 1))"

lemma is_valid_token_wp [wp]:
  "(length s < n \<Longrightarrow> Out_Of_Bounds \<in> F) \<Longrightarrow> (\<And>b. Q b) \<Longrightarrow> holds F Q (is_valid_token s n)"
  by (induction s n rule: is_valid_token.induct) auto

definition is_server_mode :: "rtsp_parser \<Rightarrow> bool" where
  "is_server_mode p \<longleftrightarrow> p_server_mode p = RTSP_PARSER_SERVER"

definition is_transfer_encoding_chunked :: "rtsp_parser \<Rightarrow> bool res" where
  "is_transfer_encoding_chunked p =
     (if 0 < p_transfer_encoding p
      then bind (cstr_at (p_raw p) (p_transfer_encoding p)) (\<lambda>s. Inr (strncaseeq 7 ''chunked'' s))
      else Inr False)"

definition rtsp_rawdata :: "rtsp_env \<Rightarrow> rtsp_parser \<Rightarrow> char list \<Rightarrow> (rtsp_parser \<times> int) res" where
  "rtsp_rawdata env p data =
     (let bytes = length data;
          store = (\<lambda>p. check (p_raw_capacity p - p_raw_size p > bytes + 1)
            (Inr (p\<lparr>p_raw := take (p_raw_size p) (p_raw p) @ data @ NUL
                       # drop (p_raw_size p + bytes + 1) (p_raw p),
                    p_raw_size := p_raw_size p + bytes\<rparr>, 0)))
      in if p_raw_capacity p - p_raw_size p < bytes + 1 then
           if p_raw_capacity p + bytes > 64 * MB then Inr (p, E2BIG)
           else
             let capacity = (if p_raw_capacity p > 4 * MB then 50 * MB
                   else if p_raw_capacity p > 16 * KB then 2 * MB else 8 * KB);
                 capacity = (if bytes + 1 > capacity then bytes + 1 else capacity)
             in if env_alloc env (p_raw_capacity p + capacity)
                then store (p\<lparr>p_raw_capacity := p_raw_capacity p + capacity\<rparr>)
                else Inr (p, ENOMEM)
         else store p)"

definition rtsp_header_handler ::
  "rtsp_env \<Rightarrow> rtsp_parser \<Rightarrow> nat \<Rightarrow> nat \<Rightarrow> rtsp_parser res" where
  "rtsp_header_handler env p npos vpos =
     bind (cstr_at (p_raw p) npos) (\<lambda>name.
     bind (cstr_at (p_raw p) vpos) (\<lambda>value.
       if strcaseeq ''Content-Length'' name then
         bind (is_transfer_encoding_chunked p) (\<lambda>chunked.
           let n = (if chunked then - 1 else atoi value)
           in check (n \<ge> 0 \<and> (env_body_max_size env = 0 \<or> n < sint (env_body_max_size env)))
                (Inr (p\<lparr>p_content_length := n\<rparr>)))
       else if strcaseeq ''Connection'' name then
         Inr (p\<lparr>p_connection_close := (if strcaseeq ''close'' value then 1 else 0)\<rparr>)
       else if strcaseeq ''Content-Encoding'' name then
         Inr (p\<lparr>p_content_encoding := vpos\<rparr>)
       else if strcaseeq ''Transfer-Encoding'' name then
         let p = p\<lparr>p_transfer_encoding := vpos\<rparr>
         in if strncaseeq 7 ''chunked'' value then
              check (p_content_length p = - 1) (poke p (p_transfer_encoding p + 7) NUL)
            else Inr p
       else if strcaseeq ''Set-Cookie'' name then
         Inr (p\<lparr>p_cookie := vpos\<rparr>)
       else if strcaseeq ''Location'' name then
         Inr (p\<lparr>p_location := vpos\<rparr>)
       else Inr p))"

text \<open>\<open>None\<close> is the \<open>ENOMEM\<close> return.\<close>

definition rtsp_header_add ::
  "rtsp_env \<Rightarrow> rtsp_parser \<Rightarrow> rtsp_header \<Rightarrow> rtsp_parser option res" where
  "rtsp_header_add env p hdr =
     (let n = length (p_headers p);
          size = (if p_header_capacity p < 16 then 16 else n * 3 div 2);
          store = (\<lambda>p.
            check (rs_pos (h_name hdr) > 0)
            (check (rs_len (h_name hdr) > 0)
            (check (rs_pos (h_value hdr) > 0)
            (bind (is_valid_token (drop (rs_pos (h_name hdr)) (p_raw p)) (rs_len (h_name hdr))) (\<lambda>ok.
             check ok
            (bind (poke p (rs_pos (h_name hdr) + rs_len (h_name hdr)) NUL) (\<lambda>p.
             bind (poke p (rs_pos (h_value hdr) + rs_len (h_value hdr)) NUL) (\<lambda>p.
               if n < p_header_capacity p then Inr (Some (p\<lparr>p_headers := p_headers p @ [hdr]\<rparr>))
               else Inl Out_Of_Bounds))))))))
      in if n + 1 \<ge> p_header_capacity p then
           if env_alloc env (16 * size) then store (p\<lparr>p_header_capacity := size\<rparr>)
           else Inr None
         else store p)"

text \<open>\<open>sscanf(s, "RTSP/%d.%d", ..) == 2\<close>.\<close>

definition scan_version :: "char list \<Rightarrow> (int \<times> int) option" where
  "scan_version s =
     (if prefix_of ''RTSP/'' s then
        case scan_int (drop 5 s) of (major, ds, rest) \<Rightarrow>
          if ds \<noteq> [] \<and> prefix_of ''.'' rest then
            case scan_int (drop 1 rest) of (minor, ds', rest') \<Rightarrow>
              if ds' \<noteq> [] then Some (major, minor) else None
          else None
      else None)"

definition set_version :: "int \<times> int \<Rightarrow> rtsp_parser \<Rightarrow> rtsp_parser" where
  "set_version mm p = p\<lparr>p_vermajor := fst mm, p_verminor := snd mm\<rparr>"

definition version_ok :: "rtsp_parser \<Rightarrow> bool" where
  "version_ok p \<longleftrightarrow> (p_vermajor p = 1 \<or> p_vermajor p = 2) \<and> (p_verminor p = 1 \<or> p_verminor p = 0)"

section \<open>The start line\<close>

abbreviation name_pos :: "rtsp_parser \<Rightarrow> nat" where "name_pos p \<equiv> rs_pos (h_name (p_header p))"
abbreviation name_len :: "rtsp_parser \<Rightarrow> nat" where "name_len p \<equiv> rs_len (h_name (p_header p))"
abbreviation value_pos :: "rtsp_parser \<Rightarrow> nat" where "value_pos p \<equiv> rs_pos (h_value (p_header p))"
abbreviation value_len :: "rtsp_parser \<Rightarrow> nat" where "value_len p \<equiv> rs_len (h_value (p_header p))"

definition set_name_pos :: "nat \<Rightarrow> rtsp_parser \<Rightarrow> rtsp_parser" where
  "set_name_pos x = p_header_update (h_name_update (rs_pos_update (\<lambda>_. x)))"
definition set_name_len :: "nat \<Rightarrow> rtsp_parser \<Rightarrow> rtsp_parser" where
  "set_name_len x = p_header_update (h_name_update (rs_len_update (\<lambda>_. x)))"
definition set_value_pos :: "nat \<Rightarrow> rtsp_parser \<Rightarrow> rtsp_parser" where
  "set_value_pos x = p_header_update (h_value_update (rs_pos_update (\<lambda>_. x)))"
definition set_value_len :: "nat \<Rightarrow> rtsp_parser \<Rightarrow> rtsp_parser" where
  "set_value_len x = p_header_update (h_value_update (rs_len_update (\<lambda>_. x)))"

text \<open>\<open>*(v[k]) = x\<close> and \<open>*(v[k])\<close> of \<open>rtsp_parse_request_line\<close>.\<close>

definition request_v_set :: "nat \<Rightarrow> nat \<Rightarrow> rtsp_parser \<Rightarrow> rtsp_parser" where
  "request_v_set k x =
     (if k = 0 then p_req_update (rq_method_update (rs_pos_update (\<lambda>_. x)))
      else if k = 1 then p_req_update (rq_method_update (rs_len_update (\<lambda>_. x)))
      else if k = 2 then p_req_update (rq_uri_update (rs_pos_update (\<lambda>_. x)))
      else if k = 3 then p_req_update (rq_uri_update (rs_len_update (\<lambda>_. x)))
      else if k = 4 then set_name_pos x
      else set_name_len x)"

definition request_v_get :: "nat \<Rightarrow> rtsp_parser \<Rightarrow> nat" where
  "request_v_get k p =
     (if k = 0 then rs_pos (rq_method (p_req p))
      else if k = 1 then rs_len (rq_method (p_req p))
      else if k = 2 then rs_pos (rq_uri (p_req p))
      else if k = 3 then rs_len (rq_uri (p_req p))
      else if k = 4 then name_pos p
      else name_len p)"

abbreviation (input) SM_REQUEST_START :: nat where "SM_REQUEST_START \<equiv> 0"
abbreviation (input) SM_REQUEST_METHOD :: nat where "SM_REQUEST_METHOD \<equiv> 1"
abbreviation (input) SM_REQUEST_SP1 :: nat where "SM_REQUEST_SP1 \<equiv> 2"
abbreviation (input) SM_REQUEST_URI :: nat where "SM_REQUEST_URI \<equiv> 3"
abbreviation (input) SM_REQUEST_SP2 :: nat where "SM_REQUEST_SP2 \<equiv> 4"
abbreviation (input) SM_REQUEST_VERSION :: nat where "SM_REQUEST_VERSION \<equiv> 5"
abbreviation (input) SM_REQUEST_SP3 :: nat where "SM_REQUEST_SP3 \<equiv> 6"
abbreviation (input) SM_REQUEST_CR :: nat where "SM_REQUEST_CR \<equiv> 7"
abbreviation (input) SM_REQUEST_LF :: nat where "SM_REQUEST_LF \<equiv> 8"

text \<open>The case \<open>SM_REQUEST_LF\<close>: the line is complete.\<close>

definition request_line_end :: "rtsp_parser \<Rightarrow> (rtsp_parser \<times> step_out) res" where
  "request_line_end p =
     (if rs_len (rq_method (p_req p)) < 1 \<or> rs_len (rq_uri (p_req p)) < 1 \<or> name_len p < 8
      then Inl Assert_Failed
      else bind (cstr_at (p_raw p) (name_pos p)) (\<lambda>s.
        case scan_version s of
          None \<Rightarrow> Inl Assert_Failed
        | Some v \<Rightarrow>
            bind (poke p (rs_pos (rq_method (p_req p)) + rs_len (rq_method (p_req p))) NUL) (\<lambda>p.
            bind (poke p (rs_pos (rq_uri (p_req p)) + rs_len (rq_uri (p_req p))) NUL) (\<lambda>p.
            let p = set_version v p
            in check (version_ok p)
                 (Inr ((set_state SM_HEADER p)\<lparr>p_offset := p_offset p + 1\<rparr>, Return 0))))))"

definition request_step :: "rtsp_parser \<Rightarrow> char \<Rightarrow> (rtsp_parser \<times> step_out) res" where
  "request_step p c =
     (let s = p_stateM p
      in if s = SM_REQUEST_START \<or> s = SM_REQUEST_SP1 \<or> s = SM_REQUEST_SP2 then
           if \<not> is_blank c then
             Inr (set_state (s + 1) (request_v_set (s - SM_REQUEST_START) (p_offset p) p), Stay)
           else Inr (p, Advance)
         else if s = SM_REQUEST_METHOD \<or> s = SM_REQUEST_URI \<or> s = SM_REQUEST_VERSION then
           if is_stop c then
             Inr (set_state (s + 1) (request_v_set (s - SM_REQUEST_START)
                    (p_offset p - request_v_get (s - SM_REQUEST_START - 1) p) p), Stay)
           else Inr (p, Advance)
         else if s = SM_REQUEST_SP3 then
           if is_blank c then Inr (p, Advance)
           else if c = CR then Inr (set_state SM_REQUEST_CR p, Advance)
           else if c = LF then Inr (set_state SM_REQUEST_LF p, Stay)
           else Inr (set_state SM_REQUEST_VERSION p, Advance)
         else if s = SM_REQUEST_CR then
           if c \<noteq> LF then Inl Assert_Failed else Inr (set_state SM_REQUEST_LF p, Stay)
         else if s = SM_REQUEST_LF then
           check (c = LF) (request_line_end p)
         else Inl Assert_Failed)"

lemma poke_wp [wp]:
  "(length (p_raw p) \<le> i \<Longrightarrow> Out_Of_Bounds \<in> F) \<Longrightarrow>
   (i < length (p_raw p) \<Longrightarrow> Q (p\<lparr>p_raw := (p_raw p)[i := c]\<rparr>)) \<Longrightarrow>
   holds F Q (poke p i c)"
  unfolding poke_def by (intro wp) auto

text \<open>The loops share their head: \<open>for (; offset < raw_size; ++offset) c = raw[offset];\<close>.\<close>

definition step_at ::
  "(rtsp_parser \<Rightarrow> char \<Rightarrow> (rtsp_parser \<times> step_out) res) \<Rightarrow> rtsp_parser \<Rightarrow> (rtsp_parser \<times> step_out) res" where
  "step_at step p = bind (rd (p_raw p) (p_offset p)) (step p)"

text \<open>
  What a step may do to the loop's variables: \<open>raw_size\<close> and, unless the loop returns,
  \<open>offset\<close> are kept, and a \<open>Stay\<close> enters a later state (none is later than \<open>SM_DONE\<close>).
\<close>

definition loop_out :: "rtsp_parser \<Rightarrow> rtsp_parser \<times> step_out \<Rightarrow> bool" where
  "loop_out p r = (case r of
       (p', Return v) \<Rightarrow> True
     | (p', Advance) \<Rightarrow> p_raw_size p' = p_raw_size p \<and> p_offset p' = p_offset p
     | (p', Stay) \<Rightarrow> p_raw_size p' = p_raw_size p \<and> p_offset p' = p_offset p
          \<and> p_stateM p < p_stateM p' \<and> p_stateM p' \<le> SM_DONE)"

lemma loop_out_simps [simp]:
  "loop_out p (p', Return v)"
  "loop_out p (p', Advance) \<longleftrightarrow> p_raw_size p' = p_raw_size p \<and> p_offset p' = p_offset p"
  "loop_out p (p', Stay) \<longleftrightarrow> p_raw_size p' = p_raw_size p \<and> p_offset p' = p_offset p
     \<and> p_stateM p < p_stateM p' \<and> p_stateM p' \<le> SM_DONE"
  by (simp_all add: loop_out_def)

definition loop_rel :: "(rtsp_parser \<times> rtsp_parser) set" where
  "loop_rel = measures [\<lambda>p. p_raw_size p - p_offset p, \<lambda>p. SM_DONE - p_stateM p]"

lemma loop_rel_wf: "wf loop_rel" by (simp add: loop_rel_def)

lemmas parser_setters = set_state_def set_name_pos_def set_name_len_def set_value_pos_def
  set_value_len_def set_version_def

lemma request_v_set_frame [simp]:
  "p_raw_size (request_v_set k x p) = p_raw_size p"
  "p_offset (request_v_set k x p) = p_offset p"
  "p_stateM (request_v_set k x p) = p_stateM p"
  "p_raw (request_v_set k x p) = p_raw p"
  by (simp_all add: request_v_set_def parser_setters)

lemma set_state_frame [simp]:
  "p_raw_size (set_state s p) = p_raw_size p" "p_offset (set_state s p) = p_offset p"
  "p_stateM (set_state s p) = s" "p_raw (set_state s p) = p_raw p"
  by (simp_all add: set_state_def)

lemma request_step_loop: "holds UNIV (loop_out p) (request_step p c)"
  unfolding request_step_def request_line_end_def Let_def
  by (intro wp holds_cstr_at) auto

lemma loop_rel_at:
  assumes "\<And>p c. holds UNIV (loop_out p) (step p c)" and "p_offset p < p_raw_size p"
  shows "Inr (p', Stay) = step_at step p \<Longrightarrow> (p', p) \<in> loop_rel"
    and "step_at step p = Inr (p', Stay) \<Longrightarrow> (p', p) \<in> loop_rel"
    and "Inr (p', Advance) = step_at step p \<Longrightarrow> (p'\<lparr>p_offset := Suc (p_offset p')\<rparr>, p) \<in> loop_rel"
    and "step_at step p = Inr (p', Advance) \<Longrightarrow> (p'\<lparr>p_offset := Suc (p_offset p')\<rparr>, p) \<in> loop_rel"
  using assms(1) [of p "p_raw p ! p_offset p"] assms(2)
  by (auto simp: step_at_def rd_def loop_rel_def dest!: sym [of "Inr _"] split: if_splits)

function rtsp_parse_request_line :: "rtsp_parser \<Rightarrow> (rtsp_parser \<times> int) res" where
  "rtsp_parse_request_line p =
     (if p_offset p < p_raw_size p then
        (case step_at request_step p of
           Inl e \<Rightarrow> Inl e
         | Inr (p', Stay) \<Rightarrow> rtsp_parse_request_line p'
         | Inr (p', Advance) \<Rightarrow> rtsp_parse_request_line (p'\<lparr>p_offset := p_offset p' + 1\<rparr>)
         | Inr (p', Return v) \<Rightarrow> Inr (p', v))
      else Inr (p, 0))"
  by pat_completeness auto
termination
  by (relation loop_rel) (auto simp: loop_rel_wf loop_rel_at [OF request_step_loop])

declare rtsp_parse_request_line.simps [simp del]


text \<open>\<open>rtsp_parse_status_line\<close>: its \<open>v\<close>, the case \<open>SM_STATUS_LF\<close>, its switch and its loop.\<close>

definition status_v_set :: "nat \<Rightarrow> nat \<Rightarrow> rtsp_parser \<Rightarrow> rtsp_parser" where
  "status_v_set k x =
     (if k = 0 then set_name_pos x
      else if k = 1 then set_name_len x
      else if k = 2 then set_value_pos x
      else if k = 3 then set_value_len x
      else if k = 4 then p_reply_update (st_reason_update (rs_pos_update (\<lambda>_. x)))
      else p_reply_update (st_reason_update (rs_len_update (\<lambda>_. x))))"

definition status_v_get :: "nat \<Rightarrow> rtsp_parser \<Rightarrow> nat" where
  "status_v_get k p =
     (if k = 0 then name_pos p
      else if k = 1 then name_len p
      else if k = 2 then value_pos p
      else if k = 3 then value_len p
      else if k = 4 then rs_pos (st_reason (p_reply p))
      else rs_len (st_reason (p_reply p)))"

abbreviation (input) SM_STATUS_START :: nat where "SM_STATUS_START \<equiv> 0"
abbreviation (input) SM_STATUS_VERSION :: nat where "SM_STATUS_VERSION \<equiv> 1"
abbreviation (input) SM_STATUS_SP1 :: nat where "SM_STATUS_SP1 \<equiv> 2"
abbreviation (input) SM_STATUS_CODE :: nat where "SM_STATUS_CODE \<equiv> 3"
abbreviation (input) SM_STATUS_SP2 :: nat where "SM_STATUS_SP2 \<equiv> 4"
abbreviation (input) SM_STATUS_REASON :: nat where "SM_STATUS_REASON \<equiv> 5"
abbreviation (input) SM_STATUS_SP3 :: nat where "SM_STATUS_SP3 \<equiv> 6"
abbreviation (input) SM_STATUS_CR :: nat where "SM_STATUS_CR \<equiv> 7"
abbreviation (input) SM_STATUS_LF :: nat where "SM_STATUS_LF \<equiv> 8"

definition status_line_end :: "rtsp_parser \<Rightarrow> (rtsp_parser \<times> step_out) res" where
  "status_line_end p =
     (if name_len p < 8 then Inl Assert_Failed
      else bind (cstr_at (p_raw p) (name_pos p)) (\<lambda>s.
        case scan_version s of
          None \<Rightarrow> Inl Assert_Failed
        | Some v \<Rightarrow>
            let p = set_version v p
            in if value_len p \<noteq> 3 \<or> rs_len (st_reason (p_reply p)) < 1 then Inl Assert_Failed
               else
                 bind (poke p (rs_pos (st_reason (p_reply p)) + rs_len (st_reason (p_reply p))) NUL) (\<lambda>p.
                 bind (poke p (value_pos p + value_len p) NUL) (\<lambda>p.
                 bind (cstr_at (p_raw p) (value_pos p)) (\<lambda>code.
                 let p = p_reply_update (st_code_update (\<lambda>_. atoi code)) p
                 in check (version_ok p)
                      (Inr ((set_state SM_HEADER p)\<lparr>p_offset := p_offset p + 1\<rparr>, Return 0)))))))"

definition status_step :: "rtsp_parser \<Rightarrow> char \<Rightarrow> (rtsp_parser \<times> step_out) res" where
  "status_step p c =
     (let s = p_stateM p
      in if s = SM_STATUS_START \<or> s = SM_STATUS_SP1 \<or> s = SM_STATUS_SP2 then
           if \<not> is_blank c then
             Inr (set_state (s + 1) (status_v_set (s - SM_STATUS_START) (p_offset p) p), Stay)
           else Inr (p, Advance)
         else if s = SM_STATUS_VERSION \<or> s = SM_STATUS_CODE \<or> s = SM_STATUS_REASON then
           if is_stop c then
             Inr (set_state (s + 1) (status_v_set (s - SM_STATUS_START)
                    (p_offset p - status_v_get (s - SM_STATUS_START - 1) p) p), Stay)
           else Inr (p, Advance)
         else if s = SM_STATUS_SP3 then
           if is_blank c then Inr (p, Advance)
           else if c = CR then Inr (set_state SM_STATUS_CR p, Advance)
           else if c = LF then Inr (set_state SM_STATUS_LF p, Stay)
           else Inr (set_state SM_STATUS_REASON p, Advance)
         else if s = SM_STATUS_CR then
           if c \<noteq> LF then Inl Assert_Failed else Inr (set_state SM_STATUS_LF p, Stay)
         else if s = SM_STATUS_LF then
           check (c = LF) (status_line_end p)
         else Inl Assert_Failed)"

lemma status_v_set_frame [simp]:
  "p_raw_size (status_v_set k x p) = p_raw_size p"
  "p_offset (status_v_set k x p) = p_offset p"
  "p_stateM (status_v_set k x p) = p_stateM p"
  "p_raw (status_v_set k x p) = p_raw p"
  by (simp_all add: status_v_set_def parser_setters)

lemma status_step_loop: "holds UNIV (loop_out p) (status_step p c)"
  unfolding status_step_def status_line_end_def Let_def
  by (intro wp holds_cstr_at) auto

function rtsp_parse_status_line :: "rtsp_parser \<Rightarrow> (rtsp_parser \<times> int) res" where
  "rtsp_parse_status_line p =
     (if p_offset p < p_raw_size p then
        (case step_at status_step p of
           Inl e \<Rightarrow> Inl e
         | Inr (p', Stay) \<Rightarrow> rtsp_parse_status_line p'
         | Inr (p', Advance) \<Rightarrow> rtsp_parse_status_line (p'\<lparr>p_offset := p_offset p' + 1\<rparr>)
         | Inr (p', Return v) \<Rightarrow> Inr (p', v))
      else Inr (p, 0))"
  by pat_completeness auto
termination
  by (relation loop_rel) (auto simp: loop_rel_wf loop_rel_at [OF status_step_loop])

declare rtsp_parse_status_line.simps [simp del]

section \<open>Header lines\<close>

text \<open>\<open>v\<close> of \<open>rtsp_parse_header_line\<close>: entries 2 and 3 are the local \<open>dummy\<close>.\<close>

definition header_v_set :: "nat \<Rightarrow> nat \<Rightarrow> rtsp_parser \<Rightarrow> rtsp_parser" where
  "header_v_set k x =
     (if k = 0 then set_name_pos x
      else if k = 1 then set_name_len x
      else if k = 4 then set_value_pos x
      else if k = 5 then set_value_len x
      else (\<lambda>p. p))"

definition header_v_get :: "nat \<Rightarrow> rtsp_parser \<Rightarrow> nat" where
  "header_v_get k p = (if k = 0 then name_pos p else value_pos p)"

abbreviation (input) SM_HEADER_START :: nat where "SM_HEADER_START \<equiv> 100"
abbreviation (input) SM_HEADER_NAME :: nat where "SM_HEADER_NAME \<equiv> 101"
abbreviation (input) SM_HEADER_SP1 :: nat where "SM_HEADER_SP1 \<equiv> 102"
abbreviation (input) SM_HEADER_SEPARATOR :: nat where "SM_HEADER_SEPARATOR \<equiv> 103"
abbreviation (input) SM_HEADER_SP2 :: nat where "SM_HEADER_SP2 \<equiv> 104"
abbreviation (input) SM_HEADER_VALUE :: nat where "SM_HEADER_VALUE \<equiv> 105"
abbreviation (input) SM_HEADER_SP3 :: nat where "SM_HEADER_SP3 \<equiv> 106"
abbreviation (input) SM_HEADER_CR :: nat where "SM_HEADER_CR \<equiv> 107"
abbreviation (input) SM_HEADER_LF :: nat where "SM_HEADER_LF \<equiv> 108"

text \<open>\<open>for (i = from; i < to; i++) raw[i] = ' ';\<close>\<close>

definition blank_range :: "rtsp_parser \<Rightarrow> nat \<Rightarrow> nat \<Rightarrow> rtsp_parser res" where
  "blank_range p i j =
     (if j \<le> i then Inr p
      else bind (wr_block (p_raw p) i (replicate (j - i) SP)) (\<lambda>r. Inr (p\<lparr>p_raw := r\<rparr>)))"

text \<open>A folded line is joined to the last header (lines 637-654).\<close>

definition header_fold :: "rtsp_env \<Rightarrow> rtsp_parser \<Rightarrow> rtsp_parser res" where
  "header_fold env p =
     (if p_headers p = [] then Inl Assert_Failed
      else let h = last (p_headers p) in
        bind (blank_range p (rs_len (h_value h)) (value_pos p)) (\<lambda>p.
        let h = h_value_update (rs_len_update (\<lambda>_. value_pos p - rs_pos (h_value h) + value_len p)) h;
            p = p\<lparr>p_headers := butlast (p_headers p) @ [h]\<rparr>
        in bind (poke p (rs_pos (h_value h) + rs_len (h_value h)) NUL) (\<lambda>p.
             rtsp_header_handler env p (rs_pos (h_name h)) (rs_pos (h_value h)))))"

text \<open>The case \<open>SM_HEADER_LF\<close>: the end of the headers, a folded line, or a header.\<close>

definition header_line_end :: "rtsp_env \<Rightarrow> rtsp_parser \<Rightarrow> (rtsp_parser \<times> step_out) res" where
  "header_line_end env p =
     (if value_pos p = 0 then
        Inr ((set_state SM_BODY p)\<lparr>p_offset := p_offset p + 1\<rparr>, Return 0)
      else if name_pos p = 0 then
        bind (header_fold env p) (\<lambda>p. Inr (set_state SM_HEADER p, Advance))
      else if name_len p < 1 then Inl Assert_Failed
      else bind (rtsp_header_add env p (p_header p)) (\<lambda>added.
        case added of
          None \<Rightarrow> Inr (p, Return (- 1))
        | Some p \<Rightarrow>
            bind (rtsp_header_handler env p (name_pos p) (value_pos p)) (\<lambda>p.
              Inr (set_state SM_HEADER p, Advance))))"

definition header_step :: "rtsp_env \<Rightarrow> rtsp_parser \<Rightarrow> char \<Rightarrow> (rtsp_parser \<times> step_out) res" where
  "header_step env p c =
     (let s = p_stateM p
      in if s = SM_HEADER_START then
           if is_blank c then Inr (set_state SM_HEADER_SP2 (set_name_pos 0 p), Advance)
           else if c = CR then Inr (set_state SM_HEADER_CR (set_value_pos 0 p), Advance)
           else if c = LF then Inr (set_state SM_HEADER_LF (set_value_pos 0 p), Stay)
           else Inr (set_state (s + 1) (set_name_pos (p_offset p) p), Stay)
         else if s = SM_HEADER_SP1 \<or> s = SM_HEADER_SP2 then
           if \<not> is_blank c then
             Inr (set_state (s + 1) (header_v_set (s - SM_HEADER_START) (p_offset p) p), Stay)
           else Inr (p, Advance)
         else if s = SM_HEADER_NAME \<or> s = SM_HEADER_VALUE then
           if is_stop c \<or> c = CHR '':'' \<and> s = SM_HEADER_NAME then
             Inr (set_state (s + 1) (header_v_set (s - SM_HEADER_START)
                    (p_offset p - header_v_get (s - SM_HEADER_START - 1) p) p), Stay)
           else Inr (p, Advance)
         else if s = SM_HEADER_SEPARATOR then
           if c \<noteq> CHR '':'' then Inl Assert_Failed else Inr (set_state (s + 1) p, Advance)
         else if s = SM_HEADER_SP3 then
           if is_blank c then Inr (p, Advance)
           else if c = CR then Inr (set_state SM_HEADER_CR p, Advance)
           else if c = LF then Inr (set_state SM_HEADER_LF p, Stay)
           else Inr (set_state SM_HEADER_VALUE p, Advance)
         else if s = SM_HEADER_CR then
           if c \<noteq> LF then Inl Assert_Failed else Inr (set_state SM_HEADER_LF p, Stay)
         else if s = SM_HEADER_LF then
           check (c = LF) (header_line_end env p)
         else Inl Assert_Failed)"

lemma header_v_set_frame [simp]:
  "p_raw_size (header_v_set k x p) = p_raw_size p"
  "p_offset (header_v_set k x p) = p_offset p"
  "p_stateM (header_v_set k x p) = p_stateM p"
  "p_raw (header_v_set k x p) = p_raw p"
  by (simp_all add: header_v_set_def parser_setters)

lemma set_pos_frame [simp]:
  "p_raw_size (set_name_pos x p) = p_raw_size p" "p_offset (set_name_pos x p) = p_offset p"
  "p_raw_size (set_value_pos x p) = p_raw_size p" "p_offset (set_value_pos x p) = p_offset p"
  "p_raw (set_name_pos x p) = p_raw p" "p_raw (set_value_pos x p) = p_raw p"
  by (simp_all add: parser_setters)

text \<open>What the handlers of a header keep: the loop's variables and the length of \<open>raw\<close>.\<close>

definition same_loop :: "rtsp_parser \<Rightarrow> rtsp_parser \<Rightarrow> bool" where
  "same_loop p p' \<longleftrightarrow> p_raw_size p' = p_raw_size p \<and> p_offset p' = p_offset p
     \<and> p_stateM p' = p_stateM p \<and> length (p_raw p') = length (p_raw p)"

lemma same_loop_trans: "same_loop p q \<Longrightarrow> same_loop q r \<Longrightarrow> same_loop p r"
  by (simp add: same_loop_def)

lemma blank_range_wp [wp]:
  "(i < j \<Longrightarrow> length (p_raw p) < j \<Longrightarrow> Out_Of_Bounds \<in> F) \<Longrightarrow>
   (\<And>r. length r = length (p_raw p) \<Longrightarrow> \<forall>k \<ge> j. k < length r \<longrightarrow> r ! k = p_raw p ! k \<Longrightarrow>
      Q (p\<lparr>p_raw := r\<rparr>)) \<Longrightarrow>
   holds F Q (blank_range p i j)"
proof (cases "i < j \<and> j \<le> length (p_raw p)")
  case True
  assume "\<And>r. length r = length (p_raw p) \<Longrightarrow> \<forall>k \<ge> j. k < length r \<longrightarrow> r ! k = p_raw p ! k \<Longrightarrow>
      Q (p\<lparr>p_raw := r\<rparr>)"
  moreover have "\<forall>k \<ge> j. k < length (p_raw p) \<longrightarrow>
      (take i (p_raw p) @ replicate (j - i) SP @ drop j (p_raw p)) ! k = p_raw p ! k"
    using True by (auto simp: nth_append min_def)
  ultimately show ?thesis using True by (simp add: blank_range_def)
next
  case False
  assume "\<And>r. length r = length (p_raw p) \<Longrightarrow> \<forall>k \<ge> j. k < length r \<longrightarrow> r ! k = p_raw p ! k \<Longrightarrow>
      Q (p\<lparr>p_raw := r\<rparr>)"
    and "i < j \<Longrightarrow> length (p_raw p) < j \<Longrightarrow> Out_Of_Bounds \<in> F"
  with False this(1) [of "p_raw p"] show ?thesis by (auto simp: blank_range_def wr_block_def)
qed

lemma header_handler_same_loop:
  "holds UNIV (same_loop p) (rtsp_header_handler env p n v)"
  unfolding rtsp_header_handler_def is_transfer_encoding_chunked_def Let_def
  by (intro wp holds_cstr_at) (auto simp: same_loop_def)

lemma header_add_same_loop:
  "holds UNIV (\<lambda>r. case r of None \<Rightarrow> True | Some p' \<Rightarrow> same_loop p p') (rtsp_header_add env p h)"
  unfolding rtsp_header_add_def Let_def
  by (intro wp) (auto simp: same_loop_def)

lemma header_fold_same_loop: "holds UNIV (same_loop p) (header_fold env p)"
  unfolding header_fold_def Let_def
  by (intro wp holds_mono [OF header_handler_same_loop]) (auto simp: same_loop_def)

lemma header_step_loop: "holds UNIV (loop_out p) (header_step env p c)"
  unfolding header_step_def header_line_end_def Let_def
  by (intro wp holds_mono [OF header_add_same_loop] holds_mono [OF header_handler_same_loop]
      holds_mono [OF header_fold_same_loop]) (auto simp: same_loop_def)

function rtsp_parse_header_line :: "rtsp_env \<Rightarrow> rtsp_parser \<Rightarrow> (rtsp_parser \<times> int) res" where
  "rtsp_parse_header_line env p =
     (if p_offset p < p_raw_size p then
        (case step_at (header_step env) p of
           Inl e \<Rightarrow> Inl e
         | Inr (p', Stay) \<Rightarrow> rtsp_parse_header_line env p'
         | Inr (p', Advance) \<Rightarrow> rtsp_parse_header_line env (p'\<lparr>p_offset := p_offset p' + 1\<rparr>)
         | Inr (p', Return v) \<Rightarrow> Inr (p', v))
      else Inr (p, 0))"
  by pat_completeness auto
termination
  by (relation "inv_image loop_rel snd") (auto simp: loop_rel_wf loop_rel_at [OF header_step_loop])

declare rtsp_parse_header_line.simps [simp del]

section \<open>Chunked bodies\<close>

abbreviation (input) CHUNK_START :: nat where "CHUNK_START \<equiv> 200"
abbreviation (input) CHUNK_SIZE :: nat where "CHUNK_SIZE \<equiv> 201"
abbreviation (input) CHUNK_EXTENSION :: nat where "CHUNK_EXTENSION \<equiv> 202"
abbreviation (input) CHUNK_EXTENSION_CR :: nat where "CHUNK_EXTENSION_CR \<equiv> 203"
abbreviation (input) CHUNK_DATA :: nat where "CHUNK_DATA \<equiv> 204"
abbreviation (input) CHUNK_TRAILER_START :: nat where "CHUNK_TRAILER_START \<equiv> 205"
abbreviation (input) CHUNK_TRAILER :: nat where "CHUNK_TRAILER \<equiv> 206"
abbreviation (input) CHUNK_TRAILER_CR :: nat where "CHUNK_TRAILER_CR \<equiv> 207"
abbreviation (input) CHUNK_END :: nat where "CHUNK_END \<equiv> 208"
abbreviation (input) CHUNK_END_CR :: nat where "CHUNK_END_CR \<equiv> 209"

abbreviation chunk_offset :: "rtsp_parser \<Rightarrow> nat" where "chunk_offset p \<equiv> ck_offset (p_chunk p)"
abbreviation chunk_len :: "rtsp_parser \<Rightarrow> nat" where "chunk_len p \<equiv> ck_len (p_chunk p)"
abbreviation chunk_pos :: "rtsp_parser \<Rightarrow> nat" where "chunk_pos p \<equiv> ck_pos (p_chunk p)"

definition set_chunk_offset :: "nat \<Rightarrow> rtsp_parser \<Rightarrow> rtsp_parser" where
  "set_chunk_offset x = p_chunk_update (ck_offset_update (\<lambda>_. x))"
definition set_chunk_len :: "nat \<Rightarrow> rtsp_parser \<Rightarrow> rtsp_parser" where
  "set_chunk_len x = p_chunk_update (ck_len_update (\<lambda>_. x))"
definition set_chunk_pos :: "nat \<Rightarrow> rtsp_parser \<Rightarrow> rtsp_parser" where
  "set_chunk_pos x = p_chunk_update (ck_pos_update (\<lambda>_. x))"

text \<open>The end of a chunk-size line: \<open>pos = offset + 1; stateM = 0==len ? TRAILER_START : DATA\<close>.\<close>

definition chunk_size_end :: "rtsp_parser \<Rightarrow> rtsp_parser" where
  "chunk_size_end p =
     set_state (if chunk_len p = 0 then CHUNK_TRAILER_START else CHUNK_DATA)
       (set_chunk_pos (chunk_offset p + 1) p)"

definition size_t :: "nat \<Rightarrow> nat" where "size_t n = n mod 2 ^ 32"

text \<open>The case \<open>CHUNK_DATA\<close> (lines 813-832).\<close>

definition chunk_data :: "rtsp_parser \<Rightarrow> (rtsp_parser \<times> step_out) res" where
  "chunk_data p =
     check (chunk_len p > 0) (check (chunk_pos p \<noteq> 0)
     (if size_t (chunk_pos p + chunk_len p + 2) > p_raw_size p then Inr (p, Return 0)
      else
        bind (rd (p_raw p) (size_t (chunk_pos p + chunk_len p))) (\<lambda>c1.
        bind (rd (p_raw p) (size_t (chunk_pos p + chunk_len p + 1))) (\<lambda>c2.
        if c1 \<noteq> CR \<or> c2 \<noteq> LF then Inl Assert_Failed
        else
          bind (rd_block (p_raw p) (chunk_pos p) (chunk_len p)) (\<lambda>bs.
          bind (wr_block (p_raw p) (p_offset p + nat (p_content_length p)) bs) (\<lambda>r.
          bind (poke (p\<lparr>p_raw := r\<rparr>)
                  (p_offset p + nat (p_content_length p) + chunk_len p) NUL) (\<lambda>p.
          let p = set_state CHUNK_START
                    (p\<lparr>p_content_length := p_content_length p + int (chunk_len p)\<rparr>);
              p = set_chunk_offset (chunk_offset p + (chunk_len p + 1)) p
          in Inr (set_chunk_pos 0 (set_chunk_len 0 p), Advance))))))))"

definition chunk_step :: "rtsp_parser \<Rightarrow> char \<Rightarrow> (rtsp_parser \<times> step_out) res" where
  "chunk_step p c =
     (let s = p_stateM p
      in if s = CHUNK_START then
           check (chunk_len p = 0)
             (case hex_digit c of
                Some n \<Rightarrow> Inr (set_state CHUNK_SIZE (set_chunk_len n p), Advance)
              | None \<Rightarrow> Inl Assert_Failed)
         else if s = CHUNK_SIZE then
           (case hex_digit c of
              Some n \<Rightarrow> Inr (set_chunk_len (size_t (chunk_len p * 16 + n)) p, Advance)
            | None \<Rightarrow>
                if c = TAB \<or> c = SP \<or> c = CHR '';'' then Inr (set_state CHUNK_EXTENSION p, Advance)
                else if c = CR then Inr (set_state CHUNK_EXTENSION_CR p, Advance)
                else if c = LF then Inr (chunk_size_end p, Advance)
                else Inl Assert_Failed)
         else if s = CHUNK_EXTENSION then
           if c = CR then Inr (set_state CHUNK_EXTENSION_CR p, Advance)
           else if c = LF then Inr (chunk_size_end p, Advance)
           else Inr (p, Advance)
         else if s = CHUNK_EXTENSION_CR then
           if c \<noteq> LF then Inl Assert_Failed else Inr (chunk_size_end p, Advance)
         else if s = CHUNK_DATA then chunk_data p
         else if s = CHUNK_TRAILER_START then
           if c = CR then Inr (set_state CHUNK_END_CR p, Advance)
           else if c = LF then
             Inr (set_state SM_DONE (set_chunk_offset (chunk_offset p + 1) p), Return 0)
           else Inr (set_state CHUNK_TRAILER p, Advance)
         else if s = CHUNK_TRAILER then
           if c = CR then Inr (set_state CHUNK_TRAILER_CR p, Advance)
           else if c = LF then Inr (set_state CHUNK_TRAILER_START p, Advance)
           else Inr (p, Advance)
         else if s = CHUNK_TRAILER_CR then
           if c \<noteq> LF then Inl Assert_Failed else Inr (set_state CHUNK_TRAILER_START p, Advance)
         else if s = CHUNK_END then
           if c = CR then Inr (set_state CHUNK_END_CR p, Advance)
           else if c = LF then
             Inr (set_state SM_DONE (set_chunk_offset (chunk_offset p + 1) p), Return 0)
           else Inl Assert_Failed
         else if s = CHUNK_END_CR then
           if c \<noteq> LF then Inl Assert_Failed
           else Inr (set_state SM_DONE (set_chunk_offset (chunk_offset p + 1) p), Return 0)
         else Inr (p, Advance))"

definition chunk_out :: "rtsp_parser \<Rightarrow> rtsp_parser \<times> step_out \<Rightarrow> bool" where
  "chunk_out p r = (case r of
       (p', Return v) \<Rightarrow> True
     | (p', Advance) \<Rightarrow> p_raw_size p' = p_raw_size p \<and> chunk_offset p \<le> chunk_offset p'
     | (p', Stay) \<Rightarrow> False)"

lemmas chunk_setters = set_chunk_offset_def set_chunk_len_def set_chunk_pos_def chunk_size_end_def

lemma chunk_out_simps [simp]:
  "chunk_out p (p', Return v)" "\<not> chunk_out p (p', Stay)"
  "chunk_out p (p', Advance) \<longleftrightarrow> p_raw_size p' = p_raw_size p \<and> chunk_offset p \<le> chunk_offset p'"
  by (simp_all add: chunk_out_def)

lemma chunk_data_loop: "holds UNIV (chunk_out p) (chunk_data p)"
  unfolding chunk_data_def Let_def by (intro wp) (auto simp: chunk_setters parser_setters)

lemma chunk_step_loop: "holds UNIV (chunk_out p) (chunk_step p c)"
  unfolding chunk_step_def Let_def
  by (intro wp chunk_data_loop) (auto simp: chunk_setters parser_setters)

text \<open>The loop of \<open>rtsp_parse_chunked\<close> (line 720); its body has no \<open>Stay\<close>.\<close>

function chunk_loop :: "rtsp_parser \<Rightarrow> (rtsp_parser \<times> int) res" where
  "chunk_loop p =
     (if chunk_offset p < p_raw_size p then
        (case bind (rd (p_raw p) (chunk_offset p)) (chunk_step p) of
           Inl e \<Rightarrow> Inl e
         | Inr (p', Stay) \<Rightarrow> Inr (p', 0)
         | Inr (p', Advance) \<Rightarrow> chunk_loop (set_chunk_offset (chunk_offset p' + 1) p')
         | Inr (p', Return v) \<Rightarrow> Inr (p', v))
      else Inr (p, 0))"
  by pat_completeness auto
termination
proof (relation "measure (\<lambda>p. p_raw_size p - chunk_offset p)", goal_cases)
  case (2 p x p' out)
  then show ?case
    using chunk_step_loop [of p "p_raw p ! chunk_offset p"]
    by (auto simp: rd_def chunk_setters dest!: sym [of "Inr _"] split: if_splits)
qed simp

declare chunk_loop.simps [simp del]

definition rtsp_parse_chunked :: "rtsp_parser \<Rightarrow> (rtsp_parser \<times> int) res" where
  "rtsp_parse_chunked p =
     bind (is_transfer_encoding_chunked p) (\<lambda>chunked.
     check chunked
     (if chunk_offset p = 0 then
        check (p_content_length p = - 1)
          (chunk_loop ((set_chunk_offset (p_offset p) p)\<lparr>p_content_length := 0\<rparr>))
      else chunk_loop p))"

section \<open>The parser's operations\<close>

definition rtsp_parser_clear :: "rtsp_parser \<Rightarrow> rtsp_parser" where
  "rtsp_parser_clear p =
     p\<lparr>p_req := \<lparr>rq_method = \<lparr>rs_pos = 0, rs_len = 0\<rparr>, rq_uri = \<lparr>rs_pos = 0, rs_len = 0\<rparr>\<rparr>,
       p_reply := \<lparr>st_code = 0, st_reason = \<lparr>rs_pos = 0, rs_len = 0\<rparr>\<rparr>,
       p_chunk := \<lparr>ck_offset = 0, ck_len = 0, ck_pos = 0\<rparr>,
       p_stateM := SM_START_LINE, p_offset := 0, p_raw_size := 0, p_headers := [],
       p_content_length := - 1, p_connection_close := - 1,
       p_content_encoding := 0, p_transfer_encoding := 0, p_cookie := 0, p_location := 0\<rparr>"

text \<open>\<open>memset(rtsp, 0, sizeof(..))\<close> and \<open>rtsp_parser_clear\<close>; \<open>None\<close> when \<open>malloc\<close> fails.\<close>

definition zero_parser :: "rtsp_mode \<Rightarrow> rtsp_parser" where
  "zero_parser mode =
     \<lparr>p_raw = [], p_raw_size = 0, p_raw_capacity = 0, p_server_mode = mode, p_stateM = 0,
      p_offset = 0,
      p_header = \<lparr>h_name = \<lparr>rs_pos = 0, rs_len = 0\<rparr>, h_value = \<lparr>rs_pos = 0, rs_len = 0\<rparr>\<rparr>,
      p_chunk = \<lparr>ck_offset = 0, ck_len = 0, ck_pos = 0\<rparr>, p_verminor = 0, p_vermajor = 0,
      p_req = \<lparr>rq_method = \<lparr>rs_pos = 0, rs_len = 0\<rparr>, rq_uri = \<lparr>rs_pos = 0, rs_len = 0\<rparr>\<rparr>,
      p_reply = \<lparr>st_code = 0, st_reason = \<lparr>rs_pos = 0, rs_len = 0\<rparr>\<rparr>,
      p_headers = [], p_header_capacity = 0, p_content_length = 0, p_connection_close = 0,
      p_content_encoding = 0, p_transfer_encoding = 0, p_cookie = 0, p_location = 0\<rparr>"

definition rtsp_parser_create :: "bool \<Rightarrow> rtsp_mode \<Rightarrow> rtsp_parser option" where
  "rtsp_parser_create malloc_ok mode =
     (if malloc_ok then Some (rtsp_parser_clear (zero_parser mode)) else None)"

text \<open>What follows the parsing in \<open>rtsp_parser_input\<close> (lines 1008-1017): the result and \<open>*bytes\<close>.\<close>

definition input_result :: "rtsp_parser \<Rightarrow> int \<Rightarrow> nat \<Rightarrow> (rtsp_parser \<times> int \<times> int) res" where
  "input_result p r bytes =
     (if r < 0 then Inr (p, r, int bytes)
      else if p_stateM p = SM_DONE then
        check (p_content_length p < 0
            \<or> int (p_raw_size p - p_offset p) \<ge> p_content_length p)
          (Inr (p, 0, int (p_raw_size p - p_offset p)
             - (if p_content_length p \<ge> 0 then p_content_length p else 0)))
      else Inr (p, 1, 0))"

definition parse_start :: "rtsp_parser \<Rightarrow> (rtsp_parser \<times> int) res" where
  "parse_start p =
     (if p_stateM p < SM_HEADER
      then if is_server_mode p then rtsp_parse_request_line p else rtsp_parse_status_line p
      else Inr (p, 0))"

definition parse_headers :: "rtsp_env \<Rightarrow> rtsp_parser \<Rightarrow> int \<Rightarrow> (rtsp_parser \<times> int) res" where
  "parse_headers env p r =
     (if SM_HEADER \<le> p_stateM p \<and> p_stateM p < SM_BODY then rtsp_parse_header_line env p
      else Inr (p, r))"

definition parse_to_body :: "rtsp_env \<Rightarrow> rtsp_parser \<Rightarrow> (rtsp_parser \<times> int) res" where
  "parse_to_body env p = bind (parse_start p) (\<lambda>(p, r). parse_headers env p r)"

definition parse_body :: "rtsp_parser \<Rightarrow> int \<Rightarrow> (rtsp_parser \<times> int) res" where
  "parse_body p r =
     (if SM_BODY \<le> p_stateM p \<and> p_stateM p < SM_DONE then
        bind (is_transfer_encoding_chunked p) (\<lambda>chunked.
          if chunked then rtsp_parse_chunked p
          else if p_content_length p = - 1 then
            Inr ((set_state SM_DONE p)\<lparr>p_content_length := 0\<rparr>, r)
          else
            check (int (p_raw_size p) \<le> int (p_offset p) + p_content_length p)
              (Inr (if int (p_raw_size p) \<ge> int (p_offset p) + p_content_length p
                    then set_state SM_DONE p else p, r)))
      else Inr (p, r))"

text \<open>
  \<open>rtsp_parser_input\<close>: the result is the parser, the returned value and \<open>*bytes\<close>. An error
  of \<open>rtsp_rawdata\<close> is positive (\<open>E2BIG\<close>, \<open>ENOMEM\<close>), and line 970 asserts a negative one.
\<close>

definition rtsp_parser_input ::
  "rtsp_env \<Rightarrow> rtsp_parser \<Rightarrow> char list \<Rightarrow> (rtsp_parser \<times> int \<times> int) res" where
  "rtsp_parser_input env p data =
     bind (rtsp_rawdata env p data) (\<lambda>(p, r).
       if r \<noteq> 0 then check (r < 0) (Inr (p, r, int (length data)))
       else
         bind (parse_to_body env p) (\<lambda>(p, r).
         check (r \<le> 0)
         (bind (parse_body p r) (\<lambda>(p, r).
            input_result p r (length data)))))"

text \<open>
  \<open>rtsp_parser_destroy\<close>: \<open>raw\<close> is allocated when it has bytes, \<open>headers\<close> when it has capacity.
  The result is what is left before the parser itself is freed.
\<close>

definition rtsp_parser_destroy :: "rtsp_parser \<Rightarrow> rtsp_parser res" where
  "rtsp_parser_destroy p =
     bind (if p_raw p \<noteq> [] then check (p_raw_capacity p > 0)
             (Inr (p\<lparr>p_raw := [], p_raw_size := 0, p_raw_capacity := 0\<rparr>)) else Inr p) (\<lambda>p.
       Inr (if p_header_capacity p > 0
            then p\<lparr>p_headers := [], p_header_capacity := 0\<rparr> else p))"

definition rtsp_get_max_size :: "rtsp_env \<Rightarrow> int" where
  "rtsp_get_max_size env = sint (env_body_max_size env)"

definition rtsp_set_max_size :: "rtsp_env \<Rightarrow> 32 word \<Rightarrow> rtsp_env" where
  "rtsp_set_max_size env bytes = env\<lparr>env_body_max_size := bytes\<rparr>"

text \<open>The getters. A returned \<open>char *\<close> is its offset in \<open>raw\<close>, \<open>NULL\<close> is \<open>None\<close>.\<close>

definition rtsp_get_version :: "rtsp_parser \<Rightarrow> (int \<times> int) res" where
  "rtsp_get_version p = check (p_stateM p \<ge> SM_BODY) (Inr (p_vermajor p, p_verminor p))"

definition rtsp_get_status_code :: "rtsp_parser \<Rightarrow> int res" where
  "rtsp_get_status_code p =
     check (p_stateM p \<ge> SM_BODY) (check (\<not> is_server_mode p) (Inr (st_code (p_reply p))))"

definition rtsp_get_status_reason :: "rtsp_parser \<Rightarrow> nat res" where
  "rtsp_get_status_reason p =
     check (p_stateM p \<ge> SM_BODY) (check (\<not> is_server_mode p) (Inr (rs_pos (st_reason (p_reply p)))))"

definition rtsp_get_request_method :: "rtsp_parser \<Rightarrow> nat res" where
  "rtsp_get_request_method p =
     check (p_stateM p \<ge> SM_BODY) (check (is_server_mode p) (Inr (rs_pos (rq_method (p_req p)))))"

definition rtsp_get_request_uri :: "rtsp_parser \<Rightarrow> nat res" where
  "rtsp_get_request_uri p =
     check (p_stateM p \<ge> SM_BODY) (check (is_server_mode p) (Inr (rs_pos (rq_uri (p_req p)))))"

definition rtsp_get_content :: "rtsp_parser \<Rightarrow> nat res" where
  "rtsp_get_content p =
     check (p_stateM p \<ge> SM_BODY) (check (p_offset p \<le> p_raw_size p) (Inr (p_offset p)))"

definition rtsp_get_header_count :: "rtsp_parser \<Rightarrow> nat res" where
  "rtsp_get_header_count p = check (p_stateM p \<ge> SM_BODY) (Inr (length (p_headers p)))"

definition rtsp_get_header :: "rtsp_parser \<Rightarrow> int \<Rightarrow> (int + nat \<times> nat) res" where
  "rtsp_get_header p idx =
     check (p_stateM p \<ge> SM_BODY)
       (if idx < 0 \<or> idx \<ge> int (length (p_headers p)) then Inr (Inl EINVAL)
        else let h = p_headers p ! nat idx in Inr (Inr (rs_pos (h_name h), rs_pos (h_value h))))"

fun header_by_name :: "char list \<Rightarrow> rtsp_header list \<Rightarrow> char list \<Rightarrow> nat option res" where
  "header_by_name raw [] name = Inr None"
| "header_by_name raw (h # hs) name =
     bind (cstr_at raw (rs_pos (h_name h))) (\<lambda>n.
       if strcaseeq n name then Inr (Some (rs_pos (h_value h)))
       else header_by_name raw hs name)"

definition rtsp_get_header_by_name :: "rtsp_parser \<Rightarrow> char list \<Rightarrow> nat option res" where
  "rtsp_get_header_by_name p name =
     check (p_stateM p \<ge> SM_BODY) (header_by_name (p_raw p) (p_headers p) name)"

text \<open>\<open>None\<close> is the return \<open>-1\<close>.\<close>

definition rtsp_get_header_by_name2 :: "rtsp_parser \<Rightarrow> char list \<Rightarrow> int option res" where
  "rtsp_get_header_by_name2 p name =
     check (p_stateM p \<ge> SM_BODY)
     (bind (header_by_name (p_raw p) (p_headers p) name) (\<lambda>v.
        case v of None \<Rightarrow> Inr None
        | Some i \<Rightarrow> bind (cstr_at (p_raw p) i) (\<lambda>s. Inr (Some (atoi s)))))"

definition rtsp_get_content_length :: "rtsp_parser \<Rightarrow> int res" where
  "rtsp_get_content_length p =
     check (p_stateM p \<ge> SM_BODY)
       (if p_content_length p = - 1 then
          check (\<not> is_server_mode p) (Inr (int (p_raw_size p - p_offset p)))
        else Inr (p_content_length p))"

definition rtsp_get_connection :: "rtsp_parser \<Rightarrow> int res" where
  "rtsp_get_connection p = check (p_stateM p \<ge> SM_BODY) (Inr (p_connection_close p))"

definition field_or_null :: "nat \<Rightarrow> nat option" where
  "field_or_null i = (if i = 0 then None else Some i)"

definition rtsp_get_content_encoding :: "rtsp_parser \<Rightarrow> nat option res" where
  "rtsp_get_content_encoding p = check (p_stateM p \<ge> SM_BODY) (Inr (field_or_null (p_content_encoding p)))"

definition rtsp_get_transfer_encoding :: "rtsp_parser \<Rightarrow> nat option res" where
  "rtsp_get_transfer_encoding p = check (p_stateM p \<ge> SM_BODY) (Inr (field_or_null (p_transfer_encoding p)))"

definition rtsp_get_cookie :: "rtsp_parser \<Rightarrow> nat option res" where
  "rtsp_get_cookie p =
     check (p_stateM p \<ge> SM_BODY) (check (\<not> is_server_mode p) (Inr (field_or_null (p_cookie p))))"

definition rtsp_get_location :: "rtsp_parser \<Rightarrow> nat option res" where
  "rtsp_get_location p =
     check (p_stateM p \<ge> SM_BODY) (check (\<not> is_server_mode p) (Inr (field_or_null (p_location p))))"

end
