(* ===== verification/Rtsp_Safety.thy ===== *)
theory Rtsp_Safety
  imports Rtsp_Parser
begin

text \<open>
  Memory safety of \<open>src/src/common/rtsp-parser.c\<close>: an invariant of the parser between (and
  inside) calls, preserved on every input; the only fault outside chunked bodies is a
  failing \<open>assert\<close>. The three line parsers share the locale \<open>parse_loop\<close>.
\<close>


section \<open>Loops over the raw bytes\<close>

text \<open>
  What the three line parsers share: a loop over a step function that keeps the loop's
  variables. The rules of a loop (an invariant rule, and the evaluation of single steps) are
  proved once here.
\<close>

locale parse_loop =
  fixes step :: "rtsp_parser \<Rightarrow> char \<Rightarrow> (rtsp_parser \<times> step_out) res"
    and run :: "rtsp_parser \<Rightarrow> (rtsp_parser \<times> int) res"
  assumes step_loop: "holds UNIV (loop_out p) (step p c)"
    and run_eq: "run p =
      (if p_offset p < p_raw_size p then
         (case step_at step p of
            Inl e \<Rightarrow> Inl e
          | Inr (p', Stay) \<Rightarrow> run p'
          | Inr (p', Advance) \<Rightarrow> run (p'\<lparr>p_offset := p_offset p' + 1\<rparr>)
          | Inr (p', Return v) \<Rightarrow> Inr (p', v))
       else Inr (p, 0))"
begin

lemma run_invariant:
  assumes "I p"
    and step: "\<And>p c. I p \<Longrightarrow> p_offset p < p_raw_size p \<Longrightarrow> c = p_raw p ! p_offset p \<Longrightarrow>
      p_offset p < length (p_raw p) \<and>
      holds F (\<lambda>(p', out). case out of Stay \<Rightarrow> I p'
        | Advance \<Rightarrow> I (p'\<lparr>p_offset := p_offset p' + 1\<rparr>) | Return v \<Rightarrow> Q (p', v)) (step p c)"
    and stop: "\<And>p. I p \<Longrightarrow> \<not> p_offset p < p_raw_size p \<Longrightarrow> Q (p, 0)"
  shows "holds F Q (run p)"
  using \<open>I p\<close>
proof (induction p rule: wf_induct_rule [OF loop_rel_wf])
  case (1 p)
  show ?case
  proof (cases "p_offset p < p_raw_size p")
    case True
    note st = step [OF \<open>I p\<close> True refl]
    then have at: "step_at step p = step p (p_raw p ! p_offset p)" by (simp add: step_at_def)
    show ?thesis
    proof (cases "step_at step p")
      case (Inl e)
      then have "step p (p_raw p ! p_offset p) = Inl e" by (simp only: at)
      then have "e \<in> F" using st by simp
      with Inl True show ?thesis by (subst run_eq) simp
    next
      case (Inr po)
      obtain p' out where po: "po = (p', out)" by (cases po)
      have at2: "step p (p_raw p ! p_offset p) = Inr (p', out)" by (simp only: at [symmetric] Inr po)
      from st at2 have I: "case out of Stay \<Rightarrow> I p'
        | Advance \<Rightarrow> I (p'\<lparr>p_offset := p_offset p' + 1\<rparr>) | Return v \<Rightarrow> Q (p', v)" by (cases out; simp)
      show ?thesis
        using True I 1(1) loop_rel_at [of step p p', OF step_loop True] Inr [unfolded po]
        by (subst run_eq) (cases out; simp)
    qed
  next
    case False
    with stop \<open>I p\<close> show ?thesis by (subst run_eq) simp
  qed
qed

lemma run_stop: "p_raw_size p \<le> p_offset p \<Longrightarrow> run p = Inr (p, 0)"
  by (subst run_eq) simp

lemma run_step:
  assumes "p_offset p < p_raw_size p" and "p_offset p < length (p_raw p)"
  shows "step p (p_raw p ! p_offset p) = Inr (p', Stay) \<Longrightarrow> run p = run p'"
    and "step p (p_raw p ! p_offset p) = Inr (p', Advance) \<Longrightarrow>
      run p = run (p'\<lparr>p_offset := p_offset p' + 1\<rparr>)"
    and "step p (p_raw p ! p_offset p) = Inr (p', Return v) \<Longrightarrow> run p = Inr (p', v)"
    and "step p (p_raw p ! p_offset p) = Inl e \<Longrightarrow> run p = Inl e"
  using assms by (subst run_eq; simp add: step_at_def)+

text \<open>A run of bytes the current state skips.\<close>

lemma run_skip:
  assumes "p_offset p + k \<le> p_raw_size p" and "p_offset p + k \<le> length (p_raw p)"
    and "\<And>i. i < k \<Longrightarrow> step (p\<lparr>p_offset := p_offset p + i\<rparr>) (p_raw p ! (p_offset p + i)) =
      Inr (p\<lparr>p_offset := p_offset p + i\<rparr>, Advance)"
  shows "run p = run (p\<lparr>p_offset := p_offset p + k\<rparr>)"
  using assms
proof (induction k)
  case (Suc k)
  let ?p = "p\<lparr>p_offset := p_offset p + k\<rparr>"
  have "run p = run ?p" using Suc by simp
  also have "\<dots> = run (?p\<lparr>p_offset := p_offset ?p + 1\<rparr>)"
    using Suc.prems by (intro run_step(2)) auto
  finally show ?case by simp
qed simp

end

interpretation request: parse_loop request_step rtsp_parse_request_line
  by unfold_locales (rule request_step_loop, rule rtsp_parse_request_line.simps)

interpretation status: parse_loop status_step rtsp_parse_status_line
  by unfold_locales (rule status_step_loop, rule rtsp_parse_status_line.simps)

interpretation headers: parse_loop "header_step env" "rtsp_parse_header_line env" for env
  by unfold_locales (rule header_step_loop, rule rtsp_parse_header_line.simps)

section \<open>The invariant\<close>

text \<open>The raw bytes are terminated, and the allocation stays below 114 MB.\<close>

definition raw_ok :: "rtsp_parser \<Rightarrow> bool" where
  "raw_ok p \<longleftrightarrow> terminated (p_raw p) (p_raw_size p)
     \<and> length (p_raw p) \<le> p_raw_capacity p \<and> p_raw_capacity p \<le> 114 * MB"

definition string_in :: "nat \<Rightarrow> rtsp_string \<Rightarrow> bool" where
  "string_in e s \<longleftrightarrow> rs_pos s + rs_len s \<le> e"

definition header_in :: "nat \<Rightarrow> rtsp_header \<Rightarrow> bool" where
  "header_in e h \<longleftrightarrow> string_in e (h_name h) \<and> string_in e (h_value h)"

text \<open>Where the fields of the line being parsed are, state by state.\<close>

definition request_fields :: "rtsp_parser \<Rightarrow> bool" where
  "request_fields p \<longleftrightarrow>
     (let s = p_stateM p; e = p_offset p
      in (s = 1 \<longrightarrow> rs_pos (rq_method (p_req p)) \<le> e) \<and> (s \<ge> 2 \<longrightarrow> string_in e (rq_method (p_req p)))
       \<and> (s = 3 \<longrightarrow> rs_pos (rq_uri (p_req p)) \<le> e) \<and> (s \<ge> 4 \<longrightarrow> string_in e (rq_uri (p_req p)))
       \<and> (s \<ge> 5 \<longrightarrow> name_pos p \<le> e))"

definition status_fields :: "rtsp_parser \<Rightarrow> bool" where
  "status_fields p \<longleftrightarrow>
     (let s = p_stateM p; e = p_offset p
      in (s \<ge> 1 \<longrightarrow> name_pos p \<le> e)
       \<and> (s = 3 \<longrightarrow> value_pos p \<le> e) \<and> (s \<ge> 4 \<longrightarrow> string_in e (h_value (p_header p)))
       \<and> (s = 5 \<longrightarrow> rs_pos (st_reason (p_reply p)) \<le> e) \<and> (s \<ge> 6 \<longrightarrow> string_in e (st_reason (p_reply p))))"

definition header_fields :: "rtsp_parser \<Rightarrow> bool" where
  "header_fields p \<longleftrightarrow>
     (let s = p_stateM p; e = p_offset p;
          name = (name_pos p = 0 \<or> string_in e (h_name (p_header p)));
          after = (\<forall>h \<in> set (p_headers p). rs_pos (h_value h) \<le> value_pos p)
      in (s = 101 \<longrightarrow> name_pos p \<le> e) \<and> (102 \<le> s \<and> s \<le> 106 \<longrightarrow> name)
       \<and> (s = 105 \<longrightarrow> value_pos p \<le> e \<and> after)
       \<and> (s = 106 \<longrightarrow> after \<and> string_in e (h_value (p_header p)))
       \<and> (107 \<le> s \<and> s \<le> 108 \<longrightarrow> value_pos p = 0 \<or> name \<and> after \<and> string_in e (h_value (p_header p))))"

definition chunk_fields :: "rtsp_parser \<Rightarrow> bool" where
  "chunk_fields p \<longleftrightarrow> (p_stateM p = CHUNK_DATA \<longrightarrow> chunk_offset p \<noteq> 0) \<and> (chunk_offset p \<noteq> 0 \<longrightarrow>
     p_content_length p \<ge> 0 \<and> p_offset p + nat (p_content_length p) \<le> chunk_offset p
     \<and> (p_stateM p = CHUNK_DATA \<longrightarrow> chunk_pos p = chunk_offset p))"

definition base_ok :: "rtsp_parser \<Rightarrow> bool" where
  "base_ok p \<longleftrightarrow> raw_ok p \<and> p_offset p \<le> p_raw_size p \<and> p_transfer_encoding p \<le> p_raw_size p
     \<and> list_all (header_in (p_offset p)) (p_headers p) \<and> length (p_headers p) \<le> p_header_capacity p"

definition start_ok :: "rtsp_parser \<Rightarrow> bool" where
  "start_ok p \<longleftrightarrow> p_stateM p \<le> 8 \<and> chunk_offset p = 0
     \<and> (if is_server_mode p then request_fields p else status_fields p)"

definition headers_ok :: "rtsp_parser \<Rightarrow> bool" where
  "headers_ok p \<longleftrightarrow> SM_HEADER \<le> p_stateM p \<and> p_stateM p \<le> 108 \<and> chunk_offset p = 0 \<and> header_fields p"

definition body_ok :: "rtsp_parser \<Rightarrow> bool" where
  "body_ok p \<longleftrightarrow> SM_BODY \<le> p_stateM p \<and> p_stateM p \<le> SM_DONE \<and> chunk_fields p"

definition parser_ok :: "rtsp_parser \<Rightarrow> bool" where
  "parser_ok p \<longleftrightarrow> base_ok p \<and> (start_ok p \<or> headers_ok p \<or> body_ok p)"

lemma header_in_mono: "list_all (header_in e) hs \<Longrightarrow> e \<le> e' \<Longrightarrow> list_all (header_in e') hs"
  by (fastforce simp: list_all_iff header_in_def string_in_def)

lemma base_ok_Suc [simp]:
  "base_ok p \<Longrightarrow> p_offset p < p_raw_size p \<Longrightarrow> base_ok (p\<lparr>p_offset := Suc (p_offset p)\<rparr>)"
  by (auto simp: base_ok_def raw_ok_def elim: header_in_mono)

lemma base_ok_poke [simp]: "base_ok p \<Longrightarrow> base_ok (p\<lparr>p_raw := (p_raw p)[i := NUL]\<rparr>)"
  by (auto simp: base_ok_def raw_ok_def)

lemma base_ok_setters [simp]:
  "base_ok (set_state s p) = base_ok p" "base_ok (status_v_set k x p) = base_ok p"
  "base_ok (request_v_set k x p) = base_ok p" "base_ok (header_v_set k x p) = base_ok p"
  "base_ok (set_name_pos x p) = base_ok p" "base_ok (set_value_pos x p) = base_ok p"
  "base_ok (set_name_len x p) = base_ok p" "base_ok (set_value_len x p) = base_ok p"
  "base_ok (set_version v p) = base_ok p"
  by (simp_all add: base_ok_def raw_ok_def parser_setters status_v_set_def request_v_set_def header_v_set_def)

lemma chunk_setters_frame [simp]:
  "p_chunk (set_state s p) = p_chunk p" "p_chunk (status_v_set k x p) = p_chunk p"
  "p_chunk (request_v_set k x p) = p_chunk p" "p_chunk (header_v_set k x p) = p_chunk p"
  "p_chunk (set_name_pos x p) = p_chunk p" "p_chunk (set_value_pos x p) = p_chunk p"
  "p_chunk (set_version v p) = p_chunk p"
  by (simp_all add: parser_setters status_v_set_def request_v_set_def header_v_set_def)

lemma mode_setters [simp]:
  "is_server_mode (set_state s p) = is_server_mode p" "is_server_mode (status_v_set k x p) = is_server_mode p"
  "is_server_mode (request_v_set k x p) = is_server_mode p" "is_server_mode (header_v_set k x p) = is_server_mode p"
  "is_server_mode (set_version v p) = is_server_mode p"
  "is_server_mode (p\<lparr>p_offset := x\<rparr>) = is_server_mode p" "is_server_mode (p\<lparr>p_raw := r\<rparr>) = is_server_mode p"
  by (simp_all add: is_server_mode_def parser_setters status_v_set_def request_v_set_def header_v_set_def)

definition step_ok :: "(rtsp_parser \<Rightarrow> bool) \<Rightarrow> rtsp_parser \<times> step_out \<Rightarrow> bool" where
  "step_ok I r = (case r of
       (p', Stay) \<Rightarrow> I p' | (p', Advance) \<Rightarrow> I (p'\<lparr>p_offset := p_offset p' + 1\<rparr>)
     | (p', Return v) \<Rightarrow> parser_ok p' \<and> v \<le> 0)"

lemma step_ok_simps [simp]:
  "step_ok I (p', Stay) = I p'" "step_ok I (p', Return v) = (parser_ok p' \<and> v \<le> 0)"
  "step_ok I (p', Advance) = I (p'\<lparr>p_offset := Suc (p_offset p')\<rparr>)"
  by (simp_all add: step_ok_def)

definition start_inv :: "bool \<Rightarrow> rtsp_parser \<Rightarrow> bool" where
  "start_inv m p \<longleftrightarrow> base_ok p \<and> p_stateM p \<le> 8 \<and> chunk_offset p = 0 \<and> is_server_mode p = m
     \<and> (if m then request_fields p else status_fields p)"

lemma status_fields_step:
  assumes "status_fields p" and "p_stateM p \<le> 8"
  shows "s = 0 \<or> s = 2 \<or> s = 4 \<Longrightarrow> p_stateM p = s \<Longrightarrow>
      status_fields (set_state (Suc s) (status_v_set s (p_offset p) p))"
    and "s = 1 \<or> s = 3 \<or> s = 5 \<Longrightarrow> p_stateM p = s \<Longrightarrow>
      status_fields (set_state (Suc s) (status_v_set s (p_offset p - status_v_get (s - 1) p) p))"
    and "6 \<le> p_stateM p \<Longrightarrow> 5 \<le> s \<Longrightarrow> status_fields (set_state s p)"
    and "status_fields (p\<lparr>p_offset := Suc (p_offset p)\<rparr>)"
proof -
  show "s = 0 \<or> s = 2 \<or> s = 4 \<Longrightarrow> p_stateM p = s \<Longrightarrow>
      status_fields (set_state (Suc s) (status_v_set s (p_offset p) p))"
    using assms by (elim disjE) (simp_all add: status_fields_def Let_def status_v_set_def status_v_get_def parser_setters string_in_def)
  show "s = 1 \<or> s = 3 \<or> s = 5 \<Longrightarrow> p_stateM p = s \<Longrightarrow>
      status_fields (set_state (Suc s) (status_v_set s (p_offset p - status_v_get (s - 1) p) p))"
    using assms by (elim disjE) (simp_all add: status_fields_def Let_def status_v_set_def status_v_get_def parser_setters string_in_def)
  show "6 \<le> p_stateM p \<Longrightarrow> 5 \<le> s \<Longrightarrow> status_fields (set_state s p)"
    and "status_fields (p\<lparr>p_offset := Suc (p_offset p)\<rparr>)"
    using assms by (auto simp: status_fields_def Let_def status_v_set_def status_v_get_def parser_setters string_in_def)
qed

lemma request_fields_step:
  assumes "request_fields p" and "p_stateM p \<le> 8"
  shows "s = 0 \<or> s = 2 \<or> s = 4 \<Longrightarrow> p_stateM p = s \<Longrightarrow>
      request_fields (set_state (Suc s) (request_v_set s (p_offset p) p))"
    and "s = 1 \<or> s = 3 \<or> s = 5 \<Longrightarrow> p_stateM p = s \<Longrightarrow>
      request_fields (set_state (Suc s) (request_v_set s (p_offset p - request_v_get (s - 1) p) p))"
    and "6 \<le> p_stateM p \<Longrightarrow> 5 \<le> s \<Longrightarrow> request_fields (set_state s p)"
    and "request_fields (p\<lparr>p_offset := Suc (p_offset p)\<rparr>)"
proof -
  show "s = 0 \<or> s = 2 \<or> s = 4 \<Longrightarrow> p_stateM p = s \<Longrightarrow>
      request_fields (set_state (Suc s) (request_v_set s (p_offset p) p))"
    using assms by (elim disjE) (simp_all add: request_fields_def Let_def request_v_set_def request_v_get_def parser_setters string_in_def)
  show "s = 1 \<or> s = 3 \<or> s = 5 \<Longrightarrow> p_stateM p = s \<Longrightarrow>
      request_fields (set_state (Suc s) (request_v_set s (p_offset p - request_v_get (s - 1) p) p))"
    using assms by (elim disjE) (simp_all add: request_fields_def Let_def request_v_set_def request_v_get_def parser_setters string_in_def)
  show "6 \<le> p_stateM p \<Longrightarrow> 5 \<le> s \<Longrightarrow> request_fields (set_state s p)"
    and "request_fields (p\<lparr>p_offset := Suc (p_offset p)\<rparr>)"
    using assms by (auto simp: request_fields_def Let_def request_v_set_def request_v_get_def parser_setters string_in_def)
qed


lemma base_okD:
  "base_ok p \<Longrightarrow> terminated (p_raw p) (p_raw_size p)"
  "base_ok p \<Longrightarrow> p_raw_size p < length (p_raw p)"
  "base_ok p \<Longrightarrow> p_offset p \<le> p_raw_size p"
  by (auto simp: base_ok_def raw_ok_def terminated_def)

lemma status_line_end_ok:
  assumes "base_ok p" "status_fields p" "p_stateM p = 8" "chunk_offset p = 0" "p_offset p < p_raw_size p"
  shows "holds {Assert_Failed} (step_ok I) (status_line_end p)"
proof -
  have st: "value_pos p + value_len p \<le> p_offset p" "name_pos p \<le> p_offset p"
      "rs_pos (st_reason (p_reply p)) + rs_len (st_reason (p_reply p)) \<le> p_offset p"
    using assms(2,3) by (simp_all add: status_fields_def Let_def string_in_def)
  note b = base_okD [OF assms(1)]
  let ?w = "\<lambda>v x. (set_state 100 (p_reply_update (st_code_update (\<lambda>_. v)) x))"
  have fin: "parser_ok ((set_state 100 (p_reply_update f (set_version v p\<lparr>p_raw := r\<rparr>)))\<lparr>p_offset := Suc (p_offset p)\<rparr>)"
    if "terminated r (p_raw_size p)" "length r = length (p_raw p)" for r f v
    using base_ok_Suc [OF assms(1,5)] that assms(4)
    by (simp add: parser_ok_def headers_ok_def base_ok_def raw_ok_def header_fields_def parser_setters)
  show ?thesis
    unfolding status_line_end_def Let_def
    using st b assms(5) 
    by (intro wp holds_cstr_terminated [where n = "p_raw_size p"])
      (simp_all add: set_version_def fin [unfolded set_version_def])
qed

lemma request_line_end_ok:
  assumes "base_ok p" "request_fields p" "p_stateM p = 8" "chunk_offset p = 0" "p_offset p < p_raw_size p"
  shows "holds {Assert_Failed} (step_ok I) (request_line_end p)"
proof -
  have st: "rs_pos (rq_method (p_req p)) + rs_len (rq_method (p_req p)) \<le> p_offset p" "name_pos p \<le> p_offset p"
      "rs_pos (rq_uri (p_req p)) + rs_len (rq_uri (p_req p)) \<le> p_offset p"
    using assms(2,3) by (simp_all add: request_fields_def Let_def string_in_def)
  note b = base_okD [OF assms(1)]
  have fin: "parser_ok ((set_state 100 (set_version v (p\<lparr>p_raw := r\<rparr>)))\<lparr>p_offset := Suc (p_offset p)\<rparr>)"
    if "terminated r (p_raw_size p)" "length r = length (p_raw p)" for r v
    using base_ok_Suc [OF assms(1,5)] that assms(4)
    by (simp add: parser_ok_def headers_ok_def base_ok_def raw_ok_def header_fields_def parser_setters)
  show ?thesis
    unfolding request_line_end_def Let_def
    using st b assms(5) 
    by (intro wp holds_cstr_terminated [where n = "p_raw_size p"])
      (simp_all add: set_version_def fin [unfolded set_version_def])
qed

lemma upto_8: "s \<le> 8 \<Longrightarrow> s = 0 \<or> s = 1 \<or> s = 2 \<or> s = 3 \<or> s = 4 \<or> s = 5 \<or> s = 6 \<or> s = 7 \<or> s = (8::nat)"
  by linarith

lemma status_step_ok:
  assumes "start_inv False p" "p_offset p < p_raw_size p"
  shows "holds {Assert_Failed} (step_ok (start_inv False)) (status_step p c)"
proof -
  have p: "base_ok p" "status_fields p" "p_stateM p \<le> 8" "chunk_offset p = 0" "\<not> is_server_mode p"
    using assms(1) by (simp_all add: start_inv_def)
  note step = status_fields_step [OF p(2,3)] status_line_end_ok [OF p(1,2) _ p(4) assms(2)]
  have more: "status_fields (set_state 7 p\<lparr>p_offset := Suc (p_offset p)\<rparr>)"
    "status_fields (set_state 5 p\<lparr>p_offset := Suc (p_offset p)\<rparr>)" if "p_stateM p = 6"
    using p(2) that by (auto simp: status_fields_def Let_def set_state_def string_in_def)
  show ?thesis
    using upto_8 [OF p(3)]
    by (elim disjE; simp add: status_step_def check_def)
      (use p assms(2) step step(1) [of 0] step(1) [of 2] step(1) [of 4] step(2) [of 1] step(2) [of 3]
        step(2) [of 5] step(3) [of 8] base_ok_Suc [OF p(1) assms(2)] more
        base_ok_Suc [of "set_state 7 p"] base_ok_Suc [of "set_state 5 p"]
       in \<open>simp_all add: start_inv_def\<close>)
qed

lemma request_step_ok:
  assumes "start_inv True p" "p_offset p < p_raw_size p"
  shows "holds {Assert_Failed} (step_ok (start_inv True)) (request_step p c)"
proof -
  have p: "base_ok p" "request_fields p" "p_stateM p \<le> 8" "chunk_offset p = 0" "is_server_mode p"
    using assms(1) by (simp_all add: start_inv_def)
  note step = request_fields_step [OF p(2,3)] request_line_end_ok [OF p(1,2) _ p(4) assms(2)]
  have more: "request_fields (set_state 7 p\<lparr>p_offset := Suc (p_offset p)\<rparr>)"
    "request_fields (set_state 5 p\<lparr>p_offset := Suc (p_offset p)\<rparr>)" if "p_stateM p = 6"
    using p(2) that by (auto simp: request_fields_def Let_def set_state_def string_in_def)
  show ?thesis
    using upto_8 [OF p(3)]
    by (elim disjE; simp add: request_step_def check_def)
      (use p assms(2) step step(1) [of 0] step(1) [of 2] step(1) [of 4] step(2) [of 1] step(2) [of 3]
        step(2) [of 5] step(3) [of 8] base_ok_Suc [OF p(1) assms(2)] more
        base_ok_Suc [of "set_state 7 p"] base_ok_Suc [of "set_state 5 p"]
       in \<open>simp_all add: start_inv_def\<close>)
qed

lemma start_inv_parser_ok: "start_inv m p \<Longrightarrow> parser_ok p"
  by (simp add: start_inv_def parser_ok_def start_ok_def split: if_splits)

lemma step_ok_cases:
  "step_ok I r = (case r of (p', out) \<Rightarrow> case out of Stay \<Rightarrow> I p'
     | Advance \<Rightarrow> I (p'\<lparr>p_offset := p_offset p' + 1\<rparr>) | Return v \<Rightarrow> parser_ok p' \<and> v \<le> 0)"
  by (cases r; cases "snd r"; simp)

context parse_loop
begin

lemma run_ok:
  assumes "I p" and "\<And>p. I p \<Longrightarrow> parser_ok p"
    and "\<And>p c. I p \<Longrightarrow> p_offset p < p_raw_size p \<Longrightarrow> holds F (step_ok I) (step p c)"
  shows "holds F (\<lambda>(p', v). parser_ok p' \<and> v \<le> 0) (run p)"
proof (rule run_invariant [where I = I])
  fix p c assume I: "I p" and o: "p_offset p < p_raw_size p"
  have "base_ok p" using assms(2) [OF I] by (simp add: parser_ok_def)
  then have "p_offset p < length (p_raw p)" using o base_okD(2) by fastforce
  moreover have "(\<lambda>r. step_ok I r) = (\<lambda>(p', out). case out of Stay \<Rightarrow> I p'
      | Advance \<Rightarrow> I (p'\<lparr>p_offset := p_offset p' + 1\<rparr>) | Return v \<Rightarrow> (case (p', v) of (p', v) \<Rightarrow> parser_ok p' \<and> v \<le> 0))"
    by (simp add: step_ok_cases fun_eq_iff)
  ultimately show "p_offset p < length (p_raw p) \<and> holds F (\<lambda>(p', out). case out of Stay \<Rightarrow> I p'
      | Advance \<Rightarrow> I (p'\<lparr>p_offset := p_offset p' + 1\<rparr>)
      | Return v \<Rightarrow> (case (p', v) of (p', v) \<Rightarrow> parser_ok p' \<and> v \<le> 0)) (step p c)"
    using assms(3) [OF I o, of c] by simp
qed (use assms in auto)

end

lemma parse_start_ok:
  assumes "parser_ok p"
  shows "holds {Assert_Failed} (\<lambda>(p', v). parser_ok p' \<and> v \<le> 0) (parse_start p)"
proof (cases "p_stateM p < 100")
  case True
  then have "start_inv (is_server_mode p) p"
    using assms by (auto simp: parser_ok_def start_ok_def headers_ok_def body_ok_def start_inv_def)
  then show ?thesis
    using True status.run_ok [of "start_inv False" p] status_step_ok
      request.run_ok [of "start_inv True" p] request_step_ok start_inv_parser_ok
    by (cases "is_server_mode p") (simp_all add: parse_start_def)
next
  case False
  with assms show ?thesis by (simp add: parse_start_def)
qed

section \<open>Headers\<close>

definition header_inv :: "rtsp_parser \<Rightarrow> bool" where
  "header_inv p \<longleftrightarrow> base_ok p \<and> headers_ok p"

text \<open>What the handlers of a header keep besides the buffer's shape.\<close>

definition handler_keeps :: "rtsp_parser \<Rightarrow> rtsp_parser \<Rightarrow> bool" where
  "handler_keeps p p' \<longleftrightarrow> p_offset p' = p_offset p \<and> p_raw_size p' = p_raw_size p
     \<and> p_stateM p' = p_stateM p \<and> p_chunk p' = p_chunk p \<and> length (p_raw p') = length (p_raw p)"

lemma header_handler_ok:
  assumes "base_ok p" "n \<le> p_raw_size p" "v \<le> p_raw_size p"
  shows "holds {Assert_Failed} (\<lambda>p'. base_ok p' \<and> handler_keeps p p') (rtsp_header_handler env p n v)"
proof -
  have t: "terminated (p_raw p) (p_raw_size p)" "p_raw_size p < length (p_raw p)"
      "p_transfer_encoding p \<le> p_raw_size p"
    using assms base_okD by (simp_all add: base_ok_def)
  have up: "base_ok (p\<lparr>p_content_length := x1\<rparr>)" "base_ok (p\<lparr>p_connection_close := x1\<rparr>)"
      "base_ok (p\<lparr>p_content_encoding := x2\<rparr>)" "base_ok (p\<lparr>p_cookie := x2\<rparr>)" "base_ok (p\<lparr>p_location := x2\<rparr>)"
      "base_ok (p\<lparr>p_transfer_encoding := v\<rparr>)"
      "base_ok (p\<lparr>p_transfer_encoding := v, p_raw := (p_raw p)[i := NUL]\<rparr>)" for x1 x2 i
    using assms by (auto simp: base_ok_def raw_ok_def)
  have len: "strncaseeq 7 ''chunked'' s \<Longrightarrow> 7 \<le> length s" for s
    by (drule arg_cong [where f = length, OF strncaseeq_def [THEN iffD1, unfolded strcaseeq_def]])
      (simp add: min_def split: if_splits)
  show ?thesis
    unfolding rtsp_header_handler_def is_transfer_encoding_chunked_def Let_def
    using assms t
    by (intro wp holds_cstr_terminated [where n = "p_raw_size p"])
      (auto simp: up handler_keeps_def dest: len)
qed

lemma header_add_ok:
  assumes "base_ok p" "header_in (p_offset p) h" "p_offset p < p_raw_size p"
  shows "holds {Assert_Failed}
    (\<lambda>r. case r of None \<Rightarrow> True | Some p' \<Rightarrow> base_ok p' \<and> handler_keeps p p' \<and> p_header p' = p_header p)
    (rtsp_header_add env p h)"
proof -
  note b = base_okD [OF assms(1)]
  have h: "rs_pos (h_name h) + rs_len (h_name h) \<le> p_offset p"
      "rs_pos (h_value h) + rs_len (h_value h) \<le> p_offset p"
      "length (p_headers p) \<le> p_header_capacity p"
    using assms by (simp_all add: header_in_def string_in_def base_ok_def)
  have up: "base_ok (p\<lparr>p_header_capacity := c, p_raw := (p_raw p)[i := NUL, j := NUL],
        p_headers := p_headers p @ [h]\<rparr>)" if "length (p_headers p) < c" for c i j
    using assms(1,2) that by (auto simp: base_ok_def raw_ok_def)
  have up': "base_ok (p\<lparr>p_raw := (p_raw p)[i := NUL, j := NUL], p_headers := p_headers p @ [h]\<rparr>)"
    if "length (p_headers p) < p_header_capacity p" for i j
    using up [OF that, of i j] by simp
  have grow: "length (p_headers p) < (if p_header_capacity p < 16 then 16 else length (p_headers p) * 3 div 2)"
    if "p_header_capacity p \<le> Suc (length (p_headers p))"
    using h(3) that by (auto simp: not_less)
  show ?thesis
    unfolding rtsp_header_add_def Let_def
    using h b assms(3)
    by (intro wp) (auto simp: handler_keeps_def up up' simp del: if_split dest: grow)
qed

lemma blank_range_terminated:
  "terminated (p_raw p) n \<Longrightarrow> j \<le> n \<Longrightarrow> length r = length (p_raw p) \<Longrightarrow>
   \<forall>k \<ge> j. k < length r \<longrightarrow> r ! k = p_raw p ! k \<Longrightarrow> terminated r n"
  by (simp add: terminated_def)

text \<open>A folded line: the last header now ends where the folded value ends.\<close>

lemma header_fold_ok:
  assumes "base_ok p" "p_offset p < p_raw_size p"
    and "value_pos p + value_len p \<le> p_offset p"
    and "\<forall>h \<in> set (p_headers p). rs_pos (h_value h) \<le> value_pos p"
  shows "holds {Assert_Failed} (\<lambda>p'. base_ok p' \<and> handler_keeps p p') (header_fold env p)"
proof (cases "p_headers p = []")
  case True
  then show ?thesis by (simp add: header_fold_def)
next
  case False
  define h where "h = last (p_headers p)"
  define h' where "h' = h_value_update (rs_len_update (\<lambda>_. value_pos p - rs_pos (h_value h) + value_len p)) h"
  have "h \<in> set (p_headers p)" using False by (simp add: h_def)
  then have h: "rs_pos (h_value h) \<le> value_pos p" "header_in (p_offset p) h"
    using assms by (auto simp: base_ok_def list_all_iff)
  then have pos: "rs_pos (h_name h') \<le> p_offset p" "rs_pos (h_value h') \<le> p_offset p"
      "rs_pos (h_value h') + rs_len (h_value h') \<le> p_offset p" "header_in (p_offset p) h'"
    using assms(3) by (auto simp: h'_def header_in_def string_in_def)
  note b = base_okD [OF assms(1)]
  have up: "base_ok (p\<lparr>p_headers := butlast (p_headers p) @ [h'], p_raw := r[i := NUL]\<rparr>)"
    if "terminated r (p_raw_size p)" "length r = length (p_raw p)" for r i
    using assms(1) that pos(4) False
    by (auto simp: base_ok_def raw_ok_def list_all_iff dest: in_set_butlastD)
  have keeps: "handler_keeps (p\<lparr>p_headers := hs, p_raw := r[i := NUL]\<rparr>) p' \<Longrightarrow>
      length r = length (p_raw p) \<Longrightarrow> handler_keeps p p'" for r i hs p'
    by (simp add: handler_keeps_def)
  have hh: "holds {Assert_Failed} (\<lambda>p'. base_ok p' \<and> handler_keeps p p')
      (rtsp_header_handler env (p\<lparr>p_headers := butlast (p_headers p) @ [h'], p_raw := r[i := NUL]\<rparr>)
        (rs_pos (h_name h')) (rs_pos (h_value h')))"
    if "terminated r (p_raw_size p)" "length r = length (p_raw p)" for r i
    using header_handler_ok [OF up [OF that, of i], of "rs_pos (h_name h')" "rs_pos (h_value h')" env] pos b
    by (auto elim!: holds_mono intro: keeps [OF _ that(2)])
  have "\<And>r. length r = length (p_raw p) \<Longrightarrow> \<forall>k \<ge> value_pos p. k < length r \<longrightarrow> r ! k = p_raw p ! k \<Longrightarrow>
      terminated r (p_raw_size p)"
    using blank_range_terminated [OF b(1), of "value_pos p"] assms(2,3) b(3) by simp
  then show ?thesis
    unfolding header_fold_def Let_def h_def [symmetric]
    using False b assms(2,3) pos
    by (intro wp) (auto simp: h'_def [symmetric] hh)
qed

lemma handler_keeps_base:
  "base_ok p \<Longrightarrow> handler_keeps q p \<Longrightarrow> p_offset q < p_raw_size q \<Longrightarrow>
   base_ok (p\<lparr>p_offset := Suc (p_offset p)\<rparr>)"
  by (rule base_ok_Suc) (simp_all add: handler_keeps_def)

lemma header_inv_restart:
  assumes "base_ok p'" "handler_keeps p p'" "chunk_offset p = 0" "p_offset p < p_raw_size p"
  shows "header_inv (set_state 100 p'\<lparr>p_offset := Suc (p_offset p')\<rparr>)"
  using assms base_ok_Suc [of "set_state 100 p'"]
  by (simp add: header_inv_def headers_ok_def header_fields_def handler_keeps_def)

lemma header_line_end_ok:
  assumes "header_inv p" "p_stateM p = 108" "p_offset p < p_raw_size p"
  shows "holds {Assert_Failed} (step_ok header_inv) (header_line_end env p)"
proof -
  have b: "base_ok p" "chunk_offset p = 0" and f: "value_pos p = 0 \<or>
       (name_pos p = 0 \<or> string_in (p_offset p) (h_name (p_header p)))
       \<and> (\<forall>h \<in> set (p_headers p). rs_pos (h_value h) \<le> value_pos p)
       \<and> string_in (p_offset p) (h_value (p_header p))"
    using assms(1,2) by (simp_all add: header_inv_def headers_ok_def header_fields_def Let_def)
  note bd = base_okD [OF b(1)]
  have fin: "parser_ok (set_state 200 p\<lparr>p_offset := Suc (p_offset p)\<rparr>)"
    using b base_ok_Suc [of "set_state 200 p"] assms(3)
    by (simp add: parser_ok_def body_ok_def chunk_fields_def)
  have par: "parser_ok p" using assms(1) by (simp add: parser_ok_def header_inv_def)
  have fold: "holds {Assert_Failed} (step_ok header_inv)
      (bind (header_fold env p) (\<lambda>p. Inr (set_state 100 p, Advance)))"
    if "value_pos p \<noteq> 0"
    using header_fold_ok [OF b(1) assms(3), of env] f that b(2) assms(3)
    by (auto simp: string_in_def intro!: holds_bind elim!: holds_mono header_inv_restart)
  have add: "holds {Assert_Failed} (step_ok header_inv)
      (bind (rtsp_header_add env p (p_header p)) (\<lambda>added.
        case added of None \<Rightarrow> Inr (p, Return (- 1))
        | Some p \<Rightarrow> bind (rtsp_header_handler env p (name_pos p) (value_pos p)) (\<lambda>p.
            Inr (set_state 100 p, Advance))))"
    if v: "value_pos p \<noteq> 0" "name_pos p \<noteq> 0"
  proof (intro holds_bind holds_mono [OF header_add_ok [OF b(1) _ assms(3)]])
    show "header_in (p_offset p) (p_header p)" using f v by (simp add: header_in_def)
  next
    fix added
    assume "case added of None \<Rightarrow> True | Some p' \<Rightarrow> base_ok p' \<and> handler_keeps p p' \<and> p_header p' = p_header p"
    then show "holds {Assert_Failed} (step_ok header_inv) (case added of None \<Rightarrow> Inr (p, Return (- 1))
        | Some p \<Rightarrow> bind (rtsp_header_handler env p (name_pos p) (value_pos p)) (\<lambda>p.
            Inr (set_state 100 p, Advance)))"
    proof (cases added)
      case None
      then show ?thesis using par by simp
    next
      case (Some q)
      assume "case added of None \<Rightarrow> True | Some p' \<Rightarrow> base_ok p' \<and> handler_keeps p p' \<and> p_header p' = p_header p"
      with Some have q: "base_ok q" "handler_keeps p q" "p_header q = p_header p" by simp_all
      have pos: "name_pos q \<le> p_raw_size q" "value_pos q \<le> p_raw_size q"
        using f v q assms(3) by (auto simp: string_in_def handler_keeps_def)
      have "handler_keeps q r \<Longrightarrow> handler_keeps p r" for r
        using q(2) by (simp add: handler_keeps_def)
      with Some header_handler_ok [OF q(1) pos, of env] b(2) assms(3) show ?thesis
        by (auto intro!: holds_bind elim!: holds_mono header_inv_restart)
    qed
  qed
  show ?thesis
    unfolding header_line_end_def
    using fin fold add by auto
qed

lemma upto_108:
  "100 \<le> s \<Longrightarrow> s \<le> 108 \<Longrightarrow> s = 100 \<or> s = 101 \<or> s = 102 \<or> s = 103 \<or> s = 104 \<or> s = 105 \<or> s = 106 \<or> s = 107 \<or> s = (108::nat)"
  by linarith

lemma header_step_ok:
  assumes "header_inv p" "p_offset p < p_raw_size p"
  shows "holds {Assert_Failed} (step_ok header_inv) (header_step env p c)"
proof -
  have p: "base_ok p" "100 \<le> p_stateM p" "p_stateM p \<le> 108" "chunk_offset p = 0" "header_fields p"
    using assms(1) by (simp_all add: header_inv_def headers_ok_def)
  have hv: "h \<in> set (p_headers p) \<Longrightarrow> rs_pos (h_value h) \<le> p_offset p" for h
    using p(1) by (auto simp: base_ok_def list_all_iff header_in_def string_in_def)
  have ff: "header_fields p = (let s = p_stateM p; e = p_offset p;
          name = (name_pos p = 0 \<or> string_in e (h_name (p_header p)));
          after = (\<forall>h \<in> set (p_headers p). rs_pos (h_value h) \<le> value_pos p)
      in (s = 101 \<longrightarrow> name_pos p \<le> e) \<and> (102 \<le> s \<and> s \<le> 106 \<longrightarrow> name)
       \<and> (s = 105 \<longrightarrow> value_pos p \<le> e \<and> after)
       \<and> (s = 106 \<longrightarrow> after \<and> string_in e (h_value (p_header p)))
       \<and> (107 \<le> s \<and> s \<le> 108 \<longrightarrow> value_pos p = 0 \<or> name \<and> after \<and> string_in e (h_value (p_header p))))" for p
    by (simp add: header_fields_def)
  have bs: "base_ok (p\<lparr>p_offset := Suc (p_offset p)\<rparr>)" "base_ok (set_state s p\<lparr>p_offset := Suc (p_offset p)\<rparr>)"
     "base_ok (set_state s (set_name_pos 0 p)\<lparr>p_offset := Suc (p_offset p)\<rparr>)"
     "base_ok (set_state s (set_value_pos 0 p)\<lparr>p_offset := Suc (p_offset p)\<rparr>)" for s
    using p(1) assms(2) base_ok_Suc [of "set_state s p"] base_ok_Suc [of "set_state s (set_name_pos 0 p)"]
       base_ok_Suc [of "set_state s (set_value_pos 0 p)"] by simp_all
  show ?thesis
    using upto_108 [OF p(2,3)]
  proof (elim disjE)
    assume "p_stateM p = 108"
    then show ?thesis
      using header_line_end_ok [OF assms(1) _ assms(2)] by (simp add: header_step_def check_def)
  qed (use p bs hv base_ok_setters(7,8) [unfolded parser_setters] in \<open>simp_all add: header_step_def check_def header_inv_def headers_ok_def ff
      header_v_set_def header_v_get_def string_in_def Let_def is_blank_def, auto simp: parser_setters\<close>)
qed

lemma parse_headers_ok:
  assumes "parser_ok p" "v \<le> 0"
  shows "holds {Assert_Failed} (\<lambda>(p', v). parser_ok p' \<and> v \<le> 0) (parse_headers env p v)"
proof (cases "100 \<le> p_stateM p \<and> p_stateM p < 200")
  case True
  then have "header_inv p"
    using assms(1) by (auto simp: parser_ok_def start_ok_def body_ok_def header_inv_def)
  then show ?thesis
    using True headers.run_ok [of header_inv p _ env] header_step_ok
    by (simp add: parse_headers_def parser_ok_def header_inv_def)
next
  case False
  then have "parse_headers env p v = Inr (p, v)" by (auto simp: parse_headers_def)
  with assms show ?thesis by simp
qed

lemma parse_to_body_ok:
  assumes "parser_ok p"
  shows "holds {Assert_Failed} (\<lambda>(p', v). parser_ok p' \<and> v \<le> 0) (parse_to_body env p)"
  unfolding parse_to_body_def
  by (intro holds_bind holds_mono [OF parse_start_ok [OF assms]])
    (auto intro: parse_headers_ok)

section \<open>Chunked bodies\<close>

definition chunk_inv :: "rtsp_parser \<Rightarrow> bool" where
  "chunk_inv p \<longleftrightarrow> base_ok p \<and> 200 \<le> p_stateM p \<and> p_stateM p \<le> 300 \<and> p_content_length p \<ge> 0
     \<and> p_offset p + nat (p_content_length p) \<le> chunk_offset p
     \<and> (p_stateM p = CHUNK_DATA \<longrightarrow> chunk_pos p = chunk_offset p \<and> chunk_offset p \<noteq> 0)"

lemma chunk_inv_parser_ok: "chunk_inv p \<Longrightarrow> parser_ok p"
  by (simp add: chunk_inv_def parser_ok_def body_ok_def chunk_fields_def)

lemma base_ok_chunk [simp]:
  "base_ok (p_chunk_update f p) = base_ok p" "base_ok (p\<lparr>p_content_length := n\<rparr>) = base_ok p"
  "base_ok (p\<lparr>p_stateM := s\<rparr>) = base_ok p"
  by (simp_all add: base_ok_def raw_ok_def)

definition chunk_out_ok :: "rtsp_parser \<times> step_out \<Rightarrow> bool" where
  "chunk_out_ok r = (case r of
       (p', Stay) \<Rightarrow> False
     | (p', Advance) \<Rightarrow> chunk_inv (set_chunk_offset (chunk_offset p' + 1) p')
     | (p', Return v) \<Rightarrow> parser_ok p' \<and> v = 0)"

lemma chunk_data_ok:
  assumes "chunk_inv p" "p_stateM p = CHUNK_DATA"
  shows "holds {Assert_Failed, Out_Of_Bounds} chunk_out_ok (chunk_data p)"
proof -
  have p: "base_ok p" "p_content_length p \<ge> 0" "p_offset p + nat (p_content_length p) \<le> chunk_pos p"
      "chunk_pos p = chunk_offset p"
    using assms by (simp_all add: chunk_inv_def)
  note b = base_okD [OF p(1)]
  have small: "length (p_raw p) \<le> 119537664" using p(1) by (simp add: base_ok_def raw_ok_def)
  have nowrap: "Suc (Suc (chunk_offset p + chunk_len p)) \<le> p_raw_size p"
    if "\<not> p_raw_size p < size_t (Suc (Suc (chunk_offset p + chunk_len p)))" "chunk_offset p + chunk_len p \<le> length (p_raw p)"
    using that small by (simp add: size_t_def)
  define d where "d = p_offset p + nat (p_content_length p)"
  have fin: "base_ok (p\<lparr>p_raw := (take d (p_raw p) @ bs @ drop (d + chunk_len p) (p_raw p))
        [i := NUL]\<rparr>)"
    if "chunk_pos p + chunk_len p + 2 \<le> p_raw_size p" "length bs = chunk_len p" for bs i
  proof -
    have dl: "d + chunk_len p \<le> p_raw_size p" using that p(3) by (simp add: d_def)
    have "terminated (take d (p_raw p) @ bs @ drop (d + chunk_len p) (p_raw p)) (p_raw_size p)"
      using b dl that(2) by (auto simp: terminated_def nth_append min_def)
    then have "base_ok (p\<lparr>p_raw := take d (p_raw p) @ bs @ drop (d + chunk_len p) (p_raw p)\<rparr>)"
      using p(1) b dl that(2) by (auto simp: base_ok_def raw_ok_def)
    from base_ok_poke [OF this, of i] show ?thesis by simp
  qed
  have [simp]: "parser_ok p" by (rule chunk_inv_parser_ok [OF assms(1)])
  show ?thesis
    unfolding chunk_data_def Let_def
    using p b
    by (intro wp) (auto simp: chunk_out_ok_def chunk_inv_def chunk_setters parser_setters
        nat_add_distrib p(4) intro!: fin dest: nowrap simp flip: d_def)
qed

lemma chunk_step_ok:
  assumes "chunk_inv p" "chunk_offset p < p_raw_size p"
  shows "holds {Assert_Failed, Out_Of_Bounds} chunk_out_ok (chunk_step p c)"
proof (cases "p_stateM p = CHUNK_DATA")
  case True
  then show ?thesis using chunk_data_ok [OF assms(1)] by (simp add: chunk_step_def)
next
  case False
  then show ?thesis
    unfolding chunk_step_def Let_def
    using assms
    by (intro wp) (auto simp: chunk_out_ok_def chunk_inv_def chunk_setters parser_setters
        parser_ok_def body_ok_def chunk_fields_def)
qed

lemma chunk_loop_ok:
  "chunk_inv p \<Longrightarrow>
   holds {Assert_Failed, Out_Of_Bounds} (\<lambda>(p', v). parser_ok p' \<and> v \<le> 0) (chunk_loop p)"
proof (induction p rule: chunk_loop.induct)
  case (1 p)
  show ?case
  proof (cases "chunk_offset p < p_raw_size p")
    case True
    have "base_ok p" using 1(2) by (simp add: chunk_inv_def)
    then have rdp: "bind (rd (p_raw p) (chunk_offset p)) (chunk_step p) = chunk_step p (p_raw p ! chunk_offset p)"
      using True base_okD(2) [of p] by (simp add: rd_def)
    show ?thesis
    proof (cases "chunk_step p (p_raw p ! chunk_offset p)")
      case (Inl e)
      then show ?thesis using True chunk_step_ok [OF 1(2) True, of "p_raw p ! chunk_offset p"] rdp
        by (subst chunk_loop.simps) simp
    next
      case (Inr po)
      obtain p' out where po: "po = (p', out)" by (cases po)
      have ok: "chunk_out_ok (p', out)"
        using chunk_step_ok [OF 1(2) True, of "p_raw p ! chunk_offset p"] Inr po by simp
      show ?thesis
        using True rdp Inr po ok 1(1) [OF True, of po p' out]
        by (subst chunk_loop.simps) (cases out; simp add: chunk_out_ok_def)
    qed
  next
    case False
    then show ?thesis using chunk_inv_parser_ok [OF 1(2)] by (subst chunk_loop.simps) simp
  qed
qed

lemma chunked_read_ok:
  assumes "base_ok p"
  shows "holds {} (\<lambda>b. True) (is_transfer_encoding_chunked p)"
  unfolding is_transfer_encoding_chunked_def
  using base_okD(1) [OF assms] assms
  by (intro wp holds_cstr_terminated [where n = "p_raw_size p"]) (auto simp: base_ok_def)

lemma rtsp_parse_chunked_ok:
  assumes "base_ok p" "body_ok p"
  shows "holds {Assert_Failed, Out_Of_Bounds} (\<lambda>(p', v). parser_ok p' \<and> v \<le> 0) (rtsp_parse_chunked p)"
  unfolding rtsp_parse_chunked_def
proof (intro wp holds_mono [OF holds_faults [OF chunked_read_ok [OF assms(1)]]])
  assume "chunk_offset p = 0"
  then have "chunk_inv (set_chunk_offset (p_offset p) p\<lparr>p_content_length := 0\<rparr>)"
    using assms by (auto simp: chunk_inv_def body_ok_def chunk_setters chunk_fields_def)
  then show "holds {Assert_Failed, Out_Of_Bounds} (\<lambda>(p', v). parser_ok p' \<and> v \<le> 0)
      (chunk_loop (set_chunk_offset (p_offset p) p\<lparr>p_content_length := 0\<rparr>))"
    by (rule chunk_loop_ok)
next
  assume "chunk_offset p \<noteq> 0"
  then have "chunk_inv p" using assms by (simp add: chunk_inv_def body_ok_def chunk_fields_def)
  then show "holds {Assert_Failed, Out_Of_Bounds} (\<lambda>(p', v). parser_ok p' \<and> v \<le> 0) (chunk_loop p)"
    by (rule chunk_loop_ok)
qed auto


section \<open>Every input is safe\<close>

lemma parse_body_ok:
  assumes "parser_ok p" "v \<le> 0"
  shows "holds (if is_transfer_encoding_chunked p = Inr True then {Assert_Failed, Out_Of_Bounds}
      else {Assert_Failed}) (\<lambda>(p', v). parser_ok p' \<and> v \<le> 0) (parse_body p v)"
proof (cases "200 \<le> p_stateM p \<and> p_stateM p < 300")
  case True
  then have b: "base_ok p" "body_ok p"
    using assms(1) by (auto simp: parser_ok_def start_ok_def headers_ok_def)
  obtain ch where ch: "is_transfer_encoding_chunked p = Inr ch"
    using chunked_read_ok [OF b(1)] by (cases "is_transfer_encoding_chunked p") auto
  have same: "chunk_offset p = 0 \<or> p_content_length p \<noteq> - 1" "chunk_offset p \<noteq> 0 \<longrightarrow> chunk_fields p"
    using b(2) by (auto simp: body_ok_def chunk_fields_def)
  have fin: "parser_ok (set_state 300 p)" "p_content_length p = - 1 \<Longrightarrow>
      parser_ok (set_state 300 p\<lparr>p_content_length := 0\<rparr>)"
    using b same by (auto simp: parser_ok_def body_ok_def chunk_fields_def set_state_def)
  show ?thesis
    using True ch fin assms rtsp_parse_chunked_ok [OF b]
    by (cases ch) (auto simp: parse_body_def check_def)
next
  case False
  then have "parse_body p v = Inr (p, v)" by (auto simp: parse_body_def)
  with assms show ?thesis by simp
qed

text \<open>A parser that has not seen input since it was created or cleared.\<close>

definition fresh :: "rtsp_parser \<Rightarrow> bool" where
  "fresh p \<longleftrightarrow> p_raw_size p = 0 \<and> p_offset p = 0 \<and> p_stateM p = 0 \<and> p_headers p = []
     \<and> p_transfer_encoding p = 0 \<and> chunk_offset p = 0
     \<and> length (p_raw p) \<le> p_raw_capacity p \<and> p_raw_capacity p \<le> 114 * MB"

definition parser_wf :: "rtsp_parser \<Rightarrow> bool" where
  "parser_wf p \<longleftrightarrow> fresh p \<or> parser_ok p"

text \<open>Appending input: the invariant of a fresh parser is established, that of a used one kept.\<close>

definition pre_ok :: "rtsp_parser \<Rightarrow> bool" where
  "pre_ok p \<longleftrightarrow> length (p_raw p) \<le> p_raw_capacity p \<and> p_raw_capacity p \<le> 114 * MB
     \<and> p_offset p \<le> p_raw_size p \<and> p_transfer_encoding p \<le> p_raw_size p
     \<and> list_all (header_in (p_offset p)) (p_headers p) \<and> length (p_headers p) \<le> p_header_capacity p
     \<and> p_raw_size p \<le> length (p_raw p) \<and> (start_ok p \<or> headers_ok p \<or> body_ok p)"

lemma pre_ok_wf: "parser_wf p \<Longrightarrow> pre_ok p"
  by (auto simp: parser_wf_def fresh_def parser_ok_def base_ok_def raw_ok_def pre_ok_def start_ok_def
      request_fields_def status_fields_def terminated_def)

lemma fields_frame:
  "start_ok (p\<lparr>p_raw_capacity := c, p_raw := r, p_raw_size := n\<rparr>) = start_ok p"
  "headers_ok (p\<lparr>p_raw_capacity := c, p_raw := r, p_raw_size := n\<rparr>) = headers_ok p"
  "body_ok (p\<lparr>p_raw_capacity := c, p_raw := r, p_raw_size := n\<rparr>) = body_ok p"
  by (simp_all add: start_ok_def headers_ok_def body_ok_def request_fields_def status_fields_def
      header_fields_def chunk_fields_def is_server_mode_def)

lemma store_ok:
  assumes "pre_ok p" "p_raw_capacity p \<le> c" "c \<le> 114 * MB" "Suc (length data) < c - p_raw_size p"
  shows "parser_ok (p\<lparr>p_raw_capacity := c,
      p_raw := take (p_raw_size p) (p_raw p) @ data @ NUL # drop (Suc (p_raw_size p + length data)) (p_raw p),
      p_raw_size := p_raw_size p + length data\<rparr>)"
  using assms fields_frame
  by (auto simp: pre_ok_def parser_ok_def base_ok_def raw_ok_def terminated_def nth_append)

lemma store_ok':
  assumes "pre_ok p" "Suc (length data) < p_raw_capacity p - p_raw_size p"
  shows "parser_ok (p\<lparr>
      p_raw := take (p_raw_size p) (p_raw p) @ data @ NUL # drop (Suc (p_raw_size p + length data)) (p_raw p),
      p_raw_size := p_raw_size p + length data\<rparr>)"
  using store_ok [OF assms(1) order.refl _ assms(2)] assms(1) by (simp add: pre_ok_def)

lemma rtsp_rawdata_ok:
  assumes "pre_ok p"
  shows "holds {Assert_Failed} (\<lambda>(p', r). r \<ge> 0 \<and> (r = 0 \<longrightarrow> parser_ok p')) (rtsp_rawdata env p data)"
  unfolding rtsp_rawdata_def Let_def
  using assms
  by (intro wp) (auto intro!: store_ok store_ok')

lemma rtsp_input_ok:
  assumes "parser_wf p"
  shows "case rtsp_parser_input env p data of
      Inr (p', r, rest) \<Rightarrow> parser_wf p'
    | Inl f \<Rightarrow> f = Assert_Failed \<or> f = Out_Of_Bounds \<and> (\<exists>p1 q r.
        rtsp_rawdata env p data = Inr (p1, 0) \<and> parse_to_body env p1 = Inr (q, r)
        \<and> is_transfer_encoding_chunked q = Inr True)"
proof (cases "rtsp_rawdata env p data")
  case (Inl f)
  then show ?thesis using rtsp_rawdata_ok [OF pre_ok_wf [OF assms], of env data]
    by (simp add: rtsp_parser_input_def)
next
  case (Inr pr)
  obtain p1 r1 where pr: "pr = (p1, r1)" by (cases pr)
  have r1: "r1 \<ge> 0" "r1 = 0 \<longrightarrow> parser_ok p1"
    using rtsp_rawdata_ok [OF pre_ok_wf [OF assms], of env data] Inr pr by auto
  show ?thesis
  proof (cases "r1 = 0")
    case False
    with Inr pr r1 show ?thesis by (simp add: rtsp_parser_input_def check_def)
  next
    case True
    with r1 have p1: "parser_ok p1" by simp
    show ?thesis
    proof (cases "parse_to_body env p1")
      case (Inl f)
      then show ?thesis using parse_to_body_ok [OF p1, of env] \<open>rtsp_rawdata env p data = Inr pr\<close> pr True
        by (simp add: rtsp_parser_input_def)
    next
      case (Inr qv)
      obtain q v where qv: "qv = (q, v)" by (cases qv)
      have q: "parser_ok q" "v \<le> 0" using parse_to_body_ok [OF p1, of env] Inr qv by auto
      have tail: "holds {Assert_Failed} (\<lambda>(p', r, b). parser_ok p') (input_result q' v' n)"
        if "parser_ok q'" for q' v' n
        using that unfolding input_result_def by (intro wp) auto
      have "holds (if is_transfer_encoding_chunked q = Inr True then {Assert_Failed, Out_Of_Bounds}
          else {Assert_Failed}) (\<lambda>(p', r, b). parser_ok p')
          (bind (parse_body q v) (\<lambda>(p, r). input_result p r (length data)))"
        by (intro holds_bind holds_mono [OF parse_body_ok [OF q]])
          (auto intro!: holds_faults [OF tail])
      then show ?thesis
        using \<open>rtsp_rawdata env p data = Inr pr\<close> pr True Inr qv q
        by (cases "bind (parse_body q v) (\<lambda>(p, r). input_result p r (length data))")
          (auto simp: rtsp_parser_input_def parser_wf_def split: if_splits)
    qed
  qed
qed

lemma rtsp_input_wf: "parser_wf p \<Longrightarrow> rtsp_parser_input env p data = Inr (p', r, rest) \<Longrightarrow> parser_wf p'"
  using rtsp_input_ok [of p env data] by simp

text \<open>The assertion of \<open>rtsp_parser_destroy\<close> holds of every parser the operations leave.\<close>

lemma rtsp_destroy_wf: "parser_wf p \<Longrightarrow> \<exists>q. rtsp_parser_destroy p = Inr q"
  by (auto simp: rtsp_parser_destroy_def check_def parser_wf_def fresh_def parser_ok_def base_ok_def raw_ok_def)

text \<open>
  C1: from a well-formed parser, any input whatsoever leaves a well-formed parser or stops
  the process at an \<open>assert\<close>. No read or write leaves the bytes received, unless the
  peer announced \<open>Transfer-Encoding: chunked\<close>.
\<close>

theorem rtsp_input_safe:
  assumes "parser_wf p"
  shows "case rtsp_parser_input env p data of
      Inr (p', r, rest) \<Rightarrow> parser_wf p'
    | Inl f \<Rightarrow> f = Assert_Failed \<or> f = Out_Of_Bounds \<and> (\<exists>p1 q r.
        rtsp_rawdata env p data = Inr (p1, 0) \<and> parse_to_body env p1 = Inr (q, r)
        \<and> is_transfer_encoding_chunked q = Inr True)"
  using assms by (rule rtsp_input_ok)

lemma rtsp_parser_clear_wf: "parser_wf p \<Longrightarrow> parser_wf (rtsp_parser_clear p)"
  by (auto simp: parser_wf_def fresh_def rtsp_parser_clear_def parser_ok_def base_ok_def raw_ok_def)

lemma rtsp_parser_create_wf: "rtsp_parser_create malloc_ok mode = Some p \<Longrightarrow> fresh p \<and> p_raw_capacity p = 0"
  by (auto simp: fresh_def rtsp_parser_create_def rtsp_parser_clear_def zero_parser_def split: if_splits)

theorem rtsp_input_safe_witness:
  "case rtsp_parser_input \<lparr>env_alloc = (\<lambda>n. True), env_body_max_size = 0\<rparr>
      (rtsp_parser_clear (zero_parser RTSP_PARSER_CLIENT)) ''RTSP/1.0 200 OK'' of
      Inr (p', r, rest) \<Rightarrow> parser_wf p'
    | Inl f \<Rightarrow> f = Assert_Failed \<or> f = Out_Of_Bounds \<and> (\<exists>p1 q r.
        rtsp_rawdata \<lparr>env_alloc = (\<lambda>n. True), env_body_max_size = 0\<rparr>
          (rtsp_parser_clear (zero_parser RTSP_PARSER_CLIENT)) ''RTSP/1.0 200 OK'' = Inr (p1, 0)
        \<and> parse_to_body \<lparr>env_alloc = (\<lambda>n. True), env_body_max_size = 0\<rparr> p1 = Inr (q, r)
        \<and> is_transfer_encoding_chunked q = Inr True)"
proof (rule rtsp_input_safe)
  show "parser_wf (rtsp_parser_clear (zero_parser RTSP_PARSER_CLIENT))"
    by (simp add: parser_wf_def fresh_def rtsp_parser_clear_def zero_parser_def)
qed

text \<open>
  C38: a chunk of announced length \<open>0xFFFFFFFE\<close> passes the length check: \<open>pos + len + 2\<close> wraps
  to \<open>pos\<close>, the \<open>CRLF\<close> tested at \<open>pos + len\<close> is the one that ended the size line, and the
  \<open>memmove\<close> of 4 GB leaves the buffer.
\<close>

theorem chunk_length_wraps:
  assumes "parser_ok p" and "chunk_len p = 2 ^ 32 - 2"
    and "2 \<le> chunk_pos p" and "chunk_pos p \<le> p_raw_size p"
    and "p_raw p ! (chunk_pos p - 2) = CR" and "p_raw p ! (chunk_pos p - 1) = LF"
  shows "chunk_data p = Inl Out_Of_Bounds"
proof -
  have b: "p_raw_size p < length (p_raw p)" "length (p_raw p) \<le> 119537664"
    using assms(1) by (auto simp: parser_ok_def base_ok_def raw_ok_def terminated_def)
  define q where "q = chunk_pos p - 2"
  have q: "chunk_pos p = q + 2" "q + 2 < 2 ^ 32" using assms(3,4) b by (simp_all add: q_def)
  have wrap: "size_t (chunk_pos p + chunk_len p) = q" "size_t (chunk_pos p + chunk_len p + 1) = q + 1"
     "size_t (chunk_pos p + chunk_len p + 2) = q + 2"
    using q assms(2) by (simp_all add: size_t_def mod_if)
  have "\<not> chunk_pos p + chunk_len p \<le> length (p_raw p)" using b assms(2) by simp
  then show ?thesis
    using assms(2-) b q(1) unfolding chunk_data_def wrap
    by (simp add: rd_block_def)
qed

theorem chunk_length_wraps_witness:
  "chunk_data (zero_parser RTSP_PARSER_CLIENT\<lparr>p_raw := [CR, LF, NUL], p_raw_size := 2, p_raw_capacity := 8192,
     p_stateM := 204, p_chunk := \<lparr>ck_offset = 2, ck_len = 4294967294, ck_pos = 2\<rparr>\<rparr>) = Inl Out_Of_Bounds"
  by (rule chunk_length_wraps)
    (simp_all add: zero_parser_def parser_ok_def base_ok_def raw_ok_def terminated_def body_ok_def
      chunk_fields_def)

text \<open>
  when the first piece of a message has 8191 bytes or more, the new allocation is exactly as
  large as needed, and the strict \<open>assert\<close> behind it stops the process.
\<close>

theorem rtsp_input_exact_fit_aborts:
  assumes "fresh p" and "p_raw_capacity p = 0"
    and "8 * KB \<le> length data + 1" and "length data \<le> 64 * MB"
    and "env_alloc env (length data + 1)"
  shows "rtsp_parser_input env p data = Inl Assert_Failed"
  using assms
  by (simp add: rtsp_parser_input_def rtsp_rawdata_def Let_def fresh_def max_def)

theorem rtsp_input_exact_fit_aborts_witness:
  "rtsp_parser_input \<lparr>env_alloc = (\<lambda>n. True), env_body_max_size = 0\<rparr>
     (rtsp_parser_clear (zero_parser RTSP_PARSER_CLIENT)) (replicate 9000 CHR ''x'') = Inl Assert_Failed"
  by (rule rtsp_input_exact_fit_aborts)
    (simp_all add: fresh_def rtsp_parser_clear_def zero_parser_def)

text \<open>
  the parser's own errors do not reach the caller: when the allocator fails or the message is
  too big, the positive \<open>ENOMEM\<close> and \<open>E2BIG\<close> fail the \<open>assert (r < 0)\<close>.
\<close>

theorem rtsp_input_errors_abort:
  assumes "p_raw_capacity p - p_raw_size p < length data + 1"
    and "p_raw_capacity p + length data > 64 * MB \<or> (\<forall>n. \<not> env_alloc env n)"
  shows "rtsp_parser_input env p data = Inl Assert_Failed"
  using assms by (auto simp: rtsp_parser_input_def rtsp_rawdata_def Let_def)

theorem rtsp_input_errors_abort_witness:
  "rtsp_parser_input \<lparr>env_alloc = (\<lambda>n. False), env_body_max_size = 0\<rparr>
     (rtsp_parser_clear (zero_parser RTSP_PARSER_CLIENT)) ''R'' = Inl Assert_Failed"
  by (rule rtsp_input_errors_abort) (simp_all add: rtsp_parser_clear_def zero_parser_def)

end
