(* ===== verification/Rtsp_Roundtrip.thy ===== *)
theory Rtsp_Roundtrip
  imports Rtsp_Safety
begin

text \<open>
  What \<open>rtsp-parser.c\<close> computes: a printed RTSP response, read by \<open>rtsp_parser_input\<close>, gives
  back its status code, reason, headers and body. The scan of a text with blanks in it is
  shared by the status line and the header line through the locale \<open>text_scan\<close>.
\<close>

section \<open>Scanning a text with blanks in it\<close>

text \<open>
  Two states share the scan of a text (the reason phrase, a header value): in state \<open>S\<close> the
  loop skips to a blank or the end of the line and sets the length; in state \<open>S + 1\<close> it skips
  blanks, and goes back to \<open>S\<close> when the text goes on. The last length set is that of the text.
\<close>

locale text_scan = parse_loop +
  fixes S :: nat and lenset :: "nat \<Rightarrow> rtsp_parser \<Rightarrow> rtsp_parser"
    and start :: "rtsp_parser \<Rightarrow> nat"
  assumes step_text: "p_stateM q = S \<Longrightarrow> step q c =
      Inr (if is_stop c then (set_state (S + 1) (lenset (p_offset q - start q) q), Stay)
           else (q, Advance))"
    and step_gap: "p_stateM q = S + 1 \<Longrightarrow> step q c =
      Inr (if is_blank c then (q, Advance)
           else if c = CR then (set_state (S + 2) q, Advance)
           else if c = LF then (set_state (S + 3) q, Stay)
           else (set_state S q, Advance))"
    and lenset_frame: "p_stateM (lenset k q) = p_stateM q" "p_raw (lenset k q) = p_raw q"
      "p_raw_size (lenset k q) = p_raw_size q" "p_offset (lenset k q) = p_offset q"
      "start (lenset k q) = start q"
    and lenset_lenset: "lenset k (lenset l q) = lenset k q"
    and lenset_state: "lenset k (q\<lparr>p_stateM := s\<rparr>) = (lenset k q)\<lparr>p_stateM := s\<rparr>"
    and lenset_offset: "lenset k (q\<lparr>p_offset := e\<rparr>) = (lenset k q)\<lparr>p_offset := e\<rparr>"
    and start_frame: "start (q\<lparr>p_stateM := s\<rparr>) = start q" "start (q\<lparr>p_offset := e\<rparr>) = start q"
begin

definition text_at :: "rtsp_parser \<Rightarrow> char list \<Rightarrow> bool" where
  "text_at q t \<longleftrightarrow> (\<exists>rest. drop (p_offset q) (p_raw q) = t @ CR # rest)
     \<and> p_offset q + length t < p_raw_size q"

lemma text_at_Cons:
  assumes "text_at q (c # t)"
  shows "p_offset q < p_raw_size q" "p_offset q < length (p_raw q)" "p_raw q ! p_offset q = c"
    "text_at (q\<lparr>p_offset := Suc (p_offset q)\<rparr>) t"
proof -
  obtain rest where r: "drop (p_offset q) (p_raw q) = c # t @ CR # rest"
    and o: "p_offset q + Suc (length t) < p_raw_size q"
    using assms by (auto simp: text_at_def)
  show "p_offset q < p_raw_size q" using o by simp
  show "p_offset q < length (p_raw q)" using r by (cases "p_offset q < length (p_raw q)") auto
  show "p_raw q ! p_offset q = c" using r by (rule nth_via_drop)
  have "drop (Suc (p_offset q)) (p_raw q) = t @ CR # rest"
    using arg_cong [OF r, of tl] by (simp add: drop_Suc tl_drop)
  then show "text_at (q\<lparr>p_offset := Suc (p_offset q)\<rparr>) t" using o by (auto simp: text_at_def)
qed

lemma text_at_Nil:
  assumes "text_at q []"
  shows "p_offset q < p_raw_size q" "p_offset q < length (p_raw q)" "p_raw q ! p_offset q = CR"
proof -
  obtain rest where r: "drop (p_offset q) (p_raw q) = CR # rest" and o: "p_offset q < p_raw_size q"
    using assms by (auto simp: text_at_def)
  show "p_offset q < p_raw_size q" by (rule o)
  show "p_offset q < length (p_raw q)" using r by (cases "p_offset q < length (p_raw q)") auto
  show "p_raw q ! p_offset q = CR" using r by (rule nth_via_drop)
qed

lemma text_at_frame [simp]:
  "text_at (q\<lparr>p_stateM := s\<rparr>) t = text_at q t" "text_at (lenset k q) t = text_at q t"
  by (simp_all add: text_at_def lenset_frame)

text \<open>The loop stands behind the \<open>CR\<close>, the length is set.\<close>

definition text_done :: "rtsp_parser \<Rightarrow> char list \<Rightarrow> rtsp_parser" where
  "text_done q t = (lenset (p_offset q + length t - start q) q)
     \<lparr>p_stateM := S + 2, p_offset := p_offset q + length t + 1\<rparr>"

lemma text_done_frame:
  "text_done (q\<lparr>p_stateM := s\<rparr>) t = text_done q t"
  "text_done (lenset k q) t = text_done q t"
  "text_done (q\<lparr>p_offset := Suc (p_offset q)\<rparr>) t = text_done q (c # t)"
  by (simp_all add: text_done_def lenset_frame lenset_lenset lenset_state lenset_offset start_frame)

lemma is_stop_CR [simp]: "is_stop CR" "\<not> is_blank CR"
  by (simp_all add: is_stop_def is_blank_def)

lemma run_text:
  "text_at q t \<Longrightarrow> \<forall>c \<in> set t. c \<noteq> CR \<and> c \<noteq> LF \<Longrightarrow> (t \<noteq> [] \<longrightarrow> \<not> is_blank (last t)) \<Longrightarrow>
   (p_stateM q = S \<longrightarrow> run q = run (text_done q t))
   \<and> (p_stateM q = S + 1 \<longrightarrow> t \<noteq> [] \<longrightarrow> run q = run (text_done q t))"
proof (induction t arbitrary: q)
  case Nil
  note at = text_at_Nil [OF Nil(1)]
  show ?case
  proof (intro conjI impI)
    assume s: "p_stateM q = S"
    define q1 where "q1 = set_state (S + 1) (lenset (p_offset q - start q) q)"
    have 1: "run q = run q1"
      using at s by (intro run_step(1)) (simp_all add: step_text q1_def)
    have "run q1 = run ((set_state (S + 2) q1)\<lparr>p_offset := p_offset (set_state (S + 2) q1) + 1\<rparr>)"
      using at by (intro run_step(2)) (simp_all add: step_gap q1_def lenset_frame)
    also have "(set_state (S + 2) q1)\<lparr>p_offset := p_offset (set_state (S + 2) q1) + 1\<rparr> = text_done q []"
      by (simp add: q1_def text_done_def set_state_def lenset_frame)
    finally show "run q = run (text_done q [])" using 1 by simp
  qed simp
next
  case (Cons c t)
  note at = text_at_Cons [OF Cons.prems(1)]
  let ?n = "q\<lparr>p_offset := Suc (p_offset q)\<rparr>"
  have c: "c \<noteq> CR" "c \<noteq> LF" "\<forall>c \<in> set t. c \<noteq> CR \<and> c \<noteq> LF" "t \<noteq> [] \<longrightarrow> \<not> is_blank (last t)"
    using Cons.prems(2,3) by (simp_all split: if_splits)
  have ih: "text_at r t \<Longrightarrow> p_stateM r = S \<Longrightarrow> run r = run (text_done r t)"
      "text_at r t \<Longrightarrow> p_stateM r = S + 1 \<Longrightarrow> t \<noteq> [] \<Longrightarrow> run r = run (text_done r t)" for r
    by (erule conjunct1 [OF Cons.IH [OF _ c(3,4)], THEN mp], assumption)
      (erule conjunct2 [OF Cons.IH [OF _ c(3,4)], THEN mp, THEN mp])
  have gap: "run q = run (text_done q (c # t))"
    if s: "p_stateM q = S + 1" and at: "p_offset q < p_raw_size q" "p_offset q < length (p_raw q)"
      "p_raw q ! p_offset q = c" "text_at (q\<lparr>p_offset := Suc (p_offset q)\<rparr>) t" for q
  proof (cases "is_blank c")
    case True
    then have "t \<noteq> []" using Cons.prems(3) by auto
    have "run q = run (q\<lparr>p_offset := p_offset q + 1\<rparr>)"
      using s at True by (intro run_step(2)) (simp_all add: step_gap)
    then show ?thesis
      using ih(2) [OF at(4)] s \<open>t \<noteq> []\<close> by (simp add: text_done_frame(3) [of q t c])
  next
    case False
    have "run q = run ((set_state S q)\<lparr>p_offset := p_offset (set_state S q) + 1\<rparr>)"
      using s at False c by (intro run_step(2)) (simp_all add: step_gap)
    then show ?thesis
      using ih(1) [of "q\<lparr>p_stateM := S, p_offset := Suc (p_offset q)\<rparr>"] at(4)
        text_done_frame(3) [of "q\<lparr>p_stateM := S\<rparr>" t c] text_done_frame(1) [of S q "c # t"]
      by (simp add: set_state_def text_at_def)
  qed
  show ?case
  proof (intro conjI impI)
    assume s: "p_stateM q = S"
    show "run q = run (text_done q (c # t))"
    proof (cases "is_stop c")
      case True
      define q1 where "q1 = set_state (S + 1) (lenset (p_offset q - start q) q)"
      have "run q = run q1"
        using at s True by (intro run_step(1)) (simp_all add: step_text q1_def)
      also have "\<dots> = run (text_done q1 (c # t))"
        using at by (intro gap) (simp_all add: q1_def set_state_def lenset_frame text_at_def)
      finally show ?thesis by (simp add: q1_def set_state_def text_done_frame)
    next
      case False
      have "run q = run (q\<lparr>p_offset := p_offset q + 1\<rparr>)"
        using s at False by (intro run_step(2)) (simp_all add: step_text)
      then show ?thesis using ih(1) [OF at(4)] s by (simp add: text_done_frame(3) [of q t c])
    qed
  next
    assume "p_stateM q = S + 1"
    then show "run q = run (text_done q (c # t))" using gap [of q] at by blast
  qed
qed

end


interpretation reason: text_scan status_step rtsp_parse_status_line SM_STATUS_REASON
  "\<lambda>x. p_reply_update (st_reason_update (rs_len_update (\<lambda>_. x)))" "\<lambda>q. rs_pos (st_reason (p_reply q))"
  by unfold_locales (auto simp: status_step_def status_v_set_def status_v_get_def)

interpretation hvalue: text_scan "header_step env" "rtsp_parse_header_line env" SM_HEADER_VALUE
  set_value_len value_pos for env
  by unfold_locales (auto simp: header_step_def header_v_set_def header_v_get_def parser_setters)

section \<open>One header line\<close>

definition token_char :: "char \<Rightarrow> bool" where
  "token_char c \<longleftrightarrow> 31 < code_of c \<and> code_of c < 127 \<and> c \<notin> set token_separators"

definition name_ok :: "char list \<Rightarrow> bool" where
  "name_ok n \<longleftrightarrow> n \<noteq> [] \<and> (\<forall>c \<in> set n. token_char c)"

definition value_ok :: "char list \<Rightarrow> bool" where
  "value_ok v \<longleftrightarrow> (\<forall>c \<in> set v. c \<noteq> CR \<and> c \<noteq> LF \<and> c \<noteq> NUL)
     \<and> (v \<noteq> [] \<longrightarrow> \<not> is_blank (hd v) \<and> \<not> is_blank (last v))"

definition header_text :: "char list \<Rightarrow> char list \<Rightarrow> char list" where
  "header_text n v = n @ CHR '':'' # SP # v @ [CR, LF]"

text \<open>The same line after it was parsed: the name and the value are terminated.\<close>

definition header_done :: "char list \<Rightarrow> char list \<Rightarrow> char list" where
  "header_done n v = n @ NUL # SP # v @ [NUL, LF]"

lemma token_char_not:
  "\<not> token_char SP" "\<not> token_char TAB" "\<not> token_char CR" "\<not> token_char LF"
  "\<not> token_char CHR '':''" "\<not> token_char NUL"
  by code_simp+

lemma token_char_facts:
  assumes "token_char c"
  shows "\<not> is_stop c" "\<not> is_blank c" "c \<noteq> CR" "c \<noteq> LF" "c \<noteq> CHR '':''" "c \<noteq> NUL"
  using assms token_char_not unfolding is_stop_def is_blank_def by metis+

lemma valid_token_0: "is_valid_token r 0 = Inr True"
  by (cases r) simp_all

lemma token_scan: "\<forall>c \<in> set n. token_char c \<Longrightarrow> is_valid_token (n @ r) (length n) = Inr True"
  by (induction n) (auto simp: token_char_def NUL_def valid_token_0)

lemma cstr_at_append: "NUL \<notin> set s \<Longrightarrow> cstr_at (pre @ s @ NUL # r) (length pre) = Inr s"
  by (simp add: cstr_at_def takeWhile_NUL)

lemma nth_pre: "(pre @ c # r) ! length pre = c" by simp

text \<open>What a parsed header leaves as it was.\<close>

definition header_frame :: "rtsp_parser \<Rightarrow> rtsp_parser \<Rightarrow> bool" where
  "header_frame p q \<longleftrightarrow> p_raw_size q = p_raw_size p \<and> p_raw_capacity q = p_raw_capacity p
     \<and> p_server_mode q = p_server_mode p \<and> p_chunk q = p_chunk p \<and> p_reply q = p_reply p
     \<and> p_req q = p_req p \<and> p_verminor q = p_verminor p \<and> p_vermajor q = p_vermajor p
     \<and> p_transfer_encoding q = p_transfer_encoding p"

lemma header_frame_refl [simp]: "header_frame p p" by (simp add: header_frame_def)

lemma header_frame_trans: "header_frame p q \<Longrightarrow> header_frame q r \<Longrightarrow> header_frame p r"
  by (simp add: header_frame_def)

text \<open>From the first byte of a line to its \<open>LF\<close>.\<close>

lemma header_line_scan:
  assumes raw: "p_raw p = pre @ header_text n v @ post" and off: "p_offset p = length pre"
    and st: "p_stateM p = 100" and size: "length pre + length (header_text n v) \<le> p_raw_size p"
    and n: "name_ok n" and v: "value_ok v"
  shows "rtsp_parse_header_line env p = rtsp_parse_header_line env
    (p\<lparr>p_stateM := 108, p_offset := length pre + length n + length v + 3,
       p_header := \<lparr>h_name = \<lparr>rs_pos = length pre, rs_len = length n\<rparr>,
                    h_value = \<lparr>rs_pos = length pre + length n + 2, rs_len = length v\<rparr>\<rparr>\<rparr>)"
proof -
  let ?run = "rtsp_parse_header_line env"
  let ?o = "length pre" and ?e = "length pre + length n"
  have raw': "p_raw p = pre @ n @ CHR '':'' # SP # v @ CR # LF # post"
    using raw by (simp add: header_text_def)
  have len: "?e + length v + 4 \<le> p_raw_size p" "?e + length v + 4 \<le> length (p_raw p)"
    using size by (simp_all add: header_text_def raw')
  have tok: "\<And>c. c \<in> set n \<Longrightarrow> token_char c" "n \<noteq> []" using n by (simp_all add: name_ok_def)
  have nth_n: "i < length n \<Longrightarrow> p_raw p ! (?o + i) = n ! i" for i
    by (simp add: raw' nth_append)
  have nth_col: "p_raw p ! ?e = CHR '':''" "p_raw p ! (?e + 1) = SP"
    by (simp_all add: raw' nth_append)
  have drop_v: "drop (?e + 2) (p_raw p) = v @ CR # LF # post"
    by (simp add: raw')
  have nth_v: "p_raw p ! (?e + 2) = (v @ [CR]) ! 0"
    using drop_v by (cases v) (auto intro: nth_via_drop)
  have nth_lf: "p_raw p ! (?e + length v + 3) = LF"
    using arg_cong [OF drop_v, of "\<lambda>xs. xs ! Suc (length v)"] len(2) by (simp add: nth_append add.assoc numeral_3_eq_3)
  define p1 where "p1 = set_state 101 (set_name_pos ?o p)"
  have 1: "?run p = ?run p1"
    using off st len tok nth_n [of 0] token_char_facts [OF tok(1) [OF nth_mem [of 0 n]]]
    by (intro headers.run_step(1)) (auto simp: header_step_def p1_def)
  have 2: "?run p1 = ?run (p1\<lparr>p_offset := ?e\<rparr>)"
  proof -
    have "?run p1 = ?run (p1\<lparr>p_offset := p_offset p1 + length n\<rparr>)"
      using off len token_char_facts [OF tok(1) [OF nth_mem]]
      by (intro headers.run_skip) (auto simp: p1_def parser_setters header_step_def nth_n)
    then show ?thesis by (simp add: p1_def parser_setters off)
  qed
  define p2 where "p2 = set_state 103 (set_name_len (length n) (p1\<lparr>p_offset := ?e\<rparr>))"
  have 3: "?run (p1\<lparr>p_offset := ?e\<rparr>) = ?run p2"
  proof -
    have "?run (p1\<lparr>p_offset := ?e\<rparr>) = ?run (set_state 102 (set_name_len (length n) (p1\<lparr>p_offset := ?e\<rparr>)))"
      using len nth_col by (intro headers.run_step(1))
        (simp_all add: p1_def parser_setters header_step_def header_v_set_def header_v_get_def)
    also have "\<dots> = ?run p2"
      using len nth_col by (intro headers.run_step(1))
        (simp_all add: p1_def p2_def parser_setters header_step_def header_v_set_def is_blank_def)
    finally show ?thesis .
  qed
  define p3 where "p3 = set_state 104 p2\<lparr>p_offset := ?e + 2\<rparr>"
  have 4: "?run p2 = ?run p3"
  proof -
    have "?run p2 = ?run ((set_state 104 p2)\<lparr>p_offset := p_offset (set_state 104 p2) + 1\<rparr>)"
      using len nth_col by (intro headers.run_step(2)) (simp_all add: p2_def p1_def parser_setters header_step_def)
    also have "\<dots> = ?run (set_state 104 p2\<lparr>p_offset := ?e + 1\<rparr>)" by (simp add: p2_def p1_def parser_setters)
    also have "\<dots> = ?run ((set_state 104 p2\<lparr>p_offset := ?e + 1\<rparr>)
        \<lparr>p_offset := p_offset (set_state 104 p2\<lparr>p_offset := ?e + 1\<rparr>) + 1\<rparr>)"
      using len nth_col by (intro headers.run_step(2))
        (simp_all add: p2_def p1_def parser_setters header_step_def is_blank_def)
    finally show ?thesis by (simp add: p3_def)
  qed
  define p4 where "p4 = set_state 105 (set_value_pos (?e + 2) p3)"
  have 5: "?run p3 = ?run p4"
  proof (rule headers.run_step(1))
    have "\<not> is_blank ((v @ [CR]) ! 0)" using v by (cases v) (auto simp: value_ok_def is_blank_def)
    moreover have "p_raw p3 ! p_offset p3 = (v @ [CR]) ! 0"
      using nth_v by (simp add: p3_def p2_def p1_def parser_setters)
    ultimately show "header_step env p3 (p_raw p3 ! p_offset p3) = Inr (p4, Stay)"
      by (simp add: p4_def p3_def p2_def p1_def parser_setters header_step_def header_v_set_def)
  qed (use len in \<open>simp_all add: p3_def p2_def p1_def parser_setters\<close>)
  have at: "hvalue.text_at p4 v"
    unfolding hvalue.text_at_def using drop_v len
    by (simp add: p4_def p3_def p2_def p1_def parser_setters)
  have 6: "?run p4 = ?run (hvalue.text_done p4 v)"
    using conjunct1 [OF hvalue.run_text [OF at, of env]] v
    by (simp add: value_ok_def p4_def)
  define p5 where "p5 = hvalue.text_done p4 v"
  have p5: "p5 = (p4\<lparr>p_stateM := 107, p_offset := ?e + length v + 3, p_header := \<lparr>h_name = \<lparr>rs_pos = ?o, rs_len = length n\<rparr>,
                    h_value = \<lparr>rs_pos = ?e + 2, rs_len = length v\<rparr>\<rparr>\<rparr>)"
    unfolding p5_def hvalue.text_done_def
    by (simp add: p4_def p3_def p2_def p1_def parser_setters rtsp_parser.defs)
  have 7: "?run p5 = ?run (set_state 108 p5)"
    using len nth_lf by (intro headers.run_step(1))
      (simp_all add: p5 p4_def p3_def p2_def p1_def parser_setters header_step_def)
  have "set_state 108 p5 = p\<lparr>p_stateM := 108, p_offset := ?e + length v + 3,
       p_header := \<lparr>h_name = \<lparr>rs_pos = ?o, rs_len = length n\<rparr>,
                    h_value = \<lparr>rs_pos = ?e + 2, rs_len = length v\<rparr>\<rparr>\<rparr>"
    by (simp add: p5 p4_def p3_def p2_def p1_def parser_setters)
  then show ?thesis using 1 2 3 4 5 6 7 by (simp add: p5_def)
qed

section \<open>The header section\<close>

text \<open>What a header (not \<open>Transfer-Encoding\<close>) does to the content length.\<close>

definition header_length :: "int \<Rightarrow> char list \<times> char list \<Rightarrow> int" where
  "header_length l nv = (if strcaseeq ''Content-Length'' (fst nv) then atoi (snd nv) else l)"

definition header_ok :: "rtsp_env \<Rightarrow> char list \<times> char list \<Rightarrow> bool" where
  "header_ok env nv \<longleftrightarrow> name_ok (fst nv) \<and> value_ok (snd nv) \<and> \<not> strcaseeq ''Transfer-Encoding'' (fst nv)
     \<and> (strcaseeq ''Content-Length'' (fst nv) \<longrightarrow> atoi (snd nv) \<ge> 0
          \<and> (env_body_max_size env = 0 \<or> atoi (snd nv) < sint (env_body_max_size env)))"

lemma header_handler_spec:
  assumes "cstr_at (p_raw p) npos = Inr n" "cstr_at (p_raw p) vpos = Inr v"
    and "header_ok env (n, v)" "p_transfer_encoding p = 0"
  shows "\<exists>q. rtsp_header_handler env p npos vpos = Inr q \<and> header_frame p q \<and> p_raw q = p_raw p
    \<and> p_offset q = p_offset p \<and> p_stateM q = p_stateM p \<and> p_headers q = p_headers p
    \<and> p_header_capacity q = p_header_capacity p
    \<and> p_content_length q = header_length (p_content_length p) (n, v)"
  using assms
  by (simp add: rtsp_header_handler_def Let_def header_ok_def header_length_def
      is_transfer_encoding_chunked_def header_frame_def)

lemma header_add_spec:
  assumes raw: "p_raw p = pre @ header_text n v @ post" and n: "name_ok n" and "pre \<noteq> []"
    and h: "h = \<lparr>h_name = \<lparr>rs_pos = length pre, rs_len = length n\<rparr>,
        h_value = \<lparr>rs_pos = length pre + length n + 2, rs_len = length v\<rparr>\<rparr>"
    and cap: "length (p_headers p) \<le> p_header_capacity p" and alloc: "\<forall>n. env_alloc env n"
  shows "\<exists>c. length (p_headers p) < c \<and> rtsp_header_add env p h = Inr (Some
    (p\<lparr>p_header_capacity := c, p_raw := pre @ header_done n v @ post, p_headers := p_headers p @ [h]\<rparr>))"
proof -
  have tok: "is_valid_token (drop (length pre) (p_raw p)) (length n) = Inr True"
    using token_scan [of n "CHR '':'' # SP # v @ CR # LF # post"] n
    by (simp add: raw header_text_def name_ok_def)
  have lst: "(p_raw p)[length pre + length n := NUL, length pre + length n + 2 + length v := NUL] =
      pre @ header_done n v @ post"
    by (simp add: raw header_text_def header_done_def list_update_append)
  have len: "length pre + length n + length v + 4 \<le> length (p_raw p)"
    by (simp add: raw header_text_def)
  have grow: "length (p_headers p) < (if p_header_capacity p < 16 then 16 else length (p_headers p) * 3 div 2)"
    if "p_header_capacity p \<le> Suc (length (p_headers p))"
    using cap that by (auto simp: not_less)
  have same: "p\<lparr>p_header_capacity := p_header_capacity p\<rparr> = p" by simp
  have "rtsp_header_add env p h = Inr (Some
    (p\<lparr>p_header_capacity := (if p_header_capacity p \<le> Suc (length (p_headers p))
         then (if p_header_capacity p < 16 then 16 else length (p_headers p) * 3 div 2)
         else p_header_capacity p),
       p_raw := pre @ header_done n v @ post, p_headers := p_headers p @ [h]\<rparr>))"
    using tok len grow assms(3) n alloc
    by (auto simp: rtsp_header_add_def Let_def h poke_def name_ok_def lst [simplified])
  then show ?thesis using grow by (intro exI conjI) (auto simp: not_le)
qed

lemma header_line:
  assumes raw: "p_raw p = pre @ header_text n v @ post" and off: "p_offset p = length pre" "pre \<noteq> []"
    and st: "p_stateM p = 100" and size: "length pre + length (header_text n v) \<le> p_raw_size p"
    and ok: "header_ok env (n, v)" and te: "p_transfer_encoding p = 0"
    and cap: "length (p_headers p) \<le> p_header_capacity p" and alloc: "\<forall>n. env_alloc env n"
  shows "\<exists>q. rtsp_parse_header_line env p = rtsp_parse_header_line env q
    \<and> p_raw q = (pre @ header_done n v) @ post \<and> p_offset q = length (pre @ header_done n v)
    \<and> p_stateM q = 100 \<and> header_frame p q
    \<and> p_headers q = p_headers p @ [\<lparr>h_name = \<lparr>rs_pos = length pre, rs_len = length n\<rparr>,
        h_value = \<lparr>rs_pos = length pre + length n + 2, rs_len = length v\<rparr>\<rparr>]
    \<and> length (p_headers q) \<le> p_header_capacity q
    \<and> p_content_length q = header_length (p_content_length p) (n, v)"
proof -
  define h where "h = \<lparr>h_name = \<lparr>rs_pos = length pre, rs_len = length n\<rparr>,
        h_value = \<lparr>rs_pos = length pre + length n + 2, rs_len = length v\<rparr>\<rparr>"
  define e where "e = length pre + length n + length v + 3"
  define p1 where "p1 = p\<lparr>p_stateM := 108, p_offset := e, p_header := h\<rparr>"
  have n: "name_ok n" "value_ok v" using ok by (simp_all add: header_ok_def)
  have 1: "rtsp_parse_header_line env p = rtsp_parse_header_line env p1"
    using header_line_scan [OF raw off(1) st size n] by (simp add: p1_def h_def e_def)
  obtain c where c: "length (p_headers p) < c" and add: "rtsp_header_add env p1 h = Inr (Some
      (p1\<lparr>p_header_capacity := c, p_raw := pre @ header_done n v @ post, p_headers := p_headers p1 @ [h]\<rparr>))"
    using header_add_spec [of p1 pre n v post h env] raw n off(2) cap alloc by (auto simp: p1_def h_def)
  define p2 where "p2 = p1\<lparr>p_header_capacity := c, p_raw := pre @ header_done n v @ post,
      p_headers := p_headers p1 @ [h]\<rparr>"
  have str: "cstr_at (p_raw p2) (length pre) = Inr n"
    using cstr_at_append [of n pre "SP # v @ NUL # LF # post"] n token_char_not(6)
    by (auto simp: p2_def header_done_def name_ok_def)
  have str': "cstr_at (p_raw p2) (length pre + length n + 2) = Inr v"
    using cstr_at_append [of v "pre @ n @ [NUL, SP]" "LF # post"] n
    by (auto simp: p2_def header_done_def value_ok_def)
  obtain q where q: "rtsp_header_handler env p2 (length pre) (length pre + length n + 2) = Inr q"
    "header_frame p2 q" "p_raw q = p_raw p2" "p_offset q = p_offset p2" "p_headers q = p_headers p2"
    "p_header_capacity q = c" "p_content_length q = header_length (p_content_length p2) (n, v)"
    using header_handler_spec [OF str str' ok] te by (auto simp: p2_def p1_def)
  have len: "e < p_raw_size p" "e < length (p_raw p)" "p_raw p ! e = LF"
    using size by (simp_all add: header_text_def raw e_def nth_append)
  have "header_step env p1 (p_raw p1 ! p_offset p1) = Inr (set_state 100 q, Advance)"
    using len add q(1) n off(2)
    by (simp add: header_step_def p1_def header_line_end_def h_def name_ok_def p2_def)
  then have "rtsp_parse_header_line env p1 = rtsp_parse_header_line env
      (set_state 100 q\<lparr>p_offset := p_offset (set_state 100 q) + 1\<rparr>)"
    using len by (intro headers.run_step(2)) (simp_all add: p1_def)
  then show ?thesis
    using 1 q c
    by (intro exI [of _ "set_state 100 q\<lparr>p_offset := p_offset (set_state 100 q) + 1\<rparr>"])
      (auto simp: p2_def p1_def parser_setters header_frame_def header_done_def e_def h_def)
qed

text \<open>The headers of a message, and the blank line behind them.\<close>

definition headers_text :: "(char list \<times> char list) list \<Rightarrow> char list" where
  "headers_text hs = concat (map (\<lambda>(n, v). header_text n v) hs)"

definition headers_done :: "(char list \<times> char list) list \<Rightarrow> char list" where
  "headers_done hs = concat (map (\<lambda>(n, v). header_done n v) hs)"

fun header_table :: "nat \<Rightarrow> (char list \<times> char list) list \<Rightarrow> rtsp_header list" where
  "header_table i [] = []"
| "header_table i ((n, v) # hs) =
     \<lparr>h_name = \<lparr>rs_pos = i, rs_len = length n\<rparr>, h_value = \<lparr>rs_pos = i + length n + 2, rs_len = length v\<rparr>\<rparr>
     # header_table (i + length n + length v + 4) hs"

lemma header_text_done_length [simp]:
  "length (header_text n v) = length n + length v + 4" "length (header_done n v) = length n + length v + 4"
  by (simp_all add: header_text_def header_done_def)

lemma header_lines:
  assumes "p_raw p = pre @ headers_text hs @ post" and "p_offset p = length pre" "pre \<noteq> []"
    and "p_stateM p = 100" and "length pre + length (headers_text hs) \<le> p_raw_size p"
    and "\<forall>nv \<in> set hs. header_ok env nv" and "p_transfer_encoding p = 0"
    and "length (p_headers p) \<le> p_header_capacity p" and "\<forall>n. env_alloc env n"
  shows "\<exists>q. rtsp_parse_header_line env p = rtsp_parse_header_line env q
    \<and> p_raw q = (pre @ headers_done hs) @ post \<and> p_offset q = length (pre @ headers_done hs)
    \<and> p_stateM q = 100 \<and> header_frame p q
    \<and> p_headers q = p_headers p @ header_table (length pre) hs
    \<and> p_content_length q = foldl header_length (p_content_length p) hs"
  using assms
proof (induction hs arbitrary: p pre)
  case Nil
  then show ?case by (intro exI [of _ p]) (simp add: headers_text_def headers_done_def)
next
  case (Cons nv hs)
  obtain n v where nv: "nv = (n, v)" by (cases nv)
  obtain p1 where p1: "rtsp_parse_header_line env p = rtsp_parse_header_line env p1"
     "p_raw p1 = (pre @ header_done n v) @ headers_text hs @ post" "p_offset p1 = length (pre @ header_done n v)"
     "p_stateM p1 = 100" "header_frame p p1"
     "p_headers p1 = p_headers p @ [\<lparr>h_name = \<lparr>rs_pos = length pre, rs_len = length n\<rparr>,
        h_value = \<lparr>rs_pos = length pre + length n + 2, rs_len = length v\<rparr>\<rparr>]"
     "length (p_headers p1) \<le> p_header_capacity p1"
     "p_content_length p1 = header_length (p_content_length p) (n, v)"
    using header_line [of p pre n v "headers_text hs @ post" env] Cons.prems
    by (auto simp: nv headers_text_def)
  have "\<exists>q. rtsp_parse_header_line env p1 = rtsp_parse_header_line env q
    \<and> p_raw q = ((pre @ header_done n v) @ headers_done hs) @ post
    \<and> p_offset q = length ((pre @ header_done n v) @ headers_done hs)
    \<and> p_stateM q = 100 \<and> header_frame p1 q
    \<and> p_headers q = p_headers p1 @ header_table (length (pre @ header_done n v)) hs
    \<and> p_content_length q = foldl header_length (p_content_length p1) hs"
    by (rule Cons.IH) (use p1 Cons.prems in \<open>auto simp: nv headers_text_def header_frame_def\<close>)
  then obtain q where q: "rtsp_parse_header_line env p1 = rtsp_parse_header_line env q"
     "p_raw q = ((pre @ header_done n v) @ headers_done hs) @ post"
     "p_offset q = length ((pre @ header_done n v) @ headers_done hs)"
     "p_stateM q = 100" "header_frame p1 q"
     "p_headers q = p_headers p1 @ header_table (length (pre @ header_done n v)) hs"
     "p_content_length q = foldl header_length (p_content_length p1) hs" by blast
  show ?case
    using p1 q header_frame_trans [OF p1(5) q(5)]
    by (intro exI [of _ q]) (simp add: nv headers_done_def add.assoc)
qed

lemma header_end:
  assumes raw: "p_raw p = pre @ CR # LF # post" and off: "p_offset p = length pre"
    and st: "p_stateM p = 100" and size: "length pre + 2 \<le> p_raw_size p"
  shows "\<exists>q. rtsp_parse_header_line env p = Inr (q, 0) \<and> p_raw q = p_raw p \<and> p_offset q = length pre + 2
    \<and> p_stateM q = 200 \<and> header_frame p q \<and> p_headers q = p_headers p
    \<and> p_content_length q = p_content_length p"
proof -
  let ?run = "rtsp_parse_header_line env"
  define p1 where "p1 = set_state 107 (set_value_pos 0 p)\<lparr>p_offset := length pre + 1\<rparr>"
  have len: "length pre + 2 \<le> length (p_raw p)" "p_raw p ! length pre = CR" "p_raw p ! (length pre + 1) = LF"
    by (simp_all add: raw nth_append)
  have "?run p = ?run (set_state 107 (set_value_pos 0 p)
      \<lparr>p_offset := p_offset (set_state 107 (set_value_pos 0 p)) + 1\<rparr>)"
    using st off len size by (intro headers.run_step(2)) (simp_all add: header_step_def is_blank_def)
  also have "\<dots> = ?run p1" by (simp add: p1_def off)
  also have "\<dots> = ?run (set_state 108 p1)"
    using len size by (intro headers.run_step(1)) (simp_all add: p1_def header_step_def parser_setters)
  also have "\<dots> = Inr (set_state 200 (set_state 108 p1)\<lparr>p_offset := p_offset (set_state 108 p1) + 1\<rparr>, 0)"
    using len size by (intro headers.run_step(3))
      (simp_all add: p1_def header_step_def header_line_end_def parser_setters)
  finally show ?thesis
    by (auto simp: p1_def parser_setters header_frame_def)
qed

section \<open>The status line\<close>

definition status_text :: "char list \<Rightarrow> char list \<Rightarrow> char list" where
  "status_text code reason = ''RTSP/1.0 '' @ code @ SP # reason @ [CR, LF]"

definition status_done :: "char list \<Rightarrow> char list \<Rightarrow> char list" where
  "status_done code reason = ''RTSP/1.0 '' @ code @ NUL # reason @ [NUL, LF]"

definition code_ok :: "char list \<Rightarrow> bool" where
  "code_ok code \<longleftrightarrow> length code = 3 \<and> (\<forall>c \<in> set code. isdigit c)"

lemma digit_not:
  "\<not> isdigit SP" "\<not> isdigit TAB" "\<not> isdigit CR" "\<not> isdigit LF" "\<not> isdigit NUL"
  "\<not> isdigit CHR ''-''" "\<not> isdigit CHR ''+''"
  by code_simp+

lemma digit_facts:
  assumes "isdigit c"
  shows "\<not> is_stop c" "\<not> is_blank c" "c \<noteq> NUL" "\<not> isspace c" "c \<noteq> CHR ''-''" "c \<noteq> CHR ''+''"
  using assms digit_not unfolding is_stop_def is_blank_def
  by (blast+, (auto simp: isspace_def isdigit_def in_range_def)[1], blast+)

lemma dec_val_bound: "\<forall>c \<in> set ds. isdigit c \<Longrightarrow> dec_val ds < 10 ^ length ds"
proof (induction ds rule: rev_induct)
  case (snoc d ds)
  have "digit_val d \<le> 9" using snoc.prems by (auto simp: digit_val_def isdigit_def in_range_def)
  with snoc show ?case by (simp add: dec_val_def)
qed (simp add: dec_val_def)

lemma atoi_digits:
  assumes "\<forall>c \<in> set ds. isdigit c" "ds \<noteq> []" "length ds \<le> 9"
  shows "atoi ds = int (dec_val ds)"
proof -
  obtain c cs where ds: "ds = c # cs" using assms(2) by (cases ds) auto
  have tw: "takeWhile isdigit ds = ds" "dropWhile isspace ds = ds"
    using assms(1) digit_facts(4) [of c] by (auto simp: ds takeWhile_eq_all_conv)
  have "dec_val ds < 10 ^ length ds" by (rule dec_val_bound [OF assms(1)])
  also have "(10::nat) ^ length ds \<le> 10 ^ 9" using assms(3) by (intro power_increasing) simp_all
  finally have "dec_val ds \<le> 2147483647" by simp
  then have "int (dec_val ds) \<le> INT_MAX" by (simp add: INT_MAX_def)
  moreover have "(case ds of [] \<Rightarrow> (1, []) | c # cs \<Rightarrow> if c = CHR ''-'' then (-1, cs)
      else if c = CHR ''+'' then (1, cs) else (1, ds)) = (1::int, ds)"
    using assms(1) digit_facts(5,6) [of c] by (simp add: ds)
  ultimately show ?thesis
    by (simp add: atoi_def scan_int_def Let_def tw clamp_int_def INT_MIN_def)
qed

lemma scan_version_10: "scan_version (''RTSP/1.0'' @ SP # r) = Some (1, 0)"
proof -
  have "takeWhile isdigit (CHR ''0'' # SP # r) = ''0''" "dropWhile isspace (CHR ''0'' # SP # r) = CHR ''0'' # SP # r"
     "takeWhile isdigit (CHR ''1'' # CHR ''.'' # CHR ''0'' # SP # r) = ''1''"
     "dropWhile isdigit (CHR ''1'' # CHR ''.'' # CHR ''0'' # SP # r) = CHR ''.'' # CHR ''0'' # SP # r"
     "dropWhile isspace (CHR ''1'' # CHR ''.'' # CHR ''0'' # SP # r) = CHR ''1'' # CHR ''.'' # CHR ''0'' # SP # r"
    by (simp_all add: isdigit_def isspace_def in_range_def)
  then show ?thesis
    by (simp add: scan_version_def scan_int_def Let_def dec_val_def digit_val_def clamp_int_def
        INT_MIN_def INT_MAX_def)
qed

lemma status_line_scan:
  assumes raw: "p_raw p = status_text code reason @ post" and off: "p_offset p = 0"
    and st: "p_stateM p = 0" and size: "length (status_text code reason) \<le> p_raw_size p"
    and code: "code_ok code" and reason: "value_ok reason" "reason \<noteq> []"
  shows "rtsp_parse_status_line p = rtsp_parse_status_line
    (p\<lparr>p_stateM := 8, p_offset := length reason + 14,
       p_header := \<lparr>h_name = \<lparr>rs_pos = 0, rs_len = 8\<rparr>, h_value = \<lparr>rs_pos = 9, rs_len = 3\<rparr>\<rparr>,
       p_reply := \<lparr>st_code = st_code (p_reply p), st_reason = \<lparr>rs_pos = 13, rs_len = length reason\<rparr>\<rparr>\<rparr>)"
proof -
  let ?run = rtsp_parse_status_line
  obtain c1 c2 c3 where c: "code = [c1, c2, c3]" "isdigit c1" "isdigit c2" "isdigit c3"
    using code by (auto simp: code_ok_def length_Suc_conv numeral_3_eq_3)
  note df = digit_facts [OF c(2)] digit_facts [OF c(3)] digit_facts [OF c(4)]
  have raw': "p_raw p = [CHR ''R'', CHR ''T'', CHR ''S'', CHR ''P'', CHR ''/'', CHR ''1'', CHR ''.'', CHR ''0'',
      SP, c1, c2, c3, SP] @ reason @ CR # LF # post"
    by (simp add: raw status_text_def c)
  have len: "length reason + 15 \<le> p_raw_size p" "length reason + 15 \<le> length (p_raw p)"
    using size by (simp_all add: status_text_def c raw')
  obtain r rs where r: "reason = r # rs" "\<not> is_blank r" using reason by (cases reason) (auto simp: value_ok_def)
  define p1 where "p1 = set_state 1 (set_name_pos 0 p)"
  have 1: "?run p = ?run p1"
    using off st len by (intro status.run_step(1))
      (simp_all add: status_step_def p1_def raw' status_v_set_def is_blank_def)
  have nonstop: "status_step (p1\<lparr>p_offset := p_offset p1 + i\<rparr>) (p_raw p1 ! (p_offset p1 + i)) =
      Inr (p1\<lparr>p_offset := p_offset p1 + i\<rparr>, Advance)" if "i < 8" for i
  proof -
    have "i = 0 \<or> i = 1 \<or> i = 2 \<or> i = 3 \<or> i = 4 \<or> i = 5 \<or> i = 6 \<or> i = 7" using that by linarith
    then show ?thesis
      by (elim disjE) (simp_all add: p1_def parser_setters status_step_def raw' off is_stop_def)
  qed
  have 2: "?run p1 = ?run (p1\<lparr>p_offset := 8\<rparr>)"
  proof -
    have "?run p1 = ?run (p1\<lparr>p_offset := p_offset p1 + 8\<rparr>)"
      using off len by (intro status.run_skip nonstop) (simp_all add: p1_def parser_setters)
    then show ?thesis by (simp add: p1_def parser_setters off)
  qed
  define p2 where "p2 = set_state 2 (set_name_len 8 (p1\<lparr>p_offset := 8\<rparr>))"
  have 3: "?run (p1\<lparr>p_offset := 8\<rparr>) = ?run p2"
    using len by (intro status.run_step(1))
      (simp_all add: p1_def p2_def parser_setters status_step_def raw' status_v_set_def status_v_get_def is_stop_def)
  have "?run p2 = ?run (p2\<lparr>p_offset := p_offset p2 + 1\<rparr>)"
    using len by (intro status.run_step(2))
      (simp_all add: p1_def p2_def parser_setters status_step_def raw' is_blank_def)
  then have 4: "?run p2 = ?run (p2\<lparr>p_offset := 9\<rparr>)" by (simp add: p2_def p1_def parser_setters)
  define p3 where "p3 = set_state 3 (set_value_pos 9 (p2\<lparr>p_offset := 9\<rparr>))"
  have 5: "?run (p2\<lparr>p_offset := 9\<rparr>) = ?run p3"
    using len df by (intro status.run_step(1))
      (simp_all add: p1_def p2_def p3_def parser_setters status_step_def raw' status_v_set_def)
  have nonstop: "status_step (p3\<lparr>p_offset := p_offset p3 + i\<rparr>) (p_raw p3 ! (p_offset p3 + i)) =
      Inr (p3\<lparr>p_offset := p_offset p3 + i\<rparr>, Advance)" if "i < 3" for i
  proof -
    have "i = 0 \<or> i = 1 \<or> i = 2" using that by linarith
    then show ?thesis using df
      by (elim disjE) (simp_all add: p1_def p2_def p3_def parser_setters status_step_def raw' off)
  qed
  have 6: "?run p3 = ?run (p3\<lparr>p_offset := 12\<rparr>)"
  proof -
    have "?run p3 = ?run (p3\<lparr>p_offset := p_offset p3 + 3\<rparr>)"
      using len by (intro status.run_skip nonstop) (simp_all add: p1_def p2_def p3_def parser_setters)
    then show ?thesis by (simp add: p1_def p2_def p3_def parser_setters)
  qed
  define p4 where "p4 = set_state 4 (set_value_len 3 (p3\<lparr>p_offset := 12\<rparr>))"
  have 7: "?run (p3\<lparr>p_offset := 12\<rparr>) = ?run p4"
    using len by (intro status.run_step(1))
      (simp_all add: p1_def p2_def p3_def p4_def parser_setters status_step_def raw' status_v_set_def
        status_v_get_def is_stop_def)
  have "?run p4 = ?run (p4\<lparr>p_offset := p_offset p4 + 1\<rparr>)"
    using len by (intro status.run_step(2))
      (simp_all add: p1_def p2_def p3_def p4_def parser_setters status_step_def raw' is_blank_def)
  then have 8: "?run p4 = ?run (p4\<lparr>p_offset := 13\<rparr>)" by (simp add: p1_def p2_def p3_def p4_def parser_setters)
  define p5 where "p5 = set_state 5 (p_reply_update (st_reason_update (rs_pos_update (\<lambda>_. 13))) (p4\<lparr>p_offset := 13\<rparr>))"
  have 9: "?run (p4\<lparr>p_offset := 13\<rparr>) = ?run p5"
    using len r by (intro status.run_step(1))
      (simp_all add: p1_def p2_def p3_def p4_def p5_def parser_setters status_step_def raw' status_v_set_def)
  have at: "reason.text_at p5 reason"
    unfolding reason.text_at_def using len
    by (simp add: p1_def p2_def p3_def p4_def p5_def parser_setters raw')
  have 10: "?run p5 = ?run (reason.text_done p5 reason)"
    using conjunct1 [OF reason.run_text [OF at]] reason
    by (simp add: value_ok_def p5_def)
  define p6 where "p6 = reason.text_done p5 reason"
  have p6: "set_state 8 p6 = p\<lparr>p_stateM := 8, p_offset := length reason + 14,
       p_header := \<lparr>h_name = \<lparr>rs_pos = 0, rs_len = 8\<rparr>, h_value = \<lparr>rs_pos = 9, rs_len = 3\<rparr>\<rparr>,
       p_reply := \<lparr>st_code = st_code (p_reply p), st_reason = \<lparr>rs_pos = 13, rs_len = length reason\<rparr>\<rparr>\<rparr>"
    unfolding p6_def reason.text_done_def
    by (simp add: p1_def p2_def p3_def p4_def p5_def parser_setters)
  have 11: "?run p6 = ?run (set_state 8 p6)"
    using len by (intro status.run_step(1))
      (simp_all add: p6_def reason.text_done_def p1_def p2_def p3_def p4_def p5_def parser_setters
        status_step_def raw' nth_append)
  show ?thesis using 1 2 3 4 5 6 7 8 9 10 11 by (simp add: p6_def p6 [unfolded p6_def])
qed

lemma status_line:
  assumes raw: "p_raw p = status_text code reason @ post" and off: "p_offset p = 0"
    and st: "p_stateM p = 0" and size: "length (status_text code reason) \<le> p_raw_size p"
    and code: "code_ok code" and reason: "value_ok reason" "reason \<noteq> []"
    and nul: "NUL \<in> set post"
  shows "\<exists>q. rtsp_parse_status_line p = Inr (q, 0) \<and> p_raw q = status_done code reason @ post
    \<and> p_offset q = length (status_done code reason) \<and> p_stateM q = 100
    \<and> p_raw_size q = p_raw_size p \<and> p_server_mode q = p_server_mode p \<and> p_chunk q = p_chunk p
    \<and> p_raw_capacity q = p_raw_capacity p \<and> p_transfer_encoding q = p_transfer_encoding p
    \<and> p_headers q = p_headers p \<and> p_header_capacity q = p_header_capacity p
    \<and> p_content_length q = p_content_length p \<and> p_vermajor q = 1 \<and> p_verminor q = 0
    \<and> p_reply q = \<lparr>st_code = int (dec_val code), st_reason = \<lparr>rs_pos = 13, rs_len = length reason\<rparr>\<rparr>"
proof -
  define p1 where "p1 = p\<lparr>p_stateM := 8, p_offset := length reason + 14,
       p_header := \<lparr>h_name = \<lparr>rs_pos = 0, rs_len = 8\<rparr>, h_value = \<lparr>rs_pos = 9, rs_len = 3\<rparr>\<rparr>,
       p_reply := \<lparr>st_code = st_code (p_reply p), st_reason = \<lparr>rs_pos = 13, rs_len = length reason\<rparr>\<rparr>\<rparr>"
  have 1: "rtsp_parse_status_line p = rtsp_parse_status_line p1"
    unfolding p1_def by (rule status_line_scan [OF raw off st size code reason])
  have cl: "length code = 3" "\<forall>c \<in> set code. isdigit c" "code \<noteq> []" using code by (auto simp: code_ok_def)
  have len: "length reason + 15 \<le> p_raw_size p" "length reason + 15 \<le> length (p_raw p)"
    using size cl by (simp_all add: status_text_def raw)
  have lf: "p_raw p ! (length reason + 14) = LF"
    using cl by (simp add: raw status_text_def nth_append)
  define s where "s = takeWhile (\<lambda>c. c \<noteq> NUL) (code @ SP # reason @ CR # LF # post)"
  have "cstr_at (p_raw p) 0 = Inr (''RTSP/1.0'' @ SP # s)"
    using nul by (simp add: cstr_at_def raw status_text_def s_def NUL_def)
  then have ver: "\<exists>s'. cstr_at (p_raw p) 0 = Inr s' \<and> scan_version s' = Some (1, 0)"
    using scan_version_10 by blast
  have upd: "(p_raw p)[length reason + 13 := NUL, 12 := NUL] = status_done code reason @ post"
  proof -
    have "p_raw p = (''RTSP/1.0 '' @ code @ SP # reason) @ CR # LF # post"
      by (simp add: raw status_text_def)
    moreover have "length reason + 13 = length (''RTSP/1.0 '' @ code @ SP # reason)" using cl by simp
    ultimately have "(p_raw p)[length reason + 13 := NUL] =
        (''RTSP/1.0 '' @ code) @ SP # reason @ NUL # LF # post"
      by (simp only: list_update_length) simp
    moreover have "12 = length (''RTSP/1.0 '' @ code)" using cl by simp
    ultimately have "(p_raw p)[length reason + 13 := NUL, 12 := NUL] =
        (''RTSP/1.0 '' @ code) @ NUL # reason @ NUL # LF # post"
      by (simp only: list_update_length)
    then show ?thesis by (simp add: status_done_def)
  qed
  have str: "cstr_at (status_done code reason @ post) 9 = Inr code"
  proof -
    have "length ''RTSP/1.0 '' = 9" "NUL \<notin> set code" using cl(2) digit_not(5) by auto
    then show ?thesis
      using cstr_at_append [of code "''RTSP/1.0 ''" "reason @ NUL # LF # post"]
      by (simp only: status_done_def append_assoc append_Cons append_Nil simp_thms)
  qed
  define q where "q = (set_state 100 (p_reply_update (st_code_update (\<lambda>_. atoi code))
      (set_version (1, 0) p1\<lparr>p_raw := status_done code reason @ post\<rparr>)))\<lparr>p_offset := length reason + 15\<rparr>"
  have "status_step p1 (p_raw p1 ! p_offset p1) = Inr (q, Return 0)"
    using ver len lf reason str cl(1)
    by (auto simp: p1_def status_step_def status_line_end_def Let_def poke_def set_version_def
        upd [simplified] version_ok_def q_def set_state_def add.commute)
  then have "rtsp_parse_status_line p1 = Inr (q, 0)"
    using len by (intro status.run_step(3)) (simp_all add: p1_def)
  then show ?thesis
    using 1 cl atoi_digits [OF cl(2,3)]
    by (simp add: q_def p1_def parser_setters status_done_def)
qed

section \<open>The whole message\<close>

definition print_response ::
  "char list \<Rightarrow> char list \<Rightarrow> (char list \<times> char list) list \<Rightarrow> char list \<Rightarrow> char list" where
  "print_response code reason hs body =
     status_text code reason @ headers_text hs @ CR # LF # body"

definition lookup_header :: "(char list \<times> char list) list \<Rightarrow> char list \<Rightarrow> char list option" where
  "lookup_header hs name = map_option snd (find (\<lambda>(n, v). strcaseeq n name) hs)"

text \<open>The content length the headers announce, \<open>-1\<close> when none does: the last one counts.\<close>

definition announced_length :: "(char list \<times> char list) list \<Rightarrow> int" where
  "announced_length hs = foldl header_length (- 1) hs"

lemma header_by_name_spec:
  assumes "\<forall>(n, v) \<in> set hs. name_ok n \<and> value_ok v"
  shows "\<exists>r. header_by_name (pre @ headers_done hs @ post) (header_table (length pre) hs) name = Inr r
    \<and> (case lookup_header hs name of None \<Rightarrow> r = None
       | Some v \<Rightarrow> \<exists>i. r = Some i \<and> cstr_at (pre @ headers_done hs @ post) i = Inr v)"
  using assms
proof (induction hs arbitrary: pre)
  case Nil
  then show ?case by (simp add: lookup_header_def)
next
  case (Cons nv hs)
  obtain n v where nv: "nv = (n, v)" by (cases nv)
  have ok: "name_ok n" "value_ok v" using Cons.prems by (auto simp: nv)
  let ?raw = "(pre @ header_done n v) @ headers_done hs @ post"
  have raw: "pre @ headers_done ((n, v) # hs) @ post = ?raw"
    by (simp add: headers_done_def)
  have 1: "cstr_at ?raw (length pre) = Inr n"
    using cstr_at_append [of n pre "SP # v @ NUL # LF # headers_done hs @ post"] ok(1) token_char_not(6)
    by (auto simp: header_done_def name_ok_def)
  have 2: "cstr_at ?raw (length pre + length n + 2) = Inr v"
    using cstr_at_append [of v "pre @ n @ [NUL, SP]" "LF # headers_done hs @ post"] ok(2)
    by (auto simp: header_done_def value_ok_def)
  have 3: "length pre + length n + length v + 4 = length (pre @ header_done n v)" by simp
  show ?case
    unfolding nv raw header_table.simps header_by_name.simps 3
    using 1 2 Cons.IH [of "pre @ header_done n v"] Cons.prems
    by (simp add: nv lookup_header_def del: length_append)
qed

lemma header_table_length [simp]: "length (header_table i hs) = length hs"
  by (induction i hs rule: header_table.induct) simp_all

lemma status_lengths: "length (status_text code reason) = length code + length reason + 12"
  "length (status_done code reason) = length code + length reason + 12"
  by (simp_all add: status_text_def status_done_def)

lemma headers_done_length: "length (headers_done hs) = length (headers_text hs)"
  by (induction hs) (auto simp: headers_done_def headers_text_def)

text \<open>The three phases in a row, on a parser that holds the message.\<close>

lemma response_to_body:
  assumes raw: "p_raw p = print_response code reason hs body @ [NUL]"
    and p: "p_offset p = 0" "p_stateM p = 0" "p_raw_size p = length (print_response code reason hs body)"
      "p_headers p = []" "p_transfer_encoding p = 0" "p_server_mode p = RTSP_PARSER_CLIENT"
    and code: "code_ok code" and reason: "value_ok reason" "reason \<noteq> []"
    and hs: "\<forall>nv \<in> set hs. header_ok env nv" and alloc: "\<forall>n. env_alloc env n"
  shows "\<exists>q. parse_to_body env p = Inr (q, 0)
    \<and> p_raw q = status_done code reason @ headers_done hs @ CR # LF # body @ [NUL]
    \<and> p_stateM q = 200 \<and> p_offset q = p_raw_size q - length body \<and> p_raw_size q = p_raw_size p
    \<and> length body \<le> p_raw_size q
    \<and> p_headers q = header_table (length (status_done code reason)) hs
    \<and> p_content_length q = foldl header_length (p_content_length p) hs
    \<and> p_server_mode q = RTSP_PARSER_CLIENT \<and> p_transfer_encoding q = 0
    \<and> p_vermajor q = 1 \<and> p_verminor q = 0
    \<and> p_reply q = \<lparr>st_code = int (dec_val code), st_reason = \<lparr>rs_pos = 13, rs_len = length reason\<rparr>\<rparr>"
proof -
  let ?post = "headers_text hs @ CR # LF # body @ [NUL]"
  have raw1: "p_raw p = status_text code reason @ ?post" by (simp add: raw print_response_def)
  have size: "length (status_text code reason) \<le> p_raw_size p" by (simp add: p print_response_def)
  obtain q1 where q1: "rtsp_parse_status_line p = Inr (q1, 0)" "p_raw q1 = status_done code reason @ ?post"
    "p_offset q1 = length (status_done code reason)" "p_stateM q1 = 100" "p_raw_size q1 = p_raw_size p"
    "p_server_mode q1 = p_server_mode p" "p_headers q1 = []" "p_transfer_encoding q1 = 0"
    "p_content_length q1 = p_content_length p" "p_vermajor q1 = 1" "p_verminor q1 = 0"
    "p_reply q1 = \<lparr>st_code = int (dec_val code), st_reason = \<lparr>rs_pos = 13, rs_len = length reason\<rparr>\<rparr>"
    using status_line [OF raw1 p(1,2) size code reason] p by auto
  have ne: "status_done code reason \<noteq> []" by (simp add: status_done_def)
  have sz: "length (status_done code reason) + length (headers_text hs) \<le> p_raw_size q1"
    by (simp add: q1 p print_response_def status_lengths)
  obtain q2 where q2: "rtsp_parse_header_line env q1 = rtsp_parse_header_line env q2"
    "p_raw q2 = (status_done code reason @ headers_done hs) @ CR # LF # body @ [NUL]"
    "p_offset q2 = length (status_done code reason @ headers_done hs)" "p_stateM q2 = 100" "header_frame q1 q2"
    "p_headers q2 = header_table (length (status_done code reason)) hs"
    "p_content_length q2 = foldl header_length (p_content_length p) hs"
    using header_lines [OF q1(2,3) ne q1(4) sz hs q1(8) _ alloc] q1 by auto
  have sz2: "length (status_done code reason @ headers_done hs) + 2 \<le> p_raw_size q2"
    using q2(5) by (simp add: header_frame_def q1 p print_response_def status_lengths headers_done_length)
  obtain q3 where q3: "rtsp_parse_header_line env q2 = Inr (q3, 0)" "p_raw q3 = p_raw q2"
    "p_offset q3 = length (status_done code reason @ headers_done hs) + 2" "p_stateM q3 = 200"
    "header_frame q2 q3" "p_headers q3 = p_headers q2" "p_content_length q3 = p_content_length q2"
    using header_end [OF q2(2,3,4) sz2, of env] by auto
  have "p_raw_size q3 = p_raw_size p" using q3(5) q2(5) q1(5) by (simp add: header_frame_def)
  then have "parse_to_body env p = Inr (q3, 0) \<and> p_offset q3 = p_raw_size q3 - length body
      \<and> length body \<le> p_raw_size q3"
    using q1 q2 q3 p
    by (simp add: parse_to_body_def parse_start_def is_server_mode_def parse_headers_def print_response_def
        status_lengths headers_done_length)
  with q1 q2 q3 p show ?thesis by (auto simp: header_frame_def)
qed

definition client_parser :: rtsp_parser where
  "client_parser = rtsp_parser_clear (zero_parser RTSP_PARSER_CLIENT)"

lemma client_parser_fields:
  "p_raw client_parser = []" "p_raw_size client_parser = 0" "p_raw_capacity client_parser = 0"
  "p_offset client_parser = 0" "p_stateM client_parser = 0" "p_headers client_parser = []"
  "p_transfer_encoding client_parser = 0" "p_server_mode client_parser = RTSP_PARSER_CLIENT"
  "p_content_length client_parser = - 1"
  by (simp_all add: client_parser_def rtsp_parser_clear_def zero_parser_def)

lemma client_rawdata:
  assumes "length data + 1 < 8 * KB" and "\<forall>n. env_alloc env n"
  shows "rtsp_rawdata env client_parser data = Inr (client_parser\<lparr>p_raw_capacity := 8 * KB,
      p_raw := data @ [NUL], p_raw_size := length data\<rparr>, 0)"
  using assms by (simp add: rtsp_rawdata_def Let_def client_parser_fields)

lemma announced_length_nonneg:
  "\<forall>nv \<in> set hs. header_ok env nv \<Longrightarrow> announced_length hs = - 1 \<or> announced_length hs \<ge> 0"
proof (induction hs rule: rev_induct)
  case (snoc nv hs)
  then show ?case by (cases nv) (auto simp: announced_length_def header_length_def header_ok_def)
qed (simp add: announced_length_def)

lemma response_parsed:
  assumes code: "code_ok code" and reason: "value_ok reason" "reason \<noteq> []"
    and hs: "\<forall>nv \<in> set hs. header_ok env nv" and alloc: "\<forall>n. env_alloc env n"
    and body: "int (length body) = max 0 (announced_length hs)"
    and small: "length (print_response code reason hs body) + 1 < 8 * KB"
  shows "\<exists>p. rtsp_parser_input env client_parser (print_response code reason hs body) = Inr (p, 0, 0)
    \<and> rtsp_get_status_code p = Inr (int (dec_val code)) \<and> rtsp_get_version p = Inr (1, 0)
    \<and> (\<exists>i. rtsp_get_status_reason p = Inr i \<and> cstr_at (p_raw p) i = Inr reason)
    \<and> rtsp_get_header_count p = Inr (length hs)
    \<and> (\<forall>name. \<exists>r. rtsp_get_header_by_name p name = Inr r
         \<and> (case lookup_header hs name of None \<Rightarrow> r = None
            | Some v \<Rightarrow> \<exists>i. r = Some i \<and> cstr_at (p_raw p) i = Inr v))
    \<and> rtsp_get_content_length p = Inr (int (length body))
    \<and> (\<exists>i. rtsp_get_content p = Inr i \<and> take (length body) (drop i (p_raw p)) = body)"
proof -
  let ?m = "print_response code reason hs body"
  define p0 where "p0 = client_parser\<lparr>p_raw_capacity := 8 * KB, p_raw := ?m @ [NUL], p_raw_size := length ?m\<rparr>"
  have rd: "rtsp_rawdata env client_parser ?m = Inr (p0, 0)"
    using client_rawdata [OF small alloc] by (simp add: p0_def)
  have p0: "p_raw p0 = ?m @ [NUL]" "p_offset p0 = 0" "p_stateM p0 = 0" "p_raw_size p0 = length ?m"
    "p_headers p0 = []" "p_transfer_encoding p0 = 0" "p_server_mode p0 = RTSP_PARSER_CLIENT"
    "p_content_length p0 = - 1"
    by (simp_all add: p0_def client_parser_fields)
  obtain q where q: "parse_to_body env p0 = Inr (q, 0)"
    "p_raw q = status_done code reason @ headers_done hs @ CR # LF # body @ [NUL]"
    "p_stateM q = 200" "p_offset q = p_raw_size q - length body" "p_raw_size q = length ?m"
    "length body \<le> p_raw_size q" "p_headers q = header_table (length (status_done code reason)) hs"
    "p_content_length q = announced_length hs"
    "p_server_mode q = RTSP_PARSER_CLIENT" "p_transfer_encoding q = 0" "p_vermajor q = 1" "p_verminor q = 0"
    "p_reply q = \<lparr>st_code = int (dec_val code), st_reason = \<lparr>rs_pos = 13, rs_len = length reason\<rparr>\<rparr>"
    using response_to_body [OF p0(1-7) code reason hs alloc] p0(4,8) by (auto simp: announced_length_def)
  define r where "r = set_state 300 (if announced_length hs = - 1 then q\<lparr>p_content_length := 0\<rparr> else q)"
  have r: "p_raw r = p_raw q" "p_stateM r = 300" "p_offset r = p_offset q" "p_raw_size r = p_raw_size q"
    "p_headers r = p_headers q" "p_content_length r = int (length body)" "p_server_mode r = RTSP_PARSER_CLIENT"
    "p_vermajor r = 1" "p_verminor r = 0" "p_reply r = p_reply q"
    using body announced_length_nonneg [OF hs] q by (auto simp: r_def set_state_def)
  have "parse_body q 0 = Inr (r, 0)"
    using body announced_length_nonneg [OF hs] q
    by (auto simp: parse_body_def is_transfer_encoding_chunked_def r_def set_state_def of_nat_diff)
  moreover have "input_result r 0 (length ?m) = Inr (r, 0, 0)"
    using q(4,6) by (simp add: input_result_def r)
  ultimately have "rtsp_parser_input env client_parser ?m = Inr (r, 0, 0)"
    by (simp add: rtsp_parser_input_def rd q(1))
  moreover have "cstr_at (p_raw r) 13 = Inr reason"
  proof -
    have nul: "NUL \<notin> set reason" and len: "length (''RTSP/1.0 '' @ code @ [NUL]) = 13"
      using reason code by (auto simp: value_ok_def code_ok_def)
    show ?thesis
      using cstr_at_append [OF nul, of "''RTSP/1.0 '' @ code @ [NUL]" "LF # headers_done hs @ CR # LF # body @ [NUL]"]
      unfolding len by (simp only: r q status_done_def append_assoc append_Cons append_Nil)
  qed
  moreover have "take (length body) (drop (p_offset r) (p_raw r)) = body"
  proof -
    have "p_offset r = length (status_done code reason @ headers_done hs @ [CR, LF])"
      by (simp add: r q print_response_def status_lengths headers_done_length)
    then show ?thesis by (simp add: r q)
  qed
  moreover have "\<exists>x. rtsp_get_header_by_name r name = Inr x
         \<and> (case lookup_header hs name of None \<Rightarrow> x = None
            | Some v \<Rightarrow> \<exists>i. x = Some i \<and> cstr_at (p_raw r) i = Inr v)" for name
  proof -
    have "\<forall>(n, v) \<in> set hs. name_ok n \<and> value_ok v" using hs by (auto simp: header_ok_def)
    moreover have "rtsp_get_header_by_name r name =
        header_by_name (status_done code reason @ headers_done hs @ CR # LF # body @ [NUL])
          (header_table (length (status_done code reason)) hs) name"
      by (simp add: rtsp_get_header_by_name_def r q)
    ultimately show ?thesis
      using header_by_name_spec [of hs "status_done code reason" "CR # LF # body @ [NUL]" name]
      by (simp only: r(1) q(2))
  qed
  ultimately show ?thesis
    using r(2,5,6,7,8,9,10) q(7,13) r(3,4) q(4,5,6)
    by (intro exI [of _ r])
      (simp add: rtsp_get_status_code_def rtsp_get_version_def rtsp_get_status_reason_def is_server_mode_def
        rtsp_get_header_count_def rtsp_get_content_length_def rtsp_get_content_def)
qed

text \<open>
  C2: parsing is the inverse of printing. A response with a three-digit code, a reason,
  well-formed headers (none of them \<open>Transfer-Encoding\<close>, a \<open>Content-Length\<close> within the limit
  set) and a body as long as its \<open>Content-Length\<close>, that arrives in one piece and, with its
  terminator, is shorter than 8 KB, is accepted with nothing left over when every allocation
  succeeds, and the getters return the code, the version, the reason, every header by its name
  (the first of that name, letter case ignored), the length and the body.
\<close>

theorem rtsp_response_roundtrip:
  assumes code: "code_ok code" and reason: "value_ok reason" "reason \<noteq> []"
    and hs: "\<forall>nv \<in> set hs. header_ok env nv" and alloc: "\<forall>n. env_alloc env n"
    and body: "int (length body) = max 0 (announced_length hs)"
    and small: "length (print_response code reason hs body) + 1 < 8 * KB"
  shows "\<exists>p. rtsp_parser_input env client_parser (print_response code reason hs body) = Inr (p, 0, 0)
    \<and> rtsp_get_status_code p = Inr (int (dec_val code)) \<and> rtsp_get_version p = Inr (1, 0)
    \<and> (\<exists>i. rtsp_get_status_reason p = Inr i \<and> cstr_at (p_raw p) i = Inr reason)
    \<and> rtsp_get_header_count p = Inr (length hs)
    \<and> (\<forall>name. \<exists>r. rtsp_get_header_by_name p name = Inr r
         \<and> (case lookup_header hs name of None \<Rightarrow> r = None
            | Some v \<Rightarrow> \<exists>i. r = Some i \<and> cstr_at (p_raw p) i = Inr v))
    \<and> rtsp_get_content_length p = Inr (int (length body))
    \<and> (\<exists>i. rtsp_get_content p = Inr i \<and> take (length body) (drop i (p_raw p)) = body)"
  using assms by (rule response_parsed)

text \<open>A DESCRIBE response of a device: two headers and a body of five bytes.\<close>

theorem rtsp_response_roundtrip_witness:
  "\<exists>p. rtsp_parser_input \<lparr>env_alloc = (\<lambda>n. True), env_body_max_size = 0\<rparr> client_parser
      (print_response ''200'' ''OK'' [(''CSeq'', ''2''), (''Content-Length'', ''5'')] ''v=0.s'') = Inr (p, 0, 0)
    \<and> rtsp_get_status_code p = Inr (int (dec_val ''200'')) \<and> rtsp_get_version p = Inr (1, 0)
    \<and> (\<exists>i. rtsp_get_status_reason p = Inr i \<and> cstr_at (p_raw p) i = Inr ''OK'')
    \<and> rtsp_get_header_count p = Inr (length [(''CSeq'', ''2''), (''Content-Length'', ''5'')])
    \<and> (\<forall>name. \<exists>r. rtsp_get_header_by_name p name = Inr r
         \<and> (case lookup_header [(''CSeq'', ''2''), (''Content-Length'', ''5'')] name of None \<Rightarrow> r = None
            | Some v \<Rightarrow> \<exists>i. r = Some i \<and> cstr_at (p_raw p) i = Inr v))
    \<and> rtsp_get_content_length p = Inr (int (length ''v=0.s''))
    \<and> (\<exists>i. rtsp_get_content p = Inr i \<and> take (length ''v=0.s'') (drop i (p_raw p)) = ''v=0.s'')"
proof (rule rtsp_response_roundtrip)
  show "code_ok ''200''" by (simp add: code_ok_def) code_simp
  show "value_ok ''OK''" by code_simp
  show "\<forall>nv \<in> set [(''CSeq'', ''2''), (''Content-Length'', ''5'')].
      header_ok \<lparr>env_alloc = (\<lambda>n. True), env_body_max_size = 0\<rparr> nv"
  proof -
    have "name_ok ''CSeq''" "value_ok ''2''" "name_ok ''Content-Length''" "value_ok ''5''"
      "\<not> strcaseeq ''Transfer-Encoding'' ''CSeq''" "\<not> strcaseeq ''Transfer-Encoding'' ''Content-Length''"
      "\<not> strcaseeq ''Content-Length'' ''CSeq''"
      by code_simp+
    moreover have "atoi ''5'' = int (dec_val ''5'')" by (rule atoi_digits) (simp_all, code_simp)
    ultimately show ?thesis by (simp add: header_ok_def)
  qed
  show "int (length ''v=0.s'') = max 0 (announced_length [(''CSeq'', ''2''), (''Content-Length'', ''5'')])"
  proof -
    have "\<not> strcaseeq ''Content-Length'' ''CSeq''" by code_simp
    moreover have "atoi ''5'' = int (dec_val ''5'')" by (rule atoi_digits) (simp_all, code_simp)
    ultimately show ?thesis
      by (simp add: announced_length_def header_length_def dec_val_def digit_val_def)
  qed
qed (simp_all add: print_response_def status_text_def headers_text_def header_text_def)

section \<open>A line without a colon\<close>

definition colonless :: "char list \<Rightarrow> bool" where
  "colonless line \<longleftrightarrow> line \<noteq> [] \<and> \<not> is_blank (hd line) \<and> (\<forall>c \<in> set line. c \<noteq> CR \<and> c \<noteq> LF \<and> c \<noteq> CHR '':'')"

text \<open>Its first word, the blanks behind it, and the character that should have been the colon.\<close>

lemma colonless_parts:
  assumes "colonless line"
  obtains n bl c rest where "line @ CR # post = n @ bl @ c # rest" "n \<noteq> []" "\<forall>x \<in> set n. \<not> is_stop x \<and> x \<noteq> CHR '':''"
    "\<forall>x \<in> set bl. is_blank x" "\<not> is_blank c" "c \<noteq> CHR '':''" "bl = [] \<longrightarrow> is_stop c" "length n + length bl \<le> length line"
proof -
  define n where "n = takeWhile (\<lambda>x. \<not> is_stop x) line"
  define r where "r = dropWhile (\<lambda>x. \<not> is_stop x) line"
  define bl where "bl = takeWhile is_blank r"
  define u where "u = dropWhile is_blank r"
  have ln: "line = n @ bl @ u" by (simp add: n_def r_def bl_def u_def)
  have ne: "n \<noteq> []" using assms by (cases line) (auto simp: n_def colonless_def is_stop_def is_blank_def)
  have n: "\<forall>x \<in> set n. \<not> is_stop x \<and> x \<noteq> CHR '':''"
    using assms set_takeWhileD unfolding n_def colonless_def by fastforce
  have bl: "\<forall>x \<in> set bl. is_blank x" using set_takeWhileD unfolding bl_def by fastforce
  have stop: "is_stop x \<longrightarrow> is_blank x" if "x \<in> set line" for x
    using assms that by (auto simp: colonless_def is_stop_def is_blank_def)
  show ?thesis
  proof (cases u)
    case Nil
    show ?thesis by (rule that [of n bl CR post]) (use ln Nil ne n bl in \<open>auto simp: is_stop_def is_blank_def\<close>)
  next
    case (Cons c w)
    have "\<not> is_blank c" using Cons by (simp add: u_def dropWhile_eq_Cons_conv)
    moreover have "c \<in> set line" by (simp add: ln Cons)
    ultimately have c: "\<not> is_blank c" "c \<in> set line" .
    have "bl \<noteq> []"
    proof
      assume "bl = []"
      then have "r = c # w" using Cons by (metis bl_def u_def takeWhile_dropWhile_id append_Nil)
      then have "is_stop c" by (simp add: r_def dropWhile_eq_Cons_conv)
      then show False using stop [OF c(2)] c(1) by blast
    qed
    then show ?thesis
      by (intro that [of n bl c "w @ CR # post"]) (use ln Cons ne n bl c assms in \<open>auto simp: colonless_def\<close>)
  qed
qed

lemma colonless_line_aborts:
  assumes "p_raw p = pre @ line @ CR # post" and "p_offset p = length pre" and "p_stateM p = SM_HEADER"
    and "length pre + length line < p_raw_size p" and "colonless line"
  shows "rtsp_parse_header_line env p = Inl Assert_Failed"
proof -
  obtain n bl c rest where P: "line @ CR # post = n @ bl @ c # rest" "n \<noteq> []" "\<forall>x \<in> set n. \<not> is_stop x \<and> x \<noteq> CHR '':''"
    "\<forall>x \<in> set bl. is_blank x" "\<not> is_blank c" "c \<noteq> CHR '':''" "bl = [] \<longrightarrow> is_stop c" "length n + length bl \<le> length line"
    by (rule colonless_parts [OF assms(5)])
  let ?run = "rtsp_parse_header_line env" and ?e = "length pre + length n" and ?f = "length pre + length n + length bl"
  have raw: "p_raw p = pre @ n @ bl @ c # rest" using assms(1) P(1) by simp
  have sz: "?f < p_raw_size p" "?f < length (p_raw p)" using assms(4) P(8) by (simp_all add: raw)
  have at_n: "i < length n \<Longrightarrow> p_raw p ! (length pre + i) = n ! i" for i by (simp add: raw nth_append)
  have at_bl: "i < length bl \<Longrightarrow> p_raw p ! (?e + i) = bl ! i" for i
    by (simp add: raw nth_append)
  have at_c: "p_raw p ! ?f = c" by (simp add: raw nth_append)
  have stop: "is_stop (p_raw p ! ?e)"
    using P(4,7) at_bl [of 0] at_c by (cases bl) (auto simp: is_stop_def is_blank_def)
  have first: "\<not> is_blank (n ! 0)" "n ! 0 \<noteq> CR" "n ! 0 \<noteq> LF"
    using P(2,3) nth_mem [of 0 n] by (auto simp: is_stop_def is_blank_def)
  define p1 where "p1 = set_state 101 (set_name_pos (length pre) p)"
  have "?run p = ?run p1"
    using assms(2,3) sz P(2) at_n [of 0] first
    by (intro headers.run_step(1)) (auto simp: header_step_def p1_def)
  also have "?run p1 = ?run (p1\<lparr>p_offset := p_offset p1 + length n\<rparr>)"
    using assms(2) sz P(3) nth_mem
    by (intro headers.run_skip) (auto simp: p1_def parser_setters header_step_def at_n)
  also have "\<dots> = ?run (set_state 102 (set_name_len (length n) (p1\<lparr>p_offset := ?e\<rparr>)))"
    using assms(2) sz stop by (intro headers.run_step(1))
      (simp_all add: p1_def parser_setters header_step_def header_v_set_def header_v_get_def)
  also have "\<dots> = ?run (set_state 102 (set_name_len (length n) (p1\<lparr>p_offset := ?e\<rparr>))
      \<lparr>p_offset := p_offset (set_state 102 (set_name_len (length n) (p1\<lparr>p_offset := ?e\<rparr>))) + length bl\<rparr>)"
    using assms(2) sz P(4) nth_mem
    by (intro headers.run_skip) (auto simp: p1_def parser_setters header_step_def at_bl)
  also have "\<dots> = ?run (set_state 103 (set_name_len (length n) (p1\<lparr>p_offset := ?f\<rparr>)))"
    using assms(2) sz at_c P(5) by (intro headers.run_step(1))
      (simp_all add: p1_def parser_setters header_step_def header_v_set_def)
  also have "\<dots> = Inl Assert_Failed"
    using assms(2) sz at_c P(6) by (intro headers.run_step(4)) (simp_all add: p1_def parser_setters header_step_def)
  finally show ?thesis .
qed

text \<open>
  C39: one header line without a colon in an otherwise valid response stops the process: behind
  a well-formed status line and any number of well-formed headers, any line that does not begin with a blank
  and has no colon makes \<open>rtsp_parser_input\<close> run into an \<open>assert\<close>, whatever follows it (for a
  message under 8 KB, with every allocation succeeding). Malformed input from the network is
  answered by an abort, not by an error.
\<close>

theorem rtsp_header_without_colon_aborts:
  assumes code: "code_ok code" and reason: "value_ok reason" "reason \<noteq> []"
    and hs: "\<forall>nv \<in> set hs. header_ok env nv" and alloc: "\<forall>n. env_alloc env n"
    and line: "colonless line"
    and small: "length (status_text code reason @ headers_text hs @ line @ CR # rest) + 1 < 8 * KB"
  shows "rtsp_parser_input env client_parser (status_text code reason @ headers_text hs @ line @ CR # rest)
    = Inl Assert_Failed"
proof -
  let ?m = "status_text code reason @ headers_text hs @ line @ CR # rest"
  let ?post = "headers_text hs @ line @ CR # rest @ [NUL]"
  define p0 where "p0 = client_parser\<lparr>p_raw_capacity := 8 * KB, p_raw := ?m @ [NUL], p_raw_size := length ?m\<rparr>"
  have rd: "rtsp_rawdata env client_parser ?m = Inr (p0, 0)"
    using client_rawdata [OF small alloc] by (simp add: p0_def)
  have p0: "p_raw p0 = status_text code reason @ ?post" "p_offset p0 = 0" "p_stateM p0 = 0" "p_raw_size p0 = length ?m"
    "p_headers p0 = []" "p_transfer_encoding p0 = 0" "p_server_mode p0 = RTSP_PARSER_CLIENT"
    by (simp_all add: p0_def client_parser_fields)
  obtain q1 where q1: "rtsp_parse_status_line p0 = Inr (q1, 0)" "p_raw q1 = status_done code reason @ ?post"
    "p_offset q1 = length (status_done code reason)" "p_stateM q1 = 100" "p_raw_size q1 = p_raw_size p0"
    "p_headers q1 = []" "p_transfer_encoding q1 = 0"
    using status_line [OF p0(1-3) _ code reason] p0(4-7) by auto
  have ne: "status_done code reason \<noteq> []" by (simp add: status_done_def)
  have sz: "length (status_done code reason) + length (headers_text hs) \<le> p_raw_size q1"
    by (simp add: q1(5) p0(4) status_lengths)
  obtain q2 where q2: "rtsp_parse_header_line env q1 = rtsp_parse_header_line env q2"
    "p_raw q2 = (status_done code reason @ headers_done hs) @ line @ CR # rest @ [NUL]"
    "p_offset q2 = length (status_done code reason @ headers_done hs)" "p_stateM q2 = 100" "header_frame q1 q2"
    using header_lines [OF q1(2,3) ne q1(4) sz hs q1(7) _ alloc] q1(6) by auto
  have "length (status_done code reason @ headers_done hs) + length line < p_raw_size q2"
    using q2(5) by (simp add: header_frame_def q1(5) p0(4) status_lengths headers_done_length)
  then have "rtsp_parse_header_line env q2 = Inl Assert_Failed"
    using colonless_line_aborts [OF q2(2,3) _ _ line] q2(4) by simp
  then have "parse_to_body env p0 = Inl Assert_Failed"
    using q1(1,4) q2(1) p0(3,7) by (simp add: parse_to_body_def parse_start_def is_server_mode_def parse_headers_def)
  then show ?thesis by (simp add: rtsp_parser_input_def rd)
qed

theorem rtsp_header_without_colon_aborts_witness:
  "rtsp_parser_input \<lparr>env_alloc = (\<lambda>n. True), env_body_max_size = 0\<rparr> client_parser
    (status_text ''200'' ''OK'' @ headers_text [(''CSeq'', ''2'')] @ ''Hello world'' @ CR # [LF, CR, LF]) = Inl Assert_Failed"
proof (rule rtsp_header_without_colon_aborts)
  show "code_ok ''200''" by (simp add: code_ok_def) code_simp
  show "value_ok ''OK''" by code_simp
  show "colonless ''Hello world''" by code_simp
  have "name_ok ''CSeq''" "value_ok ''2''" "\<not> strcaseeq ''Transfer-Encoding'' ''CSeq''" "\<not> strcaseeq ''Content-Length'' ''CSeq''"
    by code_simp+
  then show "\<forall>nv \<in> set [(''CSeq'', ''2'')]. header_ok \<lparr>env_alloc = (\<lambda>n. True), env_body_max_size = 0\<rparr> nv"
    by (simp add: header_ok_def)
qed (simp_all add: status_text_def headers_text_def header_text_def)

end
