(* ===== verification/Simclist.thy ===== *)
theory Simclist
  imports Box_Prelude
begin

text \<open>
  \<open>src/src/common/simclist.c\<close>: the doubly linked list with two sentinels, a pointer to the
  middle element, a small stack of spare entries and user-set attributes, over an explicit
  heap of entries. An entry is an address; \<open>malloc\<close> hands out fresh addresses or fails;
  freeing unmaps an address, and following a pointer to an unmapped address is a fault.
  \<open>simclist.c\<close> defines \<open>NDEBUG\<close> itself, so its own \<open>assert\<close>s are not in the program.

  Element data is a \<open>void *\<close>: \<open>None\<close> is \<open>NULL\<close>.
\<close>

section \<open>State\<close>

record 'a entry =
  e_data :: "'a option"
  e_next :: "nat option"
  e_prev :: "nat option"

text \<open>
  The list object, its attributes, and the heap of entries it lives in. \<open>l_copy\<close> is the
  \<open>copy_data\<close> attribute with the copying (\<open>meter\<close>, \<open>malloc\<close>, \<open>memcpy\<close>) as a function;
  \<open>l_freed\<close> records the element data the list freed. \<open>l_spare\<close> is the stack \<open>spareels\<close>, its
  top first.
\<close>

record ('a, 'k) list_t =
  l_head :: nat
  l_tail :: nat
  l_mid :: "nat option"
  l_numels :: nat
  l_spare :: "nat list"
  l_iter_active :: bool
  l_iter_pos :: nat
  l_iter_cur :: "nat option"
  l_comparator :: "('a option \<Rightarrow> 'a option \<Rightarrow> int) option"
  l_seeker :: "('a option \<Rightarrow> 'k \<Rightarrow> bool) option"
  l_copy :: "('a option \<Rightarrow> 'a option) option"
  l_freed :: "'a list"
  l_heap :: "nat \<Rightarrow> 'a entry option"
  l_brk :: nat

definition SIMCLIST_MAX_SPARE_ELEMS :: nat where "SIMCLIST_MAX_SPARE_ELEMS = 5"

section \<open>Pointers\<close>

definition deref :: "('a, 'k) list_t \<Rightarrow> nat option \<Rightarrow> 'a entry res" where
  "deref l p = (case p of
       None \<Rightarrow> Inl Null_Deref
     | Some a \<Rightarrow> (case l_heap l a of None \<Rightarrow> Inl Use_After_Free | Some e \<Rightarrow> Inr e))"

definition upd_entry ::
  "('a, 'k) list_t \<Rightarrow> nat option \<Rightarrow> ('a entry \<Rightarrow> 'a entry) \<Rightarrow> ('a, 'k) list_t res" where
  "upd_entry l p f = (case p of
       None \<Rightarrow> Inl Null_Deref
     | Some a \<Rightarrow> (case l_heap l a of
           None \<Rightarrow> Inl Use_After_Free
         | Some e \<Rightarrow> Inr (l\<lparr>l_heap := (l_heap l)(a := Some (f e))\<rparr>)))"

definition set_next :: "nat option \<Rightarrow> 'a entry \<Rightarrow> 'a entry" where
  "set_next p e = e\<lparr>e_next := p\<rparr>"
definition set_prev :: "nat option \<Rightarrow> 'a entry \<Rightarrow> 'a entry" where
  "set_prev p e = e\<lparr>e_prev := p\<rparr>"

definition malloc_entry :: "('a, 'k) list_t \<Rightarrow> nat \<times> ('a, 'k) list_t" where
  "malloc_entry l = (l_brk l, l\<lparr>l_brk := l_brk l + 1,
     l_heap := (l_heap l)(l_brk l := Some \<lparr>e_data = None, e_next = None, e_prev = None\<rparr>)\<rparr>)"

definition free_entry :: "('a, 'k) list_t \<Rightarrow> nat \<Rightarrow> ('a, 'k) list_t res" where
  "free_entry l a = (case l_heap l a of
       None \<Rightarrow> Inl Use_After_Free
     | Some e \<Rightarrow> Inr (l\<lparr>l_heap := (l_heap l)(a := None)\<rparr>))"

definition free_data :: "('a, 'k) list_t \<Rightarrow> 'a option \<Rightarrow> ('a, 'k) list_t" where
  "free_data l d = (case d of
       None \<Rightarrow> l
     | Some x \<Rightarrow> if l_copy l = None then l else l\<lparr>l_freed := x # l_freed l\<rparr>)"

text \<open>\<open>spareels[spareelsnum++] = tmp\<close> while there is room, else \<open>free(tmp)\<close>.\<close>

definition spare_or_free :: "('a, 'k) list_t \<Rightarrow> nat \<Rightarrow> ('a, 'k) list_t res" where
  "spare_or_free l a =
     (if length (l_spare l) < SIMCLIST_MAX_SPARE_ELEMS then Inr (l\<lparr>l_spare := a # l_spare l\<rparr>)
      else free_entry l a)"

text \<open>The loops \<open>for (..; ptr = ptr->next, ..)\<close> and \<open>ptr = ptr->prev\<close>, \<open>k\<close> times.\<close>

fun walk_next :: "('a, 'k) list_t \<Rightarrow> nat \<Rightarrow> nat option \<Rightarrow> nat option res" where
  "walk_next l 0 p = Inr p"
| "walk_next l (Suc k) p = bind (deref l p) (\<lambda>e. walk_next l k (e_next e))"

fun walk_prev :: "('a, 'k) list_t \<Rightarrow> nat \<Rightarrow> nat option \<Rightarrow> nat option res" where
  "walk_prev l 0 p = Inr p"
| "walk_prev l (Suc k) p = bind (deref l p) (\<lambda>e. walk_prev l k (e_prev e))"

section \<open>Life cycle and attributes\<close>

definition list_attributes_setdefaults :: "('a, 'k) list_t \<Rightarrow> ('a, 'k) list_t" where
  "list_attributes_setdefaults l = l\<lparr>l_comparator := None, l_seeker := None, l_copy := None\<rparr>"

text \<open>The two sentinels are the first two entries of an empty heap.\<close>

definition list_init :: "('a, 'k) list_t" where
  "list_init = list_attributes_setdefaults
     \<lparr>l_head = 0, l_tail = 1, l_mid = None, l_numels = 0, l_spare = [],
      l_iter_active = False, l_iter_pos = 0, l_iter_cur = None,
      l_comparator = None, l_seeker = None, l_copy = None, l_freed = [],
      l_heap = [0 \<mapsto> \<lparr>e_data = None, e_next = Some 1, e_prev = None\<rparr>,
                1 \<mapsto> \<lparr>e_data = None, e_next = None, e_prev = Some 0\<rparr>],
      l_brk = 2\<rparr>"

definition list_attributes_comparator ::
  "('a, 'k) list_t \<Rightarrow> ('a option \<Rightarrow> 'a option \<Rightarrow> int) option \<Rightarrow> ('a, 'k) list_t" where
  "list_attributes_comparator l f = l\<lparr>l_comparator := f\<rparr>"

definition list_attributes_seeker ::
  "('a, 'k) list_t \<Rightarrow> ('a option \<Rightarrow> 'k \<Rightarrow> bool) option \<Rightarrow> ('a, 'k) list_t" where
  "list_attributes_seeker l f = l\<lparr>l_seeker := f\<rparr>"

definition list_attributes_copy ::
  "('a, 'k) list_t \<Rightarrow> ('a option \<Rightarrow> 'a option) option \<Rightarrow> bool \<Rightarrow> ('a, 'k) list_t \<times> int" where
  "list_attributes_copy l meter copy =
     (if meter = None \<and> copy then (l, - 1)
      else (l\<lparr>l_copy := (if copy then meter else None)\<rparr>, 0))"

section \<open>Positions\<close>

text \<open>
  The quarter of the list decides where the walk starts. \<open>x = (float)(posstart+1) / numels\<close> is
  compared as the exact fraction (the \<open>float\<close>s are exact enough for lists below \<open>2 ^ 22\<close>
  elements); for an empty list \<open>x\<close> is NaN or infinite and every comparison fails.
\<close>

definition list_findpos :: "('a, 'k) list_t \<Rightarrow> int \<Rightarrow> nat option res" where
  "list_findpos l posstart =
     (let n = l_numels l; q = nat (posstart + 1); m = int ((n - 1) div 2)
      in if posstart < - 1 \<or> posstart > int n then Inr None
         else if 0 < n \<and> 4 * q \<le> n then walk_next l q (Some (l_head l))
         else if 0 < n \<and> 2 * q < n then walk_prev l (nat (m - posstart)) (l_mid l)
         else if 0 < n \<and> 4 * q \<le> 3 * n then walk_next l (nat (posstart - m)) (l_mid l)
         else walk_prev l (nat (int n - posstart)) (Some (l_tail l)))"

text \<open>An \<open>unsigned int\<close> passed as \<open>int\<close>.\<close>

definition s32 :: "nat \<Rightarrow> int" where
  "s32 n = (if n mod 2 ^ 32 < 2 ^ 31 then int (n mod 2 ^ 32) else int (n mod 2 ^ 32) - 2 ^ 32)"

definition list_get_at :: "('a, 'k) list_t \<Rightarrow> nat \<Rightarrow> 'a option res" where
  "list_get_at l pos =
     bind (list_findpos l (s32 pos)) (\<lambda>tmp.
       if tmp = None then Inr None else bind (deref l tmp) (\<lambda>e. Inr (e_data e)))"

section \<open>Insertion\<close>

text \<open>The mid pointer after an insertion at \<open>pos\<close> (lines 537-544).\<close>

definition fix_mid_insert :: "('a, 'k) list_t \<Rightarrow> nat \<Rightarrow> nat \<Rightarrow> ('a, 'k) list_t res" where
  "fix_mid_insert l lent pos =
     (let n = l_numels l
      in if n = 1 then Inr (l\<lparr>l_mid := Some lent\<rparr>)
         else if odd n then
           if pos \<ge> (n - 1) div 2
           then bind (deref l (l_mid l)) (\<lambda>e. Inr (l\<lparr>l_mid := e_next e\<rparr>)) else Inr l
         else
           if pos \<le> (n - 1) div 2
           then bind (deref l (l_mid l)) (\<lambda>e. Inr (l\<lparr>l_mid := e_prev e\<rparr>)) else Inr l)"

text \<open>Lines 517-544, with the new entry at hand.\<close>

definition link_entry :: "('a, 'k) list_t \<Rightarrow> nat \<Rightarrow> 'a option \<Rightarrow> nat \<Rightarrow> ('a, 'k) list_t res" where
  "link_entry l lent data pos =
     bind (upd_entry l (Some lent) (\<lambda>e. e\<lparr>e_data := (case l_copy l of None \<Rightarrow> data | Some dup \<Rightarrow> dup data)\<rparr>)) (\<lambda>l.
     bind (list_findpos l (int pos - 1)) (\<lambda>prec.
     bind (deref l prec) (\<lambda>pe.
     let succ = e_next pe in
     bind (upd_entry l prec (set_next (Some lent))) (\<lambda>l.
     bind (upd_entry l (Some lent) (set_prev prec)) (\<lambda>l.
     bind (upd_entry l (Some lent) (set_next succ)) (\<lambda>l.
     bind (upd_entry l succ (set_prev (Some lent))) (\<lambda>l.
       fix_mid_insert (l\<lparr>l_numels := l_numels l + 1\<rparr>) lent pos)))))))"

definition list_insert_at ::
  "bool \<Rightarrow> ('a, 'k) list_t \<Rightarrow> 'a option \<Rightarrow> nat \<Rightarrow> (('a, 'k) list_t \<times> int) res" where
  "list_insert_at malloc_ok l data pos =
     (if l_iter_active l \<or> pos > l_numels l then Inr (l, - 1)
      else case l_spare l of
          lent # spare \<Rightarrow> bind (link_entry (l\<lparr>l_spare := spare\<rparr>) lent data pos) (\<lambda>l. Inr (l, 1))
        | [] \<Rightarrow>
            if \<not> malloc_ok then Inr (l, - 1)
            else case malloc_entry l of (lent, l) \<Rightarrow>
              bind (link_entry l lent data pos) (\<lambda>l. Inr (l, 1)))"

definition list_append :: "bool \<Rightarrow> ('a, 'k) list_t \<Rightarrow> 'a option \<Rightarrow> (('a, 'k) list_t \<times> int) res" where
  "list_append malloc_ok l data = list_insert_at malloc_ok l data (l_numels l)"

definition list_prepend :: "bool \<Rightarrow> ('a, 'k) list_t \<Rightarrow> 'a option \<Rightarrow> (('a, 'k) list_t \<times> int) res" where
  "list_prepend malloc_ok l data = list_insert_at malloc_ok l data 0"

section \<open>Deletion\<close>

definition list_drop_elem :: "('a, 'k) list_t \<Rightarrow> nat option \<Rightarrow> nat \<Rightarrow> (('a, 'k) list_t \<times> int) res" where
  "list_drop_elem l tmp pos =
     (case tmp of None \<Rightarrow> Inr (l, - 1)
      | Some a \<Rightarrow>
          bind (let n = l_numels l
                in if odd n then
                     if n = 1 then Inr (l\<lparr>l_mid := None\<rparr>)
                     else if pos \<ge> n div 2
                     then bind (deref l (l_mid l)) (\<lambda>e. Inr (l\<lparr>l_mid := e_prev e\<rparr>)) else Inr l
                   else
                     if pos < n div 2
                     then bind (deref l (l_mid l)) (\<lambda>e. Inr (l\<lparr>l_mid := e_next e\<rparr>)) else Inr l) (\<lambda>l.
          bind (deref l tmp) (\<lambda>e.
          bind (upd_entry l (e_prev e) (set_next (e_next e))) (\<lambda>l.
          bind (deref l tmp) (\<lambda>e.
          bind (upd_entry l (e_next e) (set_prev (e_prev e))) (\<lambda>l.
          bind (deref l tmp) (\<lambda>e.
          bind (spare_or_free (free_data l (e_data e)) a) (\<lambda>l. Inr (l, 0)))))))))"

definition list_delete_at :: "('a, 'k) list_t \<Rightarrow> nat \<Rightarrow> (('a, 'k) list_t \<times> int) res" where
  "list_delete_at l pos =
     (if l_iter_active l \<or> pos \<ge> l_numels l then Inr (l, - 1)
      else bind (list_findpos l (int pos)) (\<lambda>delendo.
           bind (list_drop_elem l delendo pos) (\<lambda>(l, r).
             Inr (l\<lparr>l_numels := l_numels l - 1\<rparr>, 0))))"

definition list_extract_at :: "('a, 'k) list_t \<Rightarrow> nat \<Rightarrow> (('a, 'k) list_t \<times> 'a option) res" where
  "list_extract_at l pos =
     (if l_iter_active l \<or> pos \<ge> l_numels l then Inr (l, None)
      else bind (list_findpos l (int pos)) (\<lambda>tmp.
           bind (deref l tmp) (\<lambda>e.
           bind (upd_entry l tmp (\<lambda>e. e\<lparr>e_data := None\<rparr>)) (\<lambda>l.
           bind (list_drop_elem l tmp pos) (\<lambda>(l, r).
             Inr (l\<lparr>l_numels := l_numels l - 1\<rparr>, e_data e))))))"

definition list_fetch :: "('a, 'k) list_t \<Rightarrow> (('a, 'k) list_t \<times> 'a option) res" where
  "list_fetch l = list_extract_at l 0"

section \<open>Scans\<close>

text \<open>
  The loops \<open>for (el = head->next; el != tail; el = el->next)\<close>. The fuel is one more than the
  number of addresses handed out, so a walk that uses it up has come back to an entry:
  \<open>Diverges\<close>.
\<close>

definition loop_fuel :: "('a, 'k) list_t \<Rightarrow> nat" where "loop_fuel l = l_brk l + 1"

definition first_entry :: "('a, 'k) list_t \<Rightarrow> nat option res" where
  "first_entry l = bind (deref l (Some (l_head l))) (\<lambda>e. Inr (e_next e))"

fun locate_loop ::
  "nat \<Rightarrow> ('a, 'k) list_t \<Rightarrow> ('a option \<Rightarrow> bool) \<Rightarrow> nat option \<Rightarrow> int \<Rightarrow> int res" where
  "locate_loop 0 l hit el pos = Inl Diverges"
| "locate_loop (Suc fuel) l hit el pos =
     (if el = Some (l_tail l) then Inr (- 1)
      else bind (deref l el) (\<lambda>e.
        if hit (e_data e) then Inr pos else locate_loop fuel l hit (e_next e) (pos + 1)))"

definition list_locate :: "('a, 'k) list_t \<Rightarrow> 'a option \<Rightarrow> int res" where
  "list_locate l data =
     bind (first_entry l) (\<lambda>el.
       locate_loop (loop_fuel l) l
         (case l_comparator l of Some cmp \<Rightarrow> (\<lambda>d. cmp data d = 0) | None \<Rightarrow> (\<lambda>d. d = data)) el 0)"

fun seek_loop :: "nat \<Rightarrow> ('a, 'k) list_t \<Rightarrow> ('a option \<Rightarrow> bool) \<Rightarrow> nat option \<Rightarrow> 'a option res" where
  "seek_loop 0 l hit el = Inl Diverges"
| "seek_loop (Suc fuel) l hit el =
     (if el = Some (l_tail l) then Inr None
      else bind (deref l el) (\<lambda>e.
        if hit (e_data e) then Inr (e_data e) else seek_loop fuel l hit (e_next e)))"

definition list_seek :: "('a, 'k) list_t \<Rightarrow> 'k \<Rightarrow> 'a option res" where
  "list_seek l indicator =
     (case l_seeker l of
        None \<Rightarrow> Inr None
      | Some sk \<Rightarrow> bind (first_entry l) (\<lambda>el. seek_loop (loop_fuel l) l (\<lambda>d. sk d indicator) el))"

definition list_contains :: "('a, 'k) list_t \<Rightarrow> 'a option \<Rightarrow> bool res" where
  "list_contains l data = bind (list_locate l data) (\<lambda>pos. Inr (pos \<ge> 0))"

definition list_size :: "('a, 'k) list_t \<Rightarrow> nat" where "list_size l = l_numels l"

definition list_empty :: "('a, 'k) list_t \<Rightarrow> bool" where "list_empty l \<longleftrightarrow> l_numels l = 0"

definition list_delete :: "('a, 'k) list_t \<Rightarrow> 'a option \<Rightarrow> (('a, 'k) list_t \<times> int) res" where
  "list_delete l data =
     bind (list_locate l data) (\<lambda>pos.
       if pos < 0 then Inr (l, - 1)
       else bind (list_delete_at l (nat pos)) (\<lambda>(l, r).
         if r < 0 then Inr (l, - 1) else Inr (l, 0)))"

fun minmax_loop ::
  "nat \<Rightarrow> ('a, 'k) list_t \<Rightarrow> ('a option \<Rightarrow> 'a option \<Rightarrow> int) \<Rightarrow> int \<Rightarrow> nat option \<Rightarrow> 'a option
     \<Rightarrow> 'a option res" where
  "minmax_loop 0 l cmp versus s cur = Inl Diverges"
| "minmax_loop (Suc fuel) l cmp versus s cur =
     (if s = Some (l_tail l) then Inr cur
      else bind (deref l s) (\<lambda>e.
        minmax_loop fuel l cmp versus (e_next e)
          (if cmp cur (e_data e) * versus > 0 then e_data e else cur)))"

definition list_get_minmax :: "('a, 'k) list_t \<Rightarrow> int \<Rightarrow> 'a option res" where
  "list_get_minmax l versus =
     (case l_comparator l of
        None \<Rightarrow> Inr None
      | Some cmp \<Rightarrow>
          if l_numels l = 0 then Inr None
          else bind (first_entry l) (\<lambda>el. bind (deref l el) (\<lambda>e.
            minmax_loop (loop_fuel l) l cmp versus (e_next e) (e_data e))))"

section \<open>Clearing\<close>

fun clear_spares :: "nat \<Rightarrow> ('a, 'k) list_t \<Rightarrow> nat option \<Rightarrow> (('a, 'k) list_t \<times> nat option) res" where
  "clear_spares 0 l s = Inl Diverges"
| "clear_spares (Suc fuel) l s =
     (if length (l_spare l) < SIMCLIST_MAX_SPARE_ELEMS \<and> s \<noteq> Some (l_tail l) then
        bind (deref l s) (\<lambda>e.
          clear_spares fuel ((free_data l (e_data e))\<lparr>l_spare := the s # l_spare l\<rparr>) (e_next e))
      else Inr (l, s))"

text \<open>\<open>s = s->next; free(s->prev)\<close>.\<close>

fun clear_rest :: "nat \<Rightarrow> ('a, 'k) list_t \<Rightarrow> nat option \<Rightarrow> ('a, 'k) list_t res" where
  "clear_rest 0 l s = Inl Diverges"
| "clear_rest (Suc fuel) l s =
     (if s \<noteq> Some (l_tail l) then
        bind (deref l s) (\<lambda>e.
        bind (deref l (e_next e)) (\<lambda>e'.
        case e_prev e' of
          None \<Rightarrow> clear_rest fuel (free_data l (e_data e)) (e_next e)
        | Some a \<Rightarrow> bind (free_entry (free_data l (e_data e)) a) (\<lambda>l. clear_rest fuel l (e_next e))))
      else Inr l)"

definition list_clear :: "('a, 'k) list_t \<Rightarrow> (('a, 'k) list_t \<times> int) res" where
  "list_clear l =
     (if l_iter_active l then Inr (l, - 1)
      else
        bind (first_entry l) (\<lambda>s.
        bind (clear_spares (loop_fuel l) l s) (\<lambda>(l, s).
        bind (clear_rest (loop_fuel l) l s) (\<lambda>l.
        bind (upd_entry l (Some (l_head l)) (set_next (Some (l_tail l)))) (\<lambda>l.
        bind (upd_entry l (Some (l_tail l)) (set_prev (Some (l_head l)))) (\<lambda>l.
          Inr (l\<lparr>l_numels := 0, l_mid := None\<rparr>, 0)))))))"

fun free_all :: "('a, 'k) list_t \<Rightarrow> nat list \<Rightarrow> ('a, 'k) list_t res" where
  "free_all l [] = Inr l"
| "free_all l (a # as) = bind (free_entry l a) (\<lambda>l. free_all l as)"

definition list_destroy :: "('a, 'k) list_t \<Rightarrow> ('a, 'k) list_t res" where
  "list_destroy l =
     bind (list_clear l) (\<lambda>(l, r).
     bind (free_all l (rev (l_spare l))) (\<lambda>l.
     bind (free_entry l (l_head l)) (\<lambda>l.
       free_entry l (l_tail l))))"

section \<open>Iteration\<close>

definition list_iterator_start :: "('a, 'k) list_t \<Rightarrow> (('a, 'k) list_t \<times> int) res" where
  "list_iterator_start l =
     (if l_iter_active l then Inr (l, 0)
      else bind (first_entry l) (\<lambda>p.
        Inr (l\<lparr>l_iter_pos := 0, l_iter_active := True, l_iter_cur := p\<rparr>, 1)))"

definition list_iterator_next :: "('a, 'k) list_t \<Rightarrow> (('a, 'k) list_t \<times> 'a option) res" where
  "list_iterator_next l =
     (if \<not> l_iter_active l then Inr (l, None)
      else bind (deref l (l_iter_cur l)) (\<lambda>e.
        Inr (l\<lparr>l_iter_cur := e_next e, l_iter_pos := l_iter_pos l + 1\<rparr>, e_data e)))"

definition list_iterator_hasnext :: "('a, 'k) list_t \<Rightarrow> bool" where
  "list_iterator_hasnext l \<longleftrightarrow> l_iter_active l \<and> l_iter_pos l < l_numels l"

definition list_iterator_stop :: "('a, 'k) list_t \<Rightarrow> ('a, 'k) list_t \<times> int" where
  "list_iterator_stop l =
     (if \<not> l_iter_active l then (l, 0)
      else (l\<lparr>l_iter_pos := 0, l_iter_active := False\<rparr>, 1))"

section \<open>The representation check\<close>

text \<open>
  \<open>list_repOk\<close>, the check the source compiles under \<open>SIMCLIST_DEBUG\<close>: its two loops count the
  links from the head to \<open>mid\<close> and from there to the tail, and stop at a broken \<open>prev\<close>.
\<close>

fun rep_walk :: "('a, 'k) list_t \<Rightarrow> nat \<Rightarrow> nat option \<Rightarrow> int \<Rightarrow> (nat option \<times> int) res" where
  "rep_walk l 0 s i = Inr (s, i)"
| "rep_walk l (Suc k) s i =
     bind (deref l s) (\<lambda>e.
       if e_next e = None then Inr (s, i)
       else bind (deref l (e_next e)) (\<lambda>e'.
         if e_prev e' \<noteq> s then Inr (s, i) else rep_walk l k (e_next e) (i + 1)))"

definition list_repOk :: "('a, 'k) list_t \<Rightarrow> bool res" where
  "list_repOk l =
     bind (deref l (Some (l_head l))) (\<lambda>he.
     bind (deref l (Some (l_tail l))) (\<lambda>te.
       if \<not> (l_head l \<noteq> l_tail l \<and> e_prev he = None \<and> e_next te = None
            \<and> (l_numels l > 0 \<or> l_mid l = None \<and> e_next he = Some (l_tail l)
                 \<and> e_prev te = Some (l_head l))
            \<and> length (l_spare l) \<le> SIMCLIST_MAX_SPARE_ELEMS) then Inr False
       else if l_numels l \<ge> 1 then
         bind (rep_walk l ((l_numels l - 1) div 2 + 1) (Some (l_head l)) (- 1)) (\<lambda>(s, i).
           if i \<noteq> int ((l_numels l - 1) div 2) \<or> l_mid l \<noteq> s then Inr False
           else bind (rep_walk l (loop_fuel l) s i) (\<lambda>(s, i).
             Inr (i = int (l_numels l) \<and> s = Some (l_tail l))))
       else Inr True))"

end
