(* ===== verification/Simclist_Ops.thy ===== *)
theory Simclist_Ops
  imports Simclist "HOL-Library.Signed_Division"
begin

text \<open>
  The operations of \<open>src/src/common/simclist.c\<close> on whole lists: deletion of a range,
  concatenation, sorting, hashing, and the ready-made comparators. \<open>numels\<close> is an
  \<open>unsigned int\<close>: where the code subtracts one from it, the words are written out.
\<close>

section \<open>Deletion of a range\<close>

definition u32 :: "nat \<Rightarrow> 32 word" where "u32 n = of_nat n"

text \<open>How far the mid pointer is moved (lines 596-600), as an \<open>int\<close>.\<close>

definition mid_moves :: "nat \<Rightarrow> nat \<Rightarrow> nat \<Rightarrow> int" where
  "mid_moves n posstart posend =
     (let numdel = u32 posend - u32 posstart + 1;
          after = (u32 n - 1 - numdel) div 2;
          after = (if after < u32 posstart then after else after + numdel)
      in sint (after - (u32 n - 1) div 2))"

text \<open>The loops that free the data and the containers, \<open>k\<close> entries from \<open>tmp\<close> on.\<close>

primrec drop_range :: "nat \<Rightarrow> ('a, 'k) list_t \<Rightarrow> nat option \<Rightarrow> (('a, 'k) list_t \<times> nat option) res" where
  "drop_range 0 l tmp = Inr (l, tmp)"
| "drop_range (Suc k) l tmp =
     (case tmp of None \<Rightarrow> Inl Null_Deref
      | Some a \<Rightarrow> bind (deref l tmp) (\<lambda>e.
          bind (spare_or_free (free_data l (e_data e)) a) (\<lambda>l. drop_range k l (e_next e))))"

definition list_delete_range :: "('a, 'k) list_t \<Rightarrow> nat \<Rightarrow> nat \<Rightarrow> (('a, 'k) list_t \<times> int) res" where
  "list_delete_range l posstart posend =
     (if l_iter_active l \<or> posend < posstart \<or> posend \<ge> l_numels l then Inr (l, - 1)
      else
        bind (list_findpos l (int posstart)) (\<lambda>tmp.
        bind (deref l tmp) (\<lambda>e.
        let lastvalid = e_prev e; movedx = mid_moves (l_numels l) posstart posend in
        bind (if movedx > 0 then walk_next l (nat movedx) (l_mid l)
              else walk_prev l (nat (- movedx)) (l_mid l)) (\<lambda>mid.
        bind (drop_range (posend + 1 - posstart) (l\<lparr>l_mid := mid\<rparr>) tmp) (\<lambda>(l, tmp).
        bind (upd_entry l lastvalid (set_next tmp)) (\<lambda>l.
        bind (upd_entry l tmp (set_prev lastvalid)) (\<lambda>l.
          Inr (l\<lparr>l_numels := l_numels l - (posend - posstart + 1)\<rparr>, 0))))))))"

section \<open>Concatenation\<close>

text \<open>
  The copy of the entries of \<open>src\<close> from \<open>srcel\<close> on, after the entry \<open>el\<close> of the new list. The
  code does not look at what \<open>malloc\<close> returns; it is taken to succeed.
\<close>

primrec copy_entries ::
  "nat \<Rightarrow> ('a, 'k) list_t \<Rightarrow> nat option \<Rightarrow> ('a, 'k) list_t \<Rightarrow> nat \<Rightarrow> (('a, 'k) list_t \<times> nat) res" where
  "copy_entries 0 src srcel l el = Inl Diverges"
| "copy_entries (Suc fuel) src srcel l el =
     (if srcel = Some (l_tail src) then Inr (l, el)
      else bind (deref src srcel) (\<lambda>e.
        case malloc_entry l of (a, l) \<Rightarrow>
        bind (upd_entry l (Some el) (set_next (Some a))) (\<lambda>l.
        bind (upd_entry l (Some a) (\<lambda>x. x\<lparr>e_data := e_data e, e_prev := Some el\<rparr>)) (\<lambda>l.
          copy_entries fuel src (e_next e) l a))))"

definition list_concat :: "('a, 'k) list_t \<Rightarrow> ('a, 'k) list_t \<Rightarrow> (('a, 'k) list_t \<times> int) res" where
  "list_concat l1 l2 =
     (let dest = list_init\<lparr>l_numels := l_numels l1 + l_numels l2\<rparr> in
      if l_numels dest = 0 then Inr (dest, 0)
      else
        bind (first_entry l1) (\<lambda>srcel.
        bind (copy_entries (loop_fuel l1) l1 srcel dest (l_head dest)) (\<lambda>(dest, mid).
        bind (first_entry l2) (\<lambda>srcel.
        bind (copy_entries (loop_fuel l2) l2 srcel dest mid) (\<lambda>(dest, el).
        bind (upd_entry dest (Some el) (set_next (Some (l_tail dest)))) (\<lambda>dest.
        bind (upd_entry dest (Some (l_tail dest)) (set_prev (Some el))) (\<lambda>dest.
        let err = int (l_numels l2) - int (l_numels l1) in
        bind (if (err + 1) sdiv 2 > 0 then walk_next dest (nat ((err + 1) sdiv 2)) (Some mid)
              else if err sdiv 2 < 0 then walk_prev dest (nat ((- err) sdiv 2)) (Some mid)
              else Inr (Some mid)) (\<lambda>mid.
          Inr (dest\<lparr>l_mid := mid\<rparr>, 0)))))))))"

section \<open>Sorting\<close>

definition SIMCLIST_MINQUICKSORTELS :: nat where "SIMCLIST_MINQUICKSORTELS = 24"

text \<open>\<open>l->attrs.comparator(p->data, q->data) * -versus\<close>.\<close>

definition cmp_at :: "('a, 'k) list_t \<Rightarrow> int \<Rightarrow> nat option \<Rightarrow> nat option \<Rightarrow> int res" where
  "cmp_at l versus p q =
     (case l_comparator l of None \<Rightarrow> Inl Null_Deref
      | Some cmp \<Rightarrow> bind (deref l p) (\<lambda>a. bind (deref l q) (\<lambda>b.
          Inr (cmp (e_data a) (e_data b) * - versus))))"

definition set_data :: "('a, 'k) list_t \<Rightarrow> nat option \<Rightarrow> 'a option \<Rightarrow> ('a, 'k) list_t res" where
  "set_data l p d = upd_entry l p (\<lambda>e. e\<lparr>e_data := d\<rparr>)"

definition swap_data :: "('a, 'k) list_t \<Rightarrow> nat option \<Rightarrow> nat option \<Rightarrow> ('a, 'k) list_t res" where
  "swap_data l p q =
     bind (deref l p) (\<lambda>a. bind (deref l q) (\<lambda>b.
     bind (set_data l p (e_data b)) (\<lambda>l. set_data l q (e_data a))))"

text \<open>\<open>x->data = y->data; y->data = z->data; z->data = (old x->data)\<close>.\<close>

definition rotate_data :: "('a, 'k) list_t \<Rightarrow> nat option \<Rightarrow> nat option \<Rightarrow> nat option \<Rightarrow> ('a, 'k) list_t res" where
  "rotate_data l x y z =
     bind (deref l x) (\<lambda>a. bind (deref l y) (\<lambda>b.
     bind (set_data l x (e_data b)) (\<lambda>l.
     bind (deref l z) (\<lambda>c.
     bind (set_data l y (e_data c)) (\<lambda>l. set_data l z (e_data a))))))"

definition next_of :: "('a, 'k) list_t \<Rightarrow> nat option \<Rightarrow> nat option res" where
  "next_of l p = bind (deref l p) (\<lambda>e. Inr (e_next e))"

definition prev_of :: "('a, 'k) list_t \<Rightarrow> nat option \<Rightarrow> nat option res" where
  "prev_of l p = bind (deref l p) (\<lambda>e. Inr (e_prev e))"

text \<open>Selection sort: the minimum of the rest, then the swap. The links never change.\<close>

primrec find_min ::
  "nat \<Rightarrow> ('a, 'k) list_t \<Rightarrow> int \<Rightarrow> nat option \<Rightarrow> nat option \<Rightarrow> nat option \<Rightarrow> nat option res" where
  "find_min 0 l versus toswap cursor lel = Inl Diverges"
| "find_min (Suc fuel) l versus toswap cursor lel =
     bind (next_of l lel) (\<lambda>stop.
     if cursor = stop then Inr toswap
     else bind (cmp_at l versus toswap cursor) (\<lambda>c.
       bind (next_of l cursor) (\<lambda>nxt. find_min fuel l versus (if c > 0 then cursor else toswap) nxt lel)))"

primrec selection_loop ::
  "nat \<Rightarrow> ('a, 'k) list_t \<Rightarrow> int \<Rightarrow> nat option \<Rightarrow> nat option \<Rightarrow> ('a, 'k) list_t res" where
  "selection_loop 0 l versus firstunsorted lel = Inl Diverges"
| "selection_loop (Suc fuel) l versus firstunsorted lel =
     (if firstunsorted = lel then Inr l
      else bind (next_of l firstunsorted) (\<lambda>cursor.
        bind (find_min (loop_fuel l) l versus firstunsorted cursor lel) (\<lambda>toswap.
        bind (if toswap \<noteq> firstunsorted then swap_data l firstunsorted toswap else Inr l) (\<lambda>l.
        bind (next_of l firstunsorted) (\<lambda>nxt. selection_loop fuel l versus nxt lel)))))"

definition list_sort_selectionsort ::
  "('a, 'k) list_t \<Rightarrow> int \<Rightarrow> nat \<Rightarrow> nat option \<Rightarrow> nat \<Rightarrow> nat option \<Rightarrow> ('a, 'k) list_t res" where
  "list_sort_selectionsort l versus first fel lst lel =
     (if lst \<le> first then Inr l else selection_loop (loop_fuel l) l versus fel lel)"

text \<open>The two scans towards the pivot, and the loop that swaps what they stop at.\<close>

primrec scan_left :: "nat \<Rightarrow> ('a, 'k) list_t \<Rightarrow> int \<Rightarrow> nat option \<Rightarrow> nat option \<Rightarrow> nat option res" where
  "scan_left 0 l versus left pivot = Inl Diverges"
| "scan_left (Suc fuel) l versus left pivot =
     (if left = pivot then Inr left
      else bind (cmp_at l versus left pivot) (\<lambda>c.
        if c \<le> 0 then bind (next_of l left) (\<lambda>left. scan_left fuel l versus left pivot) else Inr left))"

primrec scan_right :: "nat \<Rightarrow> ('a, 'k) list_t \<Rightarrow> int \<Rightarrow> nat option \<Rightarrow> nat option \<Rightarrow> nat option res" where
  "scan_right 0 l versus right pivot = Inl Diverges"
| "scan_right (Suc fuel) l versus right pivot =
     (if right = pivot then Inr right
      else bind (cmp_at l versus right pivot) (\<lambda>c.
        if c \<ge> 0 then bind (prev_of l right) (\<lambda>right. scan_right fuel l versus right pivot) else Inr right))"

primrec partition_loop ::
  "nat \<Rightarrow> ('a, 'k) list_t \<Rightarrow> int \<Rightarrow> nat option \<Rightarrow> nat option \<Rightarrow> nat option \<Rightarrow>
     (('a, 'k) list_t \<times> nat option \<times> nat option) res" where
  "partition_loop 0 l versus left right pivot = Inl Diverges"
| "partition_loop (Suc fuel) l versus left right pivot =
     (if left = pivot \<or> right = pivot then Inr (l, left, right)
      else
        bind (scan_left (loop_fuel l) l versus left pivot) (\<lambda>left.
        bind (scan_right (loop_fuel l) l versus right pivot) (\<lambda>right.
        if left \<noteq> pivot \<and> right \<noteq> pivot then
          bind (swap_data l left right) (\<lambda>l.
          bind (next_of l left) (\<lambda>left.
          bind (prev_of l right) (\<lambda>right. partition_loop fuel l versus left right pivot)))
        else partition_loop fuel l versus left right pivot)))"

text \<open>The rest of the longer side, moved across the pivot; \<open>break\<close> is the test of the loop.\<close>

primrec rest_left ::
  "nat \<Rightarrow> ('a, 'k) list_t \<Rightarrow> int \<Rightarrow> nat option \<Rightarrow> nat option \<Rightarrow> nat \<Rightarrow>
     (('a, 'k) list_t \<times> nat option \<times> nat) res" where
  "rest_left 0 l versus left pivot pivotid = Inl Diverges"
| "rest_left (Suc fuel) l versus left pivot pivotid =
     (if left = pivot then Inr (l, pivot, pivotid)
      else bind (cmp_at l versus left pivot) (\<lambda>c.
        if c > 0 then
          bind (prev_of l pivot) (\<lambda>pp.
          bind (rotate_data l left pp pivot) (\<lambda>l. rest_left fuel l versus left pp (pivotid - 1)))
        else bind (next_of l left) (\<lambda>left. rest_left fuel l versus left pivot pivotid)))"

primrec rest_right ::
  "nat \<Rightarrow> ('a, 'k) list_t \<Rightarrow> int \<Rightarrow> nat option \<Rightarrow> nat option \<Rightarrow> nat \<Rightarrow>
     (('a, 'k) list_t \<times> nat option \<times> nat) res" where
  "rest_right 0 l versus right pivot pivotid = Inl Diverges"
| "rest_right (Suc fuel) l versus right pivot pivotid =
     (if right = pivot then Inr (l, pivot, pivotid)
      else bind (cmp_at l versus right pivot) (\<lambda>c.
        if c < 0 then
          bind (next_of l pivot) (\<lambda>pn.
          bind (rotate_data l right pn pivot) (\<lambda>l. rest_right fuel l versus right pn (pivotid + 1)))
        else bind (prev_of l right) (\<lambda>right. rest_right fuel l versus right pivot pivotid)))"

text \<open>
  \<open>get_random\<close> is \<open>rand\<close>: \<open>rnd k\<close> is what its \<open>k\<close>-th call returns, and the count is carried along.
\<close>

definition pivot_at :: "('a, 'k) list_t \<Rightarrow> nat \<Rightarrow> nat \<Rightarrow> nat option \<Rightarrow> nat \<Rightarrow> nat option \<Rightarrow> nat option res" where
  "pivot_at l pivotid first fel lst lel =
     (if pivotid < (lst - first + 1) div 2 then walk_next l pivotid fel
      else walk_prev l (lst - first - pivotid) lel)"

definition partition_segment ::
  "('a, 'k) list_t \<Rightarrow> int \<Rightarrow> nat \<Rightarrow> nat option \<Rightarrow> nat option \<Rightarrow> nat option \<Rightarrow>
     (('a, 'k) list_t \<times> nat option \<times> nat) res" where
  "partition_segment l versus pivotid pivot fel lel =
     bind (partition_loop (loop_fuel l) l versus fel lel pivot) (\<lambda>(l, left, right).
       if right = pivot then rest_left (loop_fuel l) l versus left pivot pivotid
       else rest_right (loop_fuel l) l versus right pivot pivotid)"

primrec list_sort_quicksort ::
  "nat \<Rightarrow> (nat \<Rightarrow> nat) \<Rightarrow> nat \<Rightarrow> ('a, 'k) list_t \<Rightarrow> int \<Rightarrow> nat \<Rightarrow> nat option \<Rightarrow> nat \<Rightarrow> nat option \<Rightarrow>
     (('a, 'k) list_t \<times> nat) res" where
  "list_sort_quicksort 0 rnd k l versus first fel lst lel = Inl Diverges"
| "list_sort_quicksort (Suc fuel) rnd k l versus first fel lst lel =
     (if lst \<le> first then Inr (l, k)
      else if lst - first + 1 \<le> SIMCLIST_MINQUICKSORTELS then
        bind (list_sort_selectionsort l versus first fel lst lel) (\<lambda>l. Inr (l, k))
      else
        let pivotid = rnd k mod (lst - first + 1) in
        bind (pivot_at l pivotid first fel lst lel) (\<lambda>pivot.
        bind (partition_segment l versus pivotid pivot fel lel) (\<lambda>(l, pivot, pivotid).
        bind (if pivotid > 0 then
                bind (prev_of l pivot) (\<lambda>pp.
                  list_sort_quicksort fuel rnd (k + 1) l versus first fel (first + pivotid - 1) pp)
              else Inr (l, k + 1)) (\<lambda>(l, k).
          if first + pivotid < lst then
            bind (next_of l pivot) (\<lambda>pn.
              list_sort_quicksort fuel rnd k l versus (first + pivotid + 1) pn lst lel)
          else Inr (l, k)))))"

definition list_sort :: "(nat \<Rightarrow> nat) \<Rightarrow> ('a, 'k) list_t \<Rightarrow> int \<Rightarrow> (('a, 'k) list_t \<times> int) res" where
  "list_sort rnd l versus =
     (if l_iter_active l \<or> l_comparator l = None then Inr (l, - 1)
      else if l_numels l \<le> 1 then Inr (l, 0)
      else
        bind (first_entry l) (\<lambda>fel.
        bind (prev_of l (Some (l_tail l))) (\<lambda>lel.
        bind (list_sort_quicksort (l_numels l) rnd 0 l versus 0 fel (l_numels l - 1) lel) (\<lambda>(l, k).
          Inr (l, 0)))))"

section \<open>Hashing and comparing\<close>

text \<open>
  \<open>list_hash\<close> with a hasher. The step \<open>tmphash +=* hash % numels\<close> reads \<open>*hash\<close>, the caller's
  variable before it has been set; \<open>numels\<close> is unsigned, so \<open>%\<close> is unsigned too.
\<close>

primrec hash_loop :: "nat \<Rightarrow> ('a, 'k) list_t \<Rightarrow> ('a option \<Rightarrow> 32 word) \<Rightarrow> 32 word \<Rightarrow> nat option \<Rightarrow> 32 word \<Rightarrow> 32 word res" where
  "hash_loop 0 l hasher old x tmphash = Inl Diverges"
| "hash_loop (Suc fuel) l hasher old x tmphash =
     (if x = Some (l_tail l) then Inr tmphash
      else bind (deref l x) (\<lambda>e.
        let h = tmphash + (Bit_Operations.xor tmphash (hasher (e_data e)))
        in hash_loop fuel l hasher old (e_next e) (h + old mod u32 (l_numels l))))"

definition list_hash :: "('a, 'k) list_t \<Rightarrow> ('a option \<Rightarrow> 32 word) option \<Rightarrow> 32 word \<Rightarrow> (32 word \<times> int) res" where
  "list_hash l hasher old =
     (case hasher of
        None \<Rightarrow> Inr (old, - 1)
      | Some f \<Rightarrow> bind (first_entry l) (\<lambda>x.
          bind (hash_loop (loop_fuel l) l f old x (u32 (l_numels l) * 2 + 100)) (\<lambda>h. Inr (h, 0))))"

text \<open>
  \<open>SIMCLIST_NUMBER_COMPARATOR\<close>: positive when the second number is the greater. The elements are
  pointers to numbers, never \<open>NULL\<close>.
\<close>

definition list_comparator_number :: "'n :: linorder option \<Rightarrow> 'n option \<Rightarrow> int" where
  "list_comparator_number a b =
     (case (a, b) of (Some x, Some y) \<Rightarrow> (if x < y then 1 else 0) - (if y < x then 1 else 0) | _ \<Rightarrow> 0)"

end
