(* ===== verification/Simclist_Rep.thy ===== *)
theory Simclist_Rep
  imports Simclist
begin

text \<open>
  What \<open>src/src/common/simclist.c\<close> promises: a list object represents a sequence. \<open>linked\<close> is the
  shape of the chain of entries between the sentinels with its middle pointer; \<open>list_rep\<close> adds
  the spare entries and that every allocated entry is one of the chain or a spare. Each
  operation is shown to act on the represented sequence, and \<open>list_destroy\<close> to give back
  every entry. The locale \<open>list_adt\<close> is the interface the rest of the program uses.
\<close>

section \<open>Insertion and removal by position\<close>

definition ins :: "nat \<Rightarrow> 'b \<Rightarrow> 'b list \<Rightarrow> 'b list" where
  "ins k x ys = take k ys @ x # drop k ys"

definition del :: "nat \<Rightarrow> 'b list \<Rightarrow> 'b list" where
  "del k ys = take k ys @ drop (Suc k) ys"

lemma length_ins [simp]: "length (ins k x ys) = Suc (length ys)"
  by (simp add: ins_def)

lemma length_del [simp]: "k < length ys \<Longrightarrow> length (del k ys) = length ys - 1"
  by (simp add: del_def)

lemma nth_ins:
  "k \<le> length ys \<Longrightarrow> i \<le> length ys \<Longrightarrow>
   ins k x ys ! i = (if i < k then ys ! i else if i = k then x else ys ! (i - 1))"
  by (auto simp: ins_def nth_append nth_Cons' min_def)

lemma nth_del:
  "k < length ys \<Longrightarrow> i < length ys - 1 \<Longrightarrow>
   del k ys ! i = (if i < k then ys ! i else ys ! Suc i)"
  by (auto simp: del_def nth_append min_def)

lemma set_ins [simp]: "set (ins k x ys) = insert x (set ys)"
proof -
  have "set ys = set (take k ys) \<union> set (drop k ys)"
    by (metis append_take_drop_id set_append)
  then show ?thesis by (auto simp: ins_def)
qed

lemma distinct_ins: "distinct ys \<Longrightarrow> x \<notin> set ys \<Longrightarrow> distinct (ins k x ys)"
  unfolding ins_def using distinct_append [of "take k ys" "drop k ys"]
  by (auto dest: in_set_takeD in_set_dropD)

lemma distinct_del: "distinct ys \<Longrightarrow> distinct (del k ys)"
  by (simp add: del_def set_take_disj_set_drop_if_distinct)

lemma ins_del: "k < length ys \<Longrightarrow> ins k (ys ! k) (del k ys) = ys"
  by (simp add: ins_def del_def id_take_nth_drop [symmetric])

lemma set_del: "distinct ys \<Longrightarrow> k < length ys \<Longrightarrow> set (del k ys) = set ys - {ys ! k}"
proof -
  assume d: "distinct ys" and k: "k < length ys"
  have "set ys = insert (ys ! k) (set (del k ys))"
    using set_ins [of k "ys ! k" "del k ys"] ins_del [OF k] by simp
  moreover have "ys ! k \<notin> set (del k ys)"
  proof
    assume "ys ! k \<in> set (del k ys)"
    then obtain i where i: "i < length ys - 1" "del k ys ! i = ys ! k"
      using k by (auto simp: in_set_conv_nth)
    then show False using d k by (auto simp: nth_del nth_eq_iff_index_eq split: if_splits)
  qed
  ultimately show ?thesis by blast
qed

section \<open>The represented sequence\<close>

definition node_at :: "nat list \<Rightarrow> 'a option list \<Rightarrow> nat \<Rightarrow> 'a entry" where
  "node_at ns xs i =
     \<lparr>e_data = (if i = 0 \<or> i = Suc (length xs) then None else xs ! (i - 1)),
      e_next = (if Suc i < length ns then Some (ns ! Suc i) else None),
      e_prev = (if i = 0 then None else Some (ns ! (i - 1)))\<rparr>"

definition mid_of :: "nat list \<Rightarrow> nat option" where
  "mid_of ns = (if length ns = 2 then None else Some (ns ! Suc ((length ns - 3) div 2)))"

definition linked :: "('a, 'k) list_t \<Rightarrow> nat list \<Rightarrow> 'a option list \<Rightarrow> bool" where
  "linked l ns xs \<longleftrightarrow>
     length ns = length xs + 2 \<and> distinct ns \<and>
     l_head l = ns ! 0 \<and> l_tail l = ns ! Suc (length xs) \<and> l_numels l = length xs \<and>
     l_mid l = mid_of ns \<and>
     (\<forall>i < length ns. l_heap l (ns ! i) = Some (node_at ns xs i))"

definition list_rep :: "('a, 'k) list_t \<Rightarrow> nat list \<Rightarrow> 'a option list \<Rightarrow> bool" where
  "list_rep l ns xs \<longleftrightarrow>
     linked l ns xs \<and> distinct (l_spare l) \<and> set ns \<inter> set (l_spare l) = {} \<and>
     length (l_spare l) \<le> SIMCLIST_MAX_SPARE_ELEMS \<and>
     dom (l_heap l) = set ns \<union> set (l_spare l) \<and>
     (\<forall>a \<in> dom (l_heap l). a < l_brk l)"

definition represents :: "('a, 'k) list_t \<Rightarrow> 'a option list \<Rightarrow> bool" where
  "represents l xs \<longleftrightarrow> (\<exists>ns. list_rep l ns xs)"

lemma node_at_simps [simp]:
  "e_next (node_at ns xs i) = (if Suc i < length ns then Some (ns ! Suc i) else None)"
  "e_prev (node_at ns xs i) = (if i = 0 then None else Some (ns ! (i - 1)))"
  "e_data (node_at ns xs i) = (if i = 0 \<or> i = Suc (length xs) then None else xs ! (i - 1))"
  by (simp_all add: node_at_def)

lemma linkedD:
  assumes "linked l ns xs"
  shows "length ns = length xs + 2" "distinct ns" "l_head l = ns ! 0"
    "l_tail l = ns ! Suc (length xs)" "l_numels l = length xs" "l_mid l = mid_of ns"
    "\<And>i. i < length ns \<Longrightarrow> l_heap l (ns ! i) = Some (node_at ns xs i)"
  using assms by (simp_all add: linked_def)

lemma linked_deref [simp]:
  "linked l ns xs \<Longrightarrow> i < length ns \<Longrightarrow> deref l (Some (ns ! i)) = Inr (node_at ns xs i)"
  by (simp add: deref_def linkedD(7))

lemma linked_nth_eq:
  "linked l ns xs \<Longrightarrow> i < length ns \<Longrightarrow> j < length ns \<Longrightarrow> ns ! i = ns ! j \<longleftrightarrow> i = j"
  by (simp add: linkedD(2) nth_eq_iff_index_eq)

lemma mid_of_rep: "linked l ns xs \<Longrightarrow> xs \<noteq> [] \<Longrightarrow> l_mid l = Some (ns ! Suc ((length xs - 1) div 2))"
  by (simp add: linkedD mid_of_def linkedD(1) [of l ns xs])

text \<open>The representation does not depend on the attributes or on the iterator.\<close>

lemma linked_cong:
  assumes "linked l ns xs" "l_head l' = l_head l" "l_tail l' = l_tail l"
    "l_numels l' = l_numels l" "l_mid l' = l_mid l"
    "\<And>a. a \<in> set ns \<Longrightarrow> l_heap l' a = l_heap l a"
  shows "linked l' ns xs"
  using assms by (auto simp: linked_def)

section \<open>Walking\<close>

lemma walk_next_rep:
  "linked l ns xs \<Longrightarrow> i + k < length ns \<Longrightarrow> walk_next l k (Some (ns ! i)) = Inr (Some (ns ! (i + k)))"
proof (induction k arbitrary: i)
  case (Suc k)
  then show ?case using Suc.IH [of "Suc i"] by simp
qed simp

lemma walk_prev_rep:
  "linked l ns xs \<Longrightarrow> i < length ns \<Longrightarrow> k \<le> i \<Longrightarrow>
   walk_prev l k (Some (ns ! i)) = Inr (Some (ns ! (i - k)))"
proof (induction k arbitrary: i)
  case (Suc k)
  then show ?case using Suc.IH [of "i - 1"] by simp
qed simp

text \<open>Whatever end or middle the quarter picks, the walk ends at the same entry.\<close>

lemma findpos_rep:
  assumes L: "linked l ns xs" and p: "- 1 \<le> p" "p \<le> int (length xs)"
  shows "list_findpos l p = Inr (Some (ns ! nat (p + 1)))"
proof -
  let ?n = "length xs" let ?m = "(?n - 1) div 2"
  note S = linkedD(3-5) [OF L] and len = linkedD(1) [OF L]
  have c1: "walk_next l (nat (p + 1)) (Some (ns ! 0)) = Inr (Some (ns ! nat (p + 1)))"
    using walk_next_rep [OF L, of 0 "nat (p + 1)"] p len by simp
  have c4: "walk_prev l (nat (int ?n - p)) (Some (ns ! Suc ?n)) = Inr (Some (ns ! nat (p + 1)))"
  proof -
    have "Suc ?n - nat (int ?n - p) = nat (p + 1)" using p by linarith
    then show ?thesis using walk_prev_rep [OF L, of "Suc ?n" "nat (int ?n - p)"] p len by simp
  qed
  have c2: "walk_prev l (nat (int ?m - p)) (l_mid l) = Inr (Some (ns ! nat (p + 1)))"
    if "0 < ?n" "2 * nat (p + 1) < ?n"
  proof -
    have "Suc ?m - nat (int ?m - p) = nat (p + 1)" using p that by linarith
    moreover have "Suc ?m < length ns" using len by simp
    moreover have "nat (int ?m - p) \<le> Suc ?m" using p by linarith
    ultimately have "walk_prev l (nat (int ?m - p)) (Some (ns ! Suc ?m)) = Inr (Some (ns ! nat (p + 1)))"
      using walk_prev_rep [OF L, of "Suc ?m" "nat (int ?m - p)"] by simp
    then show ?thesis using mid_of_rep [OF L] that by simp
  qed
  have c3: "walk_next l (nat (p - int ?m)) (l_mid l) = Inr (Some (ns ! nat (p + 1)))"
    if "0 < ?n" "\<not> 2 * nat (p + 1) < ?n"
  proof -
    have e: "Suc ?m + nat (p - int ?m) = nat (p + 1)" using p that by linarith
    moreover have "nat (p + 1) < length ns" using p len by linarith
    ultimately have "walk_next l (nat (p - int ?m)) (Some (ns ! Suc ?m)) = Inr (Some (ns ! nat (p + 1)))"
      using walk_next_rep [OF L, of "Suc ?m" "nat (p - int ?m)"] by simp
    then show ?thesis using mid_of_rep [OF L] that by simp
  qed
  have if_eq: "(b \<Longrightarrow> x = z) \<Longrightarrow> (\<not> b \<Longrightarrow> y = z) \<Longrightarrow> (if b then x else y) = z" for b x y and z :: "nat option res"
    by simp
  show ?thesis
    unfolding list_findpos_def Let_def S
    apply (rule if_eq)
    subgoal using p by linarith
    apply (rule if_eq)
    subgoal by (rule c1)
    apply (rule if_eq)
    subgoal by (rule c2) simp_all
    apply (rule if_eq)
    subgoal by (rule c3) simp_all
    by (rule c4)
qed

lemma findpos_out:
  "linked l ns xs \<Longrightarrow> p < - 1 \<or> p > int (length xs) \<Longrightarrow> list_findpos l p = Inr None"
  by (simp add: list_findpos_def Let_def linkedD)

section \<open>Insertion\<close>

lemma upd_entry_Some:
  "l_heap l a = Some e \<Longrightarrow> upd_entry l (Some a) f = Inr (l\<lparr>l_heap := (l_heap l)(a \<mapsto> f e)\<rparr>)"
  by (simp add: upd_entry_def)

lemma deref_Some: "l_heap l a = Some e \<Longrightarrow> deref l (Some a) = Inr e"
  by (simp add: deref_def)

text \<open>The chain with \<open>lent\<close> linked in after position \<open>pos\<close>.\<close>

definition spliced :: "('a, 'k) list_t \<Rightarrow> nat list \<Rightarrow> nat \<Rightarrow> 'a option \<Rightarrow> nat \<Rightarrow> nat \<rightharpoonup> 'a entry" where
  "spliced l ns lent d pos =
     (let prec = ns ! pos; succ = ns ! Suc pos
      in (l_heap l)(lent \<mapsto> \<lparr>e_data = d, e_next = Some succ, e_prev = Some prec\<rparr>,
                    prec \<mapsto> (the (l_heap l prec))\<lparr>e_next := Some lent\<rparr>,
                    succ \<mapsto> (the (l_heap l succ))\<lparr>e_prev := Some lent\<rparr>))"

lemma spliced_nodes:
  assumes L: "linked l ns xs" and new: "lent \<notin> set ns" and pos: "pos \<le> length xs"
    and i: "i < Suc (length ns)"
  shows "spliced l ns lent d pos (ins (Suc pos) lent ns ! i)
       = Some (node_at (ins (Suc pos) lent ns) (ins pos d xs) i)"
proof -
  have len: "length ns = length xs + 2" by (rule linkedD(1) [OF L])
  have ne: "lent \<noteq> ns ! j" if "j < length ns" for j using new that by auto
  have ne': "ns ! j \<noteq> lent" if "j < length ns" for j using new that by auto
  consider "i < pos" | "i = pos" | "i = Suc pos" | "i = Suc (Suc pos)" | "Suc (Suc pos) < i" by linarith
  then show ?thesis
  proof cases
    case 1
    then show ?thesis using pos len i linked_nth_eq [OF L] linkedD(7) [OF L]
      by (auto simp: spliced_def Let_def nth_ins node_at_def ne')
  next
    case 2
    then show ?thesis using pos len i linked_nth_eq [OF L] linkedD(7) [OF L]
      by (auto simp: spliced_def Let_def nth_ins node_at_def ne')
  next
    case 3
    then show ?thesis using pos len i linked_nth_eq [OF L] linkedD(7) [OF L]
      by (auto simp: spliced_def Let_def nth_ins node_at_def ne ne')
  next
    case 4
    then show ?thesis using pos len i linked_nth_eq [OF L] linkedD(7) [OF L]
      by (auto simp: spliced_def Let_def nth_ins node_at_def ne')
  next
    case 5
    then obtain j where j: "i = Suc j" "Suc pos < j" by (cases i) auto
    then show ?thesis using pos len i linked_nth_eq [OF L] linkedD(7) [OF L]
      by (auto simp: spliced_def Let_def nth_ins node_at_def ne' Suc_diff_Suc)
  qed
qed

definition copied :: "('a, 'k) list_t \<Rightarrow> 'a option \<Rightarrow> 'a option" where
  "copied l d = (case l_copy l of None \<Rightarrow> d | Some dup \<Rightarrow> dup d)"

definition spliced_list :: "('a, 'k) list_t \<Rightarrow> nat list \<Rightarrow> nat \<Rightarrow> 'a option \<Rightarrow> nat \<Rightarrow> ('a, 'k) list_t" where
  "spliced_list l ns lent d pos =
     l\<lparr>l_heap := spliced l ns lent d pos, l_numels := l_numels l + 1\<rparr>"

lemma link_entry_steps:
  assumes L: "linked l ns xs" and new: "lent \<notin> set ns" and pos: "pos \<le> length xs"
    and h: "l_heap l lent = Some e0"
  shows "link_entry l lent data pos = fix_mid_insert (spliced_list l ns lent (copied l data) pos) lent pos"
proof -
  have len: "length ns = length xs + 2" by (rule linkedD(1) [OF L])
  have ne: "ns ! j \<noteq> lent" if "j < length ns" for j using new that by auto
  have pne: "ns ! pos \<noteq> ns ! Suc pos" using linked_nth_eq [OF L, of pos "Suc pos"] pos len by simp
  obtain pe where hp: "l_heap l (ns ! pos) = Some pe" "pe = node_at ns xs pos" "e_next pe = Some (ns ! Suc pos)"
    using linkedD(7) [OF L, of pos] pos len by simp
  obtain se where hs: "l_heap l (ns ! Suc pos) = Some se"
    using linkedD(7) [OF L, of "Suc pos"] pos len by simp
  define l1 where "l1 = l\<lparr>l_heap := (l_heap l)(lent \<mapsto> e0\<lparr>e_data := copied l data\<rparr>)\<rparr>"
  have L1: "linked l1 ns xs"
    by (rule linked_cong [OF L]) (use new in \<open>auto simp: l1_def\<close>)
  have f: "list_findpos l1 (int pos - 1) = Inr (Some (ns ! pos))"
    using findpos_rep [OF L1, of "int pos - 1"] pos by simp
  have d: "deref l1 (Some (ns ! pos)) = Inr (node_at ns xs pos)"
    using L1 pos len by simp
  have u: "upd_entry l (Some lent) (\<lambda>e. e\<lparr>e_data := (case l_copy l of None \<Rightarrow> data | Some dup \<Rightarrow> dup data)\<rparr>) = Inr l1"
    using h by (simp add: upd_entry_Some l1_def copied_def)
  have h: "(l_heap l)(lent \<mapsto> e0\<lparr>e_data := c, e_prev := p, e_next := q\<rparr>) =
      (l_heap l)(lent \<mapsto> \<lparr>e_data = c, e_next = q, e_prev = p\<rparr>)" for c p q
    by (cases e0) simp
  have "link_entry l lent data pos =
      fix_mid_insert (l\<lparr>l_heap := (l_heap l)(lent \<mapsto> e0\<lparr>e_data := copied l data, e_prev := Some (ns ! pos),
            e_next := Some (ns ! Suc pos)\<rparr>, ns ! pos \<mapsto> pe\<lparr>e_next := Some lent\<rparr>,
            ns ! Suc pos \<mapsto> se\<lparr>e_prev := Some lent\<rparr>), l_numels := l_numels l + 1\<rparr>) lent pos"
    unfolding link_entry_def u bind.simps f d hp(2) [symmetric]
    using hp(1,3) hs ne [of pos] ne [of "Suc pos"] pos len pne
    by (simp add: Let_def upd_entry_Some l1_def set_next_def set_prev_def fun_upd_twist)
  then show ?thesis
    unfolding h spliced_list_def spliced_def Let_def hp(1) hs option.sel .
qed

text \<open>The middle pointer after the insertion is the middle of the longer chain.\<close>

lemma deref_mid [simp]: "deref (l\<lparr>l_mid := m\<rparr>) p = deref l p"
  by (cases p) (simp_all add: deref_def)

lemma spliced_linked:
  assumes L: "linked l ns xs" and new: "lent \<notin> set ns" and pos: "pos \<le> length xs"
  shows "linked ((spliced_list l ns lent d pos)\<lparr>l_mid := mid_of (ins (Suc pos) lent ns)\<rparr>)
           (ins (Suc pos) lent ns) (ins pos d xs)"
proof -
  let ?l = "(spliced_list l ns lent d pos)\<lparr>l_mid := mid_of (ins (Suc pos) lent ns)\<rparr>"
  note S = linkedD(1-6) [OF L]
  show ?thesis
    unfolding linked_def
  proof (intro conjI allI impI)
    show "distinct (ins (Suc pos) lent ns)" using S(2) new by (rule distinct_ins)
    show "l_heap ?l (ins (Suc pos) lent ns ! i) = Some (node_at (ins (Suc pos) lent ns) (ins pos d xs) i)"
      if "i < length (ins (Suc pos) lent ns)" for i
      using spliced_nodes [OF L new pos, of i] that by (simp add: spliced_list_def)
  qed (use S pos in \<open>simp_all add: spliced_list_def nth_ins\<close>)
qed

lemma fix_mid_spliced:
  assumes L: "linked l ns xs" and new: "lent \<notin> set ns" and pos: "pos \<le> length xs"
  shows "fix_mid_insert (spliced_list l ns lent d pos) lent pos
       = Inr ((spliced_list l ns lent d pos)\<lparr>l_mid := mid_of (ins (Suc pos) lent ns)\<rparr>)"
proof -
  let ?s = "spliced_list l ns lent d pos" and ?ns = "ins (Suc pos) lent ns" and ?n = "length xs"
  let ?j = "Suc ((?n - 1) div 2)" and ?t = "Suc (?n div 2)"
  have len: "length ns = ?n + 2" by (rule linkedD(1) [OF L])
  have num: "l_numels ?s = Suc ?n" using linkedD(5) [OF L] by (simp add: spliced_list_def)
  have same: "?s = ?s\<lparr>l_mid := l_mid l\<rparr>" by (simp add: spliced_list_def)
  have der: "deref ?s (Some (?ns ! i)) = Inr (node_at ?ns (ins pos d xs) i)" if "i < length ns + 1" for i
    using linked_deref [OF spliced_linked [OF L new pos, of d], of i] that by simp
  have tgt: "mid_of ?ns = Some (?ns ! ?t)" using len by (simp add: mid_of_def)
  show ?thesis
  proof (cases "xs = []")
    case True
    then have "?ns ! 1 = lent" using len pos by (simp add: nth_ins)
    with True show ?thesis using num tgt by (simp add: fix_mid_insert_def)
  next
    case False
    let ?k = "if ?j \<le> pos then ?j else Suc ?j"
    have k: "ns ! ?j = ?ns ! ?k" using pos len by (simp add: nth_ins)
    have mid: "l_mid ?s = Some (?ns ! ?k)"
      using mid_of_rep [OF L False] k by (simp add: spliced_list_def)
    have kl: "?k \<le> ?n" if "?j \<le> pos" using that pos by simp
    have j2: "?j \<le> ?n" using False by (cases xs) auto
    show ?thesis
    proof (cases "odd (Suc ?n)")
      case True
      then have t: "?t = Suc ?j" using False by (cases xs) (auto elim!: oddE evenE)
      show ?thesis
      proof (cases "pos \<ge> ?n div 2")
        case True
        then have "?k = ?j" using t by simp
        then show ?thesis using True \<open>odd (Suc ?n)\<close> False num mid der [of ?j] t tgt len j2
          by (simp add: fix_mid_insert_def Let_def)
      next
        case False
        then have "?k = ?t" using t by simp
        then show ?thesis using False \<open>odd (Suc ?n)\<close> \<open>xs \<noteq> []\<close> num mid tgt same
          by (simp add: fix_mid_insert_def Let_def)
      qed
    next
      case False
      then have t: "?t = ?j" by (auto elim!: oddE evenE)
      show ?thesis
      proof (cases "pos \<le> ?n div 2")
        case True
        then have "?k = Suc ?j" using t by simp
        then show ?thesis using True False \<open>xs \<noteq> []\<close> num mid der [of "Suc ?j"] t tgt len j2
          by (simp add: fix_mid_insert_def Let_def)
      next
        case nle: False
        then have "?k = ?t" using t by simp
        then show ?thesis using nle False \<open>xs \<noteq> []\<close> num mid tgt same
          by (simp add: fix_mid_insert_def Let_def)
      qed
    qed
  qed
qed

text \<open>What an operation on the elements leaves alone.\<close>

definition attrs_of where
  "attrs_of l = (l_comparator l, l_seeker l, l_copy l, l_iter_active l, l_iter_pos l, l_iter_cur l)"

definition separate :: "('a, 'k) list_t \<Rightarrow> nat set \<Rightarrow> bool" where
  "separate l A \<longleftrightarrow> distinct (l_spare l) \<and> A \<inter> set (l_spare l) = {} \<and>
     length (l_spare l) \<le> SIMCLIST_MAX_SPARE_ELEMS \<and>
     dom (l_heap l) = A \<union> set (l_spare l) \<and> (\<forall>a \<in> dom (l_heap l). a < l_brk l)"

lemma list_rep_alt: "list_rep l ns xs \<longleftrightarrow> linked l ns xs \<and> separate l (set ns)"
  by (simp add: list_rep_def separate_def)

lemma list_repD: "list_rep l ns xs \<Longrightarrow> linked l ns xs" "list_rep l ns xs \<Longrightarrow> separate l (set ns)"
  by (simp_all add: list_rep_alt)

lemma link_entry_rep:
  assumes L: "linked l ns xs" and S: "separate l (insert lent (set ns))" and new: "lent \<notin> set ns"
    and pos: "pos \<le> length xs"
  shows "\<exists>l'. link_entry l lent d pos = Inr l' \<and>
              list_rep l' (ins (Suc pos) lent ns) (ins pos (copied l d) xs) \<and> attrs_of l' = attrs_of l"
proof -
  have len: "length ns = length xs + 2" by (rule linkedD(1) [OF L])
  have "lent \<in> dom (l_heap l)" using S by (simp add: separate_def)
  then obtain e0 where h: "l_heap l lent = Some e0" by blast
  let ?l' = "(spliced_list l ns lent (copied l d) pos)\<lparr>l_mid := mid_of (ins (Suc pos) lent ns)\<rparr>"
  have e: "link_entry l lent d pos = Inr ?l'"
    by (simp only: link_entry_steps [OF L new pos h] fix_mid_spliced [OF L new pos])
  have "ns ! pos \<in> set ns" "ns ! Suc pos \<in> set ns" using pos len by simp_all
  then have dm: "dom (l_heap ?l') = dom (l_heap l)"
    using S by (auto simp: spliced_list_def spliced_def Let_def separate_def)
  have "separate ?l' (set (ins (Suc pos) lent ns))"
    using S unfolding separate_def dm by (simp add: spliced_list_def)
  then have "list_rep ?l' (ins (Suc pos) lent ns) (ins pos (copied l d) xs)"
    using spliced_linked [OF L new pos] by (simp add: list_rep_alt)
  then show ?thesis using e by (simp add: attrs_of_def spliced_list_def)
qed

lemma list_insert_at_rep:
  assumes R: "list_rep l ns xs" and pos: "pos \<le> length xs" and it: "\<not> l_iter_active l"
    and room: "ok \<or> l_spare l \<noteq> []"
  shows "\<exists>l' ns'. list_insert_at ok l d pos = Inr (l', 1) \<and> list_rep l' ns' (ins pos (copied l d) xs)
           \<and> attrs_of l' = attrs_of l"
proof -
  note L = list_repD(1) [OF R] and S = list_repD(2) [OF R]
  show ?thesis
  proof (cases "l_spare l")
    case (Cons lent spare)
    let ?l = "l\<lparr>l_spare := spare\<rparr>"
    have L': "linked ?l ns xs" by (rule linked_cong [OF L]) simp_all
    have new: "lent \<notin> set ns" using S Cons by (auto simp: separate_def)
    have S': "separate ?l (insert lent (set ns))" using S Cons by (auto simp: separate_def)
    from link_entry_rep [OF L' S' new pos, of d] obtain l' where
      "link_entry ?l lent d pos = Inr l'" "list_rep l' (ins (Suc pos) lent ns) (ins pos (copied ?l d) xs)"
      "attrs_of l' = attrs_of ?l" by blast
    then show ?thesis using it pos linkedD(5) [OF L] Cons
      by (auto simp: list_insert_at_def copied_def attrs_of_def)
  next
    case Nil
    define lm where "lm = snd (malloc_entry l)"
    have m: "malloc_entry l = (l_brk l, lm)" by (simp add: lm_def malloc_entry_def)
    have new: "l_brk l \<notin> set ns" using S by (auto simp: separate_def)
    have L': "linked lm ns xs"
      by (rule linked_cong [OF L]) (use new in \<open>auto simp: lm_def malloc_entry_def\<close>)
    have S': "separate lm (insert (l_brk l) (set ns))"
      using S Nil by (auto simp: separate_def lm_def malloc_entry_def less_Suc_eq)
    from link_entry_rep [OF L' S' new pos, of d] obtain l' where
      "link_entry lm (l_brk l) d pos = Inr l'"
      "list_rep l' (ins (Suc pos) (l_brk l) ns) (ins pos (copied lm d) xs)"
      "attrs_of l' = attrs_of lm" by blast
    then show ?thesis using it pos linkedD(5) [OF L] Nil room m
      by (auto simp: list_insert_at_def copied_def attrs_of_def lm_def malloc_entry_def)
  qed
qed

lemma list_insert_at_refused:
  assumes "list_rep l ns xs"
    and "pos > length xs \<or> l_iter_active l \<or> \<not> ok \<and> l_spare l = []"
  shows "list_insert_at ok l d pos = Inr (l, - 1)"
  using assms linkedD(5) [OF list_repD(1) [OF assms(1)]] by (auto simp: list_insert_at_def)

section \<open>Deletion\<close>

definition cut :: "('a, 'k) list_t \<Rightarrow> nat list \<Rightarrow> nat \<Rightarrow> nat \<rightharpoonup> 'a entry" where
  "cut l ns i =
     (let prec = ns ! (i - 1); succ = ns ! Suc i
      in (l_heap l)(prec \<mapsto> (the (l_heap l prec))\<lparr>e_next := Some succ\<rparr>,
                    succ \<mapsto> (the (l_heap l succ))\<lparr>e_prev := Some prec\<rparr>))"

lemma cut_nodes:
  assumes L: "linked l ns xs" and pos: "pos < length xs" and i: "i < length ns - 1"
  shows "cut l ns (Suc pos) (del (Suc pos) ns ! i) = Some (node_at (del (Suc pos) ns) (del pos xs) i)"
proof -
  have len: "length ns = length xs + 2" by (rule linkedD(1) [OF L])
  have pn: "Suc pos < length ns" using len pos by simp
  consider "i < pos" | "i = pos" | "i = Suc pos" | "Suc pos < i" by linarith
  then show ?thesis
  proof cases
    case 1
    then show ?thesis using pos len i linked_nth_eq [OF L] linkedD(7) [OF L]
      by (auto simp: cut_def Let_def nth_del node_at_def)
  next
    case 2
    then show ?thesis using pos len i linked_nth_eq [OF L] linkedD(7) [OF L]
      by (auto simp: cut_def Let_def nth_del node_at_def)
  next
    case 3
    then show ?thesis using pos len i linked_nth_eq [OF L] linkedD(7) [OF L]
      by (auto simp: cut_def Let_def nth_del node_at_def)
  next
    case 4
    then obtain j where j: "i = Suc j" "pos < j" by (cases i) auto
    then show ?thesis using pos len i linked_nth_eq [OF L] linkedD(7) [OF L]
      by (auto simp: cut_def Let_def nth_del node_at_def)
  qed
qed

definition cut_list :: "('a, 'k) list_t \<Rightarrow> nat list \<Rightarrow> nat \<Rightarrow> ('a, 'k) list_t" where
  "cut_list l ns pos = l\<lparr>l_mid := mid_of (del (Suc pos) ns), l_heap := cut l ns (Suc pos)\<rparr>"

lemma cut_list_simps [simp]:
  "l_head (cut_list l ns pos) = l_head l" "l_tail (cut_list l ns pos) = l_tail l"
  "l_numels (cut_list l ns pos) = l_numels l"
  by (simp_all add: cut_list_def)

lemma cut_linked:
  assumes L: "linked l ns xs" and pos: "pos < length xs"
  shows "linked ((cut_list l ns pos)\<lparr>l_numels := l_numels l - 1\<rparr>) (del (Suc pos) ns) (del pos xs)"
proof -
  note S = linkedD(1-6) [OF L]
  show ?thesis
    unfolding linked_def
  proof (intro conjI allI impI)
    show "distinct (del (Suc pos) ns)" using S(2) by (rule distinct_del)
    show "l_heap ((cut_list l ns pos)\<lparr>l_numels := l_numels l - 1\<rparr>) (del (Suc pos) ns ! i)
        = Some (node_at (del (Suc pos) ns) (del pos xs) i)"
      if "i < length (del (Suc pos) ns)" for i
      using cut_nodes [OF L pos, of i] that S(1) pos by (simp add: cut_list_def)
  next
    have "0 < length xs" "\<not> length xs - 1 < pos" using pos by linarith+
    then show "l_tail ((cut_list l ns pos)\<lparr>l_numels := l_numels l - 1\<rparr>) =
        del (Suc pos) ns ! Suc (length (del pos xs))"
      using S pos by (simp add: cut_list_def nth_del)
  qed (use S pos in \<open>simp_all add: cut_list_def nth_del\<close>)
qed

text \<open>The middle pointer is fixed before the entry is unlinked.\<close>

definition mid_before_cut :: "('a, 'k) list_t \<Rightarrow> nat \<Rightarrow> ('a, 'k) list_t res" where
  "mid_before_cut l pos =
     (let n = l_numels l
      in if odd n then
           if n = 1 then Inr (l\<lparr>l_mid := None\<rparr>)
           else if pos \<ge> n div 2
           then bind (deref l (l_mid l)) (\<lambda>e. Inr (l\<lparr>l_mid := e_prev e\<rparr>)) else Inr l
         else
           if pos < n div 2
           then bind (deref l (l_mid l)) (\<lambda>e. Inr (l\<lparr>l_mid := e_next e\<rparr>)) else Inr l)"

lemma mid_before_cut_rep:
  assumes L: "linked l ns xs" and pos: "pos < length xs"
  shows "mid_before_cut l pos = Inr (l\<lparr>l_mid := mid_of (del (Suc pos) ns)\<rparr>)"
proof -
  let ?n = "length xs" let ?j = "Suc ((?n - 1) div 2)" and ?t = "Suc ((?n - 2) div 2)"
  have len: "length ns = ?n + 2" by (rule linkedD(1) [OF L])
  have num: "l_numels l = ?n" by (rule linkedD(5) [OF L])
  have ne: "xs \<noteq> []" using pos by auto
  have mid: "l_mid l = Some (ns ! ?j)" by (rule mid_of_rep [OF L ne])
  have same: "l = l\<lparr>l_mid := l_mid l\<rparr>" by simp
  have jl: "?j < length ns" using len ne by (cases xs) auto
  show ?thesis
  proof (cases "?n = 1")
    case True
    then show ?thesis using num len pos by (simp add: mid_before_cut_def mid_of_def)
  next
    case n1: False
    have tl: "?t < ?n + 1" using n1 pos by linarith
    have "del (Suc pos) ns ! ?t = (if ?t \<le> pos then ns ! ?t else ns ! Suc ?t)"
      using len pos n1 tl by (simp add: nth_del less_Suc_eq_le)
    then have tgt: "mid_of (del (Suc pos) ns) = Some (if ?t \<le> pos then ns ! ?t else ns ! Suc ?t)"
      using len pos n1 by (simp add: mid_of_def numeral_3_eq_3 numeral_2_eq_2)
    show ?thesis
    proof (cases "odd ?n")
      case True
      then have t: "?j = Suc ?t" "?n div 2 = ?t" using n1 pos by (auto elim!: oddE evenE)
      show ?thesis
      proof (cases "pos \<ge> ?n div 2")
        case True
        then show ?thesis using \<open>odd ?n\<close> n1 t num mid linked_deref [OF L jl] tgt
          by (simp add: mid_before_cut_def Let_def)
      next
        case False
        then show ?thesis using \<open>odd ?n\<close> n1 t num mid tgt same
          by (simp add: mid_before_cut_def Let_def)
      qed
    next
      case False
      then obtain b where b: "?n = 2 * b" by (auto elim: evenE)
      then obtain c where "b = Suc c" using pos by (cases b) auto
      with b have t: "?j = ?t" "?n div 2 = ?t" by simp_all
      show ?thesis
      proof (cases "pos < ?n div 2")
        case True
        then show ?thesis using False n1 t num mid linked_deref [OF L jl] tgt len tl
          by (simp add: mid_before_cut_def Let_def)
      next
        case ge: False
        then show ?thesis using False n1 t num mid tgt same
          by (simp add: mid_before_cut_def Let_def)
      qed
    qed
  qed
qed

lemma list_drop_elem_steps:
  assumes L: "linked l ns xs" and pos: "pos < length xs"
  shows "list_drop_elem l (Some (ns ! Suc pos)) pos
       = bind (spare_or_free (free_data (cut_list l ns pos) (xs ! pos)) (ns ! Suc pos)) (\<lambda>l. Inr (l, 0))"
proof -
  have len: "length ns = length xs + 2" by (rule linkedD(1) [OF L])
  let ?m = "l\<lparr>l_mid := mid_of (del (Suc pos) ns)\<rparr>"
  obtain te where te: "l_heap l (ns ! Suc pos) = Some te" "e_prev te = Some (ns ! pos)"
      "e_next te = Some (ns ! Suc (Suc pos))" "e_data te = xs ! pos"
    using linkedD(7) [OF L, of "Suc pos"] pos len that [of "node_at ns xs (Suc pos)"] by simp
  obtain pe se where ps: "l_heap l (ns ! pos) = Some pe" "l_heap l (ns ! Suc (Suc pos)) = Some se"
    using linkedD(7) [OF L, of pos] linkedD(7) [OF L, of "Suc (Suc pos)"] pos len by simp
  have ne: "ns ! pos \<noteq> ns ! Suc pos" "ns ! pos \<noteq> ns ! Suc (Suc pos)" "ns ! Suc pos \<noteq> ns ! Suc (Suc pos)"
    using linked_nth_eq [OF L] pos len by simp_all
  show ?thesis
    unfolding list_drop_elem_def option.case mid_before_cut_def [symmetric] mid_before_cut_rep [OF L pos]
    using te ps ne
    by (simp add: deref_Some upd_entry_Some set_next_def set_prev_def cut_list_def cut_def Let_def)
qed

lemma list_drop_elem_rep:
  assumes R: "list_rep l ns xs" and pos: "pos < length xs"
  shows "\<exists>l' ns'. list_drop_elem l (Some (ns ! Suc pos)) pos = Inr (l', 0) \<and>
            list_rep (l'\<lparr>l_numels := l_numels l' - 1\<rparr>) ns' (del pos xs) \<and> attrs_of l' = attrs_of l \<and>
            l_numels l' = l_numels l \<and>
            l_freed l' = (if l_copy l = None \<or> xs ! pos = None then l_freed l else the (xs ! pos) # l_freed l)"
proof -
  note L = list_repD(1) [OF R] and S = list_repD(2) [OF R]
  have len: "length ns = length xs + 2" by (rule linkedD(1) [OF L])
  let ?a = "ns ! Suc pos" and ?ns = "del (Suc pos) ns"
  let ?c = "free_data (cut_list l ns pos) (xs ! pos)"
  have fd: "l_heap ?c = l_heap (cut_list l ns pos)" "l_spare ?c = l_spare l" "l_brk ?c = l_brk l"
      "l_head ?c = l_head l" "l_tail ?c = l_tail l" "l_numels ?c = l_numels l"
      "l_mid ?c = l_mid (cut_list l ns pos)" "attrs_of ?c = attrs_of l"
      "l_freed ?c = (if l_copy l = None \<or> xs ! pos = None then l_freed l else the (xs ! pos) # l_freed l)"
    by (auto simp: free_data_def cut_list_def attrs_of_def split: option.split)
  have mem: "?a \<in> set ns" "ns ! pos \<in> set ns" "ns ! Suc (Suc pos) \<in> set ns"
    using pos len by simp_all
  have sd: "set ?ns = set ns - {?a}"
    by (rule set_del [OF linkedD(2) [OF L]]) (use pos len in simp)
  have ns': "set ns = insert ?a (set ?ns)" "?a \<notin> set ?ns"
    unfolding sd using mem(1) by blast+
  have ind: "set ns \<subseteq> dom (l_heap l)" using S by (simp add: separate_def)
  have "dom (l_heap ?c) = insert (ns ! Suc (Suc pos)) (insert (ns ! pos) (dom (l_heap l)))"
    unfolding fd(1) by (simp add: cut_list_def cut_def Let_def)
  then have dm: "dom (l_heap ?c) = dom (l_heap l)"
    using mem(2,3) ind by (simp add: insert_absorb subset_iff)
  have mine: "?a \<in> dom (l_heap ?c)" "?a \<notin> set (l_spare l)"
    using S mem(1) ind unfolding dm by (auto simp only: separate_def)
  have cl: "linked ((cut_list l ns pos)\<lparr>l_numels := l_numels l - 1\<rparr>) ?ns (del pos xs)"
    by (rule cut_linked [OF L pos])
  show ?thesis
  proof (cases "length (l_spare l) < SIMCLIST_MAX_SPARE_ELEMS")
    case True
    let ?l' = "?c\<lparr>l_spare := ?a # l_spare l\<rparr>"
    have e: "list_drop_elem l (Some ?a) pos = Inr (?l', 0)"
      using True by (simp add: list_drop_elem_steps [OF L pos] spare_or_free_def fd)
    have "linked (?l'\<lparr>l_numels := l_numels ?l' - 1\<rparr>) ?ns (del pos xs)"
      by (rule linked_cong [OF cl]) (simp_all add: fd)
    moreover have "separate (?l'\<lparr>l_numels := l_numels ?l' - 1\<rparr>) (set ?ns)"
      using S True mine ns' unfolding separate_def by (simp add: dm fd(3))
    ultimately have "list_rep (?l'\<lparr>l_numels := l_numels ?l' - 1\<rparr>) ?ns (del pos xs)"
      by (simp add: list_rep_alt)
    moreover have "attrs_of ?l' = attrs_of ?c" by (simp add: attrs_of_def)
    ultimately show ?thesis using e fd by (intro exI [of _ ?l'] exI [of _ ?ns]) simp
  next
    case False
    let ?l' = "?c\<lparr>l_heap := (l_heap ?c)(?a := None)\<rparr>"
    obtain en where "l_heap ?c ?a = Some en" using mine by blast
    then have e: "list_drop_elem l (Some ?a) pos = Inr (?l', 0)"
      using False by (simp add: list_drop_elem_steps [OF L pos] spare_or_free_def free_entry_def fd(2))
    have "linked (?l'\<lparr>l_numels := l_numels ?l' - 1\<rparr>) ?ns (del pos xs)"
      by (rule linked_cong [OF cl]) (use ns'(2) in \<open>auto simp: fd\<close>)
    moreover have "separate (?l'\<lparr>l_numels := l_numels ?l' - 1\<rparr>) (set ?ns)"
      using S mine ns' unfolding separate_def by (simp add: dm fd(2,3))
    ultimately have "list_rep (?l'\<lparr>l_numels := l_numels ?l' - 1\<rparr>) ?ns (del pos xs)"
      by (simp add: list_rep_alt)
    moreover have "attrs_of ?l' = attrs_of ?c" by (simp add: attrs_of_def)
    ultimately show ?thesis using e fd by (intro exI [of _ ?l'] exI [of _ ?ns]) simp
  qed
qed

lemma findpos_elem: "linked l ns xs \<Longrightarrow> pos < length xs \<Longrightarrow> list_findpos l (int pos) = Inr (Some (ns ! Suc pos))"
  using findpos_rep [of l ns xs "int pos"] by (simp add: nat_add_distrib)

lemma list_delete_at_rep:
  assumes R: "list_rep l ns xs" and pos: "pos < length xs" and it: "\<not> l_iter_active l"
  shows "\<exists>l' ns'. list_delete_at l pos = Inr (l', 0) \<and> list_rep l' ns' (del pos xs) \<and> attrs_of l' = attrs_of l
           \<and> l_freed l' = (if l_copy l = None \<or> xs ! pos = None then l_freed l else the (xs ! pos) # l_freed l)"
proof -
  note L = list_repD(1) [OF R]
  from list_drop_elem_rep [OF R pos] obtain l' ns' where
    "list_drop_elem l (Some (ns ! Suc pos)) pos = Inr (l', 0)"
    "list_rep (l'\<lparr>l_numels := l_numels l' - 1\<rparr>) ns' (del pos xs)" "attrs_of l' = attrs_of l"
    "l_freed l' = (if l_copy l = None \<or> xs ! pos = None then l_freed l else the (xs ! pos) # l_freed l)" by blast
  then show ?thesis using it pos linkedD(5) [OF L] findpos_elem [OF L pos]
    by (intro exI [of _ "l'\<lparr>l_numels := l_numels l' - 1\<rparr>"] exI [of _ ns'])
      (simp add: list_delete_at_def attrs_of_def)
qed

lemma list_delete_at_refused:
  assumes "list_rep l ns xs" and "pos \<ge> length xs \<or> l_iter_active l"
  shows "list_delete_at l pos = Inr (l, - 1)"
  using assms linkedD(5) [OF list_repD(1) [OF assms(1)]] by (auto simp: list_delete_at_def)

text \<open>Replacing the datum of an entry.\<close>

lemma linked_set_data:
  assumes L: "linked l ns xs" and pos: "pos < length xs" and e: "l_heap l (ns ! Suc pos) = Some e"
  shows "linked (l\<lparr>l_heap := (l_heap l)(ns ! Suc pos \<mapsto> e\<lparr>e_data := d\<rparr>)\<rparr>) ns (xs[pos := d])"
proof -
  have len: "length ns = length xs + 2" by (rule linkedD(1) [OF L])
  have "((l_heap l)(ns ! Suc pos \<mapsto> e\<lparr>e_data := d\<rparr>)) (ns ! i) = Some (node_at ns (xs[pos := d]) i)"
    if i: "i < length ns" for i
  proof (cases "i = Suc pos")
    case True
    have "e = node_at ns xs (Suc pos)" using e linkedD(7) [OF L, of "Suc pos"] pos len by simp
    then show ?thesis using True pos len by (simp add: node_at_def)
  next
    case False
    then have "ns ! i \<noteq> ns ! Suc pos" using linked_nth_eq [OF L i, of "Suc pos"] pos len by simp
    moreover have "node_at ns xs i = node_at ns (xs[pos := d]) i"
      using False by (auto simp: node_at_def nth_list_update)
    ultimately show ?thesis using linkedD(7) [OF L i] by simp
  qed
  then show ?thesis using linkedD(1-6) [OF L] by (simp add: linked_def)
qed

lemma list_extract_at_rep:
  assumes R: "list_rep l ns xs" and pos: "pos < length xs" and it: "\<not> l_iter_active l"
  shows "\<exists>l' ns'. list_extract_at l pos = Inr (l', xs ! pos) \<and> list_rep l' ns' (del pos xs)
           \<and> attrs_of l' = attrs_of l \<and> l_freed l' = l_freed l"
proof -
  note L = list_repD(1) [OF R] and S = list_repD(2) [OF R]
  have len: "length ns = length xs + 2" by (rule linkedD(1) [OF L])
  obtain e where e: "l_heap l (ns ! Suc pos) = Some e" "e_data e = xs ! pos"
    using linkedD(7) [OF L, of "Suc pos"] pos len that [of "node_at ns xs (Suc pos)"] by simp
  let ?l = "l\<lparr>l_heap := (l_heap l)(ns ! Suc pos \<mapsto> e\<lparr>e_data := None\<rparr>)\<rparr>"
  have "dom (l_heap ?l) = dom (l_heap l)" using e(1) by (simp add: domI insert_absorb)
  then have "separate ?l (set ns)" using S unfolding separate_def by simp
  then have R': "list_rep ?l ns (xs[pos := None])"
    using linked_set_data [OF L pos e(1), of None] by (simp add: list_rep_alt)
  have dl: "del pos (xs[pos := None]) = del pos xs" by (simp add: del_def)
  from list_drop_elem_rep [OF R', of pos] obtain l' ns' where l':
    "list_drop_elem ?l (Some (ns ! Suc pos)) pos = Inr (l', 0)"
    "list_rep (l'\<lparr>l_numels := l_numels l' - 1\<rparr>) ns' (del pos xs)" "attrs_of l' = attrs_of ?l"
    "l_freed l' = l_freed l" using pos dl by auto
  show ?thesis using l' it pos linkedD(5) [OF L] findpos_elem [OF L pos] e
    by (intro exI [of _ "l'\<lparr>l_numels := l_numels l' - 1\<rparr>"] exI [of _ ns'])
      (simp add: list_extract_at_def attrs_of_def deref_Some upd_entry_Some)
qed

section \<open>Scans\<close>

lemma first_entry_rep: "linked l ns xs \<Longrightarrow> first_entry l = Inr (Some (ns ! 1))"
  using linked_deref [of l ns xs 0] linkedD(1) [of l ns xs] by (simp add: first_entry_def linkedD(3))

text \<open>There are more addresses than entries, so the fuel of the scans is enough.\<close>

lemma enough_fuel: "list_rep l ns xs \<Longrightarrow> length xs < loop_fuel l"
proof -
  assume R: "list_rep l ns xs"
  then have "set ns \<subseteq> {..< l_brk l}" by (auto simp: list_rep_def)
  then have "card (set ns) \<le> l_brk l" using card_mono [of "{..< l_brk l}" "set ns"] by simp
  moreover have "card (set ns) = length xs + 2"
    using linkedD(1,2) [OF list_repD(1) [OF R]] distinct_card by metis
  ultimately show ?thesis by (simp add: loop_fuel_def)
qed

lemma tail_nth:
  assumes "linked l ns xs" "i \<le> length xs"
  shows "Some (ns ! Suc i) = Some (l_tail l) \<longleftrightarrow> i = length xs"
  using assms linked_nth_eq [OF assms(1), of "Suc i" "Suc (length xs)"] linkedD(1,4) [OF assms(1)] by simp

fun first_hit :: "('b \<Rightarrow> bool) \<Rightarrow> 'b list \<Rightarrow> nat option" where
  "first_hit p [] = None"
| "first_hit p (x # xs) = (if p x then Some 0 else map_option Suc (first_hit p xs))"

lemma first_hit_None: "first_hit p xs = None \<longleftrightarrow> (\<forall>x \<in> set xs. \<not> p x)"
  by (induction xs) auto

lemma first_hit_Some:
  "first_hit p xs = Some i \<Longrightarrow> i < length xs \<and> p (xs ! i) \<and> (\<forall>j < i. \<not> p (xs ! j))"
proof (induction xs arbitrary: i)
  case (Cons x xs)
  then show ?case by (auto split: if_splits simp: less_Suc_eq_0_disj)
qed simp

lemma locate_loop_rep:
  assumes L: "linked l ns xs"
  shows "i \<le> length xs \<Longrightarrow> length xs - i < fuel \<Longrightarrow>
    locate_loop fuel l p (Some (ns ! Suc i)) k =
      Inr (case first_hit p (drop i xs) of None \<Rightarrow> - 1 | Some j \<Rightarrow> k + int j)"
proof (induction fuel arbitrary: i k)
  case (Suc fuel)
  show ?case
  proof (cases "i = length xs")
    case True
    then show ?thesis using tail_nth [OF L, of i] by simp
  next
    case False
    then have i: "i < length xs" using Suc.prems by simp
    have "locate_loop fuel l p (Some (ns ! Suc (Suc i))) (k + 1) =
        Inr (case first_hit p (drop (Suc i) xs) of None \<Rightarrow> - 1 | Some j \<Rightarrow> k + 1 + int j)"
      using Suc i by (intro Suc.IH) simp_all
    then show ?thesis using i False tail_nth [OF L, of i] linkedD(1) [OF L] linked_deref [OF L, of "Suc i"]
      by (simp add: Cons_nth_drop_Suc [symmetric] split: option.split)
  qed
qed simp

lemma seek_loop_rep:
  assumes L: "linked l ns xs"
  shows "i \<le> length xs \<Longrightarrow> length xs - i < fuel \<Longrightarrow>
    seek_loop fuel l p (Some (ns ! Suc i)) =
      Inr (case first_hit p (drop i xs) of None \<Rightarrow> None | Some j \<Rightarrow> drop i xs ! j)"
proof (induction fuel arbitrary: i)
  case (Suc fuel)
  show ?case
  proof (cases "i = length xs")
    case True
    then show ?thesis using tail_nth [OF L, of i] by simp
  next
    case False
    then have i: "i < length xs" using Suc.prems by simp
    have "seek_loop fuel l p (Some (ns ! Suc (Suc i))) =
        Inr (case first_hit p (drop (Suc i) xs) of None \<Rightarrow> None | Some j \<Rightarrow> drop (Suc i) xs ! j)"
      using Suc i by (intro Suc.IH) simp_all
    then show ?thesis using i False tail_nth [OF L, of i] linkedD(1) [OF L] linked_deref [OF L, of "Suc i"]
      by (simp add: Cons_nth_drop_Suc [symmetric] split: option.split)
  qed
qed simp

definition list_match :: "('a, 'k) list_t \<Rightarrow> 'a option \<Rightarrow> 'a option \<Rightarrow> bool" where
  "list_match l d = (case l_comparator l of Some cmp \<Rightarrow> (\<lambda>x. cmp d x = 0) | None \<Rightarrow> (\<lambda>x. x = d))"

lemma list_locate_rep:
  assumes R: "list_rep l ns xs"
  shows "list_locate l d = Inr (case first_hit (list_match l d) xs of None \<Rightarrow> - 1 | Some j \<Rightarrow> int j)"
  using locate_loop_rep [OF list_repD(1) [OF R], of 0 "loop_fuel l" "list_match l d" 0] enough_fuel [OF R]
    first_entry_rep [OF list_repD(1) [OF R]]
  by (simp add: list_locate_def list_match_def cong: option.case_cong)

lemma list_seek_rep:
  assumes R: "list_rep l ns xs" and sk: "l_seeker l = Some sk"
  shows "list_seek l key =
    Inr (case first_hit (\<lambda>x. sk x key) xs of None \<Rightarrow> None | Some j \<Rightarrow> xs ! j)"
  using seek_loop_rep [OF list_repD(1) [OF R], of 0 "loop_fuel l" "\<lambda>x. sk x key"] enough_fuel [OF R]
    first_entry_rep [OF list_repD(1) [OF R]]
  by (simp add: list_seek_def sk cong: option.case_cong)

lemma list_get_at_rep:
  assumes R: "list_rep l ns xs" and small: "length xs < 2 ^ 31" and p: "pos < 2 ^ 32"
  shows "list_get_at l pos = Inr (if pos < length xs then xs ! pos else None)"
proof -
  note L = list_repD(1) [OF R]
  have len: "length ns = length xs + 2" by (rule linkedD(1) [OF L])
  consider "pos < length xs" | "pos = length xs" | "length xs < pos" "pos < 2 ^ 31"
    | "2 ^ 31 \<le> pos" "pos \<noteq> 2 ^ 32 - 1" | "pos = 2 ^ 32 - 1" by linarith
  then show ?thesis
  proof cases
    case 1
    then have "s32 pos = int pos" using small by (simp add: s32_def)
    then show ?thesis using 1 findpos_elem [OF L 1] len linked_deref [OF L, of "Suc pos"]
      by (simp add: list_get_at_def)
  next
    case 2
    then have "s32 pos = int (length xs)" using small by (simp add: s32_def)
    then show ?thesis using 2 findpos_rep [OF L, of "int (length xs)"] len linked_deref [OF L, of "Suc (length xs)"]
      by (simp add: list_get_at_def nat_add_distrib)
  next
    case 3
    then have "s32 pos = int pos" by (simp add: s32_def)
    then show ?thesis using 3 findpos_out [OF L, of "int pos"] by (simp add: list_get_at_def)
  next
    case 4
    then have "s32 pos < - 1" using p by (simp add: s32_def)
    then show ?thesis using 4 small findpos_out [OF L, of "s32 pos"] by (simp add: list_get_at_def)
  next
    case 5
    then have "s32 pos = - 1" by (simp add: s32_def)
    then show ?thesis using 5 small findpos_rep [OF L, of "- 1"] len linked_deref [OF L, of 0]
      by (simp add: list_get_at_def)
  qed
qed

section \<open>Clearing\<close>

text \<open>The element data the list owns and frees: none unless it copies its data.\<close>

definition owned :: "('a, 'k) list_t \<Rightarrow> 'a option list \<Rightarrow> 'a list" where
  "owned l xs = (if l_copy l = None then [] else concat (map (\<lambda>x. case x of None \<Rightarrow> [] | Some d \<Rightarrow> [d]) xs))"

lemma free_data_owned: "free_data l x = l\<lparr>l_freed := rev (owned l [x]) @ l_freed l\<rparr>"
  by (cases x) (auto simp: free_data_def owned_def)

lemma owned_Cons: "owned l (x # xs) = owned l [x] @ owned l xs"
  by (simp add: owned_def)

lemma owned_append: "owned l (xs @ ys) = owned l xs @ owned l ys"
  by (simp add: owned_def)

lemma owned_cong [simp]:
  "owned (l\<lparr>l_freed := f\<rparr>) xs = owned l xs" "owned (l\<lparr>l_spare := s\<rparr>) xs = owned l xs"
  "owned (l\<lparr>l_heap := h\<rparr>) xs = owned l xs"
  by (simp_all add: owned_def)

definition elem_nodes :: "nat list \<Rightarrow> nat \<Rightarrow> nat \<Rightarrow> nat list" where
  "elem_nodes ns i j = map (\<lambda>k. ns ! Suc k) [i ..< j]"

lemma elem_nodes_simps [simp]:
  "elem_nodes ns i i = []" "length (elem_nodes ns i j) = j - i"
  "set (elem_nodes ns i j) = (\<lambda>k. ns ! Suc k) ` {i ..< j}"
  by (simp_all add: elem_nodes_def)

lemma clear_spares_rep:
  assumes "linked l ns xs" "i \<le> length xs" "length xs - i < fuel"
  shows "\<exists>j. i \<le> j \<and> j \<le> length xs \<and>
    clear_spares fuel l (Some (ns ! Suc i)) =
      Inr (l\<lparr>l_freed := rev (owned l (take (j - i) (drop i xs))) @ l_freed l,
             l_spare := rev (elem_nodes ns i j) @ l_spare l\<rparr>, Some (ns ! Suc j)) \<and>
    (j = length xs \<or> SIMCLIST_MAX_SPARE_ELEMS \<le> length (l_spare l) + (j - i)) \<and>
    (i < j \<longrightarrow> length (l_spare l) + (j - i) \<le> SIMCLIST_MAX_SPARE_ELEMS)"
  using assms
proof (induction fuel arbitrary: i l)
  case (Suc fuel)
  note L = Suc.prems(1)
  show ?case
  proof (cases "length (l_spare l) < SIMCLIST_MAX_SPARE_ELEMS \<and> i < length xs")
    case False
    then have "clear_spares (Suc fuel) l (Some (ns ! Suc i)) = Inr (l, Some (ns ! Suc i))"
      using tail_nth [OF L Suc.prems(2)] Suc.prems(2) by auto
    moreover have "l = l\<lparr>l_freed := rev (owned l (take (i - i) (drop i xs))) @ l_freed l,
        l_spare := rev (elem_nodes ns i i) @ l_spare l\<rparr>" by (simp add: owned_def)
    ultimately show ?thesis using False Suc.prems(2) by (intro exI [of _ i]) auto
  next
    case True
    then have i: "i < length xs" by simp
    let ?l = "l\<lparr>l_freed := rev (owned l [xs ! i]) @ l_freed l, l_spare := ns ! Suc i # l_spare l\<rparr>"
    have L': "linked ?l ns xs" by (rule linked_cong [OF L]) simp_all
    have d: "deref l (Some (ns ! Suc i)) = Inr (node_at ns xs (Suc i))"
      using linked_deref [OF L, of "Suc i"] linkedD(1) [OF L] i by simp
    have st: "clear_spares (Suc fuel) l (Some (ns ! Suc i)) = clear_spares fuel ?l (Some (ns ! Suc (Suc i)))"
      using True tail_nth [OF L, of i] d linkedD(1) [OF L]
      by (simp add: free_data_owned)
    have fu: "length xs - Suc i < fuel" using Suc.prems(3) i by linarith
    obtain j where j: "Suc i \<le> j" "j \<le> length xs"
      "clear_spares fuel ?l (Some (ns ! Suc (Suc i))) =
        Inr (?l\<lparr>l_freed := rev (owned ?l (take (j - Suc i) (drop (Suc i) xs))) @ l_freed ?l,
             l_spare := rev (elem_nodes ns (Suc i) j) @ l_spare ?l\<rparr>, Some (ns ! Suc j))"
      "j = length xs \<or> SIMCLIST_MAX_SPARE_ELEMS \<le> length (l_spare ?l) + (j - Suc i)"
      "Suc i < j \<longrightarrow> length (l_spare ?l) + (j - Suc i) \<le> SIMCLIST_MAX_SPARE_ELEMS"
      using Suc.IH [OF L' Suc_leI [OF i] fu] by blast
    have tk: "take (j - i) (drop i xs) = xs ! i # take (j - Suc i) (drop (Suc i) xs)"
      using j(1) i by (simp add: Cons_nth_drop_Suc [symmetric] take_Cons' Suc_diff_Suc)
    have en: "elem_nodes ns i j = ns ! Suc i # elem_nodes ns (Suc i) j"
      using j(1) by (simp add: elem_nodes_def upt_conv_Cons)
    have "clear_spares (Suc fuel) l (Some (ns ! Suc i)) =
      Inr (l\<lparr>l_freed := rev (owned l (take (j - i) (drop i xs))) @ l_freed l,
             l_spare := rev (elem_nodes ns i j) @ l_spare l\<rparr>, Some (ns ! Suc j))"
      unfolding st j(3) tk en owned_Cons [of l "xs ! i" "take (j - Suc i) (drop (Suc i) xs)"] by simp
    moreover have "j = length xs \<or> SIMCLIST_MAX_SPARE_ELEMS \<le> length (l_spare l) + (j - i)"
      using j(1,4) by auto
    moreover have "length (l_spare l) + (j - i) \<le> SIMCLIST_MAX_SPARE_ELEMS"
      using j(1,5) True by (cases "Suc i = j") auto
    ultimately show ?thesis using j(1,2) by (intro exI [of _ j]) simp
  qed
qed simp

lemma clear_rest_rep:
  assumes "length ns = length xs + 2" "distinct ns" "l_tail l = ns ! Suc (length xs)"
    "\<And>k. i \<le> k \<Longrightarrow> k \<le> length xs \<Longrightarrow> l_heap l (ns ! Suc k) = Some (node_at ns xs (Suc k))"
    "i \<le> length xs" "length xs - i < fuel"
  shows "clear_rest fuel l (Some (ns ! Suc i)) =
    Inr (l\<lparr>l_freed := rev (owned l (drop i xs)) @ l_freed l,
           l_heap := l_heap l |` (- set (elem_nodes ns i (length xs)))\<rparr>)"
  using assms
proof (induction fuel arbitrary: i l)
  case (Suc fuel)
  note len = Suc.prems(1) and dist = Suc.prems(2) and tl = Suc.prems(3) and h = Suc.prems(4)
  have tn: "ns ! Suc i = l_tail l \<longleftrightarrow> i = length xs"
    using tl dist len Suc.prems(5) nth_eq_iff_index_eq [OF dist, of "Suc i" "Suc (length xs)"] by simp
  show ?case
  proof (cases "i = length xs")
    case True
    then show ?thesis using tn by (simp add: owned_def)
  next
    case False
    then have i: "i < length xs" using Suc.prems(5) by simp
    let ?a = "ns ! Suc i"
    let ?m = "l\<lparr>l_freed := rev (owned l [xs ! i]) @ l_freed l\<rparr>"
    let ?l = "?m\<lparr>l_heap := (l_heap l)(?a := None)\<rparr>"
    have ha: "l_heap l ?a = Some (node_at ns xs (Suc i))" using h [of i] i by simp
    have hb: "l_heap l (ns ! Suc (Suc i)) = Some (node_at ns xs (Suc (Suc i)))" using h [of "Suc i"] i by simp
    have other: "ns ! Suc k \<noteq> ?a" if "Suc i \<le> k" "k \<le> length xs" for k
      using that len dist by (simp add: nth_eq_iff_index_eq)
    have st: "clear_rest (Suc fuel) l (Some ?a) = clear_rest fuel ?l (Some (ns ! Suc (Suc i)))"
      using False tn i len ha hb
      by (simp add: deref_Some free_data_owned free_entry_def)
    have "clear_rest fuel ?l (Some (ns ! Suc (Suc i))) =
        Inr (?l\<lparr>l_freed := rev (owned ?l (drop (Suc i) xs)) @ l_freed ?l,
               l_heap := l_heap ?l |` (- set (elem_nodes ns (Suc i) (length xs)))\<rparr>)"
      by (rule Suc.IH) (use len dist tl h other i Suc.prems(6) in auto)
    moreover have "l_heap ?l |` (- set (elem_nodes ns (Suc i) (length xs)))
        = l_heap l |` (- set (elem_nodes ns i (length xs)))"
    proof -
      have "set (elem_nodes ns i (length xs)) = insert ?a (set (elem_nodes ns (Suc i) (length xs)))"
        using i by (auto simp: image_iff Bex_def le_less_Suc_eq Suc_le_eq dest!: le_neq_implies_less)
      then show ?thesis by (auto simp: fun_eq_iff restrict_map_def)
    qed
    moreover have "drop i xs = xs ! i # drop (Suc i) xs" using i by (simp add: Cons_nth_drop_Suc)
    ultimately show ?thesis
      using owned_Cons [of l "xs ! i" "drop (Suc i) xs"] st by simp
  qed
qed simp

text \<open>What is left: the two sentinels and the spares.\<close>

lemma list_clear_rep:
  assumes R: "list_rep l ns xs" and it: "\<not> l_iter_active l"
  shows "\<exists>l'. list_clear l = Inr (l', 0) \<and> list_rep l' [l_head l, l_tail l] [] \<and> attrs_of l' = attrs_of l
           \<and> l_freed l' = rev (owned l xs) @ l_freed l \<and> l_head l' = l_head l \<and> l_tail l' = l_tail l"
proof -
  note L = list_repD(1) [OF R] and S = list_repD(2) [OF R]
  let ?n = "length xs"
  have len: "length ns = ?n + 2" and dist: "distinct ns" using linkedD(1,2) [OF L] by simp_all
  from clear_spares_rep [OF L, of 0 "loop_fuel l"] enough_fuel [OF R]
  obtain j where j: "j \<le> ?n"
    "clear_spares (loop_fuel l) l (Some (ns ! Suc 0)) =
      Inr (l\<lparr>l_freed := rev (owned l (take j xs)) @ l_freed l,
             l_spare := rev (elem_nodes ns 0 j) @ l_spare l\<rparr>, Some (ns ! Suc j))"
    "0 < j \<longrightarrow> length (l_spare l) + j \<le> SIMCLIST_MAX_SPARE_ELEMS" by auto
  let ?l1 = "l\<lparr>l_freed := rev (owned l (take j xs)) @ l_freed l, l_spare := rev (elem_nodes ns 0 j) @ l_spare l\<rparr>"
  let ?h2 = "l_heap l |` (- set (elem_nodes ns j ?n))"
  let ?l2 = "?l1\<lparr>l_freed := rev (owned l xs) @ l_freed l, l_heap := ?h2\<rparr>"
  have "clear_rest (loop_fuel ?l1) ?l1 (Some (ns ! Suc j)) =
      Inr (?l1\<lparr>l_freed := rev (owned ?l1 (drop j xs)) @ l_freed ?l1, l_heap := l_heap ?l1 |` (- set (elem_nodes ns j ?n))\<rparr>)"
    by (rule clear_rest_rep)
      (use len dist linkedD(4,7) [OF L] j(1) enough_fuel [OF R] in \<open>simp_all add: loop_fuel_def\<close>)
  moreover have "owned l xs = owned l (take j xs) @ owned l (drop j xs)"
    by (simp flip: owned_append)
  ultimately have c2: "clear_rest (loop_fuel ?l1) ?l1 (Some (ns ! Suc j)) = Inr ?l2" by simp
  have ends: "ns ! 0 \<notin> set (elem_nodes ns j ?n)" "ns ! Suc ?n \<notin> set (elem_nodes ns j ?n)"
    using len dist by (auto simp: nth_eq_iff_index_eq)
  have hd2: "?h2 (ns ! 0) = Some (node_at ns xs 0)" "?h2 (ns ! Suc ?n) = Some (node_at ns xs (Suc ?n))"
    using ends linkedD(7) [OF L] len by simp_all
  have ht: "ns ! 0 \<noteq> ns ! Suc ?n" using len dist by (simp add: nth_eq_iff_index_eq)
  have split: "set ns = {ns ! 0, ns ! Suc ?n} \<union> set (elem_nodes ns 0 j) \<union> set (elem_nodes ns j ?n)"
  proof -
    have "set ns = (\<lambda>k. ns ! k) ` {0 ..< length ns}" by (simp add: set_conv_nth image_def) auto
    also have "{0 ..< length ns} = {0, Suc ?n} \<union> Suc ` {0 ..< j} \<union> Suc ` {j ..< ?n}"
      using len j(1) by (auto simp: image_iff)
    finally show ?thesis by (simp only: image_Un image_image image_insert image_empty elem_nodes_simps)
  qed
  let ?A = "elem_nodes ns 0 j" and ?B = "elem_nodes ns j ?n"
  have apart: "distinct ?A" "set ?A \<inter> set ?B = {}" "{ns ! 0, ns ! Suc ?n} \<inter> set ?A = {}"
    using len dist j(1) by (auto simp: elem_nodes_def distinct_map inj_on_def nth_eq_iff_index_eq)
  have subs: "set ?A \<subseteq> set ns" "{ns ! 0, ns ! Suc ?n} \<subseteq> set ns" unfolding split by auto
  have away: "set ns \<inter> set (l_spare l) = {}" "set ?B \<subseteq> set ns" using S split by (auto simp only: separate_def)
  let ?e0 = "(node_at ns xs 0)\<lparr>e_next := Some (l_tail l)\<rparr>"
  let ?e1 = "(node_at ns xs (Suc ?n))\<lparr>e_prev := Some (l_head l)\<rparr>"
  let ?l' = "?l2\<lparr>l_heap := ?h2(l_head l \<mapsto> ?e0, l_tail l \<mapsto> ?e1), l_numels := 0, l_mid := None\<rparr>"
  have c: "list_clear l = Inr (?l', 0)"
    using it j(2) c2 first_entry_rep [OF L] hd2 ht linkedD(3,4) [OF L]
    by (simp add: list_clear_def upd_entry_Some set_next_def set_prev_def)
  have lk: "linked ?l' [l_head l, l_tail l] []"
    using ht linkedD(3,4) [OF L] len
    by (auto simp: linked_def mid_of_def node_at_def less_Suc_eq numeral_2_eq_2)
  have sp: "set (l_spare ?l') = set ?A \<union> set (l_spare l)" by simp
  have dm: "dom (l_heap ?l') = {l_head l, l_tail l} \<union> set (l_spare ?l')"
  proof -
    have "dom (l_heap ?l') = {l_head l, l_tail l} \<union> (dom (l_heap l) - set ?B)" by auto
    also have "dom (l_heap l) = {l_head l, l_tail l} \<union> set ?A \<union> set ?B \<union> set (l_spare l)"
      using S unfolding separate_def linkedD(3,4) [OF L] split [symmetric] by simp
    also have "{l_head l, l_tail l} \<union> (\<dots> - set ?B) = {l_head l, l_tail l} \<union> (set ?A \<union> set (l_spare l))"
      using away apart(2) subs by blast
    finally show ?thesis unfolding sp .
  qed
  have "separate ?l' {l_head l, l_tail l}"
    unfolding separate_def dm
  proof (intro conjI)
    have "distinct (l_spare l)" using S by (simp add: separate_def)
    moreover have "set ?A \<inter> set (l_spare l) = {}" using away subs by blast
    ultimately show "distinct (l_spare ?l')" using apart(1) by (simp del: elem_nodes_simps)
    have "{l_head l, l_tail l} \<inter> (set ?A \<union> set (l_spare l)) = {}"
      using apart(3) away(1) subs(2) unfolding linkedD(3,4) [OF L] by blast
    then show "{l_head l, l_tail l} \<inter> set (l_spare ?l') = {}" unfolding sp .
    show "length (l_spare ?l') \<le> SIMCLIST_MAX_SPARE_ELEMS"
      using S j(3) unfolding separate_def by (cases "j = 0") auto
    show "\<forall>a \<in> {l_head l, l_tail l} \<union> set (l_spare ?l'). a < l_brk ?l'"
    proof -
      have "{l_head l, l_tail l} \<union> (set ?A \<union> set (l_spare l)) \<subseteq> dom (l_heap l)"
        using S subs unfolding separate_def linkedD(3,4) [OF L] by auto
      moreover have "\<forall>a \<in> dom (l_heap l). a < l_brk ?l'" using S by (simp add: separate_def)
      ultimately show ?thesis unfolding sp by blast
    qed
  qed simp
  then have "list_rep ?l' [l_head l, l_tail l] []" using lk by (simp add: list_rep_alt)
  then show ?thesis using c by (intro exI [of _ ?l']) (simp add: attrs_of_def)
qed

end
