(* ===== verification/Simclist_Spec.thy ===== *)
theory Simclist_Spec
  imports Simclist_Rep
begin

text \<open>
  The contract of \<open>src/src/common/simclist.c\<close>, on top of the representation of Simclist_Rep:
  creation and destruction, iteration, the program's own check \<open>list_repOk\<close>, and the properties
  of the component. The locale \<open>list_adt\<close> states what the device and client lists of the
  server rely on, is interpreted on the list's operations, and carries the lemma on the
  server's loop that deletes clients while it walks the list.
\<close>

section \<open>Creation and destruction\<close>

lemma list_init_rep: "list_rep list_init [0, 1] []"
  by (auto simp: list_rep_def linked_def list_init_def list_attributes_setdefaults_def mid_of_def
      node_at_def less_Suc_eq numeral_2_eq_2 SIMCLIST_MAX_SPARE_ELEMS_def)

lemma free_all_heap:
  assumes "distinct as" "set as \<subseteq> dom (l_heap l)"
  shows "free_all l as = Inr (l\<lparr>l_heap := l_heap l |` (- set as)\<rparr>)"
  using assms
proof (induction "as" arbitrary: l)
  case (Cons a as)
  let ?l = "l\<lparr>l_heap := (l_heap l)(a := None)\<rparr>"
  have fe: "free_entry l a = Inr ?l" using Cons.prems by (auto simp: free_entry_def split: option.split)
  have ih: "free_all ?l as = Inr (?l\<lparr>l_heap := l_heap ?l |` (- set as)\<rparr>)"
    by (rule Cons.IH) (use Cons.prems in auto)
  have "l_heap ?l |` (- set as) = l_heap l |` (- set (a # as))"
    by (rule ext) (simp add: restrict_map_def)
  then have eq: "?l\<lparr>l_heap := l_heap ?l |` (- set as)\<rparr> = l\<lparr>l_heap := l_heap l |` (- set (a # as))\<rparr>"
    by simp
  show ?case unfolding free_all.simps fe bind.simps ih eq by (rule refl)
next
  case Nil
  show ?case by (cases l) (simp add: restrict_map_def)
qed

lemma list_destroy_rep:
  assumes R: "list_rep l ns xs" and it: "\<not> l_iter_active l"
  shows "\<exists>l'. list_destroy l = Inr l' \<and> l_heap l' = Map.empty \<and> l_freed l' = rev (owned l xs) @ l_freed l
    \<and> l_numels l' = 0 \<and> \<not> l_iter_active l' \<and> l_tail l' < l_brk l'"
proof -
  from list_clear_rep [OF R it] obtain c where c: "list_clear l = Inr (c, 0)"
    "list_rep c [l_head l, l_tail l] []" "l_freed c = rev (owned l xs) @ l_freed l"
    "l_head c = l_head l" "l_tail c = l_tail l" "attrs_of c = attrs_of l" by blast
  have n: "l_numels c = 0" "\<not> l_iter_active c" "l_tail c < l_brk c"
    using linkedD(5) [OF list_repD(1) [OF c(2)]] c(2,5,6) it by (auto simp: attrs_of_def list_rep_def)
  note S = list_repD(2) [OF c(2)]
  let ?f = "c\<lparr>l_heap := l_heap c |` (- set (rev (l_spare c)))\<rparr>"
  have fa: "free_all c (rev (l_spare c)) = Inr ?f"
    by (rule free_all_heap) (use S in \<open>auto simp: separate_def\<close>)
  have ht: "l_head l \<noteq> l_tail l" using linkedD(2) [OF list_repD(1) [OF c(2)]] by simp
  have hs: "{l_head l, l_tail l} \<inter> set (l_spare c) = {}" "dom (l_heap c) = {l_head l, l_tail l} \<union> set (l_spare c)"
    using S by (simp_all add: separate_def)
  have df: "dom (l_heap ?f) = {l_head l, l_tail l}" using hs by auto
  then obtain eh et where "l_heap ?f (l_head l) = Some eh" "l_heap ?f (l_tail l) = Some et" by blast
  moreover have none: "l_heap ?f x = None" if "x \<noteq> l_head l" "x \<noteq> l_tail l" for x
    using df that by (metis domIff empty_iff insert_iff)
  have "(l_heap ?f)(l_head l := None, l_tail l := None) = Map.empty"
    by (rule ext) (simp only: fun_upd_apply split: if_split, intro conjI impI refl none)
  ultimately show ?thesis using c fa ht n
    by (auto simp: list_destroy_def free_entry_def)
qed

section \<open>Iteration\<close>

text \<open>The loop \<open>while (list_iterator_hasnext(l)) list_iterator_next(l)\<close>, at most \<open>k\<close> times.\<close>

fun iterate :: "nat \<Rightarrow> ('a, 'k) list_t \<Rightarrow> (('a, 'k) list_t \<times> 'a option list) res" where
  "iterate 0 l = Inr (l, [])"
| "iterate (Suc k) l =
     (if list_iterator_hasnext l
      then bind (list_iterator_next l) (\<lambda>(l, d). bind (iterate k l) (\<lambda>(l, ds). Inr (l, d # ds)))
      else Inr (l, []))"

lemma list_rep_iter [simp]:
  "list_rep (l\<lparr>l_iter_active := a\<rparr>) ns xs = list_rep l ns xs"
  "list_rep (l\<lparr>l_iter_pos := p\<rparr>) ns xs = list_rep l ns xs"
  "list_rep (l\<lparr>l_iter_cur := c\<rparr>) ns xs = list_rep l ns xs"
  by (simp_all add: list_rep_def linked_def)

lemma iterate_rep:
  assumes "list_rep l ns xs" "l_iter_active l" "l_iter_pos l = i" "l_iter_cur l = Some (ns ! Suc i)"
    "i \<le> length xs" "length xs - i \<le> k"
  shows "\<exists>l'. iterate k l = Inr (l', drop i xs) \<and> list_rep l' ns xs \<and> l_iter_active l' \<and> l_iter_pos l' = length xs"
  using assms
proof (induction k arbitrary: l i)
  case (Suc k)
  note L = list_repD(1) [OF Suc.prems(1)]
  show ?case
  proof (cases "i = length xs")
    case True
    then show ?thesis using Suc.prems linkedD(5) [OF L] by (simp add: list_iterator_hasnext_def)
  next
    case False
    then have i: "i < length xs" using Suc.prems(5) by simp
    let ?l = "l\<lparr>l_iter_cur := Some (ns ! Suc (Suc i)), l_iter_pos := Suc i\<rparr>"
    have "list_iterator_next l = Inr (?l, xs ! i)"
      using Suc.prems(2-4) linked_deref [OF L, of "Suc i"] linkedD(1) [OF L] i
      by (simp add: list_iterator_next_def)
    moreover have "list_iterator_hasnext l"
      using Suc.prems(2,3) linkedD(5) [OF L] i by (simp add: list_iterator_hasnext_def)
    moreover have "\<exists>l'. iterate k ?l = Inr (l', drop (Suc i) xs) \<and> list_rep l' ns xs \<and> l_iter_active l' \<and> l_iter_pos l' = length xs"
      by (rule Suc.IH) (use Suc.prems i in simp_all)
    ultimately show ?thesis using i by (auto simp: Cons_nth_drop_Suc [symmetric])
  qed
qed auto

section \<open>The program's own check\<close>

lemma rep_walk_rep:
  assumes L: "linked l ns xs"
  shows "i < length ns \<Longrightarrow> rep_walk l k (Some (ns ! i)) (int i - 1) =
    (let j = min (i + k) (Suc (length xs)) in Inr (Some (ns ! j), int j - 1))"
proof (induction k arbitrary: i)
  case 0
  then show ?case using linkedD(1) [OF L] by (simp add: Let_def)
next
  case (Suc k)
  show ?case
  proof (cases "Suc i < length ns")
    case True
    then have "rep_walk l k (Some (ns ! Suc i)) (int i) =
        (let j = min (Suc i + k) (Suc (length xs)) in Inr (Some (ns ! j), int j - 1))"
      using Suc.IH [of "Suc i"] by simp
    then show ?thesis using linked_deref [OF L] Suc.prems True by simp
  next
    case False
    then have "i = Suc (length xs)" using linkedD(1) [OF L] Suc.prems by simp
    then show ?thesis using linked_deref [OF L Suc.prems] linkedD(1) [OF L] by (simp add: Let_def)
  qed
qed

lemma list_repOk_rep:
  assumes R: "list_rep l ns xs"
  shows "list_repOk l = Inr True"
proof -
  note L = list_repD(1) [OF R] and S = list_repD(2) [OF R]
  have len: "length ns = length xs + 2" by (rule linkedD(1) [OF L])
  let ?n = "length xs" let ?j = "Suc ((?n - 1) div 2)"
  have ends: "deref l (Some (l_head l)) = Inr (node_at ns xs 0)"
      "deref l (Some (l_tail l)) = Inr (node_at ns xs (Suc ?n))"
    using linked_deref [OF L] linkedD(3,4) [OF L] len by simp_all
  have ht: "l_head l \<noteq> l_tail l"
    using linked_nth_eq [OF L, of 0 "Suc ?n"] linkedD(3,4) [OF L] len by simp
  have sp: "length (l_spare l) \<le> SIMCLIST_MAX_SPARE_ELEMS" using S by (simp add: separate_def)
  show ?thesis
  proof (cases "xs = []")
    case True
    then show ?thesis using ends ht sp len linkedD(3-6) [OF L]
      by (simp add: list_repOk_def mid_of_def)
  next
    case False
    have j: "?j \<le> ?n" using False by (cases xs) auto
    have w1: "rep_walk l (Suc ((?n - Suc 0) div 2)) (Some (l_head l)) (- 1) = Inr (Some (ns ! ?j), int ?j - 1)"
      using rep_walk_rep [OF L, of 0 ?j] len j linkedD(3) [OF L] by (simp add: Let_def)
    have w2: "rep_walk l (loop_fuel l) (Some (ns ! ?j)) (int ?j - 1) = Inr (Some (l_tail l), int ?n)"
      using rep_walk_rep [OF L, of ?j "loop_fuel l"] len j enough_fuel [OF R] linkedD(4) [OF L]
      by (simp add: Let_def)
    show ?thesis
      using False ends ht sp w1 w2 linkedD(5) [OF L] mid_of_rep [OF L False] len
      by (simp add: list_repOk_def)
  qed
qed

section \<open>Lists of pointers\<close>

text \<open>
  The server's lists hold non-null pointers, compare them by address and do not copy the data
  (the defaults of \<open>list_init\<close>): \<open>holds_list l xs\<close>.
\<close>

definition plain :: "('a, 'k) list_t \<Rightarrow> bool" where
  "plain l \<longleftrightarrow> l_comparator l = None \<and> l_copy l = None \<and> \<not> l_iter_active l"

definition holds_list :: "('a, 'k) list_t \<Rightarrow> 'a list \<Rightarrow> bool" where
  "holds_list l xs \<longleftrightarrow> plain l \<and> represents l (map Some xs)"

lemma plain_attrs: "attrs_of l' = attrs_of l \<Longrightarrow> plain l' = plain l"
  by (simp add: attrs_of_def plain_def)

lemma list_init_holds: "holds_list list_init []"
proof -
  have "represents list_init []" unfolding represents_def by (rule exI) (rule list_init_rep)
  then show ?thesis
    by (simp add: holds_list_def plain_def list_init_def list_attributes_setdefaults_def)
qed

lemma ins_end: "ins (length xs) x xs = xs @ [x]"
  by (simp add: ins_def)

lemma append_holds:
  assumes "holds_list l xs"
  shows "\<exists>l'. list_append True l (Some x) = Inr (l', 1) \<and> holds_list l' (xs @ [x])"
proof -
  from assms obtain ns where R: "list_rep l ns (map Some xs)" and p: "plain l"
    by (auto simp: holds_list_def represents_def)
  have n: "l_numels l = length xs" using linkedD(5) [OF list_repD(1) [OF R]] by simp
  from list_insert_at_rep [OF R, of "length xs" True "Some x"] p obtain l' ns' where
    "list_insert_at True l (Some x) (length xs) = Inr (l', 1)"
    "list_rep l' ns' (ins (length xs) (copied l (Some x)) (map Some xs))" "attrs_of l' = attrs_of l"
    by (auto simp: plain_def)
  moreover have "ins (length xs) (copied l (Some x)) (map Some xs) = map Some (xs @ [x])"
    using ins_end [of "map Some xs" "Some x"] p by (simp add: copied_def plain_def)
  ultimately show ?thesis using n p plain_attrs [of l' l]
    by (auto simp: list_append_def holds_list_def represents_def)
qed

lemma first_hit_remove1:
  "(case first_hit (\<lambda>y. y = x) xs of None \<Rightarrow> x \<notin> set xs
    | Some i \<Rightarrow> i < length xs \<and> xs ! i = x \<and> del i xs = remove1 x xs)"
proof (induction xs)
  case (Cons y xs)
  then show ?case by (auto simp: del_def split: option.splits)
qed simp

lemma first_hit_map: "first_hit p (map f xs) = first_hit (\<lambda>x. p (f x)) xs"
  by (induction xs) auto

lemma del_map: "del i (map f xs) = map f (del i xs)"
  by (simp add: del_def take_map drop_map)

lemma delete_holds:
  assumes "holds_list l xs"
  shows "\<exists>l'. list_delete l (Some x) = Inr (l', if x \<in> set xs then 0 else - 1) \<and> holds_list l' (remove1 x xs)"
proof -
  from assms obtain ns where R: "list_rep l ns (map Some xs)" and p: "plain l"
    by (auto simp: holds_list_def represents_def)
  have m: "first_hit (list_match l (Some x)) (map Some xs) = first_hit (\<lambda>y. y = x) xs"
    using p by (simp add: list_match_def plain_def first_hit_map)
  show ?thesis
  proof (cases "first_hit (\<lambda>y. y = x) xs")
    case None
    then have "x \<notin> set xs" using first_hit_remove1 [of x xs] by simp
    then show ?thesis using None m list_locate_rep [OF R, of "Some x"] assms
      by (auto simp: list_delete_def remove1_idem)
  next
    case (Some i)
    then have i: "i < length xs" "xs ! i = x" "del i xs = remove1 x xs"
      using first_hit_remove1 [of x xs] by simp_all
    from list_delete_at_rep [OF R, of i] i(1) p obtain l' ns' where
      "list_delete_at l i = Inr (l', 0)" "list_rep l' ns' (del i (map Some xs))" "attrs_of l' = attrs_of l"
      by (auto simp: plain_def)
    moreover have "x \<in> set xs" using i by auto
    ultimately show ?thesis
      using Some m list_locate_rep [OF R, of "Some x"] i p plain_attrs [of l' l]
      by (auto simp: list_delete_def holds_list_def represents_def del_map)
  qed
qed

lemma size_holds: "holds_list l xs \<Longrightarrow> list_size l = length xs"
  by (auto simp: holds_list_def represents_def list_size_def dest!: list_repD(1) linkedD(5))

lemma get_holds:
  "holds_list l xs \<Longrightarrow> length xs < 2 ^ 31 \<Longrightarrow> i < length xs \<Longrightarrow> list_get_at l i = Inr (Some (xs ! i))"
  using list_get_at_rep [of l _ "map Some xs" i] by (auto simp: holds_list_def represents_def)

lemma holds_list_exists: "\<exists>l :: ('a, 'k) list_t. holds_list l xs \<and> l_seeker l = None"
proof (induction xs rule: rev_induct)
  case Nil
  show ?case using list_init_holds by (auto simp: list_init_def list_attributes_setdefaults_def)
next
  case (snoc x xs)
  then obtain l :: "('a, 'k) list_t" where "holds_list l xs" by blast
  from append_holds [OF this, of x] obtain l' :: "('a, 'k) list_t" where l': "holds_list l' (xs @ [x])" by blast
  have "holds_list (list_attributes_seeker l' None) (xs @ [x])"
    using l' unfolding holds_list_def represents_def list_rep_def plain_def
    by (auto simp: list_attributes_seeker_def linked_def)
  then show ?case by (auto simp: list_attributes_seeker_def)
qed

text \<open>
  A list that is destroyed, or was zeroed and never initialised: its size is 0, and every
  operation that follows its links faults.
\<close>

definition dead_list :: "('a, 'k) list_t \<Rightarrow> bool" where
  "dead_list l \<longleftrightarrow> l_heap l = Map.empty \<and> l_numels l = 0 \<and> \<not> l_iter_active l \<and> l_tail l < l_brk l"

lemma destroy_dead: "holds_list l xs \<Longrightarrow> \<exists>l'. list_destroy l = Inr l' \<and> dead_list l'"
  using list_destroy_rep [of l _ "map Some xs"]
  by (auto simp: holds_list_def represents_def plain_def dead_list_def)

lemma dead_deref: "dead_list l \<Longrightarrow> deref l p = Inl (if p = None then Null_Deref else Use_After_Free)"
  by (simp add: dead_list_def deref_def split: option.split)

lemma dead_first: "dead_list l \<Longrightarrow> first_entry l = Inl Use_After_Free"
  by (simp add: first_entry_def dead_deref)

lemma dead_delete: "dead_list l \<Longrightarrow> list_delete l x = Inl Use_After_Free"
  by (simp add: list_delete_def list_locate_def dead_first)

lemma dead_destroy: "dead_list l \<Longrightarrow> list_destroy l = Inl Use_After_Free"
  by (simp add: list_destroy_def list_clear_def dead_first dead_list_def)

lemma dead_append: "dead_list l \<Longrightarrow> list_append True l x = Inl Use_After_Free"
  by (auto simp: list_append_def list_insert_at_def dead_list_def link_entry_def malloc_entry_def
      upd_entry_def list_findpos_def deref_def split: list.split)

section \<open>The interface of the server's lists\<close>

text \<open>
  The loop of the video thread (\<open>src/src/dev_opt.c\<close>, lines 751-765): it walks the list by
  index, and when it deletes the current element it steps both the index and the count back.
  \<open>k\<close> is \<open>iClientNum - i\<close>; \<open>body\<close> says what is done with an element and whether it is deleted.
\<close>

fun sweep ::
  "('l \<Rightarrow> nat \<Rightarrow> 'x option res) \<Rightarrow> ('l \<Rightarrow> 'x \<Rightarrow> ('l \<times> int) res) \<Rightarrow> ('s \<Rightarrow> 'x \<Rightarrow> ('s \<times> bool) res)
    \<Rightarrow> nat \<Rightarrow> nat \<Rightarrow> 'l \<Rightarrow> 's \<Rightarrow> ('l \<times> 's) res" where
  "sweep get delete body 0 i l s = Inr (l, s)"
| "sweep get delete body (Suc k) i l s =
     bind (get l i) (\<lambda>node. case node of
         None \<Rightarrow> Inl Null_Deref
       | Some x \<Rightarrow> bind (body s x) (\<lambda>(s, dead).
           if dead then bind (delete l x) (\<lambda>(l, r). sweep get delete body k i l s)
           else sweep get delete body k (i + 1) l s))"

text \<open>The same walk over a plain sequence.\<close>

fun sweep_seq :: "('s \<Rightarrow> 'x \<Rightarrow> ('s \<times> bool) res) \<Rightarrow> 'x list \<Rightarrow> 's \<Rightarrow> ('x list \<times> 's) res" where
  "sweep_seq body [] s = Inr ([], s)"
| "sweep_seq body (x # xs) s =
     bind (body s x) (\<lambda>(s, dead). bind (sweep_seq body xs s) (\<lambda>(ys, s).
       Inr (if dead then (ys, s) else (x # ys, s))))"

locale list_adt =
  fixes rep :: "'l \<Rightarrow> 'x list \<Rightarrow> bool"
    and empty :: "'l"
    and append :: "'l \<Rightarrow> 'x \<Rightarrow> ('l \<times> int) res"
    and delete :: "'l \<Rightarrow> 'x \<Rightarrow> ('l \<times> int) res"
    and len :: "'l \<Rightarrow> nat"
    and get :: "'l \<Rightarrow> nat \<Rightarrow> 'x option res"
  assumes empty_rep: "rep empty []"
    and append_rep: "rep l xs \<Longrightarrow> \<exists>l'. append l x = Inr (l', 1) \<and> rep l' (xs @ [x])"
    and delete_rep: "rep l xs \<Longrightarrow>
      \<exists>l'. delete l x = Inr (l', if x \<in> set xs then 0 else - 1) \<and> rep l' (remove1 x xs)"
    and len_rep: "rep l xs \<Longrightarrow> len l = length xs"
    and get_rep: "rep l xs \<Longrightarrow> length xs < 2 ^ 31 \<Longrightarrow> i < length xs \<Longrightarrow> get l i = Inr (Some (xs ! i))"
begin

lemma sweep_seq_correct:
  assumes "rep l (done_xs @ xs)" "distinct (done_xs @ xs)" "length (done_xs @ xs) < 2 ^ 31"
  shows "case sweep_seq body xs s of
           Inl f \<Rightarrow> sweep get delete body (length xs) (length done_xs) l s = Inl f
         | Inr (ys, s') \<Rightarrow> \<exists>l'. sweep get delete body (length xs) (length done_xs) l s = Inr (l', s')
                                 \<and> rep l' (done_xs @ ys)"
  using assms
proof (induction xs arbitrary: done_xs l s)
  case Nil
  then show ?case by auto
next
  case (Cons x xs)
  have g: "get l (length done_xs) = Inr (Some x)"
    using get_rep [OF Cons.prems(1,3), of "length done_xs"] by simp
  show ?case
  proof (cases "body s x")
    case (Inl f)
    then show ?thesis using g by simp
  next
    case (Inr sd)
    obtain s1 dead where sd: "sd = (s1, dead)" by (cases sd)
    show ?thesis
    proof (cases dead)
      case True
      from delete_rep [OF Cons.prems(1), of x] obtain l1 r where
        d: "delete l x = Inr (l1, r)" "rep l1 (remove1 x (done_xs @ x # xs))" by auto
      have rm: "remove1 x (done_xs @ x # xs) = done_xs @ xs"
        using Cons.prems(2) by (simp add: remove1_append)
      have IH: "case sweep_seq body xs s1 of
           Inl f \<Rightarrow> sweep get delete body (length xs) (length done_xs) l1 s1 = Inl f
         | Inr (ys, s') \<Rightarrow> \<exists>l'. sweep get delete body (length xs) (length done_xs) l1 s1 = Inr (l', s')
                                 \<and> rep l' (done_xs @ ys)"
        by (rule Cons.IH) (use d rm Cons.prems in auto)
      show ?thesis using IH g Inr sd True d(1) by (auto split: sum.splits)
    next
      case False
      have IH: "case sweep_seq body xs s1 of
           Inl f \<Rightarrow> sweep get delete body (length xs) (length (done_xs @ [x])) l s1 = Inl f
         | Inr (ys, s') \<Rightarrow> \<exists>l'. sweep get delete body (length xs) (length (done_xs @ [x])) l s1 = Inr (l', s')
                                 \<and> rep l' ((done_xs @ [x]) @ ys)"
        by (rule Cons.IH) (use Cons.prems in auto)
      show ?thesis using IH g Inr sd False by (auto split: sum.splits)
    qed
  qed
qed

lemma sweep_all:
  assumes "rep l xs" "distinct xs" "length xs < 2 ^ 31"
  shows "case sweep_seq body xs s of
           Inl f \<Rightarrow> sweep get delete body (len l) 0 l s = Inl f
         | Inr (ys, s') \<Rightarrow> \<exists>l'. sweep get delete body (len l) 0 l s = Inr (l', s') \<and> rep l' ys"
  using sweep_seq_correct [of l "[]" xs body s] assms len_rep [OF assms(1)]
  by (auto split: sum.splits)

end

interpretation ptr_list: list_adt holds_list list_init "\<lambda>l x. list_append True l (Some x)"
  "\<lambda>l x. list_delete l (Some x)" list_size list_get_at
  by unfold_locales (rule list_init_holds append_holds delete_holds size_holds get_holds; assumption?)+

section \<open>Properties\<close>

text \<open>
  C32: insertion at a position of a list that is not being iterated, with a spare entry or
  memory for one, inserts the datum (or its copy) there; in every other case the call answers
  \<open>-1\<close> and the list object is unchanged.
\<close>

theorem list_insert_at_correct:
  assumes "represents l xs"
  shows "\<exists>l'. list_insert_at ok l d pos =
      (if pos \<le> length xs \<and> \<not> l_iter_active l \<and> (ok \<or> l_spare l \<noteq> []) then Inr (l', 1) else Inr (l, - 1))
    \<and> (pos \<le> length xs \<and> \<not> l_iter_active l \<and> (ok \<or> l_spare l \<noteq> []) \<longrightarrow>
         represents l' (take pos xs @ copied l d # drop pos xs))"
proof -
  from assms obtain ns where R: "list_rep l ns xs" by (auto simp: represents_def)
  show ?thesis
  proof (cases "pos \<le> length xs \<and> \<not> l_iter_active l \<and> (ok \<or> l_spare l \<noteq> [])")
    case True
    then show ?thesis using list_insert_at_rep [OF R, of pos ok d]
      by (auto simp: represents_def ins_def)
  next
    case False
    then show ?thesis using list_insert_at_refused [OF R, of pos ok d] by auto
  qed
qed

theorem list_insert_at_correct_witness:
  "\<exists>l'. list_insert_at True (list_init :: (nat, nat) list_t) (Some 7) 0 = Inr (l', 1) \<and> represents l' [Some 7]"
proof -
  have "represents (list_init :: (nat, nat) list_t) []" using list_init_rep by (auto simp: represents_def)
  from list_insert_at_correct [OF this, of True "Some 7" 0] show ?thesis
    by (simp add: copied_def list_init_def list_attributes_setdefaults_def)
qed

text \<open>
  deletion at a position removes that element and frees its datum when the list owns its
  data; out of range, or during an iteration, the call answers \<open>-1\<close> and changes nothing.
\<close>

theorem list_delete_at_correct:
  assumes "represents l xs"
  shows "\<exists>l'. list_delete_at l pos =
      (if pos < length xs \<and> \<not> l_iter_active l then Inr (l', 0) else Inr (l, - 1))
    \<and> (pos < length xs \<and> \<not> l_iter_active l \<longrightarrow>
         represents l' (take pos xs @ drop (Suc pos) xs) \<and> l_freed l' = rev (owned l [xs ! pos]) @ l_freed l)"
proof -
  from assms obtain ns where R: "list_rep l ns xs" by (auto simp: represents_def)
  have o: "rev (owned l [x]) @ l_freed l = (if l_copy l = None \<or> x = None then l_freed l else the x # l_freed l)" for x
    by (cases x) (auto simp: owned_def)
  show ?thesis
  proof (cases "pos < length xs \<and> \<not> l_iter_active l")
    case True
    then show ?thesis using list_delete_at_rep [OF R, of pos] unfolding o
      by (auto simp: represents_def del_def)
  next
    case False
    then show ?thesis using list_delete_at_refused [OF R, of pos] by auto
  qed
qed

theorem list_delete_at_correct_witness:
  "\<exists>l l' :: (nat, nat) list_t. represents l [Some 4, Some 5] \<and> list_delete_at l 0 = Inr (l', 0) \<and> represents l' [Some 5]"
proof -
  obtain l :: "(nat, nat) list_t" where l: "holds_list l [4, 5]" using holds_list_exists by blast
  then have r: "represents l [Some 4, Some 5]" "\<not> l_iter_active l" by (simp_all add: holds_list_def plain_def)
  from list_delete_at_correct [OF r(1), of 0] r(2) obtain l' where
    "list_delete_at l 0 = Inr (l', 0)" "represents l' [Some 5]" by auto
  with r show ?thesis by blast
qed

text \<open>
  the entry \<open>list_findpos\<close> reaches from the head, the middle or the tail, whichever the
  quarter of the list suggests, is the one a walk from the head reaches.
\<close>

theorem list_findpos_is_walk:
  assumes "represents l xs" "- 1 \<le> p" "p \<le> int (length xs)"
  shows "list_findpos l p = walk_next l (nat (p + 1)) (Some (l_head l))"
proof -
  from assms obtain ns where L: "linked l ns xs" by (auto simp: represents_def dest: list_repD(1))
  have "nat (p + 1) < length ns" using assms(2,3) linkedD(1) [OF L] by linarith
  then show ?thesis
    using findpos_rep [OF L assms(2,3)] walk_next_rep [OF L, of 0 "nat (p + 1)"] linkedD(3) [OF L] by simp
qed

theorem list_findpos_is_walk_witness:
  "\<exists>l :: (nat, nat) list_t. represents l (map Some [0 ..< 9]) \<and> list_findpos l 7 = walk_next l 8 (Some (l_head l))"
proof -
  obtain l :: "(nat, nat) list_t" where l: "holds_list l [0 ..< 9]" using holds_list_exists by blast
  then have r: "represents l (map Some [0 ..< 9])" by (simp add: holds_list_def)
  from list_findpos_is_walk [OF r, of 7] r show ?thesis by auto
qed

text \<open>
  \<open>list_get_at\<close> gives the datum at the position and \<open>NULL\<close> at every other unsigned
  position, the two sentinels and the wrapped \<open>-1\<close> included.
\<close>

theorem list_get_at_correct:
  assumes "represents l xs" "length xs < 2 ^ 31" "pos < 2 ^ 32"
  shows "list_get_at l pos = Inr (if pos < length xs then xs ! pos else None)"
proof -
  from assms obtain ns where R: "list_rep l ns xs" by (auto simp: represents_def)
  show ?thesis by (rule list_get_at_rep [OF R assms(2,3)])
qed

theorem list_get_at_correct_witness:
  "\<exists>l :: (nat, nat) list_t. represents l [Some 4, Some 5] \<and> list_get_at l 1 = Inr (Some 5)
     \<and> list_get_at l 4294967295 = Inr None"
proof -
  obtain l :: "(nat, nat) list_t" where l: "holds_list l [4, 5]" using holds_list_exists by blast
  then have r: "represents l [Some 4, Some 5]" by (simp add: holds_list_def)
  from list_get_at_correct [OF r, of 1] list_get_at_correct [OF r, of 4294967295] r show ?thesis by auto
qed

text \<open>
  with a seeker set, \<open>list_seek\<close> gives the first element the seeker accepts, \<open>NULL\<close> when
  there is none.
\<close>

theorem list_seek_correct:
  assumes "represents l xs" "l_seeker l = Some sk"
  shows "list_seek l key = Inr (case filter (\<lambda>x. sk x key) xs of [] \<Rightarrow> None | x # _ \<Rightarrow> x)"
proof -
  from assms(1) obtain ns where R: "list_rep l ns xs" by (auto simp: represents_def)
  have "(case first_hit p xs of None \<Rightarrow> None | Some j \<Rightarrow> xs ! j) = (case filter p xs of [] \<Rightarrow> None | x # _ \<Rightarrow> x)"
    for p :: "'a option \<Rightarrow> bool"
    by (induction xs) (auto split: option.splits)
  then show ?thesis using list_seek_rep [OF R assms(2), of key] by simp
qed

theorem list_seek_correct_witness:
  "\<exists>l :: (nat, nat) list_t. represents l [Some 4, Some 5, Some 8] \<and> list_seek l 6 = Inr (Some 8)"
proof -
  obtain l0 :: "(nat, nat) list_t" where l0: "holds_list l0 [4, 5, 8]" using holds_list_exists by blast
  let ?l = "list_attributes_seeker l0 (Some (\<lambda>x key. key < the x))"
  have r: "represents ?l [Some 4, Some 5, Some 8]"
    using l0 unfolding holds_list_def represents_def list_rep_def linked_def
    by (auto simp: list_attributes_seeker_def)
  from list_seek_correct [OF r, of "\<lambda>x key. key < the x" 6] r show ?thesis
    by (auto simp: list_attributes_seeker_def)
qed

text \<open>
  destroying a list that is not being iterated gives back every entry the list ever
  allocated and still holds (the chain, the spares and the sentinels), and frees exactly the
  data it owns, in order.
\<close>

theorem list_destroy_frees_all:
  assumes "represents l xs" "\<not> l_iter_active l"
  shows "\<exists>l'. list_destroy l = Inr l' \<and> l_heap l' = Map.empty \<and> l_freed l' = rev (owned l xs) @ l_freed l"
  using assms list_destroy_rep unfolding represents_def by blast

theorem list_destroy_frees_all_witness:
  "\<exists>l l' :: (nat, nat) list_t. represents l (map Some [0 ..< 7]) \<and> list_destroy l = Inr l' \<and> l_heap l' = Map.empty"
proof -
  obtain l :: "(nat, nat) list_t" where l: "holds_list l [0 ..< 7]" using holds_list_exists by blast
  then have r: "represents l (map Some [0 ..< 7])" "\<not> l_iter_active l" by (simp_all add: holds_list_def plain_def)
  from list_destroy_frees_all [OF r] r show ?thesis by blast
qed

text \<open>
  an iteration from \<open>list_iterator_start\<close> until \<open>list_iterator_hasnext\<close> fails yields the
  elements in order, and stopping it leaves the list as it was.
\<close>

theorem list_iteration_correct:
  assumes "represents l xs" "\<not> l_iter_active l"
  shows "\<exists>l1 l2. list_iterator_start l = Inr (l1, 1) \<and> iterate (length xs) l1 = Inr (l2, xs)
    \<and> \<not> list_iterator_hasnext l2 \<and> represents (fst (list_iterator_stop l2)) xs
    \<and> \<not> l_iter_active (fst (list_iterator_stop l2))"
proof -
  from assms obtain ns where R: "list_rep l ns xs" by (auto simp: represents_def)
  let ?l1 = "l\<lparr>l_iter_pos := 0, l_iter_active := True, l_iter_cur := Some (ns ! 1)\<rparr>"
  have s: "list_iterator_start l = Inr (?l1, 1)"
    using assms(2) first_entry_rep [OF list_repD(1) [OF R]] by (simp add: list_iterator_start_def)
  have "list_rep ?l1 ns xs" using R by (simp add: list_rep_def linked_def)
  from iterate_rep [OF this, of 0 "length xs"] obtain l2 where
    l2: "iterate (length xs) ?l1 = Inr (l2, xs)" "list_rep l2 ns xs" "l_iter_active l2" "l_iter_pos l2 = length xs"
    by auto
  have "represents (fst (list_iterator_stop l2)) xs"
    using l2(2,3) by (auto simp: list_iterator_stop_def represents_def list_rep_def linked_def)
  moreover have "\<not> list_iterator_hasnext l2"
    using l2(4) linkedD(5) [OF list_repD(1) [OF l2(2)]] by (simp add: list_iterator_hasnext_def)
  ultimately show ?thesis using s l2(1,3) by (auto simp: list_iterator_stop_def)
qed

theorem list_iteration_correct_witness:
  "\<exists>l l1 l2 :: (nat, nat) list_t. represents l [Some 4, Some 5] \<and> list_iterator_start l = Inr (l1, 1)
     \<and> iterate 2 l1 = Inr (l2, [Some 4, Some 5])"
proof -
  obtain l :: "(nat, nat) list_t" where l: "holds_list l [4, 5]" using holds_list_exists by blast
  then have r: "represents l [Some 4, Some 5]" "\<not> l_iter_active l" by (simp_all add: holds_list_def plain_def)
  have n: "length [Some 4, Some (5::nat)] = 2" by simp
  from list_iteration_correct [OF r] r(1) show ?thesis unfolding n by blast
qed

text \<open>
  \<open>list_repOk\<close>, the program's own check of its representation, holds of every list the
  operations build.
\<close>

theorem list_repOk_holds:
  assumes "represents l xs"
  shows "list_repOk l = Inr True"
  using assms list_repOk_rep by (auto simp: represents_def)

theorem list_repOk_holds_witness: "list_repOk (list_init :: (nat, nat) list_t) = Inr True"
proof -
  have "represents (list_init :: (nat, nat) list_t) []" using list_init_rep by (auto simp: represents_def)
  from list_repOk_holds [OF this] show ?thesis .
qed

end
