(* ===== verification/Simclist_Sort.thy ===== *)
theory Simclist_Sort
  imports Simclist_Ops Simclist_Spec "HOL-Library.Multiset"
begin

text \<open>
  The sort of \<open>simclist.c\<close> is correct: whatever \<open>rand\<close> returns, it ends without a fault, leaves
  the entries where they are, permutes the data, and the data come out in the order of the
  comparator. The pointers of the code are positions of the represented list.
\<close>

section \<open>Segments\<close>

text \<open>\<open>xs'\<close> is \<open>xs\<close> with the elements from \<open>a\<close> up to, not including, \<open>e\<close> permuted.\<close>

definition perm_on :: "nat \<Rightarrow> nat \<Rightarrow> 'b list \<Rightarrow> 'b list \<Rightarrow> bool" where
  "perm_on a e xs xs' \<longleftrightarrow> length xs' = length xs \<and> mset xs' = mset xs \<and>
     (\<forall>k < length xs. k < a \<or> e \<le> k \<longrightarrow> xs' ! k = xs ! k)"

lemma perm_on_refl [simp]: "perm_on a e xs xs"
  by (simp add: perm_on_def)

lemma perm_on_trans: "perm_on a e xs ys \<Longrightarrow> perm_on a e ys zs \<Longrightarrow> perm_on a e xs zs"
  by (simp add: perm_on_def)

lemma perm_on_mono: "perm_on a' e' xs ys \<Longrightarrow> a \<le> a' \<Longrightarrow> e' \<le> e \<Longrightarrow> perm_on a e xs ys"
  by (auto simp: perm_on_def)

lemma perm_on_length: "perm_on a e xs ys \<Longrightarrow> length ys = length xs"
  by (simp add: perm_on_def)

lemma perm_on_other: "perm_on a e xs ys \<Longrightarrow> k < length xs \<Longrightarrow> k < a \<or> e \<le> k \<Longrightarrow> ys ! k = xs ! k"
  by (auto simp: perm_on_def)

lemma perm_on_set: "perm_on a e xs ys \<Longrightarrow> set ys = set xs"
  by (metis mset_eq_setD perm_on_def)

lemma perm_on_swap:
  assumes "a \<le> i" "i < e" "a \<le> j" "j < e" "e \<le> length xs"
  shows "perm_on a e xs (xs[i := xs ! j, j := xs ! i])"
  using assms mset_swap [of j xs i] by (auto simp: perm_on_def nth_list_update)

lemma perm_on_elem:
  assumes P: "perm_on a e xs ys" and k: "a \<le> k" "k < e" "e \<le> length xs"
  shows "\<exists>k'. a \<le> k' \<and> k' < e \<and> ys ! k = xs ! k'"
proof -
  have len: "length ys = length xs" using P by (rule perm_on_length)
  have t: "take a ys = take a xs" "drop e ys = drop e xs"
    using P k len by (auto simp: perm_on_def intro!: nth_equalityI)
  have "a \<le> e" using k by simp
  then have cut: "zs = take a zs @ take (e - a) (drop a zs) @ drop e zs" for zs :: "'a list"
    using append_take_drop_id [of a zs] append_take_drop_id [of "e - a" "drop a zs"] by simp
  have "mset ys = mset xs" using P by (simp add: perm_on_def)
  then have "mset (take (e - a) (drop a ys)) = mset (take (e - a) (drop a xs))"
    using arg_cong [OF cut [of ys], of mset] arg_cong [OF cut [of xs], of mset] t by simp
  then have s: "set (take (e - a) (drop a ys)) = set (take (e - a) (drop a xs))" by (rule mset_eq_setD)
  have "take (e - a) (drop a ys) ! (k - a) = ys ! k" "k - a < length (take (e - a) (drop a ys))"
    using k len by auto
  then have "ys ! k \<in> set (take (e - a) (drop a xs))" using s nth_mem by metis
  then obtain m where "m < length (take (e - a) (drop a xs))" "take (e - a) (drop a xs) ! m = ys ! k"
    by (auto simp: in_set_conv_nth)
  then show ?thesis using k by (intro exI [of _ "a + m"]) auto
qed

section \<open>The list as an array\<close>

text \<open>The pointer to the element at \<open>i\<close>, and the list that is being sorted.\<close>

abbreviation at :: "nat list \<Rightarrow> nat \<Rightarrow> nat option" where "at ns i \<equiv> Some (ns ! Suc i)"

definition data_only :: "('a, 'k) list_t \<Rightarrow> ('a, 'k) list_t \<Rightarrow> bool" where
  "data_only l l' \<longleftrightarrow> (\<exists>h. l' = l\<lparr>l_heap := h\<rparr>)"

lemma data_only_refl [simp]: "data_only l l"
  by (auto simp: data_only_def intro: exI [of _ "l_heap l"])

lemma data_only_trans: "data_only l l' \<Longrightarrow> data_only l' l'' \<Longrightarrow> data_only l l''"
  by (auto simp: data_only_def)

lemma data_only_fields:
  "data_only l l' \<Longrightarrow> l_comparator l' = l_comparator l \<and> l_freed l' = l_freed l \<and> attrs_of l' = attrs_of l \<and>
     l_numels l' = l_numels l"
  by (auto simp: data_only_def attrs_of_def)

text \<open>One element per entry: reading, comparing, moving along, writing.\<close>

lemma at_deref:
  assumes "list_rep l ns xs" "i < length xs"
  shows "deref l (at ns i) = Inr (node_at ns xs (Suc i))" "e_data (node_at ns xs (Suc i)) = xs ! i"
  using linked_deref [OF list_repD(1) [OF assms(1)], of "Suc i"] linkedD(1) [OF list_repD(1) [OF assms(1)]] assms(2)
  by auto

lemma at_next: "list_rep l ns xs \<Longrightarrow> i < length xs \<Longrightarrow> next_of l (at ns i) = Inr (at ns (Suc i))"
  using at_deref [of l ns xs i] linkedD(1) [OF list_repD(1), of l ns xs] by (simp add: next_of_def)

lemma at_prev: "list_rep l ns xs \<Longrightarrow> Suc i < length xs \<Longrightarrow> prev_of l (at ns (Suc i)) = Inr (at ns i)"
  using at_deref [of l ns xs "Suc i"] by (simp add: prev_of_def)

lemma at_eq: "list_rep l ns xs \<Longrightarrow> i \<le> length xs \<Longrightarrow> j \<le> length xs \<Longrightarrow> at ns i = at ns j \<longleftrightarrow> i = j"
  using linked_nth_eq [OF list_repD(1), of l ns xs "Suc i" "Suc j"] linkedD(1) [OF list_repD(1), of l ns xs] by simp

lemma at_cmp:
  "list_rep l ns xs \<Longrightarrow> l_comparator l = Some c \<Longrightarrow> i < length xs \<Longrightarrow> j < length xs \<Longrightarrow>
   cmp_at l v (at ns i) (at ns j) = Inr (c (xs ! i) (xs ! j) * - v)"
  by (simp add: cmp_at_def at_deref)

lemma at_set:
  assumes R: "list_rep l ns xs" and i: "i < length xs"
  shows "\<exists>l'. set_data l (at ns i) d = Inr l' \<and> list_rep l' ns (xs[i := d]) \<and> data_only l l'"
proof -
  note L = list_repD(1) [OF R] and S = list_repD(2) [OF R]
  have e: "l_heap l (ns ! Suc i) = Some (node_at ns xs (Suc i))"
    using linkedD(7) [OF L, of "Suc i"] linkedD(1) [OF L] i by simp
  let ?l = "l\<lparr>l_heap := (l_heap l)(ns ! Suc i \<mapsto> (node_at ns xs (Suc i))\<lparr>e_data := d\<rparr>)\<rparr>"
  have "dom (l_heap ?l) = dom (l_heap l)" using e by (simp add: domI insert_absorb)
  then have "separate ?l (set ns)" using S unfolding separate_def by simp
  then have "list_rep ?l ns (xs[i := d])" using linked_set_data [OF L i e] by (simp add: list_rep_alt)
  then show ?thesis using e by (auto simp: set_data_def upd_entry_Some data_only_def)
qed

lemma at_swap:
  assumes R: "list_rep l ns xs" and ij: "i < length xs" "j < length xs"
  shows "\<exists>l'. swap_data l (at ns i) (at ns j) = Inr l' \<and> list_rep l' ns (xs[i := xs ! j, j := xs ! i]) \<and> data_only l l'"
proof -
  from at_set [OF R ij(1)] obtain l1 where
    l1: "set_data l (at ns i) (xs ! j) = Inr l1" "list_rep l1 ns (xs[i := xs ! j])" "data_only l l1" by blast
  have "j < length (xs[i := xs ! j])" using ij by simp
  from at_set [OF l1(2) this] obtain l2 where
    l2: "set_data l1 (at ns j) (xs ! i) = Inr l2" "list_rep l2 ns (xs[i := xs ! j, j := xs ! i])" "data_only l1 l2" by blast
  show ?thesis using l1 l2 data_only_trans at_deref [OF R ij(1)] at_deref [OF R ij(2)] by (auto simp: swap_data_def)
qed

lemma at_rotate:
  assumes R: "list_rep l ns xs" and ijk: "i < length xs" "j < length xs" "k < length xs" "i \<noteq> k"
  shows "\<exists>l'. rotate_data l (at ns i) (at ns j) (at ns k) = Inr l' \<and>
    list_rep l' ns (xs[i := xs ! j, j := xs ! k, k := xs ! i]) \<and> data_only l l'"
proof -
  from at_set [OF R ijk(1)] obtain l1 where
    l1: "set_data l (at ns i) (xs ! j) = Inr l1" "list_rep l1 ns (xs[i := xs ! j])" "data_only l l1" by blast
  have len: "j < length (xs[i := xs ! j])" "k < length (xs[i := xs ! j])" using ijk by simp_all
  have k: "deref l1 (at ns k) = Inr (node_at ns (xs[i := xs ! j]) (Suc k))" "e_data (node_at ns (xs[i := xs ! j]) (Suc k)) = xs ! k"
    using at_deref [OF l1(2) len(2)] ijk(4) by simp_all
  from at_set [OF l1(2) len(1)] obtain l2 where
    l2: "set_data l1 (at ns j) (xs ! k) = Inr l2" "list_rep l2 ns (xs[i := xs ! j, j := xs ! k])" "data_only l1 l2" by blast
  have "k < length (xs[i := xs ! j, j := xs ! k])" using ijk by simp
  from at_set [OF l2(2) this] obtain l3 where
    l3: "set_data l2 (at ns k) (xs ! i) = Inr l3" "list_rep l3 ns (xs[i := xs ! j, j := xs ! k, k := xs ! i])" "data_only l2 l3"
    by blast
  have "data_only l l3" using l1(3) l2(3) l3(3) data_only_trans by blast
  then show ?thesis using l1(1) l2(1) l3(1,2) k at_deref [OF R ijk(1)] at_deref [OF R ijk(2)]
    by (auto simp: rotate_data_def)
qed

lemma perm_on_rotate:
  assumes "a \<le> i" "i < e" "a \<le> j" "j < e" "a \<le> k" "k < e" "e \<le> length xs" "i \<noteq> k" "j \<noteq> k"
  shows "perm_on a e xs (xs[i := xs ! j, j := xs ! k, k := xs ! i])"
proof -
  let ?ys = "xs[i := xs ! k, k := xs ! i]"
  have "perm_on a e xs ?ys" by (rule perm_on_swap) (use assms in simp_all)
  moreover have "perm_on a e ?ys (?ys[i := ?ys ! j, j := ?ys ! i])" by (rule perm_on_swap) (use assms in simp_all)
  moreover have "?ys[i := ?ys ! j, j := ?ys ! i] = xs[i := xs ! j, j := xs ! k, k := xs ! i]"
    using assms by (auto intro!: nth_equalityI simp: nth_list_update)
  ultimately show ?thesis using perm_on_trans by metis
qed

section \<open>The order\<close>

text \<open>\<open>x\<close> may stand before \<open>y\<close> in a list sorted by \<open>c\<close> with \<open>versus\<close> = \<open>v\<close>.\<close>

definition before :: "('a option \<Rightarrow> 'a option \<Rightarrow> int) \<Rightarrow> int \<Rightarrow> 'a option \<Rightarrow> 'a option \<Rightarrow> bool" where
  "before c v x y \<longleftrightarrow> c x y * - v \<le> 0"

text \<open>What the sort asks of the comparator, on the data of the list.\<close>

locale comparison =
  fixes c :: "'a option \<Rightarrow> 'a option \<Rightarrow> int" and v :: int and D :: "'a option set"
  assumes transitive: "x \<in> D \<Longrightarrow> y \<in> D \<Longrightarrow> z \<in> D \<Longrightarrow> before c v x y \<Longrightarrow> before c v y z \<Longrightarrow> before c v x z"
    and symmetric: "x \<in> D \<Longrightarrow> y \<in> D \<Longrightarrow> 0 \<le> c x y * - v \<longleftrightarrow> before c v y x"
begin

lemma total: "x \<in> D \<Longrightarrow> y \<in> D \<Longrightarrow> before c v x y \<or> before c v y x"
  using symmetric [of x y] by (auto simp: before_def)

lemma reflexive: "x \<in> D \<Longrightarrow> before c v x x"
  using total [of x x] by simp

lemma greater: "x \<in> D \<Longrightarrow> y \<in> D \<Longrightarrow> \<not> before c v x y \<Longrightarrow> before c v y x"
  using total by blast

end

definition sorted_on :: "('a option \<Rightarrow> 'a option \<Rightarrow> int) \<Rightarrow> int \<Rightarrow> nat \<Rightarrow> nat \<Rightarrow> 'a option list \<Rightarrow> bool" where
  "sorted_on c v a e xs \<longleftrightarrow> (\<forall>j k. a \<le> j \<and> j \<le> k \<and> k < e \<longrightarrow> before c v (xs ! j) (xs ! k))"

text \<open>The pivot at \<open>p\<close>, with the elements before \<open>i\<close> not after it and those after \<open>j\<close> not before it.\<close>

definition parted ::
  "('a option \<Rightarrow> 'a option \<Rightarrow> int) \<Rightarrow> int \<Rightarrow> nat \<Rightarrow> nat \<Rightarrow> nat \<Rightarrow> nat \<Rightarrow> nat \<Rightarrow> 'a option list \<Rightarrow> bool" where
  "parted c v a i p j e xs \<longleftrightarrow>
     (\<forall>k. a \<le> k \<and> k < i \<longrightarrow> before c v (xs ! k) (xs ! p)) \<and>
     (\<forall>k. j < k \<and> k < e \<longrightarrow> before c v (xs ! p) (xs ! k))"

section \<open>The scans\<close>

context comparison
begin

lemma scan_left_ok:
  assumes "list_rep l ns xs" "l_comparator l = Some c" "i \<le> p" "p < length xs" "p - i < fuel"
  shows "\<exists>i'. scan_left fuel l v (at ns i) (at ns p) = Inr (at ns i') \<and> i \<le> i' \<and> i' \<le> p \<and>
    (\<forall>k. i \<le> k \<and> k < i' \<longrightarrow> before c v (xs ! k) (xs ! p)) \<and> (i' = p \<or> \<not> before c v (xs ! i') (xs ! p))"
  using assms(3,5)
proof (induction fuel arbitrary: i)
  case (Suc fuel)
  show ?case
  proof (cases "i = p \<or> \<not> before c v (xs ! i) (xs ! p)")
    case True
    then show ?thesis using Suc.prems assms at_eq [OF assms(1), of i p] at_cmp [OF assms(1,2), of i p v]
      by (intro exI [of _ i]) (auto simp: before_def)
  next
    case False
    with Suc.prems have i: "Suc i \<le> p" "p - Suc i < fuel" by auto
    from Suc.IH [OF this] obtain i' where i': "scan_left fuel l v (at ns (Suc i)) (at ns p) = Inr (at ns i')"
      "Suc i \<le> i'" "i' \<le> p" "\<forall>k. Suc i \<le> k \<and> k < i' \<longrightarrow> before c v (xs ! k) (xs ! p)"
      "i' = p \<or> \<not> before c v (xs ! i') (xs ! p)" by blast
    have "scan_left (Suc fuel) l v (at ns i) (at ns p) = Inr (at ns i')"
      using False i i'(1) assms(1,2,4) at_eq [OF assms(1), of i p] at_cmp [OF assms(1,2), of i p v] at_next [OF assms(1), of i]
      by (simp add: before_def)
    moreover have "before c v (xs ! k) (xs ! p)" if "i \<le> k" "k < i'" for k
      using i'(4) that False by (cases "k = i") auto
    ultimately show ?thesis using i' by (intro exI [of _ i']) auto
  qed
qed simp

lemma scan_right_ok:
  assumes "list_rep l ns xs" "l_comparator l = Some c" "p \<le> j" "j < length xs" "j - p < fuel" "set xs \<subseteq> D"
  shows "\<exists>j'. scan_right fuel l v (at ns j) (at ns p) = Inr (at ns j') \<and> p \<le> j' \<and> j' \<le> j \<and>
    (\<forall>k. j' < k \<and> k \<le> j \<longrightarrow> before c v (xs ! p) (xs ! k)) \<and> (j' = p \<or> \<not> before c v (xs ! p) (xs ! j'))"
  using assms(3,4,5)
proof (induction fuel arbitrary: j)
  case (Suc fuel)
  have sy: "0 \<le> c (xs ! j) (xs ! p) * - v \<longleftrightarrow> before c v (xs ! p) (xs ! j)"
    using Suc.prems assms(6) by (intro symmetric) (auto intro!: subsetD [OF assms(6)])
  show ?case
  proof (cases "j = p \<or> \<not> before c v (xs ! p) (xs ! j)")
    case True
    then show ?thesis using Suc.prems assms(1,2) sy at_eq [OF assms(1), of j p] at_cmp [OF assms(1,2), of j p v]
      by (intro exI [of _ j]) auto
  next
    case False
    then obtain m where m: "j = Suc m" "p \<le> m" using Suc.prems by (cases j) auto
    then have "m < length xs" "m - p < fuel" using Suc.prems by auto
    from Suc.IH [OF m(2) this] obtain j' where j': "scan_right fuel l v (at ns m) (at ns p) = Inr (at ns j')"
      "p \<le> j'" "j' \<le> m" "\<forall>k. j' < k \<and> k \<le> m \<longrightarrow> before c v (xs ! p) (xs ! k)"
      "j' = p \<or> \<not> before c v (xs ! p) (xs ! j')" by blast
    have "scan_right (Suc fuel) l v (at ns j) (at ns p) = Inr (at ns j')"
      using False m Suc.prems j'(1) assms(1,2) sy at_eq [OF assms(1), of j p] at_cmp [OF assms(1,2), of j p v]
        at_prev [OF assms(1), of m]
      by simp
    moreover have "before c v (xs ! p) (xs ! k)" if "j' < k" "k \<le> j" for k
      using j'(4) that False m by (cases "k = j") auto
    ultimately show ?thesis using j' m by (intro exI [of _ j']) auto
  qed
qed simp

section \<open>The partition\<close>

lemma partition_loop_ok:
  assumes "list_rep l ns xs" "l_comparator l = Some c" "set xs \<subseteq> D" "a \<le> i" "i \<le> p" "p \<le> j" "j < e" "e \<le> length xs"
    "parted c v a i p j e xs" "j - i < fuel"
  shows "\<exists>l' xs' i' j'. partition_loop fuel l v (at ns i) (at ns j) (at ns p) = Inr (l', at ns i', at ns j') \<and>
    list_rep l' ns xs' \<and> data_only l l' \<and> perm_on a e xs xs' \<and> a \<le> i' \<and> i' \<le> p \<and> p \<le> j' \<and> j' < e \<and>
    (i' = p \<or> j' = p) \<and> parted c v a i' p j' e xs'"
  using assms
proof (induction fuel arbitrary: l xs i j)
  case (Suc fuel)
  note R = Suc.prems(1) and C = Suc.prems(2) and pos = Suc.prems(4-8) and part = Suc.prems(9)
  have eq: "at ns i = at ns p \<longleftrightarrow> i = p" "at ns j = at ns p \<longleftrightarrow> j = p"
    using at_eq [OF R, of i p] at_eq [OF R, of j p] pos by auto
  show ?case
  proof (cases "i = p \<or> j = p")
    case True
    then show ?thesis using eq pos part R
      by (intro exI [of _ l] exI [of _ xs] exI [of _ i] exI [of _ j]) auto
  next
    case False
    have f: "p - i < loop_fuel l" "j - p < loop_fuel l" using enough_fuel [OF R] pos by auto
    obtain i' where i': "scan_left (loop_fuel l) l v (at ns i) (at ns p) = Inr (at ns i')" "i \<le> i'" "i' \<le> p"
      "\<forall>k. i \<le> k \<and> k < i' \<longrightarrow> before c v (xs ! k) (xs ! p)" "i' = p \<or> \<not> before c v (xs ! i') (xs ! p)"
      using scan_left_ok [OF R C pos(2) _ f(1)] pos by auto
    obtain j' where j': "scan_right (loop_fuel l) l v (at ns j) (at ns p) = Inr (at ns j')" "p \<le> j'" "j' \<le> j"
      "\<forall>k. j' < k \<and> k \<le> j \<longrightarrow> before c v (xs ! p) (xs ! k)" "j' = p \<or> \<not> before c v (xs ! p) (xs ! j')"
      using scan_right_ok [OF R C pos(3) _ f(2) Suc.prems(3)] pos by auto
    have part': "parted c v a i' p j' e xs"
      using part i'(4) j'(4) unfolding parted_def by (meson le_less_linear not_le)
    have eq': "at ns i' = at ns p \<longleftrightarrow> i' = p" "at ns j' = at ns p \<longleftrightarrow> j' = p"
      using at_eq [OF R, of i' p] at_eq [OF R, of j' p] pos i' j' by auto
    show ?thesis
    proof (cases "i' = p \<or> j' = p")
      case True
      obtain f where f: "fuel = Suc f" using False Suc.prems(10) pos by (cases fuel) auto
      have "partition_loop (Suc fuel) l v (at ns i) (at ns j) (at ns p) = Inr (l, at ns i', at ns j')"
        using False eq eq' True i'(1) j'(1) by (auto simp: f)
      then show ?thesis using True R part' i' j' pos
        by (intro exI [of _ l] exI [of _ xs] exI [of _ i'] exI [of _ j']) auto
    next
      case no: False
      let ?ys = "xs[i' := xs ! j', j' := xs ! i']"
      have len: "i' < length xs" "j' < length xs" "p < length xs" using pos i' j' by auto
      from at_swap [OF R len(1,2)] obtain l1 where
        l1: "swap_data l (at ns i') (at ns j') = Inr l1" "list_rep l1 ns ?ys" "data_only l l1" by blast
      obtain m where m: "j' = Suc m" "p \<le> m" using no j' by (cases j') auto
      have step: "partition_loop (Suc fuel) l v (at ns i) (at ns j) (at ns p) =
          partition_loop fuel l1 v (at ns (Suc i')) (at ns m) (at ns p)"
        using False eq eq' no i'(1) j'(1) l1(1) at_next [OF l1(2), of i'] at_prev [OF l1(2), of m] len m by simp
      have ijd: "xs ! i' \<in> D" "xs ! j' \<in> D" "xs ! p \<in> D" using Suc.prems(3) len by auto
      have gt: "before c v (xs ! p) (xs ! i')" "before c v (xs ! j') (xs ! p)"
        using no i'(5) j'(5) greater ijd by auto
      have part1: "parted c v a (Suc i') p m e ?ys"
        using part' gt no i'(3) j'(2) m len pos unfolding parted_def
        by (auto simp: nth_list_update less_Suc_eq)
      have p1: "perm_on a e xs ?ys" by (rule perm_on_swap) (use pos i' j' in auto)
      have C1: "l_comparator l1 = Some c" using data_only_fields [OF l1(3)] C by simp
      have D1: "set ?ys \<subseteq> D" using perm_on_set [OF p1] Suc.prems(3) by simp
      have pos1: "a \<le> Suc i'" "Suc i' \<le> p" "p \<le> m" "m < e" "e \<le> length ?ys" "m - Suc i' < fuel"
        using no i'(2,3) j'(2,3) m pos Suc.prems(10) by simp_all
      obtain l' xs' i2 j2 where r:
        "partition_loop fuel l1 v (at ns (Suc i')) (at ns m) (at ns p) = Inr (l', at ns i2, at ns j2)"
        "list_rep l' ns xs'" "data_only l1 l'" "perm_on a e ?ys xs'" "a \<le> i2" "i2 \<le> p" "p \<le> j2" "j2 < e"
        "i2 = p \<or> j2 = p" "parted c v a i2 p j2 e xs'"
        using Suc.IH [OF l1(2) C1 D1 pos1(1-5) part1 pos1(6)] by blast
      have "data_only l l'" using data_only_trans [OF l1(3) r(3)] .
      moreover have "perm_on a e xs xs'" using perm_on_trans [OF p1 r(4)] .
      ultimately show ?thesis unfolding step using r
        by (intro exI [of _ l'] exI [of _ xs'] exI [of _ i2] exI [of _ j2]) simp
    qed
  qed
qed simp

lemma rest_left_ok:
  assumes "list_rep l ns xs" "l_comparator l = Some c" "set xs \<subseteq> D" "a \<le> i" "i \<le> p" "p < e" "e \<le> length xs"
    "parted c v a i p p e xs" "p - i < fuel"
  shows "\<exists>l' xs' p'. rest_left fuel l v (at ns i) (at ns p) (p - a) = Inr (l', at ns p', p' - a) \<and>
    list_rep l' ns xs' \<and> data_only l l' \<and> perm_on a e xs xs' \<and> a \<le> p' \<and> p' < e \<and> parted c v a p' p' p' e xs'"
  using assms
proof (induction fuel arbitrary: l xs i p)
  case (Suc fuel)
  note R = Suc.prems(1) and C = Suc.prems(2) and pos = Suc.prems(4-7) and part = Suc.prems(8)
  have eq: "at ns i = at ns p \<longleftrightarrow> i = p" using at_eq [OF R, of i p] pos by auto
  have len: "i < length xs" "p < length xs" using pos by auto
  show ?case
  proof (cases "i = p")
    case True
    then show ?thesis using eq pos part R by (intro exI [of _ l] exI [of _ xs] exI [of _ p]) auto
  next
    case ne: False
    then obtain m where m: "p = Suc m" "i \<le> m" using pos(2) by (cases p) auto
    note cm = at_cmp [OF R C len, of v]
    show ?thesis
    proof (cases "before c v (xs ! i) (xs ! p)")
      case True
      have st: "rest_left (Suc fuel) l v (at ns i) (at ns p) (p - a) = rest_left fuel l v (at ns (Suc i)) (at ns p) (p - a)"
        using ne eq cm True at_next [OF R len(1)] by (simp add: before_def)
      have part1: "parted c v a (Suc i) p p e xs" using part True by (auto simp: parted_def less_Suc_eq)
      show ?thesis unfolding st
        by (rule Suc.IH [OF R C Suc.prems(3)]) (use ne pos part1 Suc.prems(9) in simp_all)
    next
      case False
      let ?ys = "xs[i := xs ! m, m := xs ! p, p := xs ! i]"
      have ml: "m < length xs" "i \<noteq> p" "m \<noteq> p" using m len ne by auto
      from at_rotate [OF R len(1) ml(1) len(2) ml(2)] obtain l1 where
        l1: "rotate_data l (at ns i) (at ns m) (at ns p) = Inr l1" "list_rep l1 ns ?ys" "data_only l l1" by blast
      have st: "rest_left (Suc fuel) l v (at ns i) (at ns p) (p - a) = rest_left fuel l1 v (at ns i) (at ns m) (m - a)"
        using ne eq cm False at_prev [OF R, of m] m len l1(1) pos(1) by (simp add: before_def Suc_diff_le)
      have "xs ! i \<in> D" "xs ! p \<in> D" using Suc.prems(3) len by auto
      from greater [OF this False] have "before c v (xs ! p) (xs ! i)" .
      moreover have "?ys ! m = xs ! p" "?ys ! p = xs ! i" "\<And>k. k < i \<Longrightarrow> ?ys ! k = xs ! k" "\<And>k. p < k \<Longrightarrow> ?ys ! k = xs ! k"
        using m len ml by simp_all
      ultimately have part1: "parted c v a i m m e ?ys"
        using part m(1) unfolding parted_def by (metis Suc_lessI)
      have p1: "perm_on a e xs ?ys" by (rule perm_on_rotate) (use pos m ne in auto)
      have C1: "l_comparator l1 = Some c" using data_only_fields [OF l1(3)] C by simp
      have D1: "set ?ys \<subseteq> D" using perm_on_set [OF p1] Suc.prems(3) by simp
      have pos1: "a \<le> i" "i \<le> m" "m < e" "e \<le> length ?ys" "m - i < fuel"
        using m pos Suc.prems(9) by simp_all
      obtain l' xs' p' where r: "rest_left fuel l1 v (at ns i) (at ns m) (m - a) = Inr (l', at ns p', p' - a)"
        "list_rep l' ns xs'" "data_only l1 l'" "perm_on a e ?ys xs'" "a \<le> p'" "p' < e" "parted c v a p' p' p' e xs'"
        using Suc.IH [OF l1(2) C1 D1 pos1(1-4) part1 pos1(5)] by blast
      have "data_only l l'" using data_only_trans [OF l1(3) r(3)] .
      moreover have "perm_on a e xs xs'" using perm_on_trans [OF p1 r(4)] .
      ultimately show ?thesis unfolding st using r by blast
    qed
  qed
qed simp

lemma rest_right_ok:
  assumes "list_rep l ns xs" "l_comparator l = Some c" "set xs \<subseteq> D" "a \<le> p" "p \<le> j" "j < e" "e \<le> length xs"
    "parted c v a p p j e xs" "j - p < fuel"
  shows "\<exists>l' xs' p'. rest_right fuel l v (at ns j) (at ns p) (p - a) = Inr (l', at ns p', p' - a) \<and>
    list_rep l' ns xs' \<and> data_only l l' \<and> perm_on a e xs xs' \<and> a \<le> p' \<and> p' < e \<and> parted c v a p' p' p' e xs'"
  using assms
proof (induction fuel arbitrary: l xs j p)
  case (Suc fuel)
  note R = Suc.prems(1) and C = Suc.prems(2) and pos = Suc.prems(4-7) and part = Suc.prems(8)
  have eq: "at ns j = at ns p \<longleftrightarrow> j = p" using at_eq [OF R, of j p] pos by auto
  have len: "j < length xs" "p < length xs" using pos by auto
  show ?case
  proof (cases "j = p")
    case True
    then show ?thesis using eq pos part R by (intro exI [of _ l] exI [of _ xs] exI [of _ p]) auto
  next
    case ne: False
    then obtain m where m: "j = Suc m" "p \<le> m" using pos(2) by (cases j) auto
    note cm = at_cmp [OF R C len, of v]
    have ijd: "xs ! j \<in> D" "xs ! p \<in> D" using Suc.prems(3) len by auto
    note sy = symmetric [OF ijd]
    show ?thesis
    proof (cases "before c v (xs ! p) (xs ! j)")
      case True
      have st: "rest_right (Suc fuel) l v (at ns j) (at ns p) (p - a) = rest_right fuel l v (at ns m) (at ns p) (p - a)"
        using ne eq cm True sy at_prev [OF R, of m] m len by simp
      have part1: "parted c v a p p m e xs" using part True unfolding parted_def m(1) by (metis Suc_lessI)
      show ?thesis unfolding st
        by (rule Suc.IH [OF R C Suc.prems(3)]) (use m pos part1 Suc.prems(9) in simp_all)
    next
      case False
      let ?q = "Suc p"
      let ?ys = "xs[j := xs ! ?q, ?q := xs ! p, p := xs ! j]"
      have ql: "?q < length xs" "j \<noteq> p" "?q \<noteq> p" using m len ne by auto
      from at_rotate [OF R len(1) ql(1) len(2) ql(2)] obtain l1 where
        l1: "rotate_data l (at ns j) (at ns ?q) (at ns p) = Inr l1" "list_rep l1 ns ?ys" "data_only l l1" by blast
      have st: "rest_right (Suc fuel) l v (at ns j) (at ns p) (p - a) = rest_right fuel l1 v (at ns j) (at ns ?q) (?q - a)"
        using ne eq cm False sy at_next [OF R len(2)] l1(1) pos(1) by (simp add: Suc_diff_le)
      have "before c v (xs ! j) (xs ! p)" using greater [OF ijd(2,1) False] .
      then have part1: "parted c v a ?q ?q j e ?ys"
        using part m pos len ne unfolding parted_def by (auto simp: nth_list_update less_Suc_eq)
      have p1: "perm_on a e xs ?ys" by (rule perm_on_rotate) (use pos m ne in auto)
      have C1: "l_comparator l1 = Some c" using data_only_fields [OF l1(3)] C by simp
      have D1: "set ?ys \<subseteq> D" using perm_on_set [OF p1] Suc.prems(3) by simp
      have pos1: "a \<le> ?q" "?q \<le> j" "j < e" "e \<le> length ?ys" "j - ?q < fuel"
        using m pos Suc.prems(9) by simp_all
      obtain l' xs' p' where r: "rest_right fuel l1 v (at ns j) (at ns ?q) (?q - a) = Inr (l', at ns p', p' - a)"
        "list_rep l' ns xs'" "data_only l1 l'" "perm_on a e ?ys xs'" "a \<le> p'" "p' < e" "parted c v a p' p' p' e xs'"
        using Suc.IH [OF l1(2) C1 D1 pos1(1-4) part1 pos1(5)] by blast
      have "data_only l l'" using data_only_trans [OF l1(3) r(3)] .
      moreover have "perm_on a e xs xs'" using perm_on_trans [OF p1 r(4)] .
      ultimately show ?thesis unfolding st using r by blast
    qed
  qed
qed simp

text \<open>The partition as a whole: the pivot ends up somewhere in the segment, in its final place.\<close>

lemma partition_segment_ok:
  assumes "list_rep l ns xs" "l_comparator l = Some c" "set xs \<subseteq> D" "a \<le> p" "p < e" "e \<le> length xs"
  shows "\<exists>l' xs' p'. partition_segment l v (p - a) (at ns p) (at ns a) (at ns (e - 1)) = Inr (l', at ns p', p' - a) \<and>
    list_rep l' ns xs' \<and> data_only l l' \<and> perm_on a e xs xs' \<and> a \<le> p' \<and> p' < e \<and> parted c v a p' p' p' e xs'"
proof -
  have "parted c v a a p (e - 1) e xs" by (auto simp: parted_def)
  moreover have "e - 1 - a < loop_fuel l" "p \<le> e - 1" "e - 1 < e" using enough_fuel [OF assms(1)] assms(4-6) by linarith+
  ultimately obtain l1 xs1 i j where r:
    "partition_loop (loop_fuel l) l v (at ns a) (at ns (e - 1)) (at ns p) = Inr (l1, at ns i, at ns j)"
    "list_rep l1 ns xs1" "data_only l l1" "perm_on a e xs xs1" "a \<le> i" "i \<le> p" "p \<le> j" "j < e"
    "i = p \<or> j = p" "parted c v a i p j e xs1"
    using partition_loop_ok [OF assms(1-3) order.refl assms(4) _ _ assms(6), of "e - 1" "loop_fuel l"] by blast
  have len: "length xs1 = length xs" using perm_on_length [OF r(4)] .
  have C1: "l_comparator l1 = Some c" using data_only_fields [OF r(3)] assms(2) by simp
  have D1: "set xs1 \<subseteq> D" using perm_on_set [OF r(4)] assms(3) by simp
  have fu: "length xs < loop_fuel l1" using enough_fuel [OF r(2)] len by simp
  have jp: "at ns j = at ns p \<longleftrightarrow> j = p" using at_eq [OF r(2), of j p] r assms(6) len by auto
  have "\<exists>l' xs' p'. (if j = p then rest_left (loop_fuel l1) l1 v (at ns i) (at ns p) (p - a)
        else rest_right (loop_fuel l1) l1 v (at ns j) (at ns p) (p - a)) = Inr (l', at ns p', p' - a) \<and>
      list_rep l' ns xs' \<and> data_only l1 l' \<and> perm_on a e xs1 xs' \<and> a \<le> p' \<and> p' < e \<and> parted c v a p' p' p' e xs'"
  proof (cases "j = p")
    case True
    with rest_left_ok [OF r(2) C1 D1 r(5,6), of e "loop_fuel l1"] show ?thesis
      using r(10) assms(5,6) len fu by auto
  next
    case False
    then have "i = p" using r(9) by simp
    then have "parted c v a p p j e xs1" "e \<le> length xs1" "j - p < loop_fuel l1" using r(8,10) assms(6) len fu by auto
    from rest_right_ok [OF r(2) C1 D1 assms(4) r(7,8) this(2,1,3)] show ?thesis using False by simp
  qed
  then show ?thesis
    using r(1) jp data_only_trans [OF r(3)] perm_on_trans [OF r(4)]
    by (auto simp: partition_segment_def split: if_splits) blast+
qed

section \<open>Selection sort\<close>

lemma sorted_single:
  assumes "set xs \<subseteq> D" "i < length xs"
  shows "sorted_on c v i (Suc i) xs"
  unfolding sorted_on_def
proof (intro allI impI)
  fix j k assume "i \<le> j \<and> j \<le> k \<and> k < Suc i"
  then have "j = i" "k = i" by simp_all
  moreover have "xs ! i \<in> D" using assms by auto
  ultimately show "before c v (xs ! j) (xs ! k)" using reflexive by simp
qed

lemma find_min_ok:
  assumes "list_rep l ns xs" "l_comparator l = Some c" "set xs \<subseteq> D" "e \<le> length xs" "0 < e" "t < j" "j \<le> e" "e - j < fuel"
  shows "\<exists>t'. find_min fuel l v (at ns t) (at ns j) (at ns (e - 1)) = Inr (at ns t') \<and>
    (t' = t \<or> j \<le> t' \<and> t' < e) \<and> before c v (xs ! t') (xs ! t) \<and>
    (\<forall>k. j \<le> k \<and> k < e \<longrightarrow> before c v (xs ! t') (xs ! k))"
  using assms(6-8)
proof (induction fuel arbitrary: t j)
  case (Suc fuel)
  have stop: "next_of l (at ns (e - 1)) = Inr (at ns e)" using at_next [OF assms(1), of "e - 1"] assms(4,5) by simp
  have eq: "at ns j = at ns e \<longleftrightarrow> j = e" using at_eq [OF assms(1), of j e] Suc.prems assms(4) by auto
  have td: "t < length xs" "xs ! t \<in> D" using Suc.prems assms(3,4) by auto
  show ?case
  proof (cases "j = e")
    case True
    then show ?thesis using stop eq reflexive [OF td(2)] by (intro exI [of _ t]) auto
  next
    case False
    then have j: "j < length xs" "xs ! j \<in> D" "Suc j \<le> e" "e - Suc j < fuel" using Suc.prems assms(3,4) by auto
    let ?t = "if before c v (xs ! t) (xs ! j) then t else j"
    have st: "find_min (Suc fuel) l v (at ns t) (at ns j) (at ns (e - 1)) = find_min fuel l v (at ns ?t) (at ns (Suc j)) (at ns (e - 1))"
      using stop eq False at_cmp [OF assms(1,2) td(1) j(1), of v] at_next [OF assms(1) j(1)]
      by (auto simp: before_def not_le)
    have "?t < Suc j" using Suc.prems(1) by simp
    from Suc.IH [OF this j(3,4)] obtain t' where t':
      "find_min fuel l v (at ns ?t) (at ns (Suc j)) (at ns (e - 1)) = Inr (at ns t')"
      "t' = ?t \<or> Suc j \<le> t' \<and> t' < e" "before c v (xs ! t') (xs ! ?t)"
      "\<forall>k. Suc j \<le> k \<and> k < e \<longrightarrow> before c v (xs ! t') (xs ! k)" by blast
    have t'D: "xs ! t' \<in> D" "xs ! ?t \<in> D" using t'(2) td j assms(3,4) by (auto split: if_splits)
    have "before c v (xs ! ?t) (xs ! t)" "before c v (xs ! ?t) (xs ! j)"
      using greater [OF td(2) j(2)] reflexive [OF td(2)] reflexive [OF j(2)] by auto
    then have b: "before c v (xs ! t') (xs ! t)" "before c v (xs ! t') (xs ! j)"
      using transitive [OF t'D td(2) t'(3)] transitive [OF t'D j(2) t'(3)] by auto
    have "before c v (xs ! t') (xs ! k)" if "j \<le> k" "k < e" for k
      using t'(4) b(2) that by (cases "k = j") auto
    moreover have "t' = t \<or> j \<le> t' \<and> t' < e" using t'(2) j(3) by (auto split: if_splits)
    ultimately show ?thesis unfolding st using t'(1) b(1) by blast
  qed
qed simp

lemma selection_loop_ok:
  assumes "list_rep l ns xs" "l_comparator l = Some c" "set xs \<subseteq> D" "i < e" "e \<le> length xs" "e - i \<le> fuel"
  shows "\<exists>l' xs'. selection_loop fuel l v (at ns i) (at ns (e - 1)) = Inr l' \<and> list_rep l' ns xs' \<and> data_only l l' \<and>
    perm_on i e xs xs' \<and> sorted_on c v i e xs'"
  using assms
proof (induction fuel arbitrary: l xs i)
  case (Suc fuel)
  note R = Suc.prems(1) and C = Suc.prems(2) and Dom = Suc.prems(3) and pos = Suc.prems(4,5)
  have eq: "at ns i = at ns (e - 1) \<longleftrightarrow> i = e - 1" using at_eq [OF R, of i "e - 1"] pos by auto
  show ?case
  proof (cases "i = e - 1")
    case True
    have "e = Suc i" using True pos by simp
    then have "sorted_on c v i e xs" using sorted_single [OF Dom, of i] pos by simp
    then show ?thesis using True R by (intro exI [of _ l] exI [of _ xs]) simp
  next
    case False
    then have i: "Suc i < e" "i < length xs" using pos by auto
    have fu: "e - Suc i < loop_fuel l" using enough_fuel [OF R] pos by linarith
    from find_min_ok [OF R C Dom pos(2) _ _ _ fu, of i] i obtain t where t:
      "find_min (loop_fuel l) l v (at ns i) (at ns (Suc i)) (at ns (e - 1)) = Inr (at ns t)"
      "t = i \<or> Suc i \<le> t \<and> t < e" "before c v (xs ! t) (xs ! i)"
      "\<forall>k. Suc i \<le> k \<and> k < e \<longrightarrow> before c v (xs ! t) (xs ! k)" by auto
    have tl: "t < length xs" "i \<le> t" "t < e" using t(2) i pos by auto
    let ?ys = "xs[i := xs ! t, t := xs ! i]"
    obtain l1 where l1: "(if at ns t \<noteq> at ns i then swap_data l (at ns i) (at ns t) else Inr l) = Inr l1"
      "list_rep l1 ns ?ys" "data_only l l1"
    proof (cases "t = i")
      case True
      then show ?thesis using that [of l] R by simp
    next
      case False
      then show ?thesis using that at_swap [OF R i(2) tl(1)] at_eq [OF R, of t i] tl i by auto
    qed
    have st: "selection_loop (Suc fuel) l v (at ns i) (at ns (e - 1)) = selection_loop fuel l1 v (at ns (Suc i)) (at ns (e - 1))"
      using eq False t(1) l1(1) at_next [OF R i(2)] at_next [OF l1(2), of i] i by auto
    have p1: "perm_on i e xs ?ys" by (rule perm_on_swap) (use tl i pos in auto)
    have C1: "l_comparator l1 = Some c" using data_only_fields [OF l1(3)] C by simp
    have D1: "set ?ys \<subseteq> D" using perm_on_set [OF p1] Dom by simp
    have "e \<le> length ?ys" "e - Suc i \<le> fuel" using pos Suc.prems(6) by simp_all
    from Suc.IH [OF l1(2) C1 D1 i(1) this] obtain l' xs' where r:
      "selection_loop fuel l1 v (at ns (Suc i)) (at ns (e - 1)) = Inr l'" "list_rep l' ns xs'" "data_only l1 l'"
      "perm_on (Suc i) e ?ys xs'" "sorted_on c v (Suc i) e xs'" by blast
    have p2: "perm_on i e xs xs'" using perm_on_trans [OF p1 perm_on_mono [OF r(4)]] by simp
    have xi: "xs' ! i = xs ! t" using perm_on_other [OF r(4), of i] i tl by (auto simp: nth_list_update)
    have least: "before c v (xs ! t) (xs' ! k)" if k: "i \<le> k" "k < e" for k
    proof -
      obtain k' where "i \<le> k'" "k' < e" "xs' ! k = xs ! k'" using perm_on_elem [OF p2 k pos(2)] by blast
      then show ?thesis using t(3,4) by (cases "k' = i") auto
    qed
    have "sorted_on c v i e xs'"
      unfolding sorted_on_def
    proof (intro allI impI)
      fix j k assume jk: "i \<le> j \<and> j \<le> k \<and> k < e"
      then show "before c v (xs' ! j) (xs' ! k)"
        using r(5) least [of k] xi by (cases "j = i") (auto simp: sorted_on_def)
    qed
    then show ?thesis unfolding st using r(1,2) p2 data_only_trans [OF l1(3) r(3)] by blast
  qed
qed simp

section \<open>Quicksort\<close>

text \<open>Sorted parts on both sides of a pivot in its place.\<close>

lemma sorted_join:
  assumes "perm_on a p xs ys" "perm_on (Suc p) e ys zs" "parted c v a p p p e xs" "sorted_on c v a p ys"
    "sorted_on c v (Suc p) e zs" "a \<le> p" "p < e" "e \<le> length xs" "set xs \<subseteq> D"
  shows "perm_on a e xs zs \<and> sorted_on c v a e zs"
proof
  have len: "length ys = length xs" "length zs = length xs"
    using perm_on_length [OF assms(1)] perm_on_length [OF assms(2)] by simp_all
  show perm: "perm_on a e xs zs"
    using perm_on_trans [OF perm_on_mono [OF assms(1)] perm_on_mono [OF assms(2)], of a e] assms(6,7) by simp
  have zp: "zs ! p = xs ! p" using perm_on_other [OF assms(1), of p] perm_on_other [OF assms(2), of p] assms(6-8) len by simp
  have zD: "zs ! k \<in> D" if "k < length xs" for k
    using perm_on_set [OF perm] assms(9) that len by (metis nth_mem subsetD)
  have low: "zs ! k = ys ! k \<and> before c v (zs ! k) (xs ! p)" if k: "a \<le> k" "k < p" for k
  proof -
    have "zs ! k = ys ! k" using perm_on_other [OF assms(2), of k] k assms(7,8) len by simp
    moreover obtain k' where "a \<le> k'" "k' < p" "ys ! k = xs ! k'"
      using perm_on_elem [OF assms(1) k] assms(7,8) by (metis le_trans less_imp_le)
    ultimately show ?thesis using assms(3) by (auto simp: parted_def)
  qed
  have high: "before c v (xs ! p) (zs ! k)" if k: "p < k" "k < e" for k
  proof -
    obtain k' where k': "Suc p \<le> k'" "k' < e" "zs ! k = ys ! k'"
      using perm_on_elem [OF assms(2), of k] k assms(8) len by auto
    then have "ys ! k' = xs ! k'" using perm_on_other [OF assms(1), of k'] assms(8) by simp
    then show ?thesis using assms(3) k' by (auto simp: parted_def)
  qed
  show "sorted_on c v a e zs"
    unfolding sorted_on_def
  proof (intro allI impI)
    fix j k assume jk: "a \<le> j \<and> j \<le> k \<and> k < e"
    consider "k < p" | "p < j" | "j = p" "k = p" | "j = p" "p < k" | "j < p" "k = p" | "j < p" "p < k" by linarith
    then show "before c v (zs ! j) (zs ! k)"
    proof cases
      case 1
      then show ?thesis using low [of j] low [of k] assms(4) jk by (auto simp: sorted_on_def)
    next
      case 2
      then show ?thesis using assms(5) jk by (auto simp: sorted_on_def)
    next
      case 3
      then show ?thesis using reflexive [OF zD [of p]] assms(7,8) by simp
    next
      case 4
      then show ?thesis using high jk zp by simp
    next
      case 5
      then have "before c v (zs ! j) (xs ! p)" using low jk by blast
      then show ?thesis using 5 zp by simp
    next
      case 6
      have "xs ! p \<in> D" using zD [of p] zp assms(7,8) by simp
      moreover have "before c v (zs ! j) (xs ! p)" "before c v (xs ! p) (zs ! k)" using low [of j] high [of k] 6 jk by blast+
      moreover have "zs ! j \<in> D" "zs ! k \<in> D" using zD jk assms(8) by simp_all
      ultimately show ?thesis using transitive by blast
    qed
  qed
qed

lemma pivot_at_ok:
  assumes "list_rep l ns xs" "a < e" "e \<le> length xs" "q < e - a"
  shows "pivot_at l q a (at ns a) (e - 1) (at ns (e - 1)) = Inr (at ns (a + q))"
proof -
  note L = list_repD(1) [OF assms(1)]
  have "walk_next l q (Some (ns ! Suc a)) = Inr (Some (ns ! (Suc a + q)))"
    by (rule walk_next_rep [OF L]) (use linkedD(1) [OF L] assms in simp)
  moreover have "walk_prev l (e - 1 - a - q) (Some (ns ! Suc (e - 1))) = Inr (Some (ns ! (Suc (e - 1) - (e - 1 - a - q))))"
    by (rule walk_prev_rep [OF L]) (use linkedD(1) [OF L] assms in simp_all)
  moreover have "Suc (e - 1) - (e - 1 - a - q) = Suc (a + q)" using assms by simp
  ultimately show ?thesis by (simp add: pivot_at_def)
qed

lemma quicksort_ok:
  assumes "list_rep l ns xs" "l_comparator l = Some c" "set xs \<subseteq> D" "a < e" "e \<le> length xs" "e - a \<le> fuel"
  shows "\<exists>l' k' xs'. list_sort_quicksort fuel rnd k l v a (at ns a) (e - 1) (at ns (e - 1)) = Inr (l', k') \<and>
    list_rep l' ns xs' \<and> data_only l l' \<and> perm_on a e xs xs' \<and> sorted_on c v a e xs'"
  using assms
proof (induction fuel arbitrary: k l xs a e)
  case (Suc fuel)
  note R = Suc.prems(1) and C = Suc.prems(2) and Dom = Suc.prems(3) and pos = Suc.prems(4,5)
  consider "e = Suc a" | "Suc a < e" "e - a \<le> 24" | "24 < e - a" using pos(1) by linarith
  then show ?case
  proof cases
    case 1
    have "sorted_on c v a e xs" using 1 sorted_single [OF Dom, of a] pos by simp
    then show ?thesis using 1 R by (intro exI [of _ l] exI [of _ k] exI [of _ xs]) simp
  next
    case 2
    have "e - a \<le> loop_fuel l" using enough_fuel [OF R] pos by linarith
    from selection_loop_ok [OF R C Dom pos this] obtain l' xs' where r:
      "selection_loop (loop_fuel l) l v (at ns a) (at ns (e - 1)) = Inr l'" "list_rep l' ns xs'" "data_only l l'"
      "perm_on a e xs xs'" "sorted_on c v a e xs'" by blast
    have "\<not> e - 1 \<le> a" "e - 1 - a + 1 \<le> 24" using 2 by simp_all
    then show ?thesis using r
      by (intro exI [of _ l'] exI [of _ k] exI [of _ xs'])
        (simp add: SIMCLIST_MINQUICKSORTELS_def list_sort_selectionsort_def)
  next
    case 3
    have e1: "e - 1 - a + 1 = e - a" "\<not> e - 1 \<le> a" using 3 by simp_all
    define q where "q = rnd k mod (e - a)"
    have "q < e - a" using 3 unfolding q_def by (intro mod_less_divisor) simp
    then have q: "q < e - a" "a \<le> a + q" "a + q < e" by simp_all
    note piv = pivot_at_ok [OF R pos q(1)]
    from partition_segment_ok [OF R C Dom q(2,3) pos(2)] obtain l1 xs1 p where pt:
      "partition_segment l v q (at ns (a + q)) (at ns a) (at ns (e - 1)) = Inr (l1, at ns p, p - a)"
      "list_rep l1 ns xs1" "data_only l l1" "perm_on a e xs xs1" "a \<le> p" "p < e" "parted c v a p p p e xs1" by auto
    have len1: "length xs1 = length xs" using perm_on_length [OF pt(4)] .
    have C1: "l_comparator l1 = Some c" using data_only_fields [OF pt(3)] C by simp
    have D1: "set xs1 \<subseteq> D" using perm_on_set [OF pt(4)] Dom by simp
    have "\<exists>l2 k2 ys. (if p - a > 0 then bind (prev_of l1 (at ns p)) (\<lambda>pp.
            list_sort_quicksort fuel rnd (k + 1) l1 v a (at ns a) (a + (p - a) - 1) pp) else Inr (l1, k + 1)) = Inr (l2, k2) \<and>
        list_rep l2 ns ys \<and> data_only l1 l2 \<and> perm_on a p xs1 ys \<and> sorted_on c v a p ys"
    proof (cases "a < p")
      case True
      then obtain m where m: "p = Suc m" by (cases p) auto
      have "p \<le> length xs1" "p - a \<le> fuel" using pt(6) pos(2) len1 Suc.prems(6) by linarith+
      from Suc.IH [OF pt(2) C1 D1 True this, of "k + 1"] show ?thesis
        using True m at_prev [OF pt(2), of m] pt(6) pos(2) len1 by simp
    next
      case False
      then show ?thesis using pt(2,5)
        by (intro exI [of _ l1] exI [of _ "k + 1"] exI [of _ xs1]) (auto simp: sorted_on_def)
    qed
    then obtain l2 k2 ys where r2: "(if p - a > 0 then bind (prev_of l1 (at ns p)) (\<lambda>pp.
            list_sort_quicksort fuel rnd (k + 1) l1 v a (at ns a) (a + (p - a) - 1) pp) else Inr (l1, k + 1)) = Inr (l2, k2)"
      "list_rep l2 ns ys" "data_only l1 l2" "perm_on a p xs1 ys" "sorted_on c v a p ys" by blast
    have len2: "length ys = length xs" using perm_on_length [OF r2(4)] len1 by simp
    have C2: "l_comparator l2 = Some c" using data_only_fields [OF r2(3)] C1 by simp
    have D2: "set ys \<subseteq> D" using perm_on_set [OF r2(4)] D1 by simp
    have "\<exists>l3 k3 zs. (if a + (p - a) < e - 1 then bind (next_of l2 (at ns p)) (\<lambda>pn.
            list_sort_quicksort fuel rnd k2 l2 v (a + (p - a) + 1) pn (e - 1) (at ns (e - 1))) else Inr (l2, k2)) = Inr (l3, k3) \<and>
        list_rep l3 ns zs \<and> data_only l2 l3 \<and> perm_on (Suc p) e ys zs \<and> sorted_on c v (Suc p) e zs"
    proof (cases "Suc p < e")
      case True
      have "e \<le> length ys" "e - Suc p \<le> fuel" using pt(5) pos(2) len2 Suc.prems(6) by linarith+
      moreover have "p < e - Suc 0" using True by linarith
      ultimately show ?thesis
        using Suc.IH [OF r2(2) C2 D2 True, of k2] True at_next [OF r2(2), of p] pt(5,6) pos(2) len2 by simp
    next
      case False
      then show ?thesis using r2(2) pt(5,6)
        by (intro exI [of _ l2] exI [of _ k2] exI [of _ ys]) (auto simp: sorted_on_def)
    qed
    then obtain l3 k3 zs where r3: "(if a + (p - a) < e - 1 then bind (next_of l2 (at ns p)) (\<lambda>pn.
            list_sort_quicksort fuel rnd k2 l2 v (a + (p - a) + 1) pn (e - 1) (at ns (e - 1))) else Inr (l2, k2)) = Inr (l3, k3)"
      "list_rep l3 ns zs" "data_only l2 l3" "perm_on (Suc p) e ys zs" "sorted_on c v (Suc p) e zs" by blast
    have "e \<le> length xs1" using pos(2) len1 by simp
    from sorted_join [OF r2(4) r3(4) pt(7) r2(5) r3(5) pt(5,6) this D1]
    have z: "perm_on a e xs zs" "sorted_on c v a e zs" using perm_on_trans [OF pt(4)] by auto
    have "list_sort_quicksort (Suc fuel) rnd k l v a (at ns a) (e - 1) (at ns (e - 1)) = Inr (l3, k3)"
      using e1 3 piv pt(1) r2(1) r3(1) unfolding list_sort_quicksort.simps Let_def e1 q_def SIMCLIST_MINQUICKSORTELS_def
      by simp
    then show ?thesis using r3(2) z data_only_trans [OF pt(3) data_only_trans [OF r2(3) r3(3)]] by blast
  qed
qed simp

end

section \<open>The list sorted\<close>

lemma sort_rep:
  assumes "list_rep l ns xs" "\<not> l_iter_active l" "l_comparator l = Some c" "comparison c v (set xs)"
  shows "\<exists>l' xs'. list_sort rnd l v = Inr (l', 0) \<and> list_rep l' ns xs' \<and> data_only l l' \<and> mset xs' = mset xs \<and>
    sorted_wrt (before c v) xs'"
proof -
  note L = list_repD(1) [OF assms(1)]
  have n: "l_numels l = length xs" by (rule linkedD(5) [OF L])
  show ?thesis
  proof (cases "length xs \<le> 1")
    case True
    then have "sorted_wrt (before c v) xs" by (cases xs rule: remdups_adj.cases) simp_all
    then show ?thesis using True assms(1-3) n by (intro exI [of _ l] exI [of _ xs]) (simp add: list_sort_def)
  next
    case False
    have f: "first_entry l = Inr (at ns 0)" using first_entry_rep [OF L] by simp
    have last1: "Suc (length xs - Suc 0) = length xs" using False by linarith
    have t: "prev_of l (Some (l_tail l)) = Inr (at ns (length xs - 1))"
      using linked_deref [OF L, of "Suc (length xs)"] linkedD(1,4) [OF L] False last1 by (simp add: prev_of_def)
    have "0 < length xs" using False by linarith
    from comparison.quicksort_ok [OF assms(4,1,3) subset_refl this order.refl, of "length xs" rnd 0] obtain l' k' xs' where
      r: "list_sort_quicksort (length xs) rnd 0 l v 0 (at ns 0) (length xs - 1) (at ns (length xs - 1)) = Inr (l', k')"
      "list_rep l' ns xs'" "data_only l l'" "perm_on 0 (length xs) xs xs'" "sorted_on c v 0 (length xs) xs'" by auto
    have "mset xs' = mset xs" using r(4) by (simp add: perm_on_def)
    moreover have "sorted_wrt (before c v) xs'"
      using r(5) perm_on_length [OF r(4)] by (simp add: sorted_wrt_iff_nth_less sorted_on_def)
    ultimately show ?thesis using r(1-3) f t False assms(2,3) n
      by (intro exI [of _ l'] exI [of _ xs']) (simp add: list_sort_def)
  qed
qed

text \<open>The ready-made comparators are such orders: ascending with 1, descending with -1.\<close>

lemma before_number:
  "before list_comparator_number 1 (Some x) (Some y) \<longleftrightarrow> x \<le> y"
  "before list_comparator_number (- 1) (Some x) (Some y) \<longleftrightarrow> y \<le> x"
  by (auto simp: before_def list_comparator_number_def)

interpretation ascending: comparison list_comparator_number 1 "range Some"
  by unfold_locales (auto simp: before_number list_comparator_number_def split: if_splits)

interpretation descending: comparison list_comparator_number "- 1" "range Some"
  by unfold_locales (auto simp: before_number list_comparator_number_def split: if_splits)

lemma comparison_mono: "comparison c v D \<Longrightarrow> E \<subseteq> D \<Longrightarrow> comparison c v E"
  unfolding comparison_def by (meson subsetD)

text \<open>A list that can be sorted, for every sequence of numbers.\<close>

lemma sortable:
  "\<exists>l :: ('n :: linorder, 'k) list_t. represents l (map Some ks) \<and> \<not> l_iter_active l \<and>
     l_comparator l = Some list_comparator_number \<and> l_copy l = None"
proof (induction ks rule: rev_induct)
  case Nil
  let ?l = "list_init\<lparr>l_comparator := Some list_comparator_number\<rparr> :: ('n, 'k) list_t"
  have i: "list_rep (list_init :: ('n, 'k) list_t) [0, 1] []" by (rule list_init_rep)
  have "linked ?l [0, 1] []" by (rule linked_cong [OF list_repD(1) [OF i]]) simp_all
  then have "list_rep ?l [0, 1] []" using i by (simp add: list_rep_def)
  then show ?case
    by (intro exI [of _ ?l]) (auto simp: represents_def list_init_def list_attributes_setdefaults_def)
next
  case (snoc k ks)
  then obtain l :: "('n, 'k) list_t" and ns where l: "list_rep l ns (map Some ks)" "\<not> l_iter_active l"
    "l_comparator l = Some list_comparator_number" "l_copy l = None" by (auto simp: represents_def)
  from list_insert_at_rep [OF l(1) order.refl l(2), of True "Some k"] obtain l' ns' where
    "list_rep l' ns' (ins (length (map Some ks)) (Some k) (map Some ks))" "attrs_of l' = attrs_of l"
    using l(4) by (auto simp: copied_def)
  then show ?case using l(2-4) by (intro exI [of _ l']) (auto simp: represents_def ins_def attrs_of_def)
qed

text \<open>
  C34: the sort of a list that is not being iterated is correct for every comparator that is a
  total preorder on its data: whatever the random pivots are, it ends without a fault, the same
  entries stay on the list in the same order, well linked, and the data they carry are a
  permutation of what they were, in the order of the comparator (the reverse one when \<open>versus\<close>
  is negative). It frees nothing and leaves the attributes alone.
\<close>

theorem list_sort_correct:
  assumes "list_rep l ns xs" "\<not> l_iter_active l" "l_comparator l = Some c" "comparison c v (set xs)"
  shows "\<exists>l' xs'. list_sort rnd l v = Inr (l', 0) \<and> list_rep l' ns xs' \<and> mset xs' = mset xs \<and>
    sorted_wrt (before c v) xs' \<and> attrs_of l' = attrs_of l \<and> l_freed l' = l_freed l"
  using sort_rep [OF assms, of rnd] by (auto dest: data_only_fields)

theorem list_sort_correct_witness:
  "\<exists>l :: (int, nat) list_t. \<exists>ns l' xs'. list_rep l ns [Some 3, Some 1, Some 2] \<and> list_sort (\<lambda>k. 7) l 1 = Inr (l', 0) \<and>
    list_rep l' ns xs' \<and> mset xs' = mset [Some 3, Some 1, Some 2] \<and> sorted_wrt (before list_comparator_number 1) xs'"
proof -
  from sortable [of "[3, 1, 2]"] obtain l :: "(int, nat) list_t" where l: "represents l [Some 3, Some 1, Some 2]"
    "\<not> l_iter_active l" "l_comparator l = Some list_comparator_number" by auto
  have "comparison list_comparator_number 1 (set [Some 3, Some 1, Some (2 :: int)])"
    by (rule comparison_mono [OF ascending.comparison_axioms]) simp
  moreover obtain ns where "list_rep l ns [Some 3, Some 1, Some 2]" using l(1) by (auto simp: represents_def)
  ultimately show ?thesis using list_sort_correct [of l ns _ _ 1 "\<lambda>k. 7"] l(2,3) by blast
qed

text \<open>
  with a ready-made number comparator the sort is the library's \<open>sort\<close>: ascending when
  \<open>versus\<close> is 1, descending when it is -1.
\<close>

theorem list_sort_numbers:
  assumes "represents l (map Some ks)" "\<not> l_iter_active l" "l_comparator l = Some list_comparator_number"
  shows "\<exists>l1 l2. list_sort rnd l 1 = Inr (l1, 0) \<and> represents l1 (map Some (sort ks)) \<and>
    list_sort rnd l (- 1) = Inr (l2, 0) \<and> represents l2 (map Some (rev (sort ks)))"
proof -
  from assms(1) obtain ns where R: "list_rep l ns (map Some ks)" by (auto simp: represents_def)
  have up: "comparison list_comparator_number 1 (set (map Some ks))"
    by (rule comparison_mono [OF ascending.comparison_axioms]) auto
  have down: "comparison list_comparator_number (- 1) (set (map Some ks))"
    by (rule comparison_mono [OF descending.comparison_axioms]) auto
  have somes: "\<exists>zs. xs' = map Some zs \<and> mset zs = mset ks" if "mset xs' = mset (map Some ks)" for xs'
  proof -
    have "set xs' \<subseteq> range Some" using mset_eq_setD [OF that] by auto
    then have "xs' = map Some (map the xs')" by (induction xs') auto
    moreover have "mset (map the xs') = mset (map the (map Some ks))" using that by (metis mset_map)
    then have "mset (map the xs') = mset ks" by (simp add: comp_def)
    ultimately show ?thesis by blast
  qed
  from sort_rep [OF R assms(2,3) up, of rnd] obtain l1 x1 where
    1: "list_sort rnd l 1 = Inr (l1, 0)" "list_rep l1 ns x1" "mset x1 = mset (map Some ks)"
      "sorted_wrt (before list_comparator_number 1) x1" by blast
  from sort_rep [OF R assms(2,3) down, of rnd] obtain l2 x2 where
    2: "list_sort rnd l (- 1) = Inr (l2, 0)" "list_rep l2 ns x2" "mset x2 = mset (map Some ks)"
      "sorted_wrt (before list_comparator_number (- 1)) x2" by blast
  obtain z1 z2 where z: "x1 = map Some z1" "mset z1 = mset ks" "x2 = map Some z2" "mset z2 = mset ks"
    using somes [OF 1(3)] somes [OF 2(3)] by blast
  have "sorted z1" "sorted (rev z2)" using 1(4) 2(4) by (simp_all add: z sorted_wrt_map before_number sorted_wrt_rev)
  then have "z1 = sort ks" "z2 = rev (sort ks)"
    using z properties_for_sort [of z1 ks] properties_for_sort [of "rev z2" ks] by auto
  then show ?thesis using 1 2 z by (auto simp: represents_def)
qed

theorem list_sort_numbers_witness:
  "\<exists>l :: (int, nat) list_t. \<exists>l1 l2. represents l [Some 3, Some 1, Some 2] \<and> list_sort (\<lambda>k. 7) l 1 = Inr (l1, 0) \<and>
    represents l1 [Some 1, Some 2, Some 3] \<and> list_sort (\<lambda>k. 7) l (- 1) = Inr (l2, 0) \<and>
    represents l2 [Some 3, Some 2, Some 1]"
proof -
  from sortable [of "[3, 1, 2]"] obtain l :: "(int, nat) list_t" where l: "represents l (map Some [3, 1, 2])"
    "\<not> l_iter_active l" "l_comparator l = Some list_comparator_number" by auto
  from list_sort_numbers [OF l, of "\<lambda>k. 7"] obtain l1 l2 where
    "list_sort (\<lambda>k. 7) l 1 = Inr (l1, 0)" "represents l1 [Some 1, Some 2, Some 3]"
    "list_sort (\<lambda>k. 7) l (- 1) = Inr (l2, 0)" "represents l2 [Some 3, Some 2, Some 1]" by auto
  then show ?thesis using l(1) by (intro exI [of _ l] exI [of _ l1] exI [of _ l2]) simp
qed

end
