(* ===== verification/Simclist_Range.thy ===== *)
theory Simclist_Range
  imports Simclist_Ops Simclist_Spec
begin

text \<open>
  Deletion of a range and concatenation of \<open>simclist.c\<close> on the represented lists. A range is
  deleted correctly unless it is the whole list: then the unsigned \<open>numels - 1 - numdel\<close> wraps
  and the mid pointer walks off the list.
\<close>

section \<open>The mid pointer\<close>

lemma u32_unat: "n < 2 ^ 32 \<Longrightarrow> unat (u32 n) = n"
  by (simp add: u32_def unat_of_nat)

lemma u32_diff: "k \<le> n \<Longrightarrow> u32 n - u32 k = u32 (n - k)"
  by (simp add: u32_def of_nat_diff)

lemma u32_div2: "n < 2 ^ 32 \<Longrightarrow> u32 n div 2 = u32 (n div 2)"
  by (simp add: word_unat_eq_iff u32_unat unat_div)

text \<open>The middle after the deletion of \<open>k\<close> elements from \<open>s\<close> on, as an element of the list before.\<close>

definition mid_after :: "nat \<Rightarrow> nat \<Rightarrow> nat \<Rightarrow> nat" where
  "mid_after n s k = (let m = (n - 1 - k) div 2 in if m < s then m else m + k)"

lemma mid_moves_part:
  assumes "s \<le> t" "t < n" "t - s + 1 < n" "n < 2 ^ 31"
  shows "mid_moves n s t = int (mid_after n s (t - s + 1)) - int ((n - 1) div 2)"
proof -
  define k where "k = t - s + 1"
  have k: "k < n" "s + k \<le> n" using assms by (simp_all add: k_def)
  have nd: "u32 t - u32 s + 1 = u32 k" using assms(1) by (simp add: k_def u32_def of_nat_diff)
  have n1: "u32 n - 1 = u32 (n - 1)" using u32_diff [of 1 n] k by (simp add: u32_def)
  then have "u32 n - 1 - u32 k = u32 (n - 1 - k)" using u32_diff [of k "n - 1"] k by simp
  then have after: "(u32 n - 1 - u32 k) div 2 = u32 ((n - 1 - k) div 2)" using u32_div2 [of "n - 1 - k"] assms(4) by simp
  have mid: "(u32 n - 1) div 2 = u32 ((n - 1) div 2)" using u32_div2 [of "n - 1"] n1 assms(4) by simp
  define m where "m = (n - 1 - k) div 2"
  have lt: "u32 m < u32 s \<longleftrightarrow> m < s"
    using assms k by (simp add: word_less_nat_alt u32_unat m_def)
  have "(if u32 m < u32 s then u32 m else u32 m + u32 k) = u32 (mid_after n s k)"
    using lt by (simp add: mid_after_def Let_def m_def u32_def)
  then have "mid_moves n s t = sint (u32 (mid_after n s k) - u32 ((n - 1) div 2))"
    unfolding mid_moves_def Let_def nd after mid m_def by simp
  also have "\<dots> = sint (word_of_int (int (mid_after n s k) - int ((n - 1) div 2)) :: 32 word)"
    by (simp add: u32_def)
  also have "\<dots> = int (mid_after n s k) - int ((n - 1) div 2)"
  proof -
    have d: "sint (word_of_int d :: 32 word) = d" if "- (2 ^ 31) \<le> d" "d < 2 ^ 31" for d
      using that by (simp add: signed_of_int signed_take_bit_int_eq_self_iff)
    have "mid_after n s k < 2 ^ 31" using k assms by (auto simp: mid_after_def Let_def)
    then show ?thesis using assms(4) by (intro d) simp_all
  qed
  finally show ?thesis unfolding k_def .
qed

section \<open>Dropping the entries\<close>

text \<open>The first ones become spares, the others are freed.\<close>

lemma drop_range_rep:
  assumes "\<forall>j. i \<le> j \<and> j < i + k \<longrightarrow> l_heap l (ns ! Suc j) = Some (node_at ns xs (Suc j))"
    and "distinct ns" "length ns = length xs + 2" "i + k \<le> length xs"
  shows "\<exists>S F. S @ F = elem_nodes ns i (i + k) \<and> (length (l_spare l) + length S \<le> SIMCLIST_MAX_SPARE_ELEMS \<or> S = []) \<and>
    drop_range k l (Some (ns ! Suc i)) = Inr (l\<lparr>l_freed := rev (owned l (take k (drop i xs))) @ l_freed l,
      l_spare := rev S @ l_spare l, l_heap := l_heap l |` (- set F)\<rparr>, Some (ns ! Suc (i + k)))"
  using assms
proof (induction k arbitrary: i l)
  case 0
  show ?case by (intro exI [of _ "[]"]) (simp add: owned_def restrict_map_def)
next
  case (Suc k)
  let ?a = "ns ! Suc i" and ?o = "rev (owned l [xs ! i]) @ l_freed l"
  have i: "i < length xs" using Suc.prems(4) by simp
  have a: "l_heap l ?a = Some (node_at ns xs (Suc i))" using Suc.prems(1) by simp
  have d: "deref l (Some ?a) = Inr (node_at ns xs (Suc i))" "e_data (node_at ns xs (Suc i)) = xs ! i"
    "e_next (node_at ns xs (Suc i)) = Some (ns ! Suc (Suc i))" using a Suc.prems(3) i by (simp_all add: deref_def)
  have other: "ns ! Suc j \<noteq> ?a" if "Suc i \<le> j" "j < Suc i + k" for j
    using that Suc.prems(2-4) by (simp add: nth_eq_iff_index_eq)
  have en: "elem_nodes ns i (i + Suc k) = ?a # elem_nodes ns (Suc i) (Suc i + k)"
    by (simp add: elem_nodes_def upt_conv_Cons del: upt_Suc)
  have tk: "take (Suc k) (drop i xs) = xs ! i # take k (drop (Suc i) xs)"
    using i by (simp add: Cons_nth_drop_Suc [symmetric])
  show ?case
  proof (cases "length (l_spare l) < SIMCLIST_MAX_SPARE_ELEMS")
    case True
    let ?l = "l\<lparr>l_freed := ?o, l_spare := ?a # l_spare l\<rparr>"
    have st: "drop_range (Suc k) l (Some ?a) = drop_range k ?l (Some (ns ! Suc (Suc i)))"
      using d True by (simp add: spare_or_free_def free_data_owned)
    have "\<forall>j. Suc i \<le> j \<and> j < Suc i + k \<longrightarrow> l_heap ?l (ns ! Suc j) = Some (node_at ns xs (Suc j))" "Suc i + k \<le> length xs"
      using Suc.prems(1,4) by simp_all
    from Suc.IH [OF this(1) Suc.prems(2,3) this(2)] obtain S F where r:
      "S @ F = elem_nodes ns (Suc i) (Suc i + k)" "length (l_spare ?l) + length S \<le> SIMCLIST_MAX_SPARE_ELEMS \<or> S = []"
      "drop_range k ?l (Some (ns ! Suc (Suc i))) = Inr (?l\<lparr>l_freed := rev (owned ?l (take k (drop (Suc i) xs))) @ l_freed ?l,
        l_spare := rev S @ l_spare ?l, l_heap := l_heap ?l |` (- set F)\<rparr>, Some (ns ! Suc (Suc i + k)))" by blast
    have "length (l_spare l) + length (?a # S) \<le> SIMCLIST_MAX_SPARE_ELEMS" using r(2) True by auto
    then show ?thesis unfolding st en tk owned_Cons [of l "xs ! i" "take k (drop (Suc i) xs)"] using r(1,3)
      by (intro exI [of _ "?a # S"] exI [of _ F]) simp
  next
    case False
    let ?l = "l\<lparr>l_freed := ?o, l_heap := (l_heap l)(?a := None)\<rparr>"
    have st: "drop_range (Suc k) l (Some ?a) = drop_range k ?l (Some (ns ! Suc (Suc i)))"
      using d a False by (simp add: spare_or_free_def free_data_owned free_entry_def)
    have "\<forall>j. Suc i \<le> j \<and> j < Suc i + k \<longrightarrow> l_heap ?l (ns ! Suc j) = Some (node_at ns xs (Suc j))" "Suc i + k \<le> length xs"
      using Suc.prems(1,4) other by simp_all
    from Suc.IH [OF this(1) Suc.prems(2,3) this(2)] obtain S F where r:
      "S @ F = elem_nodes ns (Suc i) (Suc i + k)" "length (l_spare ?l) + length S \<le> SIMCLIST_MAX_SPARE_ELEMS \<or> S = []"
      "drop_range k ?l (Some (ns ! Suc (Suc i))) = Inr (?l\<lparr>l_freed := rev (owned ?l (take k (drop (Suc i) xs))) @ l_freed ?l,
        l_spare := rev S @ l_spare ?l, l_heap := l_heap ?l |` (- set F)\<rparr>, Some (ns ! Suc (Suc i + k)))" by blast
    have "S = []" using r(2) False by (cases S) auto
    have h: "l_heap ?l |` (- set F) = l_heap l |` (- set (?a # F))" by (auto simp: restrict_map_def fun_eq_iff)
    show ?thesis unfolding st en tk owned_Cons [of l "xs ! i" "take k (drop (Suc i) xs)"] using r(1) r(3) [unfolded h] \<open>S = []\<close>
      by (intro exI [of _ "[]"] exI [of _ "?a # F"]) (simp del: elem_nodes_simps(3))
  qed
qed

section \<open>Deleting a range\<close>

definition cut_range :: "nat \<Rightarrow> nat \<Rightarrow> 'b list \<Rightarrow> 'b list" where
  "cut_range s k ys = take s ys @ drop (s + k) ys"

lemma cut_range_length: "s + k \<le> length ys \<Longrightarrow> length (cut_range s k ys) = length ys - k"
  by (simp add: cut_range_def)

lemma cut_range_nth: "s + k \<le> length ys \<Longrightarrow> i < length ys - k \<Longrightarrow> cut_range s k ys ! i = ys ! (if i < s then i else i + k)"
  by (auto simp: cut_range_def nth_append min_def add.commute)

lemma cut_range_parts:
  assumes "distinct ys" "s + k \<le> length ys"
  shows "distinct (cut_range s k ys)" "set (cut_range s k ys) = set ys - (\<lambda>j. ys ! j) ` {s ..< s + k}"
proof -
  show "distinct (cut_range s k ys)"
    unfolding cut_range_def using assms(1) set_take_disj_set_drop_if_distinct [of ys s "s + k"] by simp
  have all: "set ys = (\<lambda>j. ys ! j) ` {0 ..< length ys}" by (metis list.set_map map_nth set_upt)
  have inj: "inj_on (\<lambda>j. ys ! j) {0 ..< length ys}" using assms(1) by (simp add: inj_on_def nth_eq_iff_index_eq)
  have "take s ys = map (\<lambda>j. ys ! j) [0 ..< s]" "drop (s + k) ys = map (\<lambda>j. ys ! j) [s + k ..< length ys]"
    using assms(2) by (auto intro: nth_equalityI)
  then have "set (cut_range s k ys) = (\<lambda>j. ys ! j) ` ({0 ..< s} \<union> {s + k ..< length ys})"
    by (simp add: cut_range_def image_Un)
  also have "{0 ..< s} \<union> {s + k ..< length ys} = {0 ..< length ys} - {s ..< s + k}" using assms(2) by auto
  also have "(\<lambda>j. ys ! j) ` \<dots> = (\<lambda>j. ys ! j) ` {0 ..< length ys} - (\<lambda>j. ys ! j) ` {s ..< s + k}"
    by (rule inj_on_image_set_diff [OF inj]) (use assms(2) in auto)
  finally show "set (cut_range s k ys) = set ys - (\<lambda>j. ys ! j) ` {s ..< s + k}" unfolding all .
qed

text \<open>The two links that are rewritten make the rest a list again.\<close>

lemma joined_nodes:
  assumes L: "linked l ns xs" and s: "s + k \<le> length xs" "0 < k"
    and h: "\<And>j. j < length ns \<Longrightarrow> j \<le> s \<or> s + k < j \<Longrightarrow> h (ns ! j) = Some (node_at ns xs j)"
    and i: "i < length ns - k"
  shows "(h(ns ! s \<mapsto> (node_at ns xs s)\<lparr>e_next := Some (ns ! Suc (s + k))\<rparr>,
      ns ! Suc (s + k) \<mapsto> (node_at ns xs (Suc (s + k)))\<lparr>e_prev := Some (ns ! s)\<rparr>)) (cut_range (Suc s) k ns ! i)
    = Some (node_at (cut_range (Suc s) k ns) (cut_range s k xs) i)"
proof -
  have len: "length ns = length xs + 2" by (rule linkedD(1) [OF L])
  obtain m where m: "length xs = s + k + m" using s(1) le_Suc_ex by blast
  have cn: "cut_range (Suc s) k ns ! j = ns ! (if j < Suc s then j else j + k)" if "j < length ns - k" for j
    using s len that by (intro cut_range_nth) simp_all
  have cx: "cut_range s k xs ! j = xs ! (if j < s then j else j + k)" if "j < length xs - k" for j
    using s that by (intro cut_range_nth) simp_all
  have lens: "length (cut_range (Suc s) k ns) = length ns - k" "length (cut_range s k xs) = length xs - k"
    using s len by (simp_all add: cut_range_length)
  consider "i < s" | "i = s" | "i = Suc s" | "Suc s < i" by linarith
  then show ?thesis
  proof cases
    case 1
    then show ?thesis using s len i h [of i] cn [of i] cn [of "i - 1"] cn [of "Suc i"] cx [of "i - 1"] lens linked_nth_eq [OF L] m
      by (auto simp: node_at_def)
  next
    case 2
    then show ?thesis using s len i h [of i] cn [of i] cn [of "i - 1"] cn [of "Suc i"] cx [of "i - 1"] lens linked_nth_eq [OF L] m
      by (auto simp: node_at_def)
  next
    case 3
    then show ?thesis using s len i h [of "i + k"] cn [of i] cn [of "i - 1"] cn [of "Suc i"] cx [of "i - 1"] lens linked_nth_eq [OF L] m
      by (auto simp: node_at_def)
  next
    case 4
    then show ?thesis using s len i h [of "i + k"] cn [of i] cn [of "i - 1"] cn [of "Suc i"] cx [of "i - 1"] lens linked_nth_eq [OF L] m
      by (auto simp: node_at_def)
  qed
qed


definition moved_mid :: "('a, 'k) list_t \<Rightarrow> int \<Rightarrow> nat option res" where
  "moved_mid l movedx = (if movedx > 0 then walk_next l (nat movedx) (l_mid l) else walk_prev l (nat (- movedx)) (l_mid l))"

lemma moved_mid_rep:
  assumes L: "linked l ns xs" and s: "s \<le> t" "t < length xs" "t - s + 1 < length xs" "length xs < 2 ^ 31"
  shows "moved_mid l (mid_moves (length xs) s t) = Inr (mid_of (cut_range (Suc s) (t - s + 1) ns))"
proof -
  define k m a where "k = t - s + 1" and "m = (length xs - 1) div 2" and "a = mid_after (length xs) s k"
  have len: "length ns = length xs + 2" by (rule linkedD(1) [OF L])
  have k: "k < length xs" "s + k \<le> length xs" using s by (simp_all add: k_def)
  have a: "a < length xs" using k by (auto simp: a_def mid_after_def Let_def)
  have mv: "mid_moves (length xs) s t = int a - int m" using mid_moves_part [OF s] by (simp add: a_def k_def m_def)
  have mid: "l_mid l = Some (ns ! Suc m)" using mid_of_rep [OF L] k(1) by (cases xs) (simp_all add: m_def)
  have "moved_mid l (int a - int m) = Inr (Some (ns ! Suc a))"
  proof (cases "m < a")
    case True
    then show ?thesis using walk_next_rep [OF L, of "Suc m" "a - m"] a len
      by (simp add: moved_mid_def mid nat_diff_distrib' del: walk_next.simps)
  next
    case False
    then show ?thesis using walk_prev_rep [OF L, of "Suc m" "m - a"] k len
      by (simp add: moved_mid_def mid nat_diff_distrib' m_def Suc_diff_le del: walk_prev.simps)
  qed
  moreover have "mid_of (cut_range (Suc s) k ns) = Some (ns ! Suc a)"
    using k len by (simp add: mid_of_def cut_range_length cut_range_nth a_def mid_after_def Let_def diff_diff_add add.commute)
  ultimately show ?thesis unfolding mv k_def by simp
qed

lemma list_delete_range_steps:
  assumes "\<not> l_iter_active l" "s \<le> t" "t < l_numels l"
    and "list_findpos l (int s) = Inr tmp" "deref l tmp = Inr e" "e_prev e = Some p"
    and "moved_mid l (mid_moves (l_numels l) s t) = Inr mid"
    and "drop_range (t + 1 - s) (l\<lparr>l_mid := mid\<rparr>) tmp = Inr (l', Some q)"
    and "l_heap l' p = Some ep" "l_heap l' q = Some eq" "p \<noteq> q"
  shows "list_delete_range l s t = Inr (l'\<lparr>l_heap := (l_heap l')(p \<mapsto> ep\<lparr>e_next := Some q\<rparr>, q \<mapsto> eq\<lparr>e_prev := Some p\<rparr>),
    l_numels := l_numels l' - (t - s + 1)\<rparr>, 0)"
  using assms unfolding moved_mid_def
  by (simp add: list_delete_range_def Let_def upd_entry_Some set_next_def set_prev_def)

lemma list_delete_range_rep:
  assumes R: "list_rep l ns xs" and it: "\<not> l_iter_active l"
    and s: "s \<le> t" "t < length xs" "t - s + 1 < length xs" "length xs < 2 ^ 31"
  shows "\<exists>l' ns'. list_delete_range l s t = Inr (l', 0) \<and> list_rep l' ns' (cut_range s (t - s + 1) xs)
    \<and> attrs_of l' = attrs_of l \<and> l_freed l' = rev (owned l (take (t - s + 1) (drop s xs))) @ l_freed l"
proof -
  note L = list_repD(1) [OF R] and S = list_repD(2) [OF R]
  define k where "k = t - s + 1"
  have len: "length ns = length xs + 2" by (rule linkedD(1) [OF L])
  have k: "0 < k" "s + k \<le> length xs" "t + 1 - s = k" using s by (simp_all add: k_def)
  let ?ns = "cut_range (Suc s) k ns" and ?xs = "cut_range s k xs"
  let ?m = "l\<lparr>l_mid := mid_of ?ns\<rparr>"
  have parts: "distinct ?ns" "set ?ns = set ns - set (elem_nodes ns s (s + k))"
    using cut_range_parts [OF linkedD(2) [OF L], of "Suc s" k] k len image_comp [of "\<lambda>j. ns ! j" Suc "{s ..< s + k}"]
    by (simp_all add: comp_def image_Suc_atLeastLessThan)
  have "\<forall>j. s \<le> j \<and> j < s + k \<longrightarrow> l_heap ?m (ns ! Suc j) = Some (node_at ns xs (Suc j))"
    using linkedD(7) [OF L] k len by simp
  from drop_range_rep [OF this linkedD(2) [OF L] len k(2)] obtain D F where d:
    "D @ F = elem_nodes ns s (s + k)" "length (l_spare ?m) + length D \<le> SIMCLIST_MAX_SPARE_ELEMS \<or> D = []"
    "drop_range k ?m (Some (ns ! Suc s)) = Inr (?m\<lparr>l_freed := rev (owned ?m (take k (drop s xs))) @ l_freed ?m,
      l_spare := rev D @ l_spare ?m, l_heap := l_heap ?m |` (- set F)\<rparr>, Some (ns ! Suc (s + k)))" by blast
  have DF: "set D \<union> set F = set (elem_nodes ns s (s + k))" "distinct (D @ F)"
    unfolding d(1) set_append [symmetric] by (rule refl)
      (use linkedD(2) [OF L] k len in \<open>simp add: elem_nodes_def distinct_map inj_on_def nth_eq_iff_index_eq\<close>)
  let ?h = "l_heap l |` (- set F)"
  let ?H = "?h(ns ! s \<mapsto> (node_at ns xs s)\<lparr>e_next := Some (ns ! Suc (s + k))\<rparr>,
      ns ! Suc (s + k) \<mapsto> (node_at ns xs (Suc (s + k)))\<lparr>e_prev := Some (ns ! s)\<rparr>)"
  let ?l = "?m\<lparr>l_freed := rev (owned l (take k (drop s xs))) @ l_freed l, l_spare := rev D @ l_spare l,
      l_heap := ?H, l_numels := length xs - k\<rparr>"
  have kept: "?h (ns ! j) = Some (node_at ns xs j)" if "j < length ns" "j \<le> s \<or> s + k < j" for j
  proof -
    have "ns ! j \<notin> set (elem_nodes ns s (s + k))" using that linked_nth_eq [OF L] k len by auto
    then show ?thesis using DF(1) linkedD(7) [OF L that(1)] by (auto simp: restrict_map_def)
  qed
  have ends: "?h (ns ! s) = Some (node_at ns xs s)" "?h (ns ! Suc (s + k)) = Some (node_at ns xs (Suc (s + k)))"
    "ns ! s \<noteq> ns ! Suc (s + k)" using kept k len linked_nth_eq [OF L] by simp_all
  have om: "owned ?m ys = owned l ys" for ys by (simp add: owned_def)
  have le: "length xs + s - Suc t = length xs - k" "\<not> length xs - k < s" "Suc (Suc (length xs)) - k = Suc (Suc (length xs - k))"
    using k by simp_all
  have "list_delete_range l s t = Inr (?l, 0)"
    by (subst list_delete_range_steps [OF it s(1) _ _ _ _ _ d(3) [folded k(3)], where e = "node_at ns xs (Suc s)" and p = "ns ! s"])
      (use k s(2) linkedD(5) [OF L] findpos_elem [OF L, of s] linked_deref [OF L, of "Suc s"] len
        moved_mid_rep [OF L s, folded k_def] ends om le in \<open>simp_all add: k_def [symmetric]\<close>)
  moreover have "linked ?l ?ns ?xs"
    using linkedD(1-5) [OF L] joined_nodes [OF L k(2,1), of ?h, OF kept] parts(1) k le
    by (simp add: linked_def cut_range_length cut_range_nth)
  moreover have "separate ?l (set ?ns)"
  proof -
    have E: "set (elem_nodes ns s (s + k)) \<subseteq> set ns" using k len by auto
    have "dom ?H = dom ?h" using ends by (auto simp only: dom_fun_upd option.distinct if_False)
    also have "\<dots> = dom (l_heap l) - set F" by auto
    finally have dm: "dom (l_heap ?l) = dom (l_heap l) - set F" by simp
    have sp: "length (l_spare ?l) \<le> SIMCLIST_MAX_SPARE_ELEMS" using S d(2) by (auto simp: separate_def)
    show ?thesis using S E DF parts sp unfolding separate_def dm
      by (simp del: elem_nodes_simps(3)) blast
  qed
  ultimately have "list_delete_range l s t = Inr (?l, 0) \<and> list_rep ?l ?ns ?xs" by (simp add: list_rep_alt)
  then show ?thesis unfolding k_def [symmetric]
    by (intro exI [of _ ?l] exI [of _ ?ns]) (simp add: attrs_of_def)
qed


text \<open>Deleting the whole list: the words wrap and the mid pointer walks off the head.\<close>

lemma walk_prev_off:
  "linked l ns xs \<Longrightarrow> i < length ns \<Longrightarrow> Suc i < k \<Longrightarrow> walk_prev l k (Some (ns ! i)) = Inl Null_Deref"
proof (induction k arbitrary: i)
  case (Suc k)
  note L = Suc.prems(1)
  show ?case
  proof (cases i)
    case 0
    then obtain k' where "k = Suc k'" using Suc.prems(3) by (cases k) auto
    then show ?thesis using 0 linked_deref [OF L Suc.prems(2)] by (simp add: deref_def)
  next
    case (Suc j)
    then show ?thesis using Suc.IH [OF L, of j] Suc.prems linked_deref [OF L Suc.prems(2)] by simp
  qed
qed simp

lemma mid_moves_whole:
  assumes "0 < n" "n < 2 ^ 31"
  shows "mid_moves n 0 (n - 1) = int (n - 1 - (n - 1) div 2) - 2 ^ 31"
proof -
  define d where "d = n - 1 - (n - 1) div 2"
  have n1: "u32 n - 1 = u32 (n - 1)" using u32_diff [of 1 n] assms(1) by (simp add: u32_def)
  have nd: "u32 (n - 1) - u32 0 + 1 = u32 n" using assms(1) by (simp add: u32_def of_nat_diff)
  have "u32 n - 1 - u32 n = - 1" by simp
  also have "\<dots> div 2 = (2 ^ 31 - 1 :: 32 word)" by (rule word_uint_eqI) (simp add: uint_div)
  finally have after: "(u32 n - 1 - u32 n) div 2 = 2 ^ 31 - 1" .
  have mid: "(u32 n - 1) div 2 = u32 ((n - 1) div 2)" using u32_div2 [of "n - 1"] n1 assms(2) by simp
  have d31: "d < 2 ^ 31" "n = Suc (d + (n - 1) div 2)" using assms by (simp_all add: d_def)
  have "(2 ^ 31 - 1) + u32 n - u32 ((n - 1) div 2) = 2 ^ 31 + u32 d"
    by (subst d31(2)) (simp add: u32_def algebra_simps)
  also have "\<dots> = word_of_int (int d - 2 ^ 31)"
  proof -
    have "(2 ^ 31 :: 32 word) = - (2 ^ 31)" by simp
    then show ?thesis by (simp add: u32_def)
  qed
  finally have w: "(2 ^ 31 - 1) + u32 n - u32 ((n - 1) div 2) = word_of_int (int d - 2 ^ 31)" .
  have "mid_moves n 0 (n - 1) = sint (word_of_int (int d - 2 ^ 31) :: 32 word)"
    unfolding mid_moves_def Let_def nd after mid w [symmetric] by (simp add: u32_def)
  also have "\<dots> = int d - 2 ^ 31" using d31(1) signed_take_bit_int_eq_self [of 31 "int d - 2 ^ 31"]
    by (simp only: signed_of_int) simp
  finally show ?thesis unfolding d_def .
qed

lemma list_delete_range_whole:
  assumes L: "linked l ns xs" and it: "\<not> l_iter_active l" and n: "xs \<noteq> []" "length xs < 2 ^ 31 - 1"
  shows "list_delete_range l 0 (length xs - 1) = Inl Null_Deref"
proof -
  let ?m = "(length xs - 1) div 2" and ?d = "length xs - 1 - (length xs - 1) div 2"
  have n0: "0 < length xs" using n(1) by simp
  have mv: "mid_moves (length xs) 0 (length xs - 1) = int ?d - 2 ^ 31"
    by (rule mid_moves_whole) (use n in simp_all)
  have d: "?d < 2 ^ 31" "Suc (Suc ?m) < 2 ^ 31 - ?d" using n by simp_all
  have nd: "nat (- (int e - 2 ^ 31)) = 2 ^ 31 - e" "\<not> 0 < int e - 2 ^ 31" if "e < 2 ^ 31" for e
    using that by (simp_all add: nat_diff_distrib')
  note nd [OF d(1)]
  moreover have "walk_prev l (2 ^ 31 - ?d) (l_mid l) = Inl Null_Deref"
    unfolding mid_of_rep [OF L n(1)] by (rule walk_prev_off [OF L _ d(2)]) (use n0 linkedD(1) [OF L] in simp)
  ultimately have "moved_mid l (mid_moves (length xs) 0 (length xs - 1)) = Inl Null_Deref"
    unfolding mv moved_mid_def by simp
  moreover have "\<not> length xs \<le> length xs - Suc 0" using n0 by linarith
  ultimately show ?thesis using it n0 linkedD(1,5) [OF L] findpos_elem [OF L, of 0] linked_deref [OF L, of 1]
    by (simp add: list_delete_range_def Let_def moved_mid_def)
qed


section \<open>Properties\<close>

text \<open>
  C33: \<open>list_delete_range\<close> refuses a range that is empty, out of bounds, or met during an iteration,
  with \<open>-1\<close> and no change. A range inside the list removes exactly its elements, leaves the rest
  in order, moves the mid pointer to the new middle and, when the list owns its data, frees that of
  the removed elements. The range that is the whole list is not handled: \<open>numels - 1 - numdel\<close>
  wraps to \<open>2 ^ 32 - 1\<close>, the mid pointer is sent left beyond the head and a null pointer is read.
\<close>

theorem list_delete_range_correct:
  assumes "represents l xs" and "length xs < 2 ^ 31 - 1"
  shows "\<exists>l'. list_delete_range l s t =
      (if l_iter_active l \<or> t < s \<or> length xs \<le> t then Inr (l, - 1)
       else if s = 0 \<and> t = length xs - 1 then Inl Null_Deref else Inr (l', 0))
    \<and> (\<not> l_iter_active l \<and> s \<le> t \<and> t < length xs \<and> (0 < s \<or> Suc t < length xs) \<longrightarrow>
         represents l' (take s xs @ drop (Suc t) xs) \<and>
         l_freed l' = rev (owned l (take (Suc t - s) (drop s xs))) @ l_freed l)"
proof -
  from assms obtain ns where R: "list_rep l ns xs" by (auto simp: represents_def)
  note L = list_repD(1) [OF R]
  consider (out) "l_iter_active l \<or> t < s \<or> length xs \<le> t"
    | (whole) "\<not> l_iter_active l" "s = 0" "t = length xs - 1" "xs \<noteq> []"
    | (part) "\<not> l_iter_active l" "s \<le> t" "t < length xs" "t - s + 1 < length xs"
    by (cases "xs = []") (auto, linarith)
  then show ?thesis
  proof cases
    case out
    then show ?thesis using linkedD(5) [OF L] by (auto simp: list_delete_range_def)
  next
    case whole
    have "\<not> length xs \<le> length xs - 1" using whole(4) by (cases xs) simp_all
    then show ?thesis using whole list_delete_range_whole [OF L whole(1,4) assms(2)] by simp
  next
    case part
    have "Suc t - s = t - s + 1" "s + (t - s + 1) = Suc t" "\<not> (s = 0 \<and> t = length xs - 1)" using part by auto
    with list_delete_range_rep [OF R part] assms(2) part show ?thesis
      by (auto simp: represents_def cut_range_def)
  qed
qed

theorem list_delete_range_correct_witness:
  "\<exists>l l' :: (nat, nat) list_t. represents l [Some 4, Some 5, Some 6] \<and>
     list_delete_range l 1 2 = Inr (l', 0) \<and> represents l' [Some 4] \<and> list_delete_range l 0 2 = Inl Null_Deref"
proof -
  obtain l :: "(nat, nat) list_t" where l: "holds_list l [4, 5, 6]" using holds_list_exists by blast
  then have r: "represents l [Some 4, Some 5, Some 6]" "\<not> l_iter_active l" by (simp_all add: holds_list_def plain_def)
  from list_delete_range_correct [OF r(1), of 1 2] r(2) obtain l' where
    "list_delete_range l 1 2 = Inr (l', 0)" "represents l' [Some 4]" by auto
  moreover have "list_delete_range l 0 2 = Inl Null_Deref"
    using list_delete_range_correct [OF r(1), of 0 2] r(2) by auto
  ultimately show ?thesis using r(1) by blast
qed

end
