(* ===== verification/Simclist_Concat.thy ===== *)
theory Simclist_Concat
  imports Simclist_Ops Simclist_Spec
begin

text \<open>
  \<open>list_concat\<close> of \<open>simclist.c\<close>: the list under construction (whose last entry is not yet linked
  to the tail), the copy of a list onto it, and the adjustment of the mid pointer.
\<close>

section \<open>The list under construction\<close>

text \<open>\<open>ns\<close> are the head and the entries copied so far; the link out of the last one is still open.\<close>

definition open_list :: "('a, 'k) list_t \<Rightarrow> nat list \<Rightarrow> 'a option list \<Rightarrow> bool" where
  "open_list l ns xs \<longleftrightarrow>
     length ns = length xs + 1 \<and> distinct (ns @ [l_tail l]) \<and> l_head l = ns ! 0 \<and> l_spare l = [] \<and>
     dom (l_heap l) = insert (l_tail l) (set ns) \<and> (\<forall>a \<in> dom (l_heap l). a < l_brk l) \<and>
     (\<exists>e. l_heap l (l_tail l) = Some e \<and> e_data e = None \<and> e_next e = None) \<and>
     (\<forall>i < length ns. \<exists>e. l_heap l (ns ! i) = Some e \<and> e_data e = (if i = 0 then None else xs ! (i - 1)) \<and>
        e_prev e = (if i = 0 then None else Some (ns ! (i - 1))) \<and>
        (Suc i < length ns \<longrightarrow> e_next e = Some (ns ! Suc i)))"

lemma open_listD:
  assumes "open_list l ns xs"
  shows "length ns = length xs + 1" "distinct ns" "l_tail l \<notin> set ns" "l_head l = ns ! 0" "l_spare l = []"
    "dom (l_heap l) = insert (l_tail l) (set ns)" "\<forall>a \<in> dom (l_heap l). a < l_brk l"
    "\<exists>e. l_heap l (l_tail l) = Some e \<and> e_data e = None \<and> e_next e = None"
    "\<And>i. i < length ns \<Longrightarrow> \<exists>e. l_heap l (ns ! i) = Some e \<and> e_data e = (if i = 0 then None else xs ! (i - 1)) \<and>
        e_prev e = (if i = 0 then None else Some (ns ! (i - 1))) \<and>
        (Suc i < length ns \<longrightarrow> e_next e = Some (ns ! Suc i))"
proof -
  note open_listD_all = assms [unfolded open_list_def distinct_append]
  show "length ns = length xs + 1" "distinct ns" "l_tail l \<notin> set ns" "l_head l = ns ! 0" "l_spare l = []"
    "dom (l_heap l) = insert (l_tail l) (set ns)" "\<forall>a \<in> dom (l_heap l). a < l_brk l"
    "\<exists>e. l_heap l (l_tail l) = Some e \<and> e_data e = None \<and> e_next e = None"
    using open_listD_all by simp_all
qed (use assms in \<open>unfold open_list_def, blast\<close>)

lemma open_init: "open_list (list_init\<lparr>l_numels := n\<rparr>) [l_head list_init] []"
  by (auto simp: open_list_def list_init_def list_attributes_setdefaults_def)

text \<open>One turn of the copy.\<close>

definition pushed :: "('a, 'k) list_t \<Rightarrow> nat \<Rightarrow> 'a option \<Rightarrow> ('a, 'k) list_t" where
  "pushed l el d = l\<lparr>l_brk := Suc (l_brk l),
     l_heap := (l_heap l)(el \<mapsto> (the (l_heap l el))\<lparr>e_next := Some (l_brk l)\<rparr>,
       l_brk l \<mapsto> \<lparr>e_data = d, e_next = None, e_prev = Some el\<rparr>)\<rparr>"

lemma last_nth: "length ns = length xs + 1 \<Longrightarrow> last ns = ns ! length xs"
  by (subst last_conv_nth) auto

lemma push_steps:
  assumes O: "open_list l ns xs"
  shows "bind (upd_entry (snd (malloc_entry l)) (Some (last ns)) (set_next (Some (l_brk l)))) (\<lambda>l'.
      upd_entry l' (Some (l_brk l)) (\<lambda>x. x\<lparr>e_data := d, e_prev := Some (last ns)\<rparr>)) = Inr (pushed l (last ns) d)"
proof -
  note D = open_listD [OF O]
  have "ns \<noteq> []" using D(1) by auto
  then have d: "last ns \<in> dom (l_heap l)" unfolding D(6) by simp
  obtain e where e: "l_heap l (last ns) = Some e" using domD [OF d] by (rule exE)
  have "last ns \<noteq> l_brk l" using bspec [OF D(7) d] by simp
  note e = e this
  have "(l_heap l)(l_brk l \<mapsto> b, last ns \<mapsto> x, l_brk l \<mapsto> c) = (l_heap l)(last ns \<mapsto> x, l_brk l \<mapsto> c)" for b x c
    using e(2) by auto
  with e show ?thesis by (simp add: malloc_entry_def upd_entry_Some set_next_def pushed_def)
qed

lemma copy_turn:
  assumes "open_list l ns xs"
  shows "(case malloc_entry l of (a, l') \<Rightarrow>
      bind (upd_entry l' (Some (last ns)) (set_next (Some a))) (\<lambda>l'.
      bind (upd_entry l' (Some a) (\<lambda>x. x\<lparr>e_data := e_data e, e_prev := Some (last ns)\<rparr>)) (\<lambda>l'.
        copy_entries fuel src (e_next e) l' a)))
    = copy_entries fuel src (e_next e) (pushed l (last ns) (e_data e)) (l_brk l)"
proof -
  obtain m where m: "malloc_entry l = (l_brk l, m)" by (simp add: malloc_entry_def)
  show ?thesis using push_steps [OF assms, of "e_data e"]
    unfolding m snd_conv case_prod_conv bind_assoc [symmetric] by simp
qed

lemma push_open:
  assumes O: "open_list l ns xs"
  shows "open_list (pushed l (last ns) d) (ns @ [l_brk l]) (xs @ [d])"
proof -
  note D = open_listD [OF O]
  have ns: "ns \<noteq> []" "last ns = ns ! length xs" using D(1) last_nth [OF D(1)] by auto
  have new: "l_brk l \<notin> set ns" "l_brk l \<noteq> l_tail l" "l_brk l \<noteq> last ns" "l_tail l \<noteq> last ns"
    using D(3,6,7) ns(1) last_in_set [of ns] by auto
  have mem: "last ns \<in> set ns" using ns(1) by simp
  show ?thesis
    unfolding open_list_def
  proof (intro conjI allI impI)
    show "\<exists>e. l_heap (pushed l (last ns) d) ((ns @ [l_brk l]) ! i) = Some e \<and>
        e_data e = (if i = 0 then None else (xs @ [d]) ! (i - 1)) \<and>
        e_prev e = (if i = 0 then None else Some ((ns @ [l_brk l]) ! (i - 1))) \<and>
        (Suc i < length (ns @ [l_brk l]) \<longrightarrow> e_next e = Some ((ns @ [l_brk l]) ! Suc i))"
      if "i < length (ns @ [l_brk l])" for i
    proof -
      have "i < length xs \<or> i = length xs \<or> i = Suc (length xs)" using that D(1) by auto
      then consider "i < length xs" | "i = length xs" | "i = Suc (length xs)" by blast
      then show ?thesis
      proof cases
        case 1
        then have il: "i < length ns" using D(1) by simp
        have "ns ! i \<noteq> l_brk l" using nth_mem [OF il] new(1) by metis
        moreover have "ns ! i \<noteq> last ns" using 1 ns(2) D(1,2) by (auto simp: nth_eq_iff_index_eq)
        ultimately show ?thesis using 1 D(1) D(9) [of i] by (auto simp: pushed_def nth_append)
      next
        case 2
        then show ?thesis using D(1) D(9) [of i] ns(2) new(3) by (auto simp: pushed_def nth_append)
      next
        case 3
        then show ?thesis using D(1) ns(2) by (auto simp: pushed_def nth_append)
      qed
    qed
  qed (use D(1-8) new mem in \<open>auto simp: pushed_def nth_append less_Suc_eq\<close>)
qed

text \<open>The copy of the entries of a list from the \<open>i\<close>-th on.\<close>

lemma copy_entries_rep:
  assumes S: "linked src ms ys" and O: "open_list l ns xs" and i: "i \<le> length ys" "length ys - i < fuel"
  shows "\<exists>l' ms'. copy_entries fuel src (Some (ms ! Suc i)) l (last ns) = Inr (l', last (ns @ ms')) \<and>
    open_list l' (ns @ ms') (xs @ drop i ys) \<and> attrs_of l' = attrs_of l \<and> l_numels l' = l_numels l \<and>
    l_freed l' = l_freed l \<and> l_tail l' = l_tail l"
  using O i
proof (induction fuel arbitrary: i l ns xs)
  case (Suc fuel)
  note len = linkedD(1) [OF S]
  show ?case
  proof (cases "i = length ys")
    case True
    then show ?thesis using Suc.prems(1) tail_nth [OF S Suc.prems(2)] by (intro exI [of _ l] exI [of _ "[]"]) simp
  next
    case False
    then have i: "i < length ys" using Suc.prems(2) by simp
    let ?l = "pushed l (last ns) (ys ! i)"
    have c: "copy_entries (Suc fuel) src (Some (ms ! Suc i)) l (last ns)
        = copy_entries fuel src (Some (ms ! Suc (Suc i))) ?l (last (ns @ [l_brk l]))"
      using False tail_nth [OF S Suc.prems(2)] linked_deref [OF S, of "Suc i"] i len
        copy_turn [OF Suc.prems(1), of "node_at ms ys (Suc i)" fuel src] by simp
    have "\<exists>l' ms'. copy_entries fuel src (Some (ms ! Suc (Suc i))) ?l (last (ns @ [l_brk l])) = Inr (l', last ((ns @ [l_brk l]) @ ms')) \<and>
        open_list l' ((ns @ [l_brk l]) @ ms') ((xs @ [ys ! i]) @ drop (Suc i) ys) \<and> attrs_of l' = attrs_of ?l \<and>
        l_numels l' = l_numels ?l \<and> l_freed l' = l_freed ?l \<and> l_tail l' = l_tail ?l"
      by (rule Suc.IH [OF push_open [OF Suc.prems(1)]]) (use Suc.prems(3) i in simp_all)
    then obtain l' ms' where "copy_entries fuel src (Some (ms ! Suc (Suc i))) ?l (last (ns @ [l_brk l])) = Inr (l', last ((ns @ [l_brk l]) @ ms'))"
      "open_list l' ((ns @ [l_brk l]) @ ms') ((xs @ [ys ! i]) @ drop (Suc i) ys)" "attrs_of l' = attrs_of ?l"
      "l_numels l' = l_numels ?l" "l_freed l' = l_freed ?l" "l_tail l' = l_tail ?l" by blast
    then show ?thesis unfolding c using Cons_nth_drop_Suc [OF i]
      by (intro exI [of _ l'] exI [of _ "l_brk l # ms'"]) (simp add: pushed_def attrs_of_def)
  qed
qed simp


lemma copy_list_rep:
  assumes R: "list_rep src ms ys" and O: "open_list l ns xs"
  shows "\<exists>l' ms'. copy_entries (loop_fuel src) src (Some (ms ! 1)) l (last ns) = Inr (l', last (ns @ ms')) \<and>
    open_list l' (ns @ ms') (xs @ ys) \<and> attrs_of l' = attrs_of l \<and> l_numels l' = l_numels l \<and>
    l_freed l' = l_freed l"
  using copy_entries_rep [OF list_repD(1) [OF R] O, of 0 "loop_fuel src"] enough_fuel [OF R] by simp blast

section \<open>Closing the list\<close>

lemma walk_mid: "walk_next (l\<lparr>l_mid := m\<rparr>) k p = walk_next l k p" "walk_prev (l\<lparr>l_mid := m\<rparr>) k p = walk_prev l k p"
  by (induction k arbitrary: p) simp_all

definition closed :: "('a, 'k) list_t \<Rightarrow> nat \<Rightarrow> ('a, 'k) list_t" where
  "closed l el = l\<lparr>l_heap := (l_heap l)(el \<mapsto> (the (l_heap l el))\<lparr>e_next := Some (l_tail l)\<rparr>,
     l_tail l \<mapsto> (the (l_heap l (l_tail l)))\<lparr>e_prev := Some el\<rparr>)\<rparr>"

lemma close_steps:
  assumes O: "open_list l ns xs"
  shows "bind (upd_entry l (Some (last ns)) (set_next (Some (l_tail l)))) (\<lambda>d. upd_entry d (Some (l_tail d)) (set_prev (Some (last ns))))
    = Inr (closed l (last ns))"
proof -
  note D = open_listD [OF O]
  have ns: "ns \<noteq> []" using D(1) by auto
  then have "last ns \<in> dom (l_heap l)" "l_tail l \<in> dom (l_heap l)" unfolding D(6) by simp_all
  then obtain e f where e: "l_heap l (last ns) = Some e" "l_heap l (l_tail l) = Some f" by blast
  moreover have "l_tail l \<noteq> last ns" using D(3) ns by auto
  ultimately show ?thesis by (simp add: closed_def upd_entry_Some set_next_def set_prev_def)
qed

lemma close_rep:
  assumes O: "open_list l ns xs" and n: "l_numels l = length xs"
  shows "list_rep ((closed l (last ns))\<lparr>l_mid := mid_of (ns @ [l_tail l])\<rparr>) (ns @ [l_tail l]) xs"
proof -
  note D = open_listD [OF O]
  let ?l = "(closed l (last ns))\<lparr>l_mid := mid_of (ns @ [l_tail l])\<rparr>" and ?ns = "ns @ [l_tail l]"
  have ns: "ns \<noteq> []" "last ns = ns ! length xs" using D(1) last_nth [OF D(1)] by auto
  have lt: "l_tail l \<noteq> last ns" "last ns \<in> set ns" using D(3) ns(1) by auto
  have node: "l_heap ?l (?ns ! i) = Some (node_at ?ns xs i)" if "i < length ?ns" for i
  proof -
    have "i < length xs \<or> i = length xs \<or> i = Suc (length xs)" using that D(1) by auto
    then consider "i < length xs" | "i = length xs" | "i = Suc (length xs)" by blast
    then show ?thesis
    proof cases
      case 1
      then have il: "i < length ns" using D(1) by simp
      have "ns ! i \<noteq> l_tail l" using nth_mem [OF il] D(3) by metis
      moreover have "ns ! i \<noteq> last ns" using 1 ns(2) D(1,2) by (auto simp: nth_eq_iff_index_eq)
      moreover from D(9) [OF il] 1 D(1) have "l_heap l (ns ! i) = Some (node_at ?ns xs i)"
        by (auto simp: nth_append node_at_def intro!: entry.equality)
      ultimately show ?thesis using il by (simp add: closed_def nth_append)
    next
      case 2
      then have il: "i < length ns" using D(1) by simp
      from D(9) [OF il] 2 D(1) lt show ?thesis
        by (auto simp: closed_def nth_append ns(2) node_at_def intro!: entry.equality)
    next
      case 3
      from D(8) obtain e where "l_heap l (l_tail l) = Some e" "e_data e = None" "e_next e = None" by blast
      then show ?thesis using 3 D(1)
        by (auto simp: closed_def nth_append ns(2) node_at_def intro!: entry.equality)
    qed
  qed
  have dm: "dom (l_heap ?l) = dom (l_heap l)" unfolding D(6) using lt(2) by (auto simp: closed_def D(6) domIff)
  show ?thesis
    using D n node ns dm
    by (simp add: list_rep_def linked_def closed_def nth_append SIMCLIST_MAX_SPARE_ELEMS_def)
qed


section \<open>Concatenation\<close>

text \<open>The adjustment reaches the middle from the last entry of the first list.\<close>

definition adjusted_mid :: "('a, 'k) list_t \<Rightarrow> int \<Rightarrow> nat \<Rightarrow> nat option res" where
  "adjusted_mid l err mid =
     (if (err + 1) sdiv 2 > 0 then walk_next l (nat ((err + 1) sdiv 2)) (Some mid)
      else if err sdiv 2 < 0 then walk_prev l (nat ((- err) sdiv 2)) (Some mid)
      else Inr (Some mid))"

lemma sdiv_nat: "int (a + b) - int a = int b" "(int n) sdiv 2 = int (n div 2)" "(- int n) sdiv 2 = - int (n div 2)"
  by (cases n; simp add: signed_divide_int_def zdiv_int)+

lemma adjusted_mid_rep:
  assumes L: "linked l ns (xs @ ys)" and n: "xs @ ys \<noteq> []"
  shows "adjusted_mid l (int (length ys) - int (length xs)) (ns ! length xs) = Inr (mid_of ns)"
proof -
  let ?a = "length xs" and ?b = "length ys"
  have len: "length ns = ?a + ?b + 2" using linkedD(1) [OF L] by simp
  have mid: "mid_of ns = Some (ns ! Suc ((?a + ?b - 1) div 2))" using len n by (auto simp: mid_of_def)
  have walks: "walk_next l k (Some (ns ! ?a)) = Inr (Some (ns ! (?a + k)))" if "?a + k < length ns" for k
    by (rule walk_next_rep [OF L that])
  have backs: "walk_prev l k (Some (ns ! ?a)) = Inr (Some (ns ! (?a - k)))" if "k \<le> ?a" for k
    using walk_prev_rep [OF L _ that] len by simp
  show ?thesis
  proof (cases "?a \<le> ?b")
    case True
    then obtain d where d: "?b = ?a + d" using le_Suc_ex by blast
    have e: "int ?b - int ?a = int d" "int d + 1 = int (Suc d)" using d by simp_all
    have pos: "Suc ((?a + ?b - 1) div 2) = ?a + Suc d div 2"
    proof -
      have *: "0 < a + (a + d) \<Longrightarrow> Suc ((a + (a + d) - 1) div 2) = a + Suc d div 2" for a d :: nat by presburger
      have "0 < ?a + (?a + d)" using n d by (cases xs) auto
      with * show ?thesis unfolding d by simp
    qed
    show ?thesis
    proof (cases d)
      case 0
      then show ?thesis using e pos mid by (simp add: adjusted_mid_def signed_divide_int_def)
    next
      case (Suc d')
      then have "0 < Suc d div 2" "?a + Suc d div 2 < length ns" using d len by simp_all
      then show ?thesis unfolding e(1) mid pos adjusted_mid_def e(2) sdiv_nat(2) using walks by simp
    qed
  next
    case False
    then obtain d where d: "?a = ?b + Suc d" using less_iff_Suc_add [of ?b ?a] by auto
    have e: "int ?b - int ?a = - int (Suc d)" "- int (Suc d) + 1 = - int d" using d by simp_all
    have pos: "Suc ((?a + ?b - 1) div 2) = ?a - Suc d div 2" using d by simp
    show ?thesis
    proof (cases d)
      case 0
      then show ?thesis using e pos mid by (simp add: adjusted_mid_def signed_divide_int_def)
    next
      case (Suc d')
      then have "0 < Suc d div 2" "Suc d div 2 \<le> ?a" using d by simp_all
      then show ?thesis unfolding e(1) mid pos adjusted_mid_def e(2) sdiv_nat(2,3) minus_minus using backs by simp
    qed
  qed
qed

lemma list_concat_steps:
  assumes "d0 = list_init\<lparr>l_numels := l_numels l1 + l_numels l2\<rparr>" "l_numels d0 \<noteq> 0"
    and "first_entry l1 = Inr s1" "copy_entries (loop_fuel l1) l1 s1 d0 (l_head d0) = Inr (d1, mid)"
    and "first_entry l2 = Inr s2" "copy_entries (loop_fuel l2) l2 s2 d1 mid = Inr (d2, el)"
    and "bind (upd_entry d2 (Some el) (set_next (Some (l_tail d2)))) (\<lambda>d. upd_entry d (Some (l_tail d)) (set_prev (Some el))) = Inr c"
    and "adjusted_mid c (int (l_numels l2) - int (l_numels l1)) mid = Inr m"
  shows "list_concat l1 l2 = Inr (c\<lparr>l_mid := m\<rparr>, 0)"
  unfolding list_concat_def Let_def assms(1) [symmetric] if_not_P [OF assms(2)] assms(3) bind.simps assms(4) prod.case
    assms(5,6) bind_assoc [symmetric] assms(7) assms(8) [unfolded adjusted_mid_def] by (rule refl)

lemma list_concat_rep:
  fixes l1 l2 :: "('a, 'k) list_t"
  assumes R: "list_rep l1 ms1 xs" "list_rep l2 ms2 ys"
  shows "\<exists>l' ns'. list_concat l1 l2 = Inr (l', 0) \<and> list_rep l' ns' (xs @ ys) \<and> attrs_of l' = attrs_of list_init
    \<and> l_freed l' = []"
proof (cases "xs @ ys = []")
  case True
  have "(list_init\<lparr>l_numels := 0\<rparr> :: ('a, 'k) list_t) = list_init" by (simp add: list_init_def list_attributes_setdefaults_def)
  then show ?thesis using True linkedD(5) [OF list_repD(1) [OF R(1)]] linkedD(5) [OF list_repD(1) [OF R(2)]]
      list_init_rep by (auto simp: list_concat_def Let_def list_init_def list_attributes_setdefaults_def)
next
  case False
  note L1 = list_repD(1) [OF R(1)] and L2 = list_repD(1) [OF R(2)]
  let ?d = "list_init\<lparr>l_numels := l_numels l1 + l_numels l2\<rparr> :: ('a, 'k) list_t"
  let ?h = "[l_head (list_init :: ('a, 'k) list_t)]"
  from copy_list_rep [OF R(1) open_init [of "l_numels l1 + l_numels l2"]] obtain d1 ns1 where
    c1: "copy_entries (loop_fuel l1) l1 (Some (ms1 ! 1)) ?d (last ?h) = Inr (d1, last (?h @ ns1))"
      "open_list d1 (?h @ ns1) ([] @ xs)" "attrs_of d1 = attrs_of ?d" "l_numels d1 = l_numels ?d" "l_freed d1 = l_freed ?d"
    by blast
  let ?n1 = "?h @ ns1"
  from copy_list_rep [OF R(2) c1(2)] obtain d2 ns2 where
    c2: "copy_entries (loop_fuel l2) l2 (Some (ms2 ! 1)) d1 (last ?n1) = Inr (d2, last (?n1 @ ns2))"
      "open_list d2 (?n1 @ ns2) (([] @ xs) @ ys)" "attrs_of d2 = attrs_of d1" "l_numels d2 = l_numels d1" "l_freed d2 = l_freed d1"
    by blast
  have c2': "open_list d2 (?n1 @ ns2) (xs @ ys)" using c2(2) by simp
  define m1 m2 where "m1 = ?n1" and "m2 = ns2"
  note c1' = c1 [folded m1_def] and c2' = c2 [folded m1_def m2_def]
  have O: "open_list d2 (m1 @ m2) (xs @ ys)" using c2'(2) by simp
  have num: "l_numels l1 = length xs" "l_numels l2 = length ys" "l_numels d2 = length (xs @ ys)"
    using linkedD(5) [OF L1] linkedD(5) [OF L2] c1'(4) c2'(4) by simp_all
  let ?ns = "(m1 @ m2) @ [l_tail d2]" and ?c = "closed d2 (last (m1 @ m2))"
  have rep: "list_rep (?c\<lparr>l_mid := mid_of ?ns\<rparr>) ?ns (xs @ ys)" by (rule close_rep [OF O num(3)])
  have "length m1 = length xs + 1" using open_listD(1) [OF c1'(2)] by simp
  then have lm: "last m1 = ?ns ! length xs" using last_nth [of m1 xs] by (simp add: nth_append)
  have adj: "adjusted_mid ?c (int (length ys) - int (length xs)) (last m1) = Inr (mid_of ?ns)"
    unfolding lm using adjusted_mid_rep [OF list_repD(1) [OF rep] False] by (simp only: adjusted_mid_def walk_mid)
  have d: "last ?h = l_head ?d" by simp
  have "list_concat l1 l2 = Inr (?c\<lparr>l_mid := mid_of ?ns\<rparr>, 0)"
    by (rule list_concat_steps [OF refl _ first_entry_rep [OF L1] c1'(1) [unfolded d] first_entry_rep [OF L2] c2'(1) close_steps [OF O]])
      (use num adj False in simp_all)
  then show ?thesis using rep c1' c2'
    by (auto simp: closed_def attrs_of_def list_init_def list_attributes_setdefaults_def)
qed


section \<open>Properties\<close>

text \<open>
  \<open>list_concat\<close> builds a list of its own, with the default attributes, that holds the
  elements of the first list followed by those of the second, whichever of them is empty; the
  mid pointer, started at the seam, ends at the middle. The arguments are not changed.
\<close>

theorem list_concat_correct:
  assumes "represents l1 xs" and "represents l2 ys"
  shows "\<exists>l'. list_concat l1 l2 = Inr (l', 0) \<and> represents l' (xs @ ys) \<and> list_repOk l' = Inr True
    \<and> attrs_of l' = attrs_of list_init \<and> l_freed l' = []"
proof -
  from assms obtain ms1 ms2 where R: "list_rep l1 ms1 xs" "list_rep l2 ms2 ys" by (auto simp: represents_def)
  from list_concat_rep [OF R] list_repOk_rep show ?thesis unfolding represents_def by blast
qed

theorem list_concat_correct_witness:
  "\<exists>l1 l2 l' :: (nat, nat) list_t. represents l1 [Some 4, Some 5] \<and> represents l2 [Some 6] \<and>
     list_concat l1 l2 = Inr (l', 0) \<and> represents l' [Some 4, Some 5, Some 6]"
proof -
  obtain l1 :: "(nat, nat) list_t" where l1: "holds_list l1 [4, 5]" using holds_list_exists by blast
  obtain l2 :: "(nat, nat) list_t" where l2: "holds_list l2 [6]" using holds_list_exists by blast
  have r: "represents l1 [Some 4, Some 5]" "represents l2 [Some 6]" using l1 l2 by (simp_all add: holds_list_def)
  from list_concat_correct [OF r] r show ?thesis by auto
qed

end
