(* ===== verification/C_Strings.thy ===== *)
theory C_Strings
  imports Box_Prelude
begin

text \<open>
  More of \<open>string.h\<close> and \<open>stdio.h\<close>: \<open>strncpy\<close>, \<open>snprintf\<close> and the decimal conversions the
  device and server code uses, and the bytes of fixed-width integers on the target
  (little-endian, 32-bit \<open>int\<close>), with \<open>htonl\<close>.
\<close>

section \<open>Copies\<close>

text \<open>\<open>strncpy(dst, s, n)\<close> writes exactly \<open>n\<close> bytes: the string, cut at \<open>n\<close>, and zeros.\<close>

definition strncpy :: "char list \<Rightarrow> char list \<Rightarrow> nat \<Rightarrow> char list res" where
  "strncpy dst s n = wr_block dst 0 (take n s @ replicate (n - length s) NUL)"

text \<open>\<open>snprintf(dst, sizeof(dst), ..)\<close> of the text \<open>s\<close>.\<close>

definition snprintf :: "char list \<Rightarrow> char list \<Rightarrow> char list" where
  "snprintf dst s =
     (if dst = [] then [] else let t = take (length dst - 1) s in t @ NUL # drop (Suc (length t)) dst)"

definition zeros :: "nat \<Rightarrow> char list" where "zeros n = replicate n NUL"

text \<open>A buffer holds the string \<open>s\<close>.\<close>

definition holds_str :: "char list \<Rightarrow> char list \<Rightarrow> bool" where
  "holds_str mem s \<longleftrightarrow> NUL \<notin> set s \<and> (\<exists>t. mem = s @ NUL # t)"

lemma holds_str_cstr [cstr_simps]: "holds_str mem s \<Longrightarrow> cstr_at mem 0 = Inr s"
  by (auto simp: holds_str_def cstr_at_terminated)

lemma length_zeros [simp]: "length (zeros n) = n"
  by (simp add: zeros_def)

lemma holds_str_zeros: "0 < n \<Longrightarrow> holds_str (zeros n) []"
  by (cases n) (auto simp: holds_str_def zeros_def)

lemma drop_zeros [simp]: "drop k (zeros n) = zeros (n - k)"
  by (simp add: zeros_def)

lemma zeros_Cons: "0 < n \<Longrightarrow> zeros n = NUL # zeros (n - 1)"
  by (cases n) (simp_all add: zeros_def)

lemma strncpy_fits:
  "length s \<le> n \<Longrightarrow> n < length dst \<Longrightarrow> strncpy dst s n = Inr (s @ replicate (n - length s) NUL @ drop n dst)"
  by (simp add: strncpy_def)

lemma strncpy_length [buf_simps]: "strncpy dst s n = Inr dst' \<Longrightarrow> length dst' = length dst"
  by (auto simp: strncpy_def dest: wr_block_length)

lemma strncpy_overflow: "length dst < n \<Longrightarrow> strncpy dst s n = Inl Out_Of_Bounds"
  by (auto simp: strncpy_def wr_block_def min_def)

text \<open>Into a buffer of zeros with room for a terminator.\<close>

lemma strncpy_zeros:
  "n \<le> length s \<Longrightarrow> n < m \<Longrightarrow> strncpy (zeros m) s n = Inr (take n s @ zeros (m - n))"
  by (simp add: strncpy_def min_def)

lemma strncpy_zeros_holds:
  assumes "n \<le> length s" "n < m" "NUL \<notin> set s"
  shows "\<exists>buf. strncpy (zeros m) s n = Inr buf \<and> holds_str buf (take n s) \<and> length buf = m"
proof -
  have "strncpy (zeros m) s n = Inr (take n s @ NUL # zeros (m - n - 1))"
    using assms(1,2) strncpy_zeros [OF assms(1,2)] zeros_Cons [of "m - n"] by simp
  moreover have "NUL \<notin> set (take n s)" using assms(3) by (auto dest: in_set_takeD)
  ultimately show ?thesis using assms(1,2) by (auto simp: holds_str_def)
qed

lemma snprintf_holds:
  "NUL \<notin> set s \<Longrightarrow> length s < length dst \<Longrightarrow> holds_str (snprintf dst s) s"
  by (auto simp: snprintf_def holds_str_def Let_def)

lemma snprintf_cut:
  "dst \<noteq> [] \<Longrightarrow> NUL \<notin> set s \<Longrightarrow> holds_str (snprintf dst s) (take (length dst - 1) s)"
  by (auto simp: snprintf_def holds_str_def Let_def dest: in_set_takeD)

section \<open>Decimal numbers\<close>

fun show_nat :: "nat \<Rightarrow> char list" where
  "show_nat n = (if n < 10 then [char_of (48 + n)] else show_nat (n div 10) @ [char_of (48 + n mod 10)])"

declare show_nat.simps [simp del]

definition show_int :: "int \<Rightarrow> char list" where
  "show_int i = (if i < 0 then CHR ''-'' # show_nat (nat (- i)) else show_nat (nat i))"

lemma digit_char: "d < 10 \<Longrightarrow> isdigit (char_of (48 + d)) \<and> digit_val (char_of (48 + d)) = d"
  by (simp add: isdigit_def in_range_def digit_val_def)

lemma dec_val_snoc: "dec_val (ds @ [c]) = 10 * dec_val ds + digit_val c"
  by (simp add: dec_val_def)

lemma show_nat_digits: "show_nat n \<noteq> [] \<and> (\<forall>c \<in> set (show_nat n). isdigit c) \<and> dec_val (show_nat n) = n"
proof (induction n rule: show_nat.induct)
  case (1 n)
  show ?case
  proof (cases "n < 10")
    case True
    then show ?thesis using digit_char [of n] by (simp add: show_nat.simps [of n] dec_val_def)
  next
    case False
    then show ?thesis using 1 digit_char [of "n mod 10"]
      by (simp add: show_nat.simps [of n] dec_val_snoc)
  qed
qed

lemma show_nat_length: "k < 10 ^ m \<Longrightarrow> 0 < m \<Longrightarrow> length (show_nat k) \<le> m"
proof (induction k arbitrary: m rule: show_nat.induct)
  case (1 k)
  show ?case
  proof (cases "k < 10")
    case True
    then show ?thesis using 1(3) by (simp add: show_nat.simps [of k])
  next
    case False
    then obtain m' where m: "m = Suc m'" "0 < m'" using 1(2,3) by (cases m; cases "m - 1") auto
    then have "k div 10 < 10 ^ m'" using 1(2) by (simp add: less_mult_imp_div_less mult.commute)
    then show ?thesis using False 1(1) [OF False _ m(2)] m(1) by (simp add: show_nat.simps [of k])
  qed
qed

lemma isdigit_not:
  "isdigit c \<Longrightarrow> \<not> isspace c \<and> c \<noteq> CHR ''-'' \<and> c \<noteq> CHR ''+'' \<and> c \<noteq> NUL \<and> c \<noteq> CHR 0x22"
  by (auto simp: isdigit_def in_range_def isspace_def NUL_def)

lemma takeWhile_all_append:
  "\<forall>c \<in> set ds. P c \<Longrightarrow> (r = [] \<or> \<not> P (hd r)) \<Longrightarrow> takeWhile P (ds @ r) = ds \<and> dropWhile P (ds @ r) = r"
  by (cases r) (auto simp: takeWhile_append dropWhile_append)

text \<open>\<open>atoi\<close> reads back what \<open>%d\<close> prints, when no further digit follows.\<close>

lemma atoi_show_int:
  assumes "INT_MIN \<le> i" "i \<le> INT_MAX" "r = [] \<or> \<not> isdigit (hd r)"
  shows "atoi (show_int i @ r) = i"
proof -
  let ?ds = "show_nat (nat \<bar>i\<bar>)"
  obtain d ds where d: "?ds = d # ds" using show_nat_digits [of "nat \<bar>i\<bar>"] by (cases ?ds) auto
  have dig: "\<forall>c \<in> set ?ds. isdigit c" and val: "dec_val ?ds = nat \<bar>i\<bar>"
    using show_nat_digits by simp_all
  note tw = takeWhile_all_append [OF dig assms(3)]
  have cl: "clamp_int i = i" using assms(1,2) by (simp add: clamp_int_def)
  show ?thesis
  proof (cases "i < 0")
    case True
    then have s: "show_int i @ r = CHR ''-'' # ?ds @ r" by (simp add: show_int_def)
    have "\<not> isspace CHR ''-''" by code_simp
    then show ?thesis using True tw val cl by (simp add: atoi_def scan_int_def s)
  next
    case False
    then have s: "show_int i @ r = ?ds @ r" by (simp add: show_int_def)
    have "\<not> isspace d \<and> d \<noteq> CHR ''-'' \<and> d \<noteq> CHR ''+''" using dig d isdigit_not by simp
    then show ?thesis using False tw val cl unfolding atoi_def scan_int_def s d
      by simp
  qed
qed

lemma show_int_clean: "c \<in> set (show_int i) \<Longrightarrow> c \<noteq> NUL \<and> c \<noteq> CHR 0x22"
  using show_nat_digits isdigit_not by (auto simp: show_int_def NUL_def split: if_splits)

section \<open>Hexadecimal digits\<close>

text \<open>\<open>%02x\<close> of a byte, and the value of a run of digits.\<close>

definition lower_hex :: "char list" where "lower_hex = ''0123456789abcdef''"

definition hex2 :: "nat \<Rightarrow> char list" where
  "hex2 b = [lower_hex ! (b div 16 mod 16), lower_hex ! (b mod 16)]"

definition hex_number :: "char list \<Rightarrow> nat" where
  "hex_number ds = foldl (\<lambda>n c. 16 * n + (case hex_digit c of None \<Rightarrow> 0 | Some v \<Rightarrow> v)) 0 ds"

lemma hex2_scan:
  assumes "b < 256"
  shows "foldl (\<lambda>n c. 16 * n + (case hex_digit c of None \<Rightarrow> 0 | Some v \<Rightarrow> v)) n (hex2 b) = 256 * n + b
     \<and> (\<forall>c \<in> set (hex2 b). hex_digit c \<noteq> None)"
proof -
  have all: "list_all (\<lambda>k. hex_digit (lower_hex ! k) = Some k) [0 ..< 16]" by code_simp
  have d: "hex_digit (lower_hex ! k) = Some k" if "k < 16" for k
    using all that by (simp add: list_all_iff)
  have "b div 16 < 16" "b mod 16 < 16" using assms by simp_all
  then show ?thesis using d [of "b div 16"] d [of "b mod 16"] by (simp add: hex2_def)
qed

section \<open>Integers in memory\<close>

text \<open>The bytes of an unsigned number, least significant first.\<close>

definition le_chars :: "nat \<Rightarrow> nat \<Rightarrow> char list" where
  "le_chars k n = map (\<lambda>i. char_of (n div 256 ^ i)) [0 ..< k]"

fun from_le :: "char list \<Rightarrow> nat" where
  "from_le [] = 0"
| "from_le (c # cs) = code_of c + 256 * from_le cs"

lemma length_le_chars [simp]: "length (le_chars k n) = k"
  by (simp add: le_chars_def)

lemma le_chars_Suc: "le_chars (Suc k) n = char_of n # le_chars k (n div 256)"
proof -
  have "map (\<lambda>i. char_of (n div 256 ^ i)) [0 ..< Suc k] =
      char_of n # map (\<lambda>i. char_of (n div 256 ^ Suc i)) [0 ..< k]"
    by (simp only: map_upt_Suc) simp
  then show ?thesis by (simp add: le_chars_def div_mult2_eq)
qed

lemma from_le_chars: "n < 256 ^ k \<Longrightarrow> from_le (le_chars k n) = n"
proof (induction k arbitrary: n)
  case (Suc k)
  have "n div 256 < 256 ^ k" using Suc.prems by (simp add: less_mult_imp_div_less)
  then show ?case using Suc.IH [of "n div 256"] by (simp add: le_chars_Suc)
qed (simp add: le_chars_def)

lemma code_of_256: "code_of c < (256 :: nat)"
  using of_char_mod_256 [of c, where ?'a = nat] by (metis mod_less_divisor zero_less_numeral)

lemma from_le_bound: "from_le cs < 256 ^ length cs"
proof (induction cs)
  case (Cons c cs)
  have digit: "x < 256 \<Longrightarrow> f < P \<Longrightarrow> x + 256 * f < 256 * P" for x f P :: nat by linarith
  show ?case using digit [OF code_of_256 [of c] Cons.IH] by simp
qed simp

lemma char_of_code_add: "char_of (code_of c + 256 * n) = c" for n :: nat
proof -
  have m: "(code_of c + 256 * n) mod 256 = code_of c" using code_of_256 [of c] by simp
  have "(char_of (code_of c + 256 * n) :: char) = char_of ((code_of c + 256 * n) mod 256)"
    by (rule char_of_mod_256 [symmetric])
  then show ?thesis by (simp only: m) simp
qed

lemma le_chars_from: "le_chars (length cs) (from_le cs) = cs"
proof (induction cs)
  case (Cons c cs)
  have "(code_of c + 256 * from_le cs) div 256 = from_le cs" using code_of_256 [of c] by simp
  then show ?case using Cons char_of_code_add by (simp add: le_chars_Suc)
qed (simp add: le_chars_def)

definition htonl :: "32 word \<Rightarrow> 32 word" where
  "htonl w = of_nat (from_le (rev (le_chars 4 (unat w))))"

definition ntohl :: "32 word \<Rightarrow> 32 word" where "ntohl w = htonl w"

lemma unat_htonl: "unat (htonl w) = from_le (rev (le_chars 4 (unat w)))"
proof -
  have "from_le (rev (le_chars 4 (unat w))) < 256 ^ 4"
    using from_le_bound [of "rev (le_chars 4 (unat w))"] by simp
  then show ?thesis by (simp add: htonl_def unat_of_nat)
qed

lemma ntohl_htonl [simp]: "ntohl (htonl w) = w"
proof -
  have "le_chars 4 (unat (htonl w)) = rev (le_chars 4 (unat w))"
    using le_chars_from [of "rev (le_chars 4 (unat w))"] by (simp add: unat_htonl)
  moreover have "unat w < 256 ^ 4" using unsigned_less [of w] by simp
  ultimately have "unat (htonl (htonl w)) = unat w"
    by (simp add: unat_htonl [of "htonl w"] from_le_chars)
  then show ?thesis by (simp add: ntohl_def word_unat_eq_iff)
qed

end
