(* ===== verification/Simclist_Dump.thy ===== *)
theory Simclist_Dump
  imports Simclist_Ops C_Strings
begin

text \<open>
  The dump files of \<open>src/src/common/simclist.c\<close>: \<open>list_dump_filedescriptor\<close>,
  \<open>list_restore_filedescriptor\<close>, \<open>list_dump_getinfo_filedescriptor\<close> and their variants that
  open a file. The elements are pointers to blocks of bytes. \<open>szt\<close> is \<open>sizeof(size_t)\<close> of the
  target, 4 on the box and 8 on the PC of the \<open>Makefile\<close>; both are little-endian.
\<close>

section \<open>Attributes\<close>

text \<open>The attributes the dumps use. A serializer yields a buffer (or \<open>NULL\<close>) and its length.\<close>

record dump_attrs =
  a_meter :: "(char list option \<Rightarrow> nat) option"
  a_hasher :: "(char list option \<Rightarrow> 32 word) option"
  a_serializer :: "(char list option \<Rightarrow> char list option \<times> 32 word) option"
  a_unserializer :: "(char list \<Rightarrow> char list option \<times> 32 word) option"

definition dump_attrs_defaults :: dump_attrs where
  "dump_attrs_defaults = \<lparr>a_meter = None, a_hasher = None, a_serializer = None, a_unserializer = None\<rparr>"

definition list_attributes_hash_computer :: "dump_attrs \<Rightarrow> (char list option \<Rightarrow> 32 word) option \<Rightarrow> dump_attrs" where
  "list_attributes_hash_computer A f = A\<lparr>a_hasher := f\<rparr>"
definition list_attributes_serializer ::
  "dump_attrs \<Rightarrow> (char list option \<Rightarrow> char list option \<times> 32 word) option \<Rightarrow> dump_attrs" where
  "list_attributes_serializer A f = A\<lparr>a_serializer := f\<rparr>"
definition list_attributes_unserializer ::
  "dump_attrs \<Rightarrow> (char list \<Rightarrow> char list option \<times> 32 word) option \<Rightarrow> dump_attrs" where
  "list_attributes_unserializer A f = A\<lparr>a_unserializer := f\<rparr>"

section \<open>Files\<close>

text \<open>
  An open file: its bytes, the offset, and what the operating system does with the \<open>i\<close>-th call
  that transfers \<open>n\<close> bytes: \<open>None\<close> is an error, \<open>Some k\<close> a transfer of at most \<open>k\<close> bytes.
\<close>

record dfile =
  f_bytes :: "char list"
  f_pos :: nat
  f_calls :: nat
  f_io :: "nat \<Rightarrow> nat \<Rightarrow> nat option"
  f_seekable :: bool

definition overwrite :: "char list \<Rightarrow> nat \<Rightarrow> char list \<Rightarrow> char list" where
  "overwrite bs p w = (if w = [] then bs else take p (bs @ replicate p NUL) @ w @ drop (p + length w) bs)"

definition sys_write :: "'z dfile_scheme \<Rightarrow> char list \<Rightarrow> 'z dfile_scheme \<times> nat option" where
  "sys_write f bs = (let g = f\<lparr>f_calls := f_calls f + 1\<rparr> in
     case f_io f (f_calls f) (length bs) of None \<Rightarrow> (g, None)
     | Some k \<Rightarrow> let w = take k bs in
         (g\<lparr>f_bytes := overwrite (f_bytes f) (f_pos f) w, f_pos := f_pos f + length w\<rparr>, Some (length w)))"

definition sys_read :: "'z dfile_scheme \<Rightarrow> nat \<Rightarrow> 'z dfile_scheme \<times> char list option" where
  "sys_read f n = (let g = f\<lparr>f_calls := f_calls f + 1\<rparr> in
     case f_io f (f_calls f) n of None \<Rightarrow> (g, None)
     | Some k \<Rightarrow> let d = take (min k n) (drop (f_pos f) (f_bytes f)) in
         (g\<lparr>f_pos := f_pos f + length d\<rparr>, Some d))"

definition sys_seek :: "'z dfile_scheme \<Rightarrow> int \<Rightarrow> 'z dfile_scheme option" where
  "sys_seek f p = (if f_seekable f \<and> p \<ge> 0 then Some (f\<lparr>f_pos := nat p\<rparr>) else None)"

text \<open>A step that may \<open>return -1\<close> from the function it is in: the state, and \<open>None\<close> if it did.\<close>

type_synonym ('s, 'a) step = "('s \<times> 'a option) res"

definition io_bind :: "('s, 'a) step \<Rightarrow> ('s \<Rightarrow> 'a \<Rightarrow> ('s, 'b) step) \<Rightarrow> ('s, 'b) step" where
  "io_bind m g = bind m (\<lambda>(s, r). case r of None \<Rightarrow> Inr (s, None) | Some x \<Rightarrow> g s x)"

text \<open>
  \<open>WRITE_ERRCHECK(fd, p, n)\<close>: only an error is noticed, a short write is not. Writing from
  \<open>NULL\<close> is the error \<open>EFAULT\<close>.
\<close>

definition WRITE_ERRCHECK :: "'z dfile_scheme \<Rightarrow> char list option \<Rightarrow> nat \<Rightarrow> ('z dfile_scheme, unit) step" where
  "WRITE_ERRCHECK f p n = (case p of
       None \<Rightarrow> Inr (f, if n = 0 then Some () else None)
     | Some b \<Rightarrow> bind (rd_block b 0 n) (\<lambda>bs. case sys_write f bs of (f, r) \<Rightarrow> Inr (f, map_option (\<lambda>_. ()) r)))"

text \<open>
  \<open>READ_ERRCHECK(fd, buf, n)\<close> compares the result with \<open>n\<close>; where both have 32 bits, the error
  \<open>-1\<close> equals \<open>0xFFFFFFFF\<close>, and the buffer is used without having been read.
\<close>

definition READ_ERRCHECK :: "nat \<Rightarrow> 'z dfile_scheme \<Rightarrow> nat \<Rightarrow> ('z dfile_scheme, char list) step" where
  "READ_ERRCHECK szt f n = (case sys_read f n of
       (f, None) \<Rightarrow> if szt = 4 \<and> n = 2 ^ 32 - 1 then Inl Undefined else Inr (f, None)
     | (f, Some d) \<Rightarrow> Inr (f, if length d = n then Some d else None))"

section \<open>Integers in a dump\<close>

definition htons :: "16 word \<Rightarrow> 16 word" where
  "htons w = of_nat (from_le (rev (le_chars 2 (unat w))))"

definition hton64 :: "64 word \<Rightarrow> 64 word" where
  "hton64 x = (if htons 1 = 1 then x else
     drop_bit 56 (x AND 0xff00000000000000) OR drop_bit 40 (x AND 0x00ff000000000000) OR
     drop_bit 24 (x AND 0x0000ff0000000000) OR drop_bit 8 (x AND 0x000000ff00000000) OR
     push_bit 8 (x AND 0x00000000ff000000) OR push_bit 24 (x AND 0x0000000000ff0000) OR
     push_bit 40 (x AND 0x000000000000ff00) OR push_bit 56 (x AND 0x00000000000000ff))"

definition bytes_of :: "nat \<Rightarrow> 'w::len word \<Rightarrow> char list" where
  "bytes_of k w = le_chars k (unat w)"

definition word_of :: "char list \<Rightarrow> 'w::len word" where
  "word_of cs = of_nat (from_le cs)"

definition SIMCLIST_DUMPFORMAT_VERSION :: "16 word" where "SIMCLIST_DUMPFORMAT_VERSION = 1"
definition SIMCLIST_DUMPFORMAT_HEADERLEN :: nat where "SIMCLIST_DUMPFORMAT_HEADERLEN = 30"

text \<open>\<open>sizeof(struct list_dump_header_s)\<close>, with its padding.\<close>

definition sizeof_header :: nat where "sizeof_header = 40"

section \<open>Dumping\<close>

text \<open>\<open>WRITE_ERRCHECK(fd, &bufsize, sizeof(size_t))\<close>, of a variable of four bytes.\<close>

definition write_size :: "nat \<Rightarrow> 'z dfile_scheme \<Rightarrow> 32 word \<Rightarrow> ('z dfile_scheme, unit) step" where
  "write_size szt f bufsize = WRITE_ERRCHECK f (Some (bytes_of 4 bufsize)) szt"

text \<open>
  The two loops over the elements: \<open>block\<close> yields the bytes of an element and their number, and
  only the loop with a serializer seeks back (\<open>back\<close>) when it finds that the lengths differ.
\<close>

primrec dump_loop :: "nat \<Rightarrow> nat \<Rightarrow> 'z dfile_scheme \<Rightarrow> (char list, 'k) list_t \<Rightarrow> (char list option \<Rightarrow> char list option \<times> 32 word)
    \<Rightarrow> bool \<Rightarrow> 32 word \<Rightarrow> 32 word \<Rightarrow> nat option \<Rightarrow> ('z dfile_scheme, 32 word \<times> 32 word) step" where
  "dump_loop 0 szt f l block back elemlen tot x = Inl Diverges"
| "dump_loop (Suc fuel) szt f l block back elemlen tot x =
     (if x = Some (l_tail l) then Inr (f, Some (elemlen, tot))
      else bind (deref l x) (\<lambda>e. case block (e_data e) of (buf, bufsize) \<Rightarrow>
        let tot = tot + bufsize in
        if elemlen \<noteq> 0 then
          if elemlen \<noteq> bufsize then
            case (if back then sys_seek f (int SIMCLIST_DUMPFORMAT_HEADERLEN) else Some f) of
              None \<Rightarrow> Inr (f, None)
            | Some f \<Rightarrow> bind (first_entry l) (\<lambda>x. dump_loop fuel szt f l block back 0 0 x)
          else io_bind (WRITE_ERRCHECK f buf (unat bufsize)) (\<lambda>f _.
            dump_loop fuel szt f l block back elemlen tot (e_next e))
        else io_bind (write_size szt f bufsize) (\<lambda>f _.
          io_bind (WRITE_ERRCHECK f buf (unat bufsize)) (\<lambda>f _.
            dump_loop fuel szt f l block back elemlen tot (e_next e)))))"

definition meter_block :: "(char list option \<Rightarrow> nat) \<Rightarrow> char list option \<Rightarrow> char list option \<times> 32 word" where
  "meter_block meter d = (d, u32 (meter d))"

text \<open>The content: the lengths are tried as constant, starting with that of the first element.\<close>

definition dump_content :: "nat \<Rightarrow> dump_attrs \<Rightarrow> (char list, 'k) list_t \<Rightarrow> 'z dfile_scheme
    \<Rightarrow> ('z dfile_scheme, 32 word \<times> 32 word) step" where
  "dump_content szt A l f =
     (case (case a_serializer A of Some s \<Rightarrow> Some (s, True) | None \<Rightarrow> map_option (\<lambda>m. (meter_block m, False)) (a_meter A)) of
        None \<Rightarrow> Inr (f, Some (0, 0))
      | Some (block, back) \<Rightarrow> bind (first_entry l) (\<lambda>x. bind (deref l x) (\<lambda>e.
          dump_loop (2 * loop_fuel l) szt f l block back (snd (block (e_data e))) 0 x)))"

primrec write_fields :: "'z dfile_scheme \<Rightarrow> char list list \<Rightarrow> ('z dfile_scheme, unit) step" where
  "write_fields f [] = Inr (f, Some ())"
| "write_fields f (b # bs) = io_bind (WRITE_ERRCHECK f (Some b) (length b)) (\<lambda>f _. write_fields f bs)"

definition header_fields :: "64 word \<Rightarrow> 32 word \<Rightarrow> 32 word \<Rightarrow> 32 word \<Rightarrow> 32 word \<Rightarrow> 32 word \<Rightarrow> char list list" where
  "header_fields timestamp rndterm totlistlen numels elemlen listhash =
     [bytes_of 2 (htons SIMCLIST_DUMPFORMAT_VERSION), bytes_of 8 timestamp, bytes_of 4 rndterm, bytes_of 4 totlistlen,
      bytes_of 4 numels, bytes_of 4 elemlen, bytes_of 4 listhash]"

text \<open>
  \<open>now\<close> is the time in microseconds, \<open>rnd\<close> the random number, \<open>junk\<close> what the header on the
  stack held where the hash is computed. The result is \<open>*len\<close>.
\<close>

definition list_dump_filedescriptor :: "nat \<Rightarrow> dump_attrs \<Rightarrow> 64 word \<Rightarrow> 32 word \<Rightarrow> 32 word \<Rightarrow> (char list, 'k) list_t
    \<Rightarrow> 'z dfile_scheme \<Rightarrow> ('z dfile_scheme, nat) step" where
  "list_dump_filedescriptor szt A now rnd junk l f =
     (if a_meter A = None \<and> a_serializer A = None then Inr (f, None)
      else bind (case a_hasher A of None \<Rightarrow> Inr (htonl 0, 0) | Some h \<Rightarrow> list_hash l (Some h) junk) (\<lambda>(listhash, r).
        if htonl (of_int r) \<noteq> 0 then Inr (f, None)
        else case sys_seek f (int SIMCLIST_DUMPFORMAT_HEADERLEN) of None \<Rightarrow> Inr (f, None)
        | Some f \<Rightarrow>
          io_bind (if l_numels l > 0 then dump_content szt A l f else Inr (f, Some (0, 0))) (\<lambda>f (elemlen, totlistlen).
          let rndterm = htonl rnd in
          io_bind (WRITE_ERRCHECK f (Some (bytes_of 4 rndterm)) 4) (\<lambda>f _.
          let f = (case sys_seek f 0 of None \<Rightarrow> f | Some f \<Rightarrow> f) in
          io_bind (write_fields f (header_fields (hton64 now) rndterm (htonl totlistlen) (htonl (u32 (l_numels l)))
            (htonl elemlen) listhash)) (\<lambda>f _.
              Inr (f, Some ((sizeof_header + unat totlistlen) mod 2 ^ (8 * szt))))))))"

text \<open>\<open>opened\<close> is what \<open>open\<close> with \<open>O_TRUNC\<close> returns.\<close>

definition list_dump_file :: "nat \<Rightarrow> dump_attrs \<Rightarrow> 64 word \<Rightarrow> 32 word \<Rightarrow> 32 word \<Rightarrow> (char list, 'k) list_t
    \<Rightarrow> dfile option \<Rightarrow> (dfile option, nat) step" where
  "list_dump_file szt A now rnd junk l opened = (case opened of None \<Rightarrow> Inr (None, None)
     | Some f \<Rightarrow> bind (list_dump_filedescriptor szt A now rnd junk l f) (\<lambda>(f, r). Inr (Some f, r)))"

section \<open>Restoring\<close>

text \<open>The state of a restore: the file and the list that is filled.\<close>

record 'k restore = dfile + r_list :: "(char list, 'k) list_t"

definition read_word :: "nat \<Rightarrow> 'z dfile_scheme \<Rightarrow> nat \<Rightarrow> ('z dfile_scheme, 'w::len word) step" where
  "read_word szt f k = io_bind (READ_ERRCHECK szt f k) (\<lambda>f bs. Inr (f, Some (word_of bs)))"

text \<open>
  The four loops: \<open>elemlen\<close> is 0 for elements that are preceded by their size, \<open>alloc i\<close> says
  whether \<open>list_append\<close> gets memory for the entry when \<open>i\<close> are still to come (its result is not
  looked at).
\<close>

primrec restore_loop :: "nat \<Rightarrow> nat \<Rightarrow> (nat \<Rightarrow> bool) \<Rightarrow> (char list \<Rightarrow> char list option \<times> 32 word) option \<Rightarrow> 32 word
    \<Rightarrow> 'k restore \<Rightarrow> 32 word \<Rightarrow> 32 word \<Rightarrow> ('k restore, 32 word \<times> 32 word) step" where
  "restore_loop 0 szt alloc unser elemlen f totread totmem = Inr (f, Some (totread, totmem))"
| "restore_loop (Suc n) szt alloc unser elemlen f totread totmem =
     io_bind (if elemlen > 0 then Inr (f, Some elemlen) else read_word szt f 4) (\<lambda>f elsize.
     io_bind (READ_ERRCHECK szt f (unat elsize)) (\<lambda>f buf.
       case (case unser of Some u \<Rightarrow> u buf | None \<Rightarrow> (Some buf, 0)) of (d, bytes) \<Rightarrow>
       bind (list_append (alloc n) (r_list f) d) (\<lambda>(l, _).
         restore_loop n szt alloc unser elemlen (f\<lparr>r_list := l\<rparr>) (totread + elsize) (totmem + bytes))))"

definition list_restore_filedescriptor :: "nat \<Rightarrow> (nat \<Rightarrow> bool) \<Rightarrow> dump_attrs \<Rightarrow> 'k restore \<Rightarrow> ('k restore, nat) step" where
  "list_restore_filedescriptor szt alloc A f =
     io_bind (read_word szt f 2) (\<lambda>f ver.
     if htons ver \<noteq> SIMCLIST_DUMPFORMAT_VERSION then Inr (f, None)
     else
     io_bind (READ_ERRCHECK szt f 8) (\<lambda>f _.
     io_bind (read_word szt f 4) (\<lambda>f rndterm.
     io_bind (read_word szt f 4) (\<lambda>f totlistlen.
     io_bind (read_word szt f 4) (\<lambda>f numels.
     io_bind (read_word szt f 4) (\<lambda>f elemlen.
     io_bind (READ_ERRCHECK szt f 4) (\<lambda>f _.
     let numels = ntohl numels; elemlen = ntohl elemlen in
     io_bind (restore_loop (unat numels) szt alloc (a_unserializer A) elemlen f 0 0) (\<lambda>f (sizes, memory).
     let totreadlen = (if elemlen > 0 then numels * elemlen else sizes);
         totmemorylen = (if a_unserializer A = None then totreadlen else memory) in
     io_bind (read_word szt f 4) (\<lambda>f elsize.
     if totreadlen \<noteq> ntohl totlistlen \<and> ntohl elsize = ntohl rndterm then Inr (f, None)
     else if f_seekable f \<and> f_pos f \<noteq> length (f_bytes f) then Inr (f\<lparr>f_pos := length (f_bytes f)\<rparr>, None)
     else Inr (f, Some (unat totmemorylen)))))))))))"

definition list_restore_file :: "nat \<Rightarrow> (nat \<Rightarrow> bool) \<Rightarrow> dump_attrs \<Rightarrow> (char list, 'k) list_t \<Rightarrow> dfile option
    \<Rightarrow> ((char list, 'k) list_t, nat) step" where
  "list_restore_file szt alloc A l opened = (case opened of None \<Rightarrow> Inr (l, None)
     | Some f \<Rightarrow> bind (list_restore_filedescriptor szt alloc A (dfile.extend f \<lparr>r_list = l\<rparr>)) (\<lambda>(f, r). Inr (r_list f, r)))"

section \<open>Information on a dump\<close>

text \<open>\<open>dumpsize\<close> is never set.\<close>

record list_dump_info_t =
  i_version :: "16 word"
  i_timestamp :: "64 word"
  i_list_size :: "32 word"
  i_list_numels :: "32 word"
  i_list_hash :: "32 word"
  i_consistent :: bool

text \<open>\<open>off_t\<close> is signed and as wide as \<open>size_t\<close>.\<close>

definition list_dump_getinfo_filedescriptor :: "nat \<Rightarrow> 'z dfile_scheme \<Rightarrow> ('z dfile_scheme, list_dump_info_t) step" where
  "list_dump_getinfo_filedescriptor szt f =
     io_bind (read_word szt f 2) (\<lambda>f ver.
     if htons ver > SIMCLIST_DUMPFORMAT_VERSION then Inr (f, None)
     else
     io_bind (read_word szt f 8) (\<lambda>f timestamp.
     io_bind (read_word szt f 4) (\<lambda>f head.
     io_bind (read_word szt f 4) (\<lambda>f list_size.
     io_bind (read_word szt f 4) (\<lambda>f numels.
     io_bind (read_word szt f 4) (\<lambda>f elemlen.
     io_bind (read_word szt f 4) (\<lambda>f hash.
     let lsize = ntohl list_size; n = ntohl numels; e = ntohl elemlen;
         hop = (if e > 0 then lsize else lsize + e * n) in
     case sys_seek f (int (f_pos f) + (if szt = 4 then sint hop else uint hop)) of None \<Rightarrow> Inr (f, None)
     | Some f \<Rightarrow>
       io_bind (read_word szt f 4) (\<lambda>f tail.
         Inr (f, Some \<lparr>i_version = htons ver, i_timestamp = hton64 timestamp, i_list_size = lsize, i_list_numels = n,
           i_list_hash = ntohl hash, i_consistent = (ntohl head = ntohl tail)\<rparr>)))))))))"

definition list_dump_getinfo_file :: "nat \<Rightarrow> dfile option \<Rightarrow> list_dump_info_t option res" where
  "list_dump_getinfo_file szt opened = (case opened of None \<Rightarrow> Inr None
     | Some f \<Rightarrow> bind (list_dump_getinfo_filedescriptor szt f) (\<lambda>(f, r). Inr r))"

section \<open>Ready-made attributes\<close>

text \<open>
  \<open>SIMCLIST_METER\<close> and \<open>SIMCLIST_HASHCOMPUTER\<close> for the integer types, by their size and by the
  number the element holds; the functions for strings take the contents of the string. \<open>plus\<close> is
  a \<open>char\<close>, unsigned on the box; the sums and shifts wrap.
\<close>

definition list_meter_number :: "nat \<Rightarrow> nat" where "list_meter_number sizeof_type = sizeof_type"

definition list_meter_string :: "char list \<Rightarrow> nat" where "list_meter_string s = length s + 1"

definition list_hashcomputer_number :: "int \<Rightarrow> 32 word" where "list_hashcomputer_number n = of_int n"

primrec hash_chars :: "char \<Rightarrow> char list \<Rightarrow> nat \<Rightarrow> 32 word \<Rightarrow> 32 word" where
  "hash_chars c0 [] l hash = hash"
| "hash_chars c0 (c # cs) l hash =
     (let plus = (if l \<noteq> 0 then take_bit 8 (hash XOR of_nat (code_of c))
                  else take_bit 8 (hash XOR (of_nat (code_of c) - of_nat (code_of c0))))
      in hash_chars c0 cs (l + 1) (hash + push_bit (8 * (l mod 4)) plus))"

definition list_hashcomputer_string :: "char list \<Rightarrow> 32 word" where
  "list_hashcomputer_string str = hash_chars (hd (str @ [NUL])) str 0 123"

end
