(* ===== verification/Simclist_Dumped.thy ===== *)
theory Simclist_Dumped
  imports Simclist_Dump Simclist_Spec
begin

text \<open>
  What a dump of \<open>simclist.c\<close> holds, and that restoring it yields the elements again: the file as
  a sequence of bytes, written and read to its end by system calls that succeed.
\<close>

section \<open>Steps\<close>

lemma io_bind_simps [simp]:
  "io_bind (Inl e) g = Inl e" "io_bind (Inr (s, None)) g = Inr (s, None)" "io_bind (Inr (s, Some x)) g = g s x"
  by (simp_all add: io_bind_def)

definition reliable :: "'z dfile_scheme \<Rightarrow> bool" where
  "reliable f \<longleftrightarrow> f_seekable f \<and> (\<forall>i n. f_io f i n = Some n)"

section \<open>Writing\<close>

definition wrote :: "'z dfile_scheme \<Rightarrow> char list \<Rightarrow> 'z dfile_scheme" where
  "wrote f w = f\<lparr>f_calls := f_calls f + 1, f_bytes := overwrite (f_bytes f) (f_pos f) w, f_pos := f_pos f + length w\<rparr>"

lemma WRITE_rel: "reliable f \<Longrightarrow> n \<le> length b \<Longrightarrow> WRITE_ERRCHECK f (Some b) n = Inr (wrote f (take n b), Some ())"
  by (simp add: WRITE_ERRCHECK_def sys_write_def reliable_def wrote_def Let_def)

text \<open>What the file holds before the offset, a hole being zeros.\<close>

definition before :: "'z dfile_scheme \<Rightarrow> char list" where
  "before f = take (f_pos f) (f_bytes f @ replicate (f_pos f) NUL)"

lemma length_before [simp]: "length (before f) = f_pos f"
  by (simp add: before_def)

definition appended :: "'z dfile_scheme \<Rightarrow> char list \<Rightarrow> 'z dfile_scheme \<Rightarrow> bool" where
  "appended f c g \<longleftrightarrow> reliable g \<and> f_pos g = f_pos f + length c \<and> before g = before f @ c \<and>
     drop (f_pos g) (f_bytes g) = drop (f_pos g) (f_bytes f) \<and>
     length (f_bytes f) \<le> length (f_bytes g) \<and> length (f_bytes g) \<le> max (length (f_bytes f)) (f_pos g) \<and>
     (c \<noteq> [] \<longrightarrow> f_pos g \<le> length (f_bytes g))"

lemma appendedD:
  assumes "appended f c g"
  shows "reliable g" "f_pos g = f_pos f + length c" "before g = before f @ c"
    "drop (f_pos g) (f_bytes g) = drop (f_pos g) (f_bytes f)"
    "length (f_bytes f) \<le> length (f_bytes g)" "length (f_bytes g) \<le> max (length (f_bytes f)) (f_pos g)"
    "c \<noteq> [] \<Longrightarrow> f_pos g \<le> length (f_bytes g)"
  using assms unfolding appended_def by blast+

lemma appended_refl: "reliable f \<Longrightarrow> appended f [] f"
  by (simp add: appended_def)

lemma appended_trans:
  assumes "appended f c g" "appended g d h"
  shows "appended f (c @ d) h"
proof -
  note F = appendedD [OF assms(1)] and G = appendedD [OF assms(2)]
  have "drop (f_pos h) (f_bytes h) = drop (length d) (drop (f_pos g) (f_bytes g))" using G(2,4) by (simp add: add.commute)
  also have "\<dots> = drop (f_pos h) (f_bytes f)" unfolding F(4) using G(2) by (simp add: add.commute)
  finally have "drop (f_pos h) (f_bytes h) = drop (f_pos h) (f_bytes f)" .
  moreover have "f_pos h \<le> length (f_bytes h)" if "c @ d \<noteq> []"
    using that F(2,5,7) G(2,5,7) by (cases "d = []") auto
  ultimately show ?thesis using F(2,3,5,6) G(1,2,3,5,6) unfolding appended_def by auto
qed

lemma wrote_bytes:
  assumes "w \<noteq> []"
  shows "f_bytes (wrote f w) = before f @ w @ drop (f_pos f + length w) (f_bytes f)"
  using assms by (simp add: wrote_def overwrite_def before_def)

lemma appended_wrote:
  assumes "reliable f"
  shows "appended f w (wrote f w)"
proof (cases "w = []")
  case True
  then show ?thesis using assms by (simp add: appended_def wrote_def overwrite_def before_def reliable_def)
next
  case False
  have p: "f_pos (wrote f w) = f_pos f + length w" by (simp add: wrote_def)
  have "reliable (wrote f w)" using assms by (simp add: wrote_def reliable_def)
  then show ?thesis unfolding appended_def before_def [of "wrote f w"] p wrote_bytes [OF False] using False by auto
qed

section \<open>The loops\<close>

definition sized :: "char list \<Rightarrow> char list" where
  "sized e = le_chars 4 (length e) @ e"

text \<open>\<open>block\<close> yields the encoding \<open>enc x\<close> of every element.\<close>

definition encodes :: "(char list option \<Rightarrow> char list option \<times> 32 word) \<Rightarrow> (char list option \<Rightarrow> char list) \<Rightarrow> char list option list \<Rightarrow> bool" where
  "encodes block enc xs \<longleftrightarrow> (\<forall>x \<in> set xs. block x = (Some (enc x), of_nat (length (enc x))) \<and> length (enc x) < 2 ^ 32)"

lemma unat_len: "n < 2 ^ 32 \<Longrightarrow> unat (of_nat n :: 32 word) = n"
  by (simp add: unat_of_nat)

lemma bytes_of_len: "n < 2 ^ 32 \<Longrightarrow> bytes_of 4 (of_nat n :: 32 word) = le_chars 4 n"
  by (simp add: bytes_of_def unat_len)

lemma of_nat_inj32: "m < 2 ^ 32 \<Longrightarrow> n < 2 ^ 32 \<Longrightarrow> (of_nat m :: 32 word) = of_nat n \<longleftrightarrow> m = n"
  using unat_len by metis

text \<open>An element of the expected length.\<close>

lemma fixed_turn:
  assumes "linked l ns xs" "i < length xs" "encodes block enc xs" "reliable f" "0 < k" "k < 2 ^ 32" "length (enc (xs ! i)) = k"
  shows "dump_loop (Suc fuel) szt f l block back (of_nat k) tot (Some (ns ! Suc i)) =
    dump_loop fuel szt (wrote f (enc (xs ! i))) l block back (of_nat k) (tot + of_nat k) (Some (ns ! Suc (Suc i)))"
proof -
  have b: "block (xs ! i) = (Some (enc (xs ! i)), of_nat k)" using assms(2,3,7) by (auto simp: encodes_def)
  have nz: "(of_nat k :: 32 word) \<noteq> 0" using of_nat_inj32 [OF assms(6), of 0] assms(5) by simp
  show ?thesis
    using assms(1,2,4,7) tail_nth [OF assms(1), of i] linked_deref [OF assms(1), of "Suc i"] linkedD(1) [OF assms(1)] nz
    by (simp add: b WRITE_rel unat_len [OF assms(6)])
qed

text \<open>An element in the format with sizes.\<close>

lemma sized_turn:
  assumes "linked l ns xs" "i < length xs" "encodes block enc xs" "reliable f" "szt = 4"
  shows "dump_loop (Suc fuel) szt f l block back 0 tot (Some (ns ! Suc i)) =
    dump_loop fuel szt (wrote (wrote f (le_chars 4 (length (enc (xs ! i))))) (enc (xs ! i))) l block back 0
      (tot + of_nat (length (enc (xs ! i)))) (Some (ns ! Suc (Suc i)))"
proof -
  let ?k = "length (enc (xs ! i))"
  have b: "block (xs ! i) = (Some (enc (xs ! i)), of_nat ?k)" "?k < 2 ^ 32" using assms(2,3) by (auto simp: encodes_def)
  have r: "reliable (wrote f c)" for c by (rule appendedD(1) [OF appended_wrote [OF assms(4)]])
  show ?thesis
    using assms(1,2,4) tail_nth [OF assms(1), of i] linked_deref [OF assms(1), of "Suc i"] linkedD(1) [OF assms(1)]
    by (simp add: b WRITE_rel r unat_len [OF b(2)] bytes_of_len [OF b(2)] write_size_def assms(5))
qed

lemma loop_end:
  "linked l ns xs \<Longrightarrow> dump_loop (Suc fuel) szt f l block back el tot (Some (ns ! Suc (length xs))) = Inr (f, Some (el, tot))"
  using tail_nth [of l ns xs "length xs"] by simp

lemma fixed_loop:
  assumes L: "linked l ns xs" and E: "encodes block enc xs" and k: "0 < k" "k < 2 ^ 32"
  shows "i \<le> j \<Longrightarrow> j \<le> length xs \<Longrightarrow> reliable f \<Longrightarrow> \<forall>m \<in> {i ..< j}. length (enc (xs ! m)) = k \<Longrightarrow>
    \<exists>g. appended f (concat (map enc (take (j - i) (drop i xs)))) g \<and>
      dump_loop (j - i + fuel) szt f l block back (of_nat k) tot (Some (ns ! Suc i)) =
      dump_loop fuel szt g l block back (of_nat k) (tot + of_nat ((j - i) * k)) (Some (ns ! Suc j))"
proof (induction "j - i" arbitrary: i f tot)
  case 0
  then show ?case using appended_refl [OF 0(4)] by (intro exI [of _ f]) simp
next
  case (Suc d)
  let ?e = "enc (xs ! i)"
  have i: "i < j" "i < length xs" "length ?e = k" using Suc.hyps(2) Suc.prems by auto
  note A = appended_wrote [OF Suc.prems(3), of ?e]
  have d: "d = j - Suc i" using Suc.hyps(2) by simp
  from Suc.hyps(1) [OF d _ Suc.prems(2) appendedD(1) [OF A], of "tot + of_nat k"] i Suc.prems(4) obtain g where
    g: "appended (wrote f ?e) (concat (map enc (take d (drop (Suc i) xs)))) g"
    "dump_loop (d + fuel) szt (wrote f ?e) l block back (of_nat k) (tot + of_nat k) (Some (ns ! Suc (Suc i))) =
      dump_loop fuel szt g l block back (of_nat k) (tot + of_nat k + of_nat (d * k)) (Some (ns ! Suc j))" unfolding d by auto
  have "appended f (concat (map enc (take (j - i) (drop i xs)))) g"
    using appended_trans [OF A g(1)] by (simp add: Suc.hyps(2) [symmetric] Cons_nth_drop_Suc [OF i(2), symmetric])
  then show ?case using fixed_turn [OF L i(2) E Suc.prems(3) k i(3), of "d + fuel" szt "back" tot] g(2)
    by (intro exI [of _ g]) (simp add: Suc.hyps(2) [symmetric] algebra_simps)
qed

lemma sized_loop:
  assumes L: "linked l ns xs" and E: "encodes block enc xs" and "szt = 4"
  shows "i \<le> length xs \<Longrightarrow> reliable f \<Longrightarrow> length xs - i < fuel \<Longrightarrow>
    \<exists>g. appended f (concat (map (\<lambda>x. sized (enc x)) (drop i xs))) g \<and>
      dump_loop fuel szt f l block back 0 tot (Some (ns ! Suc i)) =
      Inr (g, Some (0, tot + of_nat (sum_list (map (\<lambda>x. length (enc x)) (drop i xs)))))"
proof (induction fuel arbitrary: i f tot)
  case (Suc fuel)
  show ?case
  proof (cases "i = length xs")
    case True
    then show ?thesis using appended_refl [OF Suc.prems(2)]
      by (intro exI [of _ f]) (simp add: loop_end [OF L] del: dump_loop.simps)
  next
    case False
    then have i: "i < length xs" using Suc.prems(1) by simp
    let ?e = "enc (xs ! i)" and ?s = "le_chars 4 (length (enc (xs ! i)))"
    note A = appended_wrote [OF Suc.prems(2), of ?s]
    note A2 = appended_trans [OF A appended_wrote [OF appendedD(1) [OF A], of ?e]]
    have "length xs - Suc i < fuel" using Suc.prems(3) i by linarith
    from Suc.IH [OF _ appendedD(1) [OF A2] this, of "tot + of_nat (length ?e)"] i obtain g where
      g: "appended (wrote (wrote f ?s) ?e) (concat (map (\<lambda>x. sized (enc x)) (drop (Suc i) xs))) g"
      "dump_loop fuel szt (wrote (wrote f ?s) ?e) l block back 0 (tot + of_nat (length ?e)) (Some (ns ! Suc (Suc i))) =
       Inr (g, Some (0, tot + of_nat (length ?e) + of_nat (sum_list (map (\<lambda>x. length (enc x)) (drop (Suc i) xs)))))" by auto
    have "appended f (concat (map (\<lambda>x. sized (enc x)) (drop i xs))) g"
      using appended_trans [OF A2 g(1)] by (simp add: sized_def Cons_nth_drop_Suc [OF i, symmetric])
    then show ?thesis using sized_turn [OF L i E Suc.prems(2) assms(3), of fuel "back" tot] g(2)
      by (intro exI [of _ g]) (simp add: Cons_nth_drop_Suc [OF i, symmetric] algebra_simps)
  qed
qed simp

text \<open>The content of a dump: elements of one length in a row, others each with its size.\<close>

definition uniform :: "char list list \<Rightarrow> bool" where
  "uniform es \<longleftrightarrow> (\<forall>e \<in> set es. length e = length (hd es)) \<and> (es \<noteq> [] \<longrightarrow> hd es \<noteq> [])"

definition elemlen_of :: "char list list \<Rightarrow> nat" where
  "elemlen_of es = (if es \<noteq> [] \<and> uniform es then length (hd es) else 0)"

definition content :: "char list list \<Rightarrow> char list" where
  "content es = (if uniform es then concat es else concat (map sized es))"

text \<open>What is written before the first element whose length is not that of the first.\<close>

definition false_start :: "char list list \<Rightarrow> char list" where
  "false_start es = (if hd es = [] then [] else concat (takeWhile (\<lambda>e. length e = length (hd es)) es))"

definition sum_len :: "char list list \<Rightarrow> nat" where "sum_len es = sum_list (map length es)"

lemma sum_len_const: "\<forall>x \<in> set xs. length (enc x) = k \<Longrightarrow> sum_len (map enc xs) = length xs * k"
  by (induction xs) (simp_all add: sum_len_def)

lemma dump_uniform:
  assumes L: "linked l ns xs" and E: "encodes block enc xs" and "xs \<noteq> []" "uniform (map enc xs)" "reliable f" "length xs < fuel"
  shows "\<exists>g. appended f (concat (map enc xs)) g \<and> dump_loop fuel szt f l block back (of_nat (length (enc (hd xs)))) 0 (Some (ns ! 1)) =
    Inr (g, Some (of_nat (length (enc (hd xs))), of_nat (sum_len (map enc xs))))"
proof -
  let ?k = "length (enc (hd xs))" and ?n = "length xs"
  have h: "\<forall>e \<in> set (map enc xs). length e = length (hd (map enc xs))" "hd (map enc xs) \<noteq> []"
    using assms(3,4) unfolding uniform_def by blast+
  have len: "\<forall>x \<in> set xs. length (enc x) = ?k"
    using h(1) unfolding hd_map [OF assms(3)] set_map by blast
  have k1: "0 < ?k" using h(2) unfolding hd_map [OF assms(3)] by blast
  have k2: "?k < 2 ^ 32" using E hd_in_set [OF assms(3)] unfolding encodes_def by blast
  note k = k1 k2
  have "\<forall>m \<in> {0 ..< ?n}. length (enc (xs ! m)) = ?k" using len by simp
  from fixed_loop [OF L E k le0 order_refl assms(5) this, of "fuel - ?n" szt "back" 0] assms(6) obtain g where
    g: "appended f (concat (map enc xs)) g" "dump_loop fuel szt f l block back (of_nat ?k) 0 (Some (ns ! Suc 0)) =
      dump_loop (fuel - ?n) szt g l block back (of_nat ?k) (of_nat (?n * ?k)) (Some (ns ! Suc ?n))" by auto
  have "sum_len (map enc xs) = ?n * ?k"
    by (rule sum_len_const [OF len])
  moreover obtain u where "fuel - ?n = Suc u" using assms(6) by (cases "fuel - ?n") auto
  ultimately show ?thesis using g loop_end [OF L, of u szt g block "back"] by (intro exI [of _ g]) simp
qed

lemma false_start_turn:
  assumes L: "linked l ns xs" and E: "encodes block enc xs" and j: "j < length xs" "length (enc (xs ! j)) \<noteq> k" and k: "0 < k" "k < 2 ^ 32"
    and r: "reliable g"
  shows "dump_loop (Suc fuel) szt g l block back (of_nat k) tot (Some (ns ! Suc j)) =
    dump_loop fuel szt (if back then g\<lparr>f_pos := SIMCLIST_DUMPFORMAT_HEADERLEN\<rparr> else g) l block back 0 0 (Some (ns ! 1))"
proof -
  have b: "block (xs ! j) = (Some (enc (xs ! j)), of_nat (length (enc (xs ! j))))" "length (enc (xs ! j)) < 2 ^ 32"
    using E j(1) by (auto simp: encodes_def)
  have ne: "(of_nat k :: 32 word) \<noteq> of_nat (length (enc (xs ! j)))" "(of_nat k :: 32 word) \<noteq> 0"
    using of_nat_inj32 [OF k(2) b(2)] of_nat_inj32 [OF k(2), of 0] j(2) k(1) by auto
  show ?thesis using tail_nth [OF L, of j] linked_deref [OF L, of "Suc j"] linkedD(1) [OF L] j(1) r ne
    by (simp add: b(1) first_entry_rep [OF L] sys_seek_def reliable_def)
qed

lemma dump_false_start:
  assumes L: "linked l ns xs" and E: "encodes block enc xs" and "xs \<noteq> []" "\<not> uniform (map enc xs)" "reliable f" "2 * length xs + 2 \<le> fuel"
  obtains g u where "appended f (false_start (map enc xs)) g" "length xs < u"
    "dump_loop fuel szt f l block back (of_nat (length (enc (hd xs)))) 0 (Some (ns ! 1)) =
     dump_loop u szt (if back \<and> enc (hd xs) \<noteq> [] then g\<lparr>f_pos := SIMCLIST_DUMPFORMAT_HEADERLEN\<rparr> else g) l block back 0 0 (Some (ns ! 1))"
proof (cases "enc (hd xs) = []")
  case True
  then show ?thesis using that [of f fuel] appended_refl [OF assms(5)] assms(3,6) by (simp add: false_start_def hd_map del: dump_loop.simps)
next
  case False
  let ?k = "length (enc (hd xs))" and ?P = "\<lambda>x. length (enc x) = length (enc (hd xs))"
  let ?j = "length (takeWhile ?P xs)"
  have k: "0 < ?k" "?k < 2 ^ 32" using False assms(3) E by (auto simp: encodes_def)
  have "\<exists>x \<in> set xs. \<not> ?P x" using assms(3,4) False by (auto simp: uniform_def hd_map)
  then have "takeWhile ?P xs \<noteq> xs" unfolding takeWhile_eq_all_conv by blast
  moreover have "?j = length xs \<longrightarrow> takeWhile ?P xs = xs" using takeWhile_eq_take [of ?P xs] take_all [OF order_refl, of xs] by metis
  ultimately have j: "?j < length xs" using length_takeWhile_le [of ?P xs] by linarith
  have pre: "\<forall>m \<in> {0 ..< ?j}. length (enc (xs ! m)) = ?k"
  proof
    fix m assume "m \<in> {0 ..< ?j}"
    then have "takeWhile ?P xs ! m \<in> set (takeWhile ?P xs)" "takeWhile ?P xs ! m = xs ! m"
      by (intro nth_mem takeWhile_nth; simp)+
    then show "length (enc (xs ! m)) = ?k" using set_takeWhileD by metis
  qed
  obtain u where u: "fuel = ?j + Suc u" "length xs < u" using assms(6) j by (intro that [of "fuel - ?j - 1"]) linarith+
  from fixed_loop [OF L E k le0 less_imp_le [OF j] assms(5) pre, of "Suc u" szt "back" 0] obtain g where
    g: "appended f (concat (map enc (takeWhile ?P xs))) g" "dump_loop fuel szt f l block back (of_nat ?k) 0 (Some (ns ! Suc 0)) =
      dump_loop (Suc u) szt g l block back (of_nat ?k) (of_nat (?j * ?k)) (Some (ns ! Suc ?j))"
    unfolding u(1) by (auto simp: takeWhile_eq_take [symmetric])
  have "\<not> ?P (xs ! ?j)" using nth_length_takeWhile [OF j] .
  from false_start_turn [OF L E j this k appendedD(1) [OF g(1)], of u szt "back"] g(2)
  have run: "dump_loop fuel szt f l block back (of_nat ?k) 0 (Some (ns ! 1)) =
      dump_loop u szt (if back then g\<lparr>f_pos := SIMCLIST_DUMPFORMAT_HEADERLEN\<rparr> else g) l block back 0 0 (Some (ns ! 1))"
    by (simp del: dump_loop.simps)
  have fs: "false_start (map enc xs) = concat (map enc (takeWhile ?P xs))"
    using False assms(3) by (simp add: false_start_def hd_map takeWhile_map comp_def)
  show ?thesis by (rule that [of g u]) (use g(1) u(2) run False in \<open>simp_all add: fs del: dump_loop.simps\<close>)
qed

lemma dump_mixed:
  assumes L: "linked l ns xs" and E: "encodes block enc xs" and "xs \<noteq> []" "\<not> uniform (map enc xs)" "reliable f" "2 * length xs + 2 \<le> fuel"
    and szt: "szt = 4"
  shows "\<exists>g h. appended f (false_start (map enc xs)) g \<and>
    appended (if back \<and> enc (hd xs) \<noteq> [] then g\<lparr>f_pos := SIMCLIST_DUMPFORMAT_HEADERLEN\<rparr> else g) (concat (map sized (map enc xs))) h \<and>
    dump_loop fuel szt f l block back (of_nat (length (enc (hd xs)))) 0 (Some (ns ! 1)) = Inr (h, Some (0, of_nat (sum_len (map enc xs))))"
proof -
  from dump_false_start [OF assms(1-6)] obtain g u where g: "appended f (false_start (map enc xs)) g" "length xs < u"
    "dump_loop fuel szt f l block back (of_nat (length (enc (hd xs)))) 0 (Some (ns ! 1)) =
     dump_loop u szt (if back \<and> enc (hd xs) \<noteq> [] then g\<lparr>f_pos := SIMCLIST_DUMPFORMAT_HEADERLEN\<rparr> else g) l block back 0 0 (Some (ns ! 1))" .
  let ?g = "if back \<and> enc (hd xs) \<noteq> [] then g\<lparr>f_pos := SIMCLIST_DUMPFORMAT_HEADERLEN\<rparr> else g"
  have "reliable ?g" using appendedD(1) [OF g(1)] by (simp add: reliable_def)
  from sized_loop [OF L E szt le0 this, of u "back" 0] g(2) obtain h where
    "appended ?g (concat (map (\<lambda>x. sized (enc x)) xs)) h"
    "dump_loop u szt ?g l block back 0 0 (Some (ns ! Suc 0)) = Inr (h, Some (0, of_nat (sum_list (map (\<lambda>x. length (enc x)) xs))))" by auto
  then show ?thesis using g(1,3) by (intro exI [of _ g] exI [of _ h]) (simp add: sum_len_def comp_def del: dump_loop.simps)
qed

text \<open>With eight bytes in a \<open>size_t\<close>, the first size is read from beyond its variable.\<close>

lemma dump_mixed_wide:
  assumes L: "linked l ns xs" and E: "encodes block enc xs" and "xs \<noteq> []" "\<not> uniform (map enc xs)" "reliable f" "2 * length xs + 2 \<le> fuel"
    and szt: "szt > 4"
  shows "dump_loop fuel szt f l block back (of_nat (length (enc (hd xs)))) 0 (Some (ns ! 1)) = Inl Out_Of_Bounds"
proof -
  from dump_false_start [OF assms(1-6)] obtain g u where "length xs < u" and run:
    "dump_loop fuel szt f l block back (of_nat (length (enc (hd xs)))) 0 (Some (ns ! 1)) =
     dump_loop u szt (if back \<and> enc (hd xs) \<noteq> [] then g\<lparr>f_pos := SIMCLIST_DUMPFORMAT_HEADERLEN\<rparr> else g) l block back 0 0 (Some (ns ! 1))" .
  then obtain v where u: "u = Suc v" by (cases u) auto
  obtain buf n where b: "block (xs ! 0) = (buf, n)" by fastforce
  have w: "write_size szt h n = Inl Out_Of_Bounds" for h :: "'c dfile_scheme"
    using szt by (simp add: write_size_def WRITE_ERRCHECK_def rd_block_def bytes_of_def)
  show ?thesis unfolding run u using tail_nth [OF L, of 0] linked_deref [OF L, of 1] linkedD(1) [OF L] assms(3)
    by (simp add: b w)
qed

section \<open>The file\<close>

text \<open>The attributes make the elements the bytes \<open>enc x\<close>, with a serializer (\<open>back\<close>) or a meter.\<close>

definition dumps :: "dump_attrs \<Rightarrow> bool \<Rightarrow> (char list option \<Rightarrow> char list) \<Rightarrow> char list option list \<Rightarrow> bool" where
  "dumps A back enc xs \<longleftrightarrow> (case a_serializer A of Some s \<Rightarrow> back \<and> encodes s enc xs
     | None \<Rightarrow> \<not> back \<and> (\<exists>m. a_meter A = Some m \<and> encodes (meter_block m) enc xs))"

definition dumped :: "bool \<Rightarrow> char list list \<Rightarrow> char list" where
  "dumped back es = (if uniform es \<or> back then content es else false_start es @ content es)"

lemma false_start_shorter: "length (false_start es) \<le> length (concat (map sized es))"
proof -
  have "length (concat (takeWhile P es)) \<le> length (concat (map sized es))" for P :: "char list \<Rightarrow> bool"
  proof (induction es)
    case (Cons e es)
    then show ?case by (cases "P e") (simp_all add: sized_def)
  qed simp
  then show ?thesis by (simp add: false_start_def)
qed

text \<open>The file after the elements: nothing lies behind the offset.\<close>

definition at_end :: "'z dfile_scheme \<Rightarrow> char list \<Rightarrow> bool" where
  "at_end f w \<longleftrightarrow> reliable f \<and> before f = w \<and> length (f_bytes f) \<le> f_pos f"

lemma at_end_appended: "at_end f w \<Longrightarrow> appended f c g \<Longrightarrow> at_end g (w @ c)"
  using appendedD [of f c g] by (auto simp: at_end_def)

lemma at_end_bytes: "at_end f w \<Longrightarrow> f_pos f \<le> length (f_bytes f) \<Longrightarrow> f_bytes f = w"
  by (auto simp: at_end_def before_def)

lemma rewound:
  assumes f: "at_end f w" "f_pos f = SIMCLIST_DUMPFORMAT_HEADERLEN" and g: "appended f c g"
    and h: "appended (g\<lparr>f_pos := SIMCLIST_DUMPFORMAT_HEADERLEN\<rparr>) d h" and len: "length c \<le> length d"
  shows "at_end h (w @ d)"
proof -
  let ?g = "g\<lparr>f_pos := SIMCLIST_DUMPFORMAT_HEADERLEN\<rparr>" and ?H = SIMCLIST_DUMPFORMAT_HEADERLEN
  note G = appendedD [OF g] and D = appendedD [OF h]
  have w: "length w = ?H" using f length_before [of f] by (auto simp: at_end_def)
  have "before g = w @ c" using G(3) f(1) by (simp add: at_end_def)
  then have "take ?H (before g) = w" using w by simp
  moreover have "before ?g = take ?H (before g)" using G(2) f(2)
    by (cases "length (f_bytes g) < ?H") (auto simp: before_def min_def)
  ultimately have "before ?g = w" by simp
  moreover have "length (f_bytes h) \<le> f_pos h" using D(2,6) G(2,6) f len by (auto simp: at_end_def)
  ultimately show ?thesis using D(1,3) by (simp add: at_end_def)
qed

lemma dump_content_start:
  fixes f :: "'z dfile_scheme"
  assumes R: "list_rep l ns xs" and E: "dumps A back enc xs" and "xs \<noteq> []"
  obtains block where "encodes block enc xs"
    "dump_content szt A l f = dump_loop (2 * loop_fuel l) szt f l block back (of_nat (length (enc (hd xs)))) 0 (Some (ns ! 1))"
proof -
  note L = list_repD(1) [OF R]
  obtain block where block: "encodes block enc xs"
    "(case a_serializer A of Some s \<Rightarrow> Some (s, True) | None \<Rightarrow> map_option (\<lambda>m. (meter_block m, False)) (a_meter A)) = Some (block, back)"
    using E by (auto simp: dumps_def split: option.splits)
  have hd: "deref l (Some (ns ! 1)) = Inr (node_at ns xs 1)" using linked_deref [OF L, of 1] linkedD(1) [OF L] by simp
  have "block (xs ! 0) = (Some (enc (hd xs)), of_nat (length (enc (hd xs))))"
    using block(1) hd_in_set [OF assms(3)] by (simp add: encodes_def hd_conv_nth [OF assms(3)])
  then have run: "dump_content szt A l f = dump_loop (2 * loop_fuel l) szt f l block back (of_nat (length (enc (hd xs)))) 0 (Some (ns ! 1))"
    using first_entry_rep [OF L] hd assms(3) by (simp add: dump_content_def block(2) del: dump_loop.simps)
  show ?thesis by (rule that [OF block(1) run])
qed

lemma dump_content_rep:
  assumes R: "list_rep l ns xs" and E: "dumps A back enc xs" and "xs \<noteq> []" "szt = 4 \<or> uniform (map enc xs)"
    and f: "at_end f w" "f_pos f = SIMCLIST_DUMPFORMAT_HEADERLEN"
  shows "\<exists>g. dump_content szt A l f = Inr (g, Some (of_nat (elemlen_of (map enc xs)), of_nat (sum_len (map enc xs)))) \<and>
    at_end g (w @ dumped back (map enc xs))"
proof -
  note L = list_repD(1) [OF R]
  let ?es = "map enc xs"
  obtain block where block: "encodes block enc xs" and run:
    "dump_content szt A l f = dump_loop (2 * loop_fuel l) szt f l block back (of_nat (length (enc (hd xs)))) 0 (Some (ns ! 1))"
    by (rule dump_content_start [OF R E assms(3)])
  have rel: "reliable f" and fuel: "2 * length xs + 2 \<le> 2 * loop_fuel l" using f(1) enough_fuel [OF R] by (auto simp: at_end_def)
  show ?thesis
  proof (cases "uniform ?es")
    case True
    from dump_uniform [OF L block assms(3) True rel, of "2 * loop_fuel l" szt "back"] fuel obtain g where
      "appended f (concat ?es) g" "dump_content szt A l f = Inr (g, Some (of_nat (length (enc (hd xs))), of_nat (sum_len ?es)))"
      unfolding run by auto
    then show ?thesis using True at_end_appended [OF f(1)] assms(3)
      by (intro exI [of _ g]) (simp add: elemlen_of_def dumped_def content_def hd_map)
  next
    case False
    then have szt: "szt = 4" using assms(4) by simp
    from dump_mixed [OF L block assms(3) False rel fuel szt, of "back"] obtain g h where
      g: "appended f (false_start ?es) g"
      and h: "appended (if back \<and> enc (hd xs) \<noteq> [] then g\<lparr>f_pos := SIMCLIST_DUMPFORMAT_HEADERLEN\<rparr> else g) (concat (map sized ?es)) h"
      and r: "dump_content szt A l f = Inr (h, Some (0, of_nat (sum_len ?es)))"
      unfolding run by auto
    have "at_end h (w @ dumped back ?es)"
    proof (cases "back \<and> enc (hd xs) \<noteq> []")
      case True
      have "at_end h (w @ concat (map sized ?es))"
        by (rule rewound [OF f g _ false_start_shorter]) (use h True in simp)
      then show ?thesis using True False by (simp add: dumped_def content_def)
    next
      case nb: False
      have h': "appended g (concat (map sized ?es)) h" using h nb by auto
      have "at_end h ((w @ false_start ?es) @ concat (map sized ?es))"
        by (rule at_end_appended [OF at_end_appended [OF f(1) g] h'])
      moreover have "back \<longrightarrow> false_start ?es = []" using nb assms(3) by (simp add: false_start_def hd_map)
      ultimately show ?thesis using False by (auto simp: dumped_def content_def)
    qed
    then show ?thesis using r False by (intro exI [of _ h]) (simp add: elemlen_of_def)
  qed
qed

lemma write_fields_rel: "reliable f \<Longrightarrow> \<exists>g. write_fields f bs = Inr (g, Some ()) \<and> appended f (concat bs) g"
proof (induction bs arbitrary: f)
  case Nil
  then show ?case using appended_refl by (intro exI [of _ f]) simp
next
  case (Cons b bs)
  note A = appended_wrote [OF Cons.prems, of b]
  from Cons.IH [OF appendedD(1) [OF A]] obtain g where
    "write_fields (wrote f b) bs = Inr (g, Some ())" "appended (wrote f b) (concat bs) g" by blast
  then show ?case using WRITE_rel [OF Cons.prems, of "length b" b] appended_trans [OF A] by (intro exI [of _ g]) simp
qed

lemma length_bytes_of [simp]: "length (bytes_of k w) = k"
  by (simp add: bytes_of_def)

lemma length_header [simp]: "length (concat (header_fields a b c d e h)) = SIMCLIST_DUMPFORMAT_HEADERLEN"
  by (simp add: header_fields_def SIMCLIST_DUMPFORMAT_HEADERLEN_def)

text \<open>The header written over the beginning of a file.\<close>

lemma header_over:
  assumes "reliable f" "f_bytes f = z @ rest" "length z = length (concat hs)"
  shows "\<exists>g. write_fields (f\<lparr>f_pos := 0\<rparr>) hs = Inr (g, Some ()) \<and> f_bytes g = concat hs @ rest \<and> reliable g"
proof -
  have "reliable (f\<lparr>f_pos := 0\<rparr>)" using assms(1) by (simp add: reliable_def)
  from write_fields_rel [OF this] obtain g where
    g: "write_fields (f\<lparr>f_pos := 0\<rparr>) hs = Inr (g, Some ())" "appended (f\<lparr>f_pos := 0\<rparr>) (concat hs) g" by blast
  note G = appendedD [OF g(2)]
  have "f_pos g \<le> length (f_bytes g)" using G(2,5) assms(2,3) by simp
  then have "before g = take (f_pos g) (f_bytes g)" by (simp add: before_def)
  then have "take (length z) (f_bytes g) = concat hs" using G(2,3) assms(3) by (simp add: before_def [of "f\<lparr>f_pos := 0\<rparr>"])
  moreover have "drop (length z) (f_bytes g) = rest" using G(2,4) assms(2,3) by simp
  ultimately have "f_bytes g = concat hs @ rest" using append_take_drop_id [of "length z" "f_bytes g"] by simp
  then show ?thesis using g(1) G(1) by blast
qed

lemma list_hash_rep:
  assumes R: "list_rep l ns xs"
  shows "\<exists>h. list_hash l (Some f) old = Inr (h, 0)"
proof -
  note L = list_repD(1) [OF R]
  have "i \<le> length xs \<Longrightarrow> length xs - i < fuel \<Longrightarrow> \<exists>h. hash_loop fuel l f old (Some (ns ! Suc i)) t = Inr h" for i fuel t
  proof (induction fuel arbitrary: i t)
    case (Suc fuel)
    show ?case
    proof (cases "i = length xs")
      case True
      then show ?thesis using tail_nth [OF L, of i] by simp
    next
      case False
      then have i: "i < length xs" "length xs - Suc i < fuel" using Suc.prems by auto
      then show ?thesis using Suc.IH [of "Suc i"] tail_nth [OF L, of i] linkedD(1) [OF L] linked_deref [OF L, of "Suc i"] by simp
    qed
  qed simp
  from this [of 0 "loop_fuel l" "u32 (l_numels l) * 2 + 100"] enough_fuel [OF R] obtain h where
    "hash_loop (loop_fuel l) l f old (Some (ns ! 1)) (u32 (l_numels l) * 2 + 100) = Inr h" by auto
  then show ?thesis using first_entry_rep [OF L] by (simp add: list_hash_def)
qed

lemma htonl_0: "htonl 0 = 0"
proof -
  have "le_chars 4 0 = replicate 4 (char_of (0 :: nat))" by (simp add: le_chars_def map_replicate_const)
  moreover have "from_le (replicate k (char_of (0 :: nat))) = 0" for k by (induction k) simp_all
  ultimately show ?thesis by (simp add: htonl_def)
qed

text \<open>The bytes of a dump; the hash is written as it was computed, in the order of the host.\<close>

definition dump_image :: "64 word \<Rightarrow> 32 word \<Rightarrow> 32 word \<Rightarrow> bool \<Rightarrow> char list list \<Rightarrow> char list" where
  "dump_image now rnd hash back es =
     concat (header_fields (hton64 now) (htonl rnd) (htonl (of_nat (sum_len es))) (htonl (u32 (length es)))
       (htonl (of_nat (elemlen_of es))) hash) @ dumped back es @ bytes_of 4 (htonl rnd)"

lemma list_dump_rep:
  assumes R: "list_rep l ns xs" and E: "dumps A back enc xs" and "szt = 4 \<or> uniform (map enc xs)" "reliable f" "f_bytes f = []"
  shows "\<exists>g hash. list_dump_filedescriptor szt A now rnd junk l f =
      Inr (g, Some ((sizeof_header + unat (of_nat (sum_len (map enc xs)) :: 32 word)) mod 2 ^ (8 * szt))) \<and> reliable g \<and>
    f_bytes g = dump_image now rnd hash back (map enc xs) \<and> 
    (case a_hasher A of None \<Rightarrow> Inr (htonl 0, 0) | Some h \<Rightarrow> list_hash l (Some h) junk) = Inr (hash, 0 :: int)"
proof -
  let ?es = "map enc xs" and ?f = "f\<lparr>f_pos := SIMCLIST_DUMPFORMAT_HEADERLEN\<rparr>" and ?z = "replicate SIMCLIST_DUMPFORMAT_HEADERLEN NUL"
  let ?t = "bytes_of 4 (htonl rnd)"
  have E': "\<not> (a_meter A = None \<and> a_serializer A = None)" using E by (auto simp: dumps_def split: option.splits)
  obtain hash where hash: "(case a_hasher A of None \<Rightarrow> Inr (htonl 0, 0) | Some h \<Rightarrow> list_hash l (Some h) junk) = Inr (hash, 0 :: int)"
    using list_hash_rep [OF R] by (cases "a_hasher A") auto
  have h0: "htonl (of_int 0) = 0" by (simp add: htonl_0)
  have seek: "sys_seek f (int SIMCLIST_DUMPFORMAT_HEADERLEN) = Some ?f" using assms(4) by (simp add: sys_seek_def reliable_def)
  have f: "at_end ?f ?z" "f_pos ?f = SIMCLIST_DUMPFORMAT_HEADERLEN"
    using assms(4,5) by (auto simp: at_end_def before_def reliable_def)
  have n: "l_numels l = length xs" using linkedD(5) [OF list_repD(1) [OF R]] .
  obtain g1 where g1: "(if l_numels l > 0 then dump_content szt A l ?f else Inr (?f, Some (0, 0))) =
      Inr (g1, Some (of_nat (elemlen_of ?es), of_nat (sum_len ?es)))" "at_end g1 (?z @ dumped back ?es)"
  proof (cases "xs = []")
    case True
    then show ?thesis using that [of ?f] f(1) n by (simp add: elemlen_of_def sum_len_def dumped_def content_def uniform_def)
  next
    case False
    from dump_content_rep [OF R E False assms(3) f] that n False show ?thesis by auto
  qed
  have r1: "reliable g1" using g1(2) by (simp add: at_end_def)
  let ?g2 = "wrote g1 ?t"
  note A2 = appended_wrote [OF r1, of ?t]
  have w2: "WRITE_ERRCHECK g1 (Some ?t) 4 = Inr (?g2, Some ())" using WRITE_rel [OF r1, of 4 ?t] by simp
  have "f_pos ?g2 \<le> length (f_bytes ?g2)" by (rule appendedD(7) [OF A2]) (metis length_bytes_of list.size(3) zero_neq_numeral)
  then have b2: "f_bytes ?g2 = ?z @ dumped back ?es @ ?t" using at_end_bytes [OF at_end_appended [OF g1(2) A2]] by simp
  let ?hs = "header_fields (hton64 now) (htonl rnd) (htonl (of_nat (sum_len ?es))) (htonl (u32 (length xs))) (htonl (of_nat (elemlen_of ?es))) hash"
  from header_over [OF appendedD(1) [OF A2] b2, of ?hs] obtain g where
    g: "write_fields (?g2\<lparr>f_pos := 0\<rparr>) ?hs = Inr (g, Some ())" "f_bytes g = concat ?hs @ dumped back ?es @ ?t" "reliable g" by auto
  have s0: "sys_seek ?g2 0 = Some (?g2\<lparr>f_pos := 0\<rparr>)" using appendedD(1) [OF A2] by (simp add: sys_seek_def reliable_def)
  have "list_dump_filedescriptor szt A now rnd junk l f =
      Inr (g, Some ((sizeof_header + unat (of_nat (sum_len ?es) :: 32 word)) mod 2 ^ (8 * szt)))"
    unfolding list_dump_filedescriptor_def
    by (simp only: E' if_False hash bind.simps prod.case h0 not_True_eq_False seek option.case Let_def n g1(1) [unfolded n] io_bind_simps w2 s0 g(1))
      simp
  then show ?thesis using g(2,3) hash by (intro exI [of _ g] exI [of _ hash]) (simp add: dump_image_def)
qed

lemma list_dump_wide:
  assumes R: "list_rep l ns xs" and E: "dumps A back enc xs" and "\<not> uniform (map enc xs)" "reliable f" "szt > 4"
  shows "list_dump_filedescriptor szt A now rnd junk l f = Inl Out_Of_Bounds"
proof -
  let ?f = "f\<lparr>f_pos := SIMCLIST_DUMPFORMAT_HEADERLEN\<rparr>"
  have xs: "xs \<noteq> []" using assms(3) by (auto simp: uniform_def)
  have E': "\<not> (a_meter A = None \<and> a_serializer A = None)" using E by (auto simp: dumps_def split: option.splits)
  obtain hash where hash: "(case a_hasher A of None \<Rightarrow> Inr (htonl 0, 0) | Some h \<Rightarrow> list_hash l (Some h) junk) = Inr (hash, 0 :: int)"
    using list_hash_rep [OF R] by (cases "a_hasher A") auto
  have seek: "sys_seek f (int SIMCLIST_DUMPFORMAT_HEADERLEN) = Some ?f" and r: "reliable ?f"
    using assms(4) by (simp_all add: sys_seek_def reliable_def)
  obtain block where block: "encodes block enc xs" and run:
    "dump_content szt A l ?f = dump_loop (2 * loop_fuel l) szt ?f l block back (of_nat (length (enc (hd xs)))) 0 (Some (ns ! 1))"
    by (rule dump_content_start [OF R E xs])
  have "dump_content szt A l ?f = Inl Out_Of_Bounds"
    unfolding run by (rule dump_mixed_wide [OF list_repD(1) [OF R] block xs assms(3) r _ assms(5)]) (use enough_fuel [OF R] in simp)
  then show ?thesis using E' xs linkedD(5) [OF list_repD(1) [OF R]]
    by (simp add: list_dump_filedescriptor_def hash seek htonl_0)
qed

end
