(* ===== verification/Simclist_Restore.thy ===== *)
theory Simclist_Restore
  imports Simclist_Dumped
begin

text \<open>
  Reading a dump of \<open>simclist.c\<close> back: the elements of a list survive a dump and a restore, and
  where they do not.
\<close>

section \<open>Reading\<close>

definition advance :: "'z dfile_scheme \<Rightarrow> nat \<Rightarrow> 'z dfile_scheme" where
  "advance f n = f\<lparr>f_calls := f_calls f + 1, f_pos := f_pos f + n\<rparr>"

lemma advance_list [simp]: "r_list (advance f n) = r_list f" "f_bytes (advance f n) = f_bytes f"
  by (simp_all add: advance_def)

text \<open>The bytes after the offset.\<close>

definition ahead :: "'z dfile_scheme \<Rightarrow> char list \<Rightarrow> bool" where
  "ahead f s \<longleftrightarrow> reliable f \<and> f_pos f \<le> length (f_bytes f) \<and> drop (f_pos f) (f_bytes f) = s"

lemma ahead_advance: "ahead f (c @ s) \<Longrightarrow> n = length c \<Longrightarrow> ahead (advance f n) s"
proof -
  assume a: "ahead f (c @ s)" "n = length c"
  have "length (drop (f_pos f) (f_bytes f)) = length c + length s" and p: "f_pos f \<le> length (f_bytes f)"
    using a(1) by (simp_all add: ahead_def)
  then have "f_pos f + n \<le> length (f_bytes f)" using p a(2) by (cases c; cases s) simp_all
  moreover have "drop n (drop (f_pos f) (f_bytes f)) = s" using a by (simp add: ahead_def)
  ultimately show ?thesis using a(1) by (simp add: ahead_def advance_def reliable_def add.commute)
qed

lemma READ_ahead: "ahead f (c @ s) \<Longrightarrow> n = length c \<Longrightarrow> READ_ERRCHECK szt f n = Inr (advance f n, Some c)"
  by (simp add: ahead_def READ_ERRCHECK_def sys_read_def reliable_def advance_def Let_def)

lemma word_of_bytes_of:
  fixes w :: "'w::len word"
  assumes "2 ^ LENGTH('w) \<le> (256 :: nat) ^ k"
  shows "word_of (bytes_of k w) = w"
proof -
  have "unat w < 256 ^ k" using unsigned_less [of w] assms by (rule less_le_trans)
  then show ?thesis by (simp add: word_of_def bytes_of_def from_le_chars)
qed

lemma read_word_ahead:
  fixes w :: "'w::len word"
  assumes "ahead f (bytes_of k w @ s)" "2 ^ LENGTH('w) \<le> (256 :: nat) ^ k"
  shows "read_word szt f k = Inr (advance f k, Some w)"
  using READ_ahead [OF assms(1), of k szt] word_of_bytes_of [OF assms(2)] by (simp add: read_word_def)

lemma htons_htons [simp]: "htons (htons w) = w"
proof -
  have u: "unat (htons v) = from_le (rev (le_chars 2 (unat v)))" for v
    using from_le_bound [of "rev (le_chars 2 (unat v))"] by (simp add: htons_def unat_of_nat)
  have "le_chars 2 (unat (htons w)) = rev (le_chars 2 (unat w))"
    using le_chars_from [of "rev (le_chars 2 (unat w))"] by (simp add: u)
  moreover have "unat w < 256 ^ 2" using unsigned_less [of w] by simp
  ultimately have "unat (htons (htons w)) = unat w" by (simp add: u [of "htons w"] from_le_chars)
  then show ?thesis by (simp add: word_unat_eq_iff)
qed

section \<open>The loop\<close>

text \<open>The attributes that restore \<open>x\<close> from \<open>enc x\<close>; \<open>mem x\<close> is the length an unserializer reports.\<close>

definition undumps :: "dump_attrs \<Rightarrow> (char list option \<Rightarrow> char list) \<Rightarrow> (char list option \<Rightarrow> 32 word) \<Rightarrow> char list option list \<Rightarrow> bool" where
  "undumps A enc mem xs \<longleftrightarrow> (\<forall>x \<in> set xs. case a_unserializer A of Some u \<Rightarrow> u (enc x) = (x, mem x) | None \<Rightarrow> x = Some (enc x))"

definition piece :: "nat \<Rightarrow> char list \<Rightarrow> char list" where
  "piece k e = (if k = 0 then sized e else e)"

definition ready :: "(char list, 'k) list_t \<Rightarrow> char list option list \<Rightarrow> bool" where
  "ready l ys \<longleftrightarrow> represents l ys \<and> plain l"

lemma ready_append:
  assumes "ready l ys"
  shows "\<exists>l'. list_append True l d = Inr (l', 1) \<and> ready l' (ys @ [d])"
proof -
  from assms obtain ns where R: "list_rep l ns ys" and p: "plain l" by (auto simp: ready_def represents_def)
  have n: "l_numels l = length ys" by (rule linkedD(5) [OF list_repD(1) [OF R]])
  from list_insert_at_rep [OF R, of "length ys" True d] p obtain l' ns' where
    "list_insert_at True l d (length ys) = Inr (l', 1)" "list_rep l' ns' (ins (length ys) (copied l d) ys)" "attrs_of l' = attrs_of l"
    by (auto simp: plain_def)
  moreover have "copied l d = d" using p by (simp add: copied_def plain_def)
  ultimately show ?thesis using n p plain_attrs [of l' l] ins_end [of ys d]
    by (auto simp: list_append_def ready_def represents_def)
qed

lemma positive_word: "n < 2 ^ 32 \<Longrightarrow> (of_nat n :: 32 word) > 0 \<longleftrightarrow> n \<noteq> 0"
  using of_nat_inj32 [of n 0] by (simp add: word_gt_0)

lemma restore_loop_rep:
  assumes alloc: "\<forall>n. alloc n" and k: "k < 2 ^ 32"
  shows "\<forall>x \<in> set xs. length (enc x) < 2 ^ 32 \<and> (k \<noteq> 0 \<longrightarrow> length (enc x) = k) \<Longrightarrow> undumps A enc mem xs \<Longrightarrow>
    ahead f (concat (map (\<lambda>x. piece k (enc x)) xs) @ s) \<Longrightarrow> ready (r_list f) ys \<Longrightarrow>
    \<exists>g m. restore_loop (length xs) szt alloc (a_unserializer A) (of_nat k) f tr tm =
        Inr (g, Some (tr + of_nat (sum_len (map enc xs)), tm + m)) \<and>
      ahead g s \<and> ready (r_list g) (ys @ xs) \<and> f_bytes g = f_bytes f \<and> (a_unserializer A \<noteq> None \<longrightarrow> m = sum_list (map mem xs))"
proof (induction xs arbitrary: f ys tr tm)
  case Nil
  then show ?case by (intro exI [of _ f] exI [of _ 0]) (simp add: sum_len_def)
next
  case (Cons x xs)
  let ?e = "enc x" and ?el = "of_nat k :: 32 word"
  let ?w = "of_nat (length ?e) :: 32 word" and ?s = "concat (map (\<lambda>x. piece k (enc x)) xs) @ s"
  have len: "length ?e < 2 ^ 32" using Cons.prems(1) by simp
  obtain f1 where f1: "(if ?el > 0 then Inr (f, Some ?el) else read_word szt f 4) = Inr (f1, Some ?w)"
    "ahead f1 (?e @ ?s)" "r_list f1 = r_list f" "f_bytes f1 = f_bytes f"
  proof (cases "k = 0")
    case True
    then have a: "ahead f (bytes_of 4 ?w @ ?e @ ?s)" using Cons.prems(3) by (simp add: piece_def sized_def bytes_of_len [OF len])
    show ?thesis using that [of "advance f 4"] read_word_ahead [OF a] ahead_advance [OF a, of 4] True by simp
  next
    case False
    then show ?thesis using that [of f] Cons.prems(1,3) positive_word [OF k] by (simp add: piece_def)
  qed
  let ?f2 = "advance f1 (length ?e)"
  have read: "READ_ERRCHECK szt f1 (unat ?w) = Inr (?f2, Some ?e)" using READ_ahead [OF f1(2)] by (simp add: unat_len [OF len])
  obtain m1 where m1: "(case a_unserializer A of Some u \<Rightarrow> u ?e | None \<Rightarrow> (Some ?e, 0)) = (x, m1)" "a_unserializer A \<noteq> None \<longrightarrow> m1 = mem x"
    using Cons.prems(2) by (cases "a_unserializer A") (auto simp: undumps_def)
  from ready_append [OF Cons.prems(4), of x] obtain l' where
    l': "list_append True (r_list f) x = Inr (l', 1)" "ready l' (ys @ [x])" by blast
  let ?f3 = "?f2\<lparr>r_list := l'\<rparr>"
  have "ahead ?f2 ?s" using ahead_advance [OF f1(2)] by simp
  then have a3: "ahead ?f3 ?s" by (simp add: ahead_def reliable_def)
  from Cons.IH [OF _ _ a3, of "ys @ [x]" "tr + ?w" "tm + m1"] Cons.prems(1,2) l'(2) obtain g m where
    g: "restore_loop (length xs) szt alloc (a_unserializer A) ?el ?f3 (tr + ?w) (tm + m1) =
      Inr (g, Some (tr + ?w + of_nat (sum_len (map enc xs)), tm + m1 + m))" "ahead g s" "ready (r_list g) (ys @ [x] @ xs)"
    "f_bytes g = f_bytes f" "a_unserializer A \<noteq> None \<longrightarrow> m = sum_list (map mem xs)"
    using f1(4) by (auto simp: undumps_def)
  have "restore_loop (length (x # xs)) szt alloc (a_unserializer A) ?el f tr tm =
      Inr (g, Some (tr + ?w + of_nat (sum_len (map enc xs)), tm + m1 + m))"
    using alloc l'(1) f1(3) g(1)
    by (simp only: length_Cons restore_loop.simps f1(1) io_bind_simps read m1(1) prod.case advance_list bind.simps simp_thms)
  then show ?case using g(2-5) m1(2) by (intro exI [of _ g] exI [of _ "m1 + m"]) (simp add: sum_len_def algebra_simps)
qed

lemma uniform_hd: "uniform es \<Longrightarrow> es \<noteq> [] \<Longrightarrow> hd es \<noteq> []"
  unfolding uniform_def by blast

lemma uniform_len: "uniform es \<Longrightarrow> e \<in> set es \<Longrightarrow> length e = length (hd es)"
  unfolding uniform_def by blast

lemma content_pieces: "content es = concat (map (piece (elemlen_of es)) es)"
proof (cases "uniform es")
  case True
  have "piece (elemlen_of es) e = e" if "e \<in> set es" for e
  proof -
    have "es \<noteq> []" using that by auto
    then have "elemlen_of es = length (hd es)" "hd es \<noteq> []" using True uniform_hd by (simp_all add: elemlen_of_def)
    then show ?thesis by (simp add: piece_def)
  qed
  then have "map (piece (elemlen_of es)) es = es" by (rule map_idI)
  then show ?thesis using True by (simp add: content_def)
next
  case False
  then have "piece (elemlen_of es) = sized" by (intro ext) (simp add: elemlen_of_def piece_def)
  then show ?thesis using False by (simp add: content_def)
qed

section \<open>The whole file\<close>

lemma elemlen_in: "elemlen_of es \<noteq> 0 \<Longrightarrow> \<exists>e \<in> set es. elemlen_of es = length e"
  unfolding elemlen_of_def by (metis hd_in_set)

lemma elemlen_all: "elemlen_of es \<noteq> 0 \<Longrightarrow> e \<in> set es \<Longrightarrow> length e = elemlen_of es"
  unfolding elemlen_of_def by (metis uniform_len)

lemma elemlen_word:
  assumes "uniform es"
  shows "u32 (length es) * of_nat (elemlen_of es) = of_nat (sum_len es)"
proof (cases "es = []")
  case False
  have "\<forall>e \<in> set es. length (id e) = length (hd es)" using uniform_len [OF assms] by simp
  from sum_len_const [OF this] have "sum_len es = length es * length (hd es)" by simp
  then show ?thesis using assms False by (simp add: elemlen_of_def u32_def)
qed (simp add: sum_len_def elemlen_of_def u32_def)

lemma encodes_len: "dumps A back enc xs \<Longrightarrow> x \<in> set xs \<Longrightarrow> length (enc x) < 2 ^ 32"
  by (auto simp: dumps_def encodes_def split: option.splits)

text \<open>The seven reads of a header, for the functions that read one.\<close>

primrec seen :: "'z dfile_scheme \<Rightarrow> nat list \<Rightarrow> 'z dfile_scheme" where
  "seen f [] = f"
| "seen f (n # ns) = seen (advance f n) ns"

lemma seen_list [simp]: "r_list (seen f ns) = r_list f" "f_bytes (seen f ns) = f_bytes f"
  by (induction ns arbitrary: f) simp_all

lemma advance_seen: "advance (seen f ns) n = seen f (ns @ [n])"
  by (induction ns arbitrary: f) simp_all

lemma header_reads:
  assumes "ahead f (concat (header_fields ts r sl n el h) @ c)"
  shows "read_word szt f 2 = Inr (seen f [2], Some (htons SIMCLIST_DUMPFORMAT_VERSION))"
    "read_word szt (seen f [2]) 8 = Inr (seen f [2, 8], Some ts)"
    "READ_ERRCHECK szt (seen f [2]) 8 = Inr (seen f [2, 8], Some (bytes_of 8 ts))"
    "read_word szt (seen f [2, 8]) 4 = Inr (seen f [2, 8, 4], Some r)"
    "read_word szt (seen f [2, 8, 4]) 4 = Inr (seen f [2, 8, 4, 4], Some sl)"
    "read_word szt (seen f [2, 8, 4, 4]) 4 = Inr (seen f [2, 8, 4, 4, 4], Some n)"
    "read_word szt (seen f [2, 8, 4, 4, 4, 4]) 4 = Inr (seen f [2, 8, 4, 4, 4, 4, 4], Some h)"
    "read_word szt (seen f [2, 8, 4, 4, 4]) 4 = Inr (seen f [2, 8, 4, 4, 4, 4], Some el)"
    "READ_ERRCHECK szt (seen f [2, 8, 4, 4, 4, 4]) 4 = Inr (seen f [2, 8, 4, 4, 4, 4, 4], Some (bytes_of 4 h))"
    "ahead (seen f [2, 8, 4, 4, 4, 4, 4]) c"
proof -
  have a0: "ahead (seen f []) (bytes_of 2 (htons SIMCLIST_DUMPFORMAT_VERSION) @ bytes_of 8 ts @ bytes_of 4 r @ bytes_of 4 sl @
      bytes_of 4 n @ bytes_of 4 el @ bytes_of 4 h @ c)"
    using assms by (simp add: header_fields_def)
  note a1 = ahead_advance [OF a0 length_bytes_of [symmetric], unfolded advance_seen append.simps]
  note a2 = ahead_advance [OF a1 length_bytes_of [symmetric], unfolded advance_seen append.simps]
  note a3 = ahead_advance [OF a2 length_bytes_of [symmetric], unfolded advance_seen append.simps]
  note a4 = ahead_advance [OF a3 length_bytes_of [symmetric], unfolded advance_seen append.simps]
  note a5 = ahead_advance [OF a4 length_bytes_of [symmetric], unfolded advance_seen append.simps]
  note a6 = ahead_advance [OF a5 length_bytes_of [symmetric], unfolded advance_seen append.simps]
  note a7 = ahead_advance [OF a6 length_bytes_of [symmetric], unfolded advance_seen append.simps]
  show "read_word szt f 2 = Inr (seen f [2], Some (htons SIMCLIST_DUMPFORMAT_VERSION))"
    "read_word szt (seen f [2]) 8 = Inr (seen f [2, 8], Some ts)"
    "READ_ERRCHECK szt (seen f [2]) 8 = Inr (seen f [2, 8], Some (bytes_of 8 ts))"
    "read_word szt (seen f [2, 8]) 4 = Inr (seen f [2, 8, 4], Some r)"
    "read_word szt (seen f [2, 8, 4]) 4 = Inr (seen f [2, 8, 4, 4], Some sl)"
    "read_word szt (seen f [2, 8, 4, 4]) 4 = Inr (seen f [2, 8, 4, 4, 4], Some n)"
    "read_word szt (seen f [2, 8, 4, 4, 4, 4]) 4 = Inr (seen f [2, 8, 4, 4, 4, 4, 4], Some h)"
    "read_word szt (seen f [2, 8, 4, 4, 4]) 4 = Inr (seen f [2, 8, 4, 4, 4, 4], Some el)"
    "READ_ERRCHECK szt (seen f [2, 8, 4, 4, 4, 4]) 4 = Inr (seen f [2, 8, 4, 4, 4, 4, 4], Some (bytes_of 4 h))"
    using read_word_ahead [OF a0, of szt] read_word_ahead [OF a1, of szt] read_word_ahead [OF a2, of szt] read_word_ahead [OF a3, of szt]
      read_word_ahead [OF a4, of szt] read_word_ahead [OF a5, of szt] read_word_ahead [OF a6, of szt]
      READ_ahead [OF a1, of 8 szt] READ_ahead [OF a6, of 4 szt] by (simp_all add: advance_seen)
  show "ahead (seen f [2, 8, 4, 4, 4, 4, 4]) c" by (rule a7)
qed

lemma restore_rep:
  fixes f :: "'k restore"
  assumes E: "dumps A back enc xs" and D: "undumps A enc mem xs" and fmt: "uniform (map enc xs) \<or> back" and n: "length xs < 2 ^ 32"
    and f: "reliable f" "f_bytes f = dump_image now rnd hash back (map enc xs)" "f_pos f = 0"
    and l: "ready (r_list f) ys" and alloc: "\<forall>n. alloc n"
  shows "\<exists>g. list_restore_filedescriptor szt alloc A f =
      Inr (g, Some (unat (if a_unserializer A = None then of_nat (sum_len (map enc xs)) else sum_list (map mem xs)))) \<and>
    ready (r_list g) (ys @ xs)"
proof -
  let ?es = "map enc xs" and ?r = "htonl rnd" and ?v = "htons SIMCLIST_DUMPFORMAT_VERSION"
  let ?S = "of_nat (sum_len ?es) :: 32 word" and ?N = "u32 (length xs)" and ?L = "of_nat (elemlen_of ?es) :: 32 word"
  let ?c = "concat (map (\<lambda>x. piece (elemlen_of ?es) (enc x)) xs) @ bytes_of 4 ?r"
  have k: "elemlen_of ?es < 2 ^ 32" "\<forall>x \<in> set xs. length (enc x) < 2 ^ 32 \<and> (elemlen_of ?es \<noteq> 0 \<longrightarrow> length (enc x) = elemlen_of ?es)"
  proof -
    show "elemlen_of ?es < 2 ^ 32"
    proof (cases "elemlen_of ?es = 0")
      case False
      then obtain x where "x \<in> set xs" "elemlen_of ?es = length (enc x)" using elemlen_in [of ?es] by auto
      then show ?thesis using encodes_len [OF E] by simp
    qed simp
    have "length (enc x) = elemlen_of ?es" if "elemlen_of ?es \<noteq> 0" "x \<in> set xs" for x
      using elemlen_all [OF that(1), of "enc x"] that(2) by simp
    then show "\<forall>x \<in> set xs. length (enc x) < 2 ^ 32 \<and> (elemlen_of ?es \<noteq> 0 \<longrightarrow> length (enc x) = elemlen_of ?es)"
      using encodes_len [OF E] by blast
  qed
  have "dumped back ?es = concat (map (piece (elemlen_of ?es)) ?es)" using fmt content_pieces [of ?es] by (simp add: dumped_def)
  then have "ahead f (concat (header_fields (hton64 now) ?r (htonl ?S) (htonl ?N) (htonl ?L) hash) @ ?c)"
    using f by (simp add: ahead_def dump_image_def comp_def)
  note H = header_reads [OF this]
  let ?f7 = "seen f [2, 8, 4, 4, 4, 4, 4]"
  have nN: "unat ?N = length xs" using n by (simp add: u32_def unat_len)
  from restore_loop_rep [OF alloc k D H(10), of ys szt 0 0] l obtain g m where
    g: "restore_loop (length xs) szt alloc (a_unserializer A) ?L ?f7 0 0 = Inr (g, Some (?S, m))"
    "ahead g (bytes_of 4 ?r)" "ready (r_list g) (ys @ xs)" "a_unserializer A \<noteq> None \<longrightarrow> m = sum_list (map mem xs)" by auto
  have ag: "ahead g (bytes_of 4 ?r @ [])" using g(2) by simp
  let ?g = "advance g 4"
  have e: "f_pos ?g = length (f_bytes ?g)" using ahead_advance [OF ag, of 4] unfolding ahead_def by simp
  have S: "?N * ?L = ?S" if "?L > 0"
    using elemlen_word [of ?es] positive_word [OF k(1)] that by (auto simp: elemlen_of_def split: if_splits)
  have "list_restore_filedescriptor szt alloc A f =
      Inr (?g, Some (unat (if a_unserializer A = None then ?S else m)))"
    unfolding list_restore_filedescriptor_def
    by (simp add: H(1,3-6,8,9) read_word_ahead [OF ag] nN g(1) S e Let_def del: seen.simps)
  then show ?thesis using g(3,4) by (intro exI [of _ ?g]) auto
qed

section \<open>Byte order\<close>

lemma htons_1: "htons 1 \<noteq> 1"
  by code_simp

lemma bit_hton64:
  assumes "n < 64"
  shows "bit (hton64 x) n = bit x (56 - 8 * (n div 8) + n mod 8)"
proof -
  have "list_all (\<lambda>n. bit (hton64 x) n = bit x (56 - 8 * (n div 8) + n mod 8)) [0 ..< 64]"
    by (simp add: hton64_def htons_1 bit_simps upt_rec) (simp add: eval_nat_numeral)
  then show ?thesis using assms by (simp add: list_all_iff)
qed

lemma hton64_hton64 [simp]: "hton64 (hton64 x) = x"
proof (rule bit_word_eqI)
  fix n assume "n < LENGTH(64)"
  then have n: "n < 64" "n div 8 \<le> 7" by simp_all
  obtain q r where q: "n div 8 = q" "n mod 8 = r" "q \<le> 7" "r < 8" using n(2) by simp
  have m: "56 - 8 * q + r = 8 * (7 - q) + r" using q(3) by (simp add: diff_mult_distrib2)
  have d: "(8 * (7 - q) + r) div 8 = 7 - q" "(8 * (7 - q) + r) mod 8 = r" using q(4) by simp_all
  have "8 * (7 - q) + r < 64" using q(3,4) by linarith
  then have "bit (hton64 (hton64 x)) n = bit x (56 - 8 * (7 - q) + r)"
    using bit_hton64 [OF n(1), of "hton64 x"] bit_hton64 [of "8 * (7 - q) + r" x] by (simp only: q(1,2) m d)
  moreover have "56 - 8 * (7 - q) + r = n" using q div_mult_mod_eq [of n 8] by linarith
  ultimately show "bit (hton64 (hton64 x)) n = bit x n" by simp
qed

section \<open>Properties\<close>

lemma extended [simp]:
  "reliable (dfile.extend f r) = reliable f" "f_bytes (dfile.extend f r) = f_bytes f" "f_pos (dfile.extend f r) = f_pos f"
  by (simp_all add: reliable_def dfile.extend_def)

lemma ahead_seek:
  assumes "ahead f (c @ s)"
  shows "sys_seek f (int (f_pos f) + int (length c)) = Some (f\<lparr>f_pos := f_pos f + length c\<rparr>) \<and> ahead (f\<lparr>f_pos := f_pos f + length c\<rparr>) s"
  using ahead_advance [OF assms refl] assms by (simp add: ahead_def sys_seek_def reliable_def advance_def nat_int_add)

lemma sint_len: "n < 2 ^ 31 \<Longrightarrow> sint (of_nat n :: 32 word) = int n"
  by (simp add: sint_uint uint_nat unat_of_nat signed_take_bit_int_eq_self)

text \<open>
  C35: restoring a dump appends the dumped elements to the list, in order and with the list's
  representation intact. For elements of one length this holds with a serializer or a meter and
  whatever the width of \<open>size_t\<close>; for elements of different lengths it takes a serializer and a
  \<open>size_t\<close> of four bytes (what happens otherwise is the next property). The file was empty, its
  system calls succeed, there are fewer than \<open>2 ^ 32\<close> elements and memory for their entries, and
  the list restored into has no comparator or copy function and is not being iterated.
\<close>

theorem list_dump_restore:
  assumes "represents l xs" and "dumps A back enc xs" and "undumps A enc mem xs"
    and "uniform (map enc xs) \<or> back \<and> szt = 4" and "length xs < 2 ^ 32"
    and "reliable f" and "f_bytes f = []" and "represents l0 ys" and "plain l0" and "\<forall>n. alloc n"
  shows "\<exists>g len l' size. list_dump_file szt A now rnd junk l (Some f) = Inr (Some g, Some len) \<and>
    list_restore_file szt alloc A l0 (Some (g\<lparr>f_pos := 0\<rparr>)) = Inr (l', Some size) \<and>
    represents l' (ys @ xs) \<and> list_repOk l' = Inr True \<and>
    size = unat (if a_unserializer A = None then of_nat (sum_len (map enc xs)) else sum_list (map mem xs))"
proof -
  from assms(1) obtain ns where R: "list_rep l ns xs" by (auto simp: represents_def)
  have fmt: "szt = 4 \<or> uniform (map enc xs)" "uniform (map enc xs) \<or> back" using assms(4) by auto
  from list_dump_rep [OF R assms(2) fmt(1) assms(6,7)] obtain g len hash where
    g: "list_dump_filedescriptor szt A now rnd junk l f = Inr (g, Some len)" "reliable g"
    "f_bytes g = dump_image now rnd hash back (map enc xs)" by blast
  let ?g = "dfile.extend (g\<lparr>f_pos := 0\<rparr>) \<lparr>r_list = l0\<rparr>"
  have "reliable ?g" "f_bytes ?g = dump_image now rnd hash back (map enc xs)" "f_pos ?g = 0" "ready (r_list ?g) ys"
    using g(2,3) assms(8,9) by (simp_all add: ready_def reliable_def dfile.extend_def)
  let ?size = "unat (if a_unserializer A = None then of_nat (sum_len (map enc xs)) else sum_list (map mem xs))"
  from restore_rep [OF assms(2,3) fmt(2) assms(5) \<open>reliable ?g\<close> \<open>f_bytes ?g = _\<close> \<open>f_pos ?g = 0\<close> \<open>ready (r_list ?g) ys\<close> assms(10)] obtain h where
    h: "list_restore_filedescriptor szt alloc A ?g = Inr (h, Some ?size)"
    "ready (r_list h) (ys @ xs)" by blast
  moreover have "list_repOk (r_list h) = Inr True" using h(2) list_repOk_rep by (auto simp: ready_def represents_def)
  ultimately show ?thesis using g(1)
    by (intro exI [of _ g] exI [of _ len] exI [of _ "r_list h"] exI [of _ ?size])
      (simp add: list_dump_file_def list_restore_file_def ready_def)
qed

text \<open>
  C36: a list of elements of different lengths: where \<open>size_t\<close> has eight bytes, its dump reads beyond
  the variable that holds a length; where it has four, a dump with a meter reports success although
  the elements written before the lengths were seen to differ remain in front of the content.
\<close>

theorem list_dump_mixed_lengths:
  assumes "represents l xs" and "dumps A back enc xs" and "\<not> uniform (map enc xs)" and "reliable f" and "f_bytes f = []"
  shows "(szt > 4 \<longrightarrow> list_dump_file szt A now rnd junk l (Some f) = Inl Out_Of_Bounds) \<and>
    (szt = 4 \<and> \<not> back \<longrightarrow> (\<exists>g len hash. list_dump_file szt A now rnd junk l (Some f) = Inr (Some g, Some len) \<and>
       f_bytes g = concat (header_fields (hton64 now) (htonl rnd) (htonl (of_nat (sum_len (map enc xs)))) (htonl (u32 (length xs)))
         (htonl 0) hash) @ false_start (map enc xs) @ concat (map sized (map enc xs)) @ bytes_of 4 (htonl rnd)))"
proof -
  from assms(1) obtain ns where R: "list_rep l ns xs" by (auto simp: represents_def)
  have "list_dump_file szt A now rnd junk l (Some f) = Inl Out_Of_Bounds" if "szt > 4"
    using list_dump_wide [OF R assms(2-4) that] by (simp add: list_dump_file_def)
  moreover have "\<exists>g len hash. list_dump_file szt A now rnd junk l (Some f) = Inr (Some g, Some len) \<and>
       f_bytes g = concat (header_fields (hton64 now) (htonl rnd) (htonl (of_nat (sum_len (map enc xs)))) (htonl (u32 (length xs)))
         (htonl 0) hash) @ false_start (map enc xs) @ concat (map sized (map enc xs)) @ bytes_of 4 (htonl rnd)" if szt: "szt = 4" "\<not> back"
  proof -
    from list_dump_rep [OF R assms(2) disjI1 [OF szt(1)] assms(4,5)] obtain g len hash where
      "list_dump_filedescriptor szt A now rnd junk l f = Inr (g, Some len)"
      "f_bytes g = dump_image now rnd hash back (map enc xs)" by blast
    then show ?thesis using assms(3) szt(2)
      by (intro exI [of _ g] exI [of _ len] exI [of _ hash])
        (simp add: list_dump_file_def dump_image_def dumped_def content_def elemlen_of_def)
  qed
  ultimately show ?thesis by blast
qed

text \<open>
  what \<open>list_dump_getinfo_file\<close> tells of a dump of elements of one length: it is consistent, and
  version, time, number of elements and total length are those of the dump; but the hash, which is
  dumped in the order of the host, comes out with its bytes reversed.
\<close>

theorem list_dump_getinfo:
  assumes "represents l xs" and "dumps A back enc xs" and "uniform (map enc xs)" and "sum_len (map enc xs) < 2 ^ 31"
    and "reliable f" and "f_bytes f = []"
  shows "\<exists>g len hash. list_dump_file szt A now rnd junk l (Some f) = Inr (Some g, Some len) \<and>
    (case a_hasher A of None \<Rightarrow> Inr (htonl 0, 0) | Some h \<Rightarrow> list_hash l (Some h) junk) = Inr (hash, 0 :: int) \<and>
    list_dump_getinfo_file szt (Some (g\<lparr>f_pos := 0\<rparr>)) = Inr (Some \<lparr>i_version = 1, i_timestamp = now,
      i_list_size = of_nat (sum_len (map enc xs)), i_list_numels = u32 (length xs), i_list_hash = ntohl hash, i_consistent = True\<rparr>)"
proof -
  from assms(1) obtain ns where R: "list_rep l ns xs" by (auto simp: represents_def)
  from list_dump_rep [OF R assms(2) disjI2 [OF assms(3)] assms(5,6)] obtain g len hash where
    g: "list_dump_filedescriptor szt A now rnd junk l f = Inr (g, Some len)" "reliable g"
    "f_bytes g = dump_image now rnd hash back (map enc xs)"
    "(case a_hasher A of None \<Rightarrow> Inr (htonl 0, 0) | Some h \<Rightarrow> list_hash l (Some h) junk) = Inr (hash, 0 :: int)" by blast
  let ?es = "map enc xs" and ?g = "g\<lparr>f_pos := 0\<rparr>" and ?r = "htonl rnd"
  let ?n = "sum_len ?es" and ?c = "concat ?es"
  have "ahead ?g (concat (header_fields (hton64 now) ?r (htonl (of_nat ?n)) (htonl (u32 (length xs))) (htonl (of_nat (elemlen_of ?es))) hash)
      @ ?c @ bytes_of 4 ?r)"
    using g(2,3) assms(3) by (simp add: ahead_def reliable_def dump_image_def dumped_def content_def)
  note H = header_reads [OF this]
  let ?f = "seen ?g [2, 8, 4, 4, 4, 4, 4]"
  have len: "length ?c = ?n" by (simp add: sum_len_def length_concat)
  note S = ahead_seek [OF H(10), unfolded len]
  let ?h = "?f\<lparr>f_pos := f_pos ?f + ?n\<rparr>"
  have a: "ahead ?h (bytes_of 4 ?r @ [])" using S by simp
  have n: "?n < 2 ^ 32" using assms(4) by simp
  have hop: "(if szt = 4 then sint (of_nat ?n :: 32 word) else uint (of_nat ?n :: 32 word)) = int ?n"
    using sint_len [OF assms(4)] unat_len [OF n] by (simp add: uint_nat)
  have e0: "of_nat (elemlen_of ?es) * u32 (length xs) = 0" if "\<not> (of_nat (elemlen_of ?es) :: 32 word) > 0"
    using that by (simp add: word_gt_0)
  have "list_dump_getinfo_filedescriptor szt ?g = Inr (advance ?h 4, Some \<lparr>i_version = 1, i_timestamp = now,
      i_list_size = of_nat ?n, i_list_numels = u32 (length xs), i_list_hash = ntohl hash, i_consistent = True\<rparr>)"
    unfolding list_dump_getinfo_filedescriptor_def
    by (simp add: H(1,2,4-8) S hop e0 read_word_ahead [OF a] Let_def SIMCLIST_DUMPFORMAT_VERSION_def del: seen.simps cong: if_cong)
  then show ?thesis using g(1,4) by (intro exI [of _ g] exI [of _ len] exI [of _ hash]) (simp add: list_dump_file_def list_dump_getinfo_file_def)
qed

section \<open>Witnesses\<close>

definition empty_file :: dfile where
  "empty_file = \<lparr>f_bytes = [], f_pos = 0, f_calls = 0, f_io = (\<lambda>i n. Some n), f_seekable = True\<rparr>"

lemma empty_file: "reliable empty_file" "f_bytes empty_file = []"
  by (simp_all add: empty_file_def reliable_def)

definition string_length :: "char list option \<Rightarrow> nat" where
  "string_length d = (case d of None \<Rightarrow> 0 | Some s \<Rightarrow> length s)"

text \<open>Strings dumped by length, and by functions that copy them.\<close>

definition meter_attrs :: dump_attrs where
  "meter_attrs = dump_attrs_defaults\<lparr>a_meter := Some string_length\<rparr>"

definition copy_attrs :: dump_attrs where
  "copy_attrs = list_attributes_unserializer (list_attributes_serializer dump_attrs_defaults
     (Some (\<lambda>d. (d, of_nat (string_length d))))) (Some (\<lambda>s. (Some s, of_nat (length s))))"

lemma meter_dumps: "\<forall>s \<in> set bs. length s < 2 ^ 32 \<Longrightarrow> dumps meter_attrs False the (map Some bs)"
  by (auto simp: dumps_def meter_attrs_def dump_attrs_defaults_def encodes_def meter_block_def string_length_def u32_def)

theorem list_dump_restore_witness:
  "\<exists>(l :: (char list, nat) list_t) g len l' size. represents l [Some ''ab'', Some ''c''] \<and>
     list_dump_file 4 copy_attrs 1 2 3 l (Some empty_file) = Inr (Some g, Some len) \<and>
     list_restore_file 4 (\<lambda>_. True) copy_attrs (list_init :: (char list, nat) list_t) (Some (g\<lparr>f_pos := 0\<rparr>)) = Inr (l', Some size) \<and>
     represents l' [Some ''ab'', Some ''c'']"
proof -
  obtain l :: "(char list, nat) list_t" where "holds_list l [''ab'', ''c'']" using holds_list_exists by blast
  then have l: "represents l [Some ''ab'', Some ''c'']" by (simp add: holds_list_def)
  have "holds_list (list_init :: (char list, nat) list_t) []" by (rule list_init_holds)
  then have i: "represents (list_init :: (char list, nat) list_t) []" "plain (list_init :: (char list, nat) list_t)"
    by (simp_all add: holds_list_def)
  have d: "dumps copy_attrs True the [Some ''ab'', Some ''c'']" "undumps copy_attrs the (\<lambda>d. of_nat (string_length d)) [Some ''ab'', Some ''c'']"
    by (simp_all add: dumps_def undumps_def copy_attrs_def list_attributes_serializer_def list_attributes_unserializer_def
        dump_attrs_defaults_def encodes_def string_length_def)
  from list_dump_restore [OF l d _ _ empty_file i, of 4 "\<lambda>_. True" 1 2 3] l show ?thesis by fastforce
qed

theorem list_dump_mixed_lengths_witness:
  "\<exists>(l :: (char list, nat) list_t) g len. represents l [Some ''ab'', Some ''c''] \<and>
     list_dump_file 8 meter_attrs 1 2 3 l (Some empty_file) = Inl Out_Of_Bounds \<and>
     list_dump_file 4 meter_attrs 1 2 3 l (Some empty_file) = Inr (Some g, Some len) \<and> length (f_bytes g) = 47"
proof -
  obtain l :: "(char list, nat) list_t" where "holds_list l [''ab'', ''c'']" using holds_list_exists by blast
  then have l: "represents l [Some ''ab'', Some ''c'']" by (simp add: holds_list_def)
  have d: "dumps meter_attrs False the [Some ''ab'', Some ''c'']" using meter_dumps [of "[''ab'', ''c'']"] by simp
  have u: "\<not> uniform (map the [Some ''ab'', Some ''c''])" by (simp add: uniform_def)
  note M = list_dump_mixed_lengths [OF l d u empty_file]
  have "list_dump_file 8 meter_attrs 1 2 3 l (Some empty_file) = Inl Out_Of_Bounds" using M [of 8] by simp
  moreover obtain g len where "list_dump_file 4 meter_attrs 1 2 3 l (Some empty_file) = Inr (Some g, Some len)" "length (f_bytes g) = 47"
    using M [of 4 1 2 3] by (auto simp: header_fields_def false_start_def sized_def)
  ultimately show ?thesis using l by blast
qed

theorem list_dump_getinfo_witness:
  "\<exists>(l :: (char list, nat) list_t) g len. list_dump_file 8 meter_attrs 5 2 3 l (Some empty_file) = Inr (Some g, Some len) \<and>
     list_dump_getinfo_file 8 (Some (g\<lparr>f_pos := 0\<rparr>)) = Inr (Some \<lparr>i_version = 1, i_timestamp = 5, i_list_size = 4,
       i_list_numels = 2, i_list_hash = 0, i_consistent = True\<rparr>)"
proof -
  obtain l :: "(char list, nat) list_t" where "holds_list l [''ab'', ''cd'']" using holds_list_exists by blast
  then have l: "represents l [Some ''ab'', Some ''cd'']" by (simp add: holds_list_def)
  have d: "dumps meter_attrs False the [Some ''ab'', Some ''cd'']" using meter_dumps [of "[''ab'', ''cd'']"] by simp
  have u: "uniform (map the [Some ''ab'', Some ''cd''])" "sum_len (map the [Some ''ab'', Some ''cd'']) < 2 ^ 31"
    by (simp_all add: uniform_def sum_len_def)
  from list_dump_getinfo [OF l d u empty_file, of 8 5 2 3] show ?thesis
    by (auto simp: meter_attrs_def dump_attrs_defaults_def sum_len_def u32_def htonl_0 ntohl_def)
qed

end
