(* ===== verification/Dev_Info.thy ===== *)
theory Dev_Info
  imports C_Strings Md5 Rtsp_Parser
begin

text \<open>
  The data of the program (\<open>src/inc/dev_list.h\<close>, \<open>src/inc/libevent_server.h\<close>) and the string
  handling of \<open>src/src/dev_opt.c\<close> and of the database callback of
  \<open>src/src/libevent_server.c\<close>: the SDP a camera returns, digest authentication, the RTSP
  requests and URLs, the framed command messages, the serial number.

  A \<open>char\<close> array is the list of its bytes; a field is read as the string up to its first
  \<open>NUL\<close>, and reading past the array is a fault. \<open>printf\<close> traces are left out.
\<close>

section \<open>Data\<close>

definition MAX_DEV_ID_LEN :: nat where "MAX_DEV_ID_LEN = 256"
definition CMD_MAX_LEN :: nat where "CMD_MAX_LEN = 512"
definition LIBEVENT_WRITE_BUF_SIZE :: int where "LIBEVENT_WRITE_BUF_SIZE = 2097152"

datatype DEV_CONNECT_STATUS = NOT_SET | CONNECTED | CONNECTING | DISCONNECT | NONE

record CLIENT_LIST =
  iSendFrameFlag :: int
  iDelFlag :: int
  iMissFrameFlag :: int
  pSendVideoToServerEvent :: "nat option"

record DEV_INFO =
  k_DevId :: "char list"
  k_DevChnl :: int
  k_DevStreamType :: int

record DEV_LIST =
  pDevId :: "char list"
  iDevChnl :: int
  iDevStreamType :: int
  arrDevIp :: "char list"
  iDevRtspPort :: int
  arrDevRtspMainUrl :: "char list"
  arrDevRtspSubUrl :: "char list"
  arrUserName :: "char list"
  arrUserPasswd :: "char list"
  arrBasicAuthenticate :: "char list"
  iVideoFrameRate :: int
  m_video :: "char list"
  a_rtpmap_video :: "char list"
  a_fmtp_video :: "char list"
  m_audio :: "char list"
  a_rtpmap_audio :: "char list"
  iStartThreadFlag :: int
  enumDevConnectStatus :: DEV_CONNECT_STATUS
  d_realm :: "char list"
  d_nonce :: "char list"

text \<open>\<open>malloc\<close> and \<open>memset(.., 0, sizeof(DEV_LIST_OBJ))\<close>.\<close>

definition zero_dev :: DEV_LIST where
  "zero_dev = \<lparr>pDevId = zeros MAX_DEV_ID_LEN, iDevChnl = 0, iDevStreamType = 0, arrDevIp = zeros 16,
     iDevRtspPort = 0, arrDevRtspMainUrl = zeros 512, arrDevRtspSubUrl = zeros 512,
     arrUserName = zeros 64, arrUserPasswd = zeros 64, arrBasicAuthenticate = zeros 128,
     iVideoFrameRate = 0, m_video = zeros 64, a_rtpmap_video = zeros 128, a_fmtp_video = zeros 512,
     m_audio = zeros 64, a_rtpmap_audio = zeros 128, iStartThreadFlag = 0,
     enumDevConnectStatus = NOT_SET, d_realm = zeros 64, d_nonce = zeros 128\<rparr>"

section \<open>The SDP of a device\<close>

definition CRLF :: "char list" where "CRLF = [CR, LF]"

text \<open>
  \<open>p_Pos2 = strstr(p_Pos1, "\r\n"); strncpy(field, p_Pos1, p_Pos2 - p_Pos1)\<close>: without a line
  end the difference is a huge \<open>size_t\<close>.
\<close>

definition copy_line :: "char list \<Rightarrow> char list \<Rightarrow> char list res" where
  "copy_line field s = (case strstr s CRLF of None \<Rightarrow> Inl Out_Of_Bounds | Some n \<Rightarrow> strncpy field s n)"

text \<open>Lines 94-102; the result also says where \<open>p_Pos1\<close> is, \<open>None\<close> for \<open>NULL\<close>.\<close>

definition analysis_rtpmap :: "char list \<Rightarrow> DEV_LIST \<Rightarrow> (DEV_LIST \<times> char list option) res" where
  "analysis_rtpmap s d =
     (case strstr s ''a=rtpmap'' of
        None \<Rightarrow> Inr (d, None)
      | Some i \<Rightarrow> let p1 = drop i s in
          bind (copy_line (a_rtpmap_video d) p1) (\<lambda>f.
            case strstr p1 ''/'' of
              None \<Rightarrow> Inl Null_Deref
            | Some j \<Rightarrow> Inr (d\<lparr>a_rtpmap_video := f, iVideoFrameRate := atoi (drop (j + 1) p1)\<rparr>, Some p1)))"

definition analysis_sdp_video :: "char list \<Rightarrow> DEV_LIST \<Rightarrow> DEV_LIST res" where
  "analysis_sdp_video s d =
     (case strstr s ''m=video'' of
        Some i \<Rightarrow> let p1 = drop i s in
          bind (copy_line (m_video d) p1) (\<lambda>f.
          bind (analysis_rtpmap p1 (d\<lparr>m_video := f\<rparr>)) (\<lambda>(d, p1). case p1 of
            None \<Rightarrow> Inl Null_Deref
          | Some p1 \<Rightarrow> (case strstr p1 ''a=fmtp'' of
                None \<Rightarrow> Inr d
              | Some k \<Rightarrow> bind (copy_line (a_fmtp_video d) (drop k p1)) (\<lambda>f. Inr (d\<lparr>a_fmtp_video := f\<rparr>)))))
      | None \<Rightarrow>
          bind (strncpy (m_video d) ''NULL'' 64) (\<lambda>f1.
          bind (strncpy (a_rtpmap_video d) ''NULL'' 128) (\<lambda>f2.
          bind (strncpy (a_fmtp_video d) ''NULL'' 512) (\<lambda>f3.
            Inr (d\<lparr>m_video := f1, a_rtpmap_video := f2, a_fmtp_video := f3\<rparr>)))))"

definition analysis_sdp_audio :: "char list \<Rightarrow> DEV_LIST \<Rightarrow> DEV_LIST res" where
  "analysis_sdp_audio s d =
     (case strstr s ''m=audio'' of
        Some i \<Rightarrow> let p1 = drop i s in
          bind (copy_line (m_audio d) p1) (\<lambda>f.
          let d = d\<lparr>m_audio := f\<rparr> in
            case strstr p1 ''a=rtpmap_audio'' of
              None \<Rightarrow> Inr d
            | Some k \<Rightarrow> bind (copy_line (a_rtpmap_audio d) (drop k p1)) (\<lambda>f. Inr (d\<lparr>a_rtpmap_audio := f\<rparr>)))
      | None \<Rightarrow>
          bind (strncpy (m_audio d) ''NULL'' 64) (\<lambda>f1.
          bind (strncpy (a_rtpmap_audio d) ''NULL'' 128) (\<lambda>f2.
            Inr (d\<lparr>m_audio := f1, a_rtpmap_audio := f2\<rparr>))))"

definition analysis_sdp_info :: "char list \<Rightarrow> DEV_LIST \<Rightarrow> DEV_LIST res" where
  "analysis_sdp_info s d = bind (analysis_sdp_video s d) (analysis_sdp_audio s)"

section \<open>Digest authentication\<close>

text \<open>
  \<open>start = strchr(p, '"'); end = strchr(start + 2, '"'); memcpy(field, start + 1, end - start - 1)\<close>.
  \<open>start + 2\<close> may lie one past the terminator of the string.
\<close>

definition quoted_value :: "char list \<Rightarrow> char list \<Rightarrow> char list res" where
  "quoted_value field p =
     (case strchr p CHR 0x22 of
        None \<Rightarrow> Inl Null_Deref
      | Some a \<Rightarrow>
          if length p < a + 2 then Inl Out_Of_Bounds
          else (case strchr (drop (a + 2) p) CHR 0x22 of
                  None \<Rightarrow> Inl Out_Of_Bounds
                | Some n \<Rightarrow> wr_block field 0 (take (n + 1) (drop (a + 1) p))))"

definition get_realm_and_nonce :: "char list \<Rightarrow> DEV_LIST \<Rightarrow> (DEV_LIST \<times> int) res" where
  "get_realm_and_nonce msg d =
     (case strstr msg ''realm'' of
        None \<Rightarrow> Inr (d, - 1)
      | Some i \<Rightarrow>
          bind (quoted_value (d_realm d) (drop i msg)) (\<lambda>f.
          let d = d\<lparr>d_realm := f\<rparr> in
            case strstr msg ''nonce'' of
              None \<Rightarrow> Inr (d, 0)
            | Some j \<Rightarrow> bind (quoted_value (d_nonce d) (drop j msg)) (\<lambda>f. Inr (d\<lparr>d_nonce := f\<rparr>, 0))))"

text \<open>The main stream, or the sub stream when one is asked for and configured.\<close>

definition stream_url :: "DEV_LIST \<Rightarrow> char list res" where
  "stream_url d =
     (if iDevStreamType d = 0 then cstr_at (arrDevRtspMainUrl d) 0
      else bind (cstr_at (arrDevRtspSubUrl d) 0) (\<lambda>sub.
        if length sub = 0 then cstr_at (arrDevRtspMainUrl d) 0 else Inr sub))"

text \<open>\<open>snprintf\<close> into a fresh array of \<open>n\<close> bytes, read back as a string.\<close>

definition sn_text :: "nat \<Rightarrow> char list \<Rightarrow> char list" where
  "sn_text n s = take (n - 1) s"

definition md5_hex :: "u8 list \<Rightarrow> nat \<Rightarrow> char list \<Rightarrow> char list res" where
  "md5_hex junk n s =
     bind (md5_packages_string junk (zeros n) s (of_nat (length s))) (\<lambda>buf. cstr_at buf 0)"

definition get_response :: "u8 list \<Rightarrow> char list \<Rightarrow> DEV_LIST \<Rightarrow> char list res" where
  "get_response junk method d =
     bind (cstr_at (arrUserName d) 0) (\<lambda>user.
     bind (cstr_at (d_realm d) 0) (\<lambda>realm.
     bind (cstr_at (arrUserPasswd d) 0) (\<lambda>passwd.
     bind (md5_hex junk 64 (sn_text 512 (user @ '':'' @ realm @ '':'' @ passwd))) (\<lambda>part1.
     bind (stream_url d) (\<lambda>url.
     bind (md5_hex junk 64 (sn_text 512 (method @ '':'' @ url))) (\<lambda>part3.
     bind (cstr_at (d_nonce d) 0) (\<lambda>nonce.
       md5_hex junk 64 (sn_text 512 (part1 @ '':'' @ nonce @ '':'' @ part3)))))))))"

section \<open>Requests and URLs\<close>

definition describe_basic :: "char list \<Rightarrow> char list \<Rightarrow> char list" where
  "describe_basic url auth =
     ''DESCRIBE '' @ url @ '' RTSP/1.0'' @ CRLF @ ''CSeq: 3'' @ CRLF @ ''Accept: application/sdp'' @ CRLF @
     ''Authorization: Basic '' @ auth @ CRLF @ CRLF"

definition describe_digest ::
  "char list \<Rightarrow> char list \<Rightarrow> char list \<Rightarrow> char list \<Rightarrow> char list \<Rightarrow> char list" where
  \<open>describe_digest url user realm nonce response =
     ''DESCRIBE '' @ url @ '' RTSP/1.0'' @ CRLF @ ''CSeq: 4'' @ CRLF @
     ''Authorization: Digest username="'' @ user @ ''", realm="'' @ realm @ ''", nonce="'' @ nonce @
     ''", uri="'' @ url @ ''", response="'' @ response @ ''"'' @ CRLF @
     ''User-Agent: LibVLC/2.2.6 (LIVE555 Streaming Media v2016.02.22)'' @ CRLF @
     ''Accept: application/sdp'' @ CRLF @ CRLF\<close>

definition basic_request :: "DEV_LIST \<Rightarrow> char list res" where
  "basic_request d =
     bind (stream_url d) (\<lambda>url.
     bind (cstr_at (arrBasicAuthenticate d) 0) (\<lambda>auth. Inr (sn_text 1024 (describe_basic url auth))))"

definition digest_request :: "char list \<Rightarrow> DEV_LIST \<Rightarrow> char list res" where
  "digest_request response d =
     bind (stream_url d) (\<lambda>url.
     bind (cstr_at (arrUserName d) 0) (\<lambda>user.
     bind (cstr_at (d_realm d) 0) (\<lambda>realm.
     bind (cstr_at (d_nonce d) 0) (\<lambda>nonce.
       Inr (sn_text 1024 (describe_digest url user realm nonce response))))))"

text \<open>\<open>arrOpenRtspUrl\<close> (lines 571-616).\<close>

definition open_source :: "DEV_LIST \<Rightarrow> char list res" where
  "open_source d =
     (if iDevStreamType d = 0 then cstr_at (arrDevRtspMainUrl d) 7
      else bind (cstr_at (arrDevRtspSubUrl d) 0) (\<lambda>sub.
        if length sub = 0 then cstr_at (arrDevRtspMainUrl d) 7 else cstr_at (arrDevRtspSubUrl d) 7))"

definition open_url :: "DEV_LIST \<Rightarrow> char list res" where
  "open_url d =
     bind (cstr_at (arrUserName d) 0) (\<lambda>user.
     bind (open_source d) (\<lambda>rest.
       if length user = 0 then Inr (sn_text 1024 (''rtsp://'' @ rest))
       else bind (cstr_at (arrUserPasswd d) 0) (\<lambda>passwd.
         Inr (sn_text 1024 (''rtsp://'' @ user @ '':'' @ passwd @ ''@'' @ rest)))))"

section \<open>The database row\<close>

text \<open>\<open>strncpy(field, value, strlen(value))\<close>; \<open>None\<close> is an SQL \<open>NULL\<close>.\<close>

definition copy_column :: "char list \<Rightarrow> char list option \<Rightarrow> char list res" where
  "copy_column field v = (case v of None \<Rightarrow> Inl Null_Deref | Some s \<Rightarrow> strncpy field s (length s))"

definition device_url :: "DEV_LIST \<Rightarrow> char list option \<Rightarrow> char list res" where
  "device_url d v =
     bind (copy_column (zeros 512) v) (\<lambda>tmp.
     bind (cstr_at tmp 0) (\<lambda>path.
     bind (cstr_at (arrDevIp d) 0) (\<lambda>ip.
       Inr (snprintf (zeros 512) (''rtsp://'' @ ip @ '':'' @ show_int (iDevRtspPort d) @ path)))))"

definition load_device_ip_port_cb :: "char list option list \<Rightarrow> DEV_LIST \<Rightarrow> DEV_LIST res" where
  "load_device_ip_port_cb row d =
     bind (rd row 0) (\<lambda>v0. bind (rd row 1) (\<lambda>v1. bind (rd row 2) (\<lambda>v2. bind (rd row 3) (\<lambda>v3.
     bind (rd row 4) (\<lambda>v4. bind (rd row 5) (\<lambda>v5. bind (rd row 6) (\<lambda>v6.
     bind (copy_column (arrDevIp d) v0) (\<lambda>ip.
     case v1 of None \<Rightarrow> Inl Null_Deref | Some port \<Rightarrow>
     bind (copy_column (arrUserName d) v2) (\<lambda>user.
     bind (copy_column (arrUserPasswd d) v3) (\<lambda>passwd.
     bind (copy_column (arrBasicAuthenticate d) v4) (\<lambda>auth.
     let d = d\<lparr>arrDevIp := ip, iDevRtspPort := atoi port, arrUserName := user,
               arrUserPasswd := passwd, arrBasicAuthenticate := auth\<rparr> in
     bind (device_url d v5) (\<lambda>u1.
     bind (device_url d v6) (\<lambda>u2.
       Inr (d\<lparr>arrDevRtspMainUrl := u1, arrDevRtspSubUrl := u2\<rparr>))))))))))))))"

section \<open>Command messages\<close>

text \<open>
  \<open>BOX_CTRL_CMD_OBJ\<close>: 32 bytes on the target (the \<open>long long\<close> is at offset 24).
  The enumerations are 32-bit, zero until set.
\<close>

record BOX_CTRL_CMD =
  c_header :: "char list"
  c_cmd_length :: "32 word"
  c_data_type :: "32 word"
  c_cmd_type :: "32 word"
  c_cmd_code :: "32 word"
  c_pts :: "64 word"

abbreviation (input) I_FRAME :: "32 word" where "I_FRAME \<equiv> 1"
abbreviation (input) BP_FRAME :: "32 word" where "BP_FRAME \<equiv> 2"
abbreviation (input) BOX_VIDEO_DATA :: "32 word" where "BOX_VIDEO_DATA \<equiv> 3"
abbreviation (input) CMD_OK :: "32 word" where "CMD_OK \<equiv> 1"

definition cmd_magic :: "char list" where "cmd_magic = ''hBzHbox@''"

definition zero_cmd :: BOX_CTRL_CMD where
  "zero_cmd = \<lparr>c_header = zeros 8, c_cmd_length = 0, c_data_type = 0, c_cmd_type = 0, c_cmd_code = 0, c_pts = 0\<rparr>"

definition encode_cmd :: "BOX_CTRL_CMD \<Rightarrow> char list" where
  "encode_cmd m = c_header m @ le_chars 4 (unat (c_cmd_length m)) @ le_chars 4 (unat (c_data_type m)) @
     le_chars 4 (unat (c_cmd_type m)) @ le_chars 4 (unat (c_cmd_code m)) @ le_chars 8 (unat (c_pts m))"

definition cmd_size :: nat where "cmd_size = 32"

text \<open>A header, and \<open>htonl(strlen(body))\<close> bytes of body (lines 545-556 of \<open>libevent_server.c\<close>).\<close>

definition frame_msg :: "char list \<Rightarrow> char list" where
  "frame_msg body =
     encode_cmd (zero_cmd\<lparr>c_header := cmd_magic, c_cmd_code := CMD_OK,
                          c_cmd_length := htonl (of_nat (length body))\<rparr>) @ body"

definition sdp_body :: "DEV_LIST \<Rightarrow> char list res" where
  \<open>sdp_body d =
     bind (cstr_at (m_video d) 0) (\<lambda>mv.
     bind (cstr_at (a_rtpmap_video d) 0) (\<lambda>rv.
     bind (cstr_at (a_fmtp_video d) 0) (\<lambda>fv.
     bind (cstr_at (m_audio d) 0) (\<lambda>ma.
     bind (cstr_at (a_rtpmap_audio d) 0) (\<lambda>ra.
       Inr (sn_text (2048 - cmd_size)
         (''{"CmdType":"sdp_info","m_video":"'' @ mv @ ''","a_rtpmap_video":"'' @ rv @
          ''","a_fmtp_video":"'' @ fv @ ''","m_audio":"'' @ ma @ ''","a_rtpmap_audio":"'' @ ra @ ''"}'')))))))\<close>

definition sdp_message :: "DEV_LIST \<Rightarrow> char list res" where
  "sdp_message d = bind (sdp_body d) (\<lambda>body. Inr (frame_msg body))"

text \<open>
  The head of \<open>deal_client_cmd\<close> (lines 803-829): nothing to do yet, a wrong magic, or a command
  copied into the 512-byte buffer and the input that is left.
\<close>

datatype frame_in = Wait_More | Bad_Header | Command "char list" "char list"

definition read_cmd :: "char list \<Rightarrow> frame_in res" where
  "read_cmd input =
     (if length input < cmd_size then Inr Wait_More
      else if take 8 input \<noteq> cmd_magic then Inr Bad_Header
      else let len = ntohl (of_nat (from_le (take 4 (drop 8 input))));
               total = unat (len + of_nat cmd_size :: 32 word)
           in if length input < total then Inr Wait_More
              else bind (wr_block (zeros CMD_MAX_LEN) 0 (take total input)) (\<lambda>buf.
                     Inr (Command buf (drop total input))))"

section \<open>The serial number\<close>

text \<open>\<open>strtoull(s, 0, 16)\<close> on digits after \<open>0x\<close>.\<close>

definition hex_val :: "char list \<Rightarrow> nat" where
  "hex_val s = hex_number (takeWhile (\<lambda>c. hex_digit c \<noteq> None) s)"

definition strtoull16 :: "char list \<Rightarrow> nat" where
  "strtoull16 s = (if take 2 s = ''0x'' then hex_val (drop 2 s) else hex_val s)"

text \<open>\<open>get_mac_dev\<close> copies six bytes, or leaves the zeros when the \<open>ioctl\<close> fails.\<close>

definition get_mac_dev :: "char list option \<Rightarrow> char list \<Rightarrow> char list res" where
  "get_mac_dev hw mac = (case hw of None \<Rightarrow> Inr mac | Some sa \<Rightarrow> bind (rd_block sa 0 6) (wr_block mac 0))"

definition get_sys_sn :: "char list option \<Rightarrow> char list \<Rightarrow> char list res" where
  "get_sys_sn hw sn =
     bind (get_mac_dev hw (zeros 32)) (\<lambda>mac.
     let sn_mac = ''0x'' @ concat (map (\<lambda>c. hex2 (code_of c)) (take 6 mac));
         sn_num = strtoull16 sn_mac mod 2 ^ 64
     in Inr (snprintf sn (show_nat sn_num)))"

end
