(* ===== verification/Video_Pump.thy ===== *)
theory Video_Pump
  imports Dev_Info Simclist_Spec
begin

text \<open>
  The streaming loop of \<open>read_video_data_from_dev_task\<close> (\<open>src/src/dev_opt.c\<close>, lines 664-809):
  which packets are forwarded, and what a packet does to each client of the device. Clients
  and output buffers are addressed through the heap of the model; FFmpeg's packets are the
  input. \<open>evbuffer\<close> contents are byte lists, emptied at will by the network.
\<close>

section \<open>Packets and the gate\<close>

record AVPacket =
  pk_stream :: int
  pk_flags :: int
  pk_pts :: int
  pk_data :: "char list"

abbreviation pk_size :: "AVPacket \<Rightarrow> nat" where "pk_size p \<equiv> length (pk_data p)"

text \<open>
  Lines 684-734: the new \<open>iIFlag\<close>, and whether the packet reaches the clients. Nothing passes
  before the first key frame with a positive time stamp; audio and other streams never pass.
\<close>

definition gate :: "int \<Rightarrow> int \<Rightarrow> int \<Rightarrow> AVPacket \<Rightarrow> int \<times> bool" where
  "gate videoindex audioindex iIFlag p =
     (if videoindex = pk_stream p then
        if pk_flags p = 1 then
          if iIFlag = 0 then (if pk_pts p > 0 then (1, True) else (iIFlag, False))
          else (iIFlag, True)
        else if iIFlag = 0 then (iIFlag, False) else (iIFlag, True)
      else if audioindex = pk_stream p then (iIFlag, False)
      else (iIFlag, False))"

section \<open>A packet for one client\<close>

record pump =
  v_clients :: "nat \<Rightarrow> CLIENT_LIST option"
  v_out :: "nat \<Rightarrow> char list option"

definition video_cmd :: "AVPacket \<Rightarrow> BOX_CTRL_CMD" where
  "video_cmd p = \<lparr>c_header = cmd_magic, c_cmd_length = of_nat (pk_size p),
     c_data_type = (if pk_flags p = 1 then I_FRAME else BP_FRAME), c_cmd_type = BOX_VIDEO_DATA,
     c_cmd_code = 0, c_pts = of_int (pk_pts p)\<rparr>"

definition video_frame :: "AVPacket \<Rightarrow> char list" where
  "video_frame p = encode_cmd (video_cmd p) @ pk_data p"

text \<open>
  \<open>(LIBEVENT_WRITE_BUF_SIZE - iWriteBufLen) < (p_pkt->size + sizeof(BOX_CTRL_CMD_OBJ))\<close>: the
  right side is unsigned, so the left one is converted.
\<close>

definition buffer_full :: "nat \<Rightarrow> nat \<Rightarrow> bool" where
  "buffer_full buflen pksize \<longleftrightarrow>
     (of_int (LIBEVENT_WRITE_BUF_SIZE - int buflen) :: 32 word) < of_nat pksize + of_nat cmd_size"

text \<open>Lines 769-794, on the client's \<open>iMissFrameFlag\<close> and its output buffer.\<close>

definition deliver :: "AVPacket \<Rightarrow> int \<times> char list \<Rightarrow> int \<times> char list" where
  "deliver p st = (case st of (miss, buf) \<Rightarrow>
     if buffer_full (length buf) (pk_size p) then (1, [])
     else if miss = 1 \<and> pk_flags p \<noteq> 1 then (miss, buf)
     else (0, buf @ video_frame p))"

text \<open>The body of the loop over the clients (lines 753-796); \<open>True\<close> when the client is deleted.\<close>

definition client_body :: "AVPacket \<Rightarrow> pump \<Rightarrow> nat \<Rightarrow> (pump \<times> bool) res" where
  "client_body p s c =
     (case v_clients s c of
        None \<Rightarrow> Inl Use_After_Free
      | Some cl \<Rightarrow>
          if iDelFlag cl = 1 then
            (case pSendVideoToServerEvent cl of
               None \<Rightarrow> Inr (s, False)
             | Some b \<Rightarrow> (case v_out s b of
                   None \<Rightarrow> Inl Use_After_Free
                 | Some buf \<Rightarrow> Inr (s\<lparr>v_out := (v_out s)(b := None),
                     v_clients := (v_clients s)(c \<mapsto> cl\<lparr>pSendVideoToServerEvent := None\<rparr>)\<rparr>, True)))
          else if iSendFrameFlag cl = 1 then
            (case pSendVideoToServerEvent cl of
               None \<Rightarrow> Inl Null_Deref
             | Some b \<Rightarrow> (case v_out s b of
                   None \<Rightarrow> Inl Use_After_Free
                 | Some buf \<Rightarrow> (case deliver p (iMissFrameFlag cl, buf) of (miss, buf') \<Rightarrow>
                     Inr (s\<lparr>v_out := (v_out s)(b \<mapsto> buf'),
                            v_clients := (v_clients s)(c \<mapsto> cl\<lparr>iMissFrameFlag := miss\<rparr>)\<rparr>, False))))
          else Inr (s, False))"

section \<open>The loop\<close>

text \<open>Lines 751-798, for the \<open>iClientNum\<close> clients counted before the lock was taken.\<close>

definition send_counted :: "AVPacket \<Rightarrow> nat \<Rightarrow> (nat, 'k) list_t \<Rightarrow> pump \<Rightarrow> ((nat, 'k) list_t \<times> pump) res" where
  "send_counted p iClientNum l s =
     sweep list_get_at (\<lambda>l x. list_delete l (Some x)) (client_body p) iClientNum 0 l s"

definition send_frame :: "AVPacket \<Rightarrow> (nat, 'k) list_t \<Rightarrow> pump \<Rightarrow> ((nat, 'k) list_t \<times> pump) res" where
  "send_frame p l s = send_counted p (list_size l) l s"

text \<open>
  The packets \<open>av_read_frame\<close> returns until it fails; the loop also ends when the list is empty.
  This is the loop by itself, on clients nobody else changes: the steps of a video thread of
  Server_Step are its turns, with the rest of the server in between.
\<close>

fun pump_loop ::
  "int \<Rightarrow> int \<Rightarrow> int \<Rightarrow> (nat, 'k) list_t \<Rightarrow> pump \<Rightarrow> AVPacket list \<Rightarrow> ((nat, 'k) list_t \<times> pump) res" where
  "pump_loop v a flag l s [] = Inr (l, s)"
| "pump_loop v a flag l s (p # ps) =
     (if list_size l < 1 then Inr (l, s)
      else case gate v a flag p of (flag, fwd) \<Rightarrow>
        if fwd then bind (send_frame p l s) (\<lambda>(l, s). pump_loop v a flag l s ps)
        else pump_loop v a flag l s ps)"

section \<open>The gate over a stream\<close>

fun gated :: "int \<Rightarrow> int \<Rightarrow> int \<Rightarrow> AVPacket list \<Rightarrow> AVPacket list" where
  "gated v a flag [] = []"
| "gated v a flag (p # ps) = (case gate v a flag p of (flag, fwd) \<Rightarrow>
     if fwd then p # gated v a flag ps else gated v a flag ps)"

definition key_frame :: "int \<Rightarrow> AVPacket \<Rightarrow> bool" where
  "key_frame v p \<longleftrightarrow> pk_stream p = v \<and> pk_flags p = 1 \<and> pk_pts p > 0"

lemma gated_open: "gated v a 1 ps = filter (\<lambda>p. pk_stream p = v) ps"
  by (induction ps) (auto simp: gate_def)

text \<open>Packets that all go to the clients, until no client is left.\<close>

fun send_frames :: "(nat, 'k) list_t \<Rightarrow> pump \<Rightarrow> AVPacket list \<Rightarrow> ((nat, 'k) list_t \<times> pump) res" where
  "send_frames l s [] = Inr (l, s)"
| "send_frames l s (p # ps) =
     (if list_size l < 1 then Inr (l, s) else bind (send_frame p l s) (\<lambda>(l, s). send_frames l s ps))"

lemma send_frames_none: "list_size l < 1 \<Longrightarrow> send_frames l s ps = Inr (l, s)"
  by (cases ps) simp_all

lemma pump_loop_gated: "pump_loop v a flag l s ps = send_frames l s (gated v a flag ps)"
proof (induction ps arbitrary: flag l s)
  case (Cons p ps)
  obtain flag' fwd where g: "gate v a flag p = (flag', fwd)" by fastforce
  show ?case
    using g by (cases "send_frame p l s") (simp_all add: Cons.IH send_frames_none split: prod.split)
qed simp

lemma gated_key_frame: "gated v a 0 ps = filter (\<lambda>p. pk_stream p = v) (dropWhile (\<lambda>p. \<not> key_frame v p) ps)"
proof (induction ps)
  case (Cons p ps)
  then show ?case using gated_open [of v a ps] by (auto simp: gate_def key_frame_def)
qed simp

text \<open>
  C23: the clients are offered exactly the video packets from the first key frame with a positive
  time stamp on: these are the packets that pass, and the loop over a stream, from its start, does
  what sending them one after the other until no client is left does, faults included.
\<close>

theorem gated_from_key_frame:
  "gated v a 0 ps = filter (\<lambda>p. pk_stream p = v) (dropWhile (\<lambda>p. \<not> key_frame v p) ps) \<and>
   pump_loop v a 0 l s ps = send_frames l s (filter (\<lambda>p. pk_stream p = v) (dropWhile (\<lambda>p. \<not> key_frame v p) ps))"
  by (simp add: pump_loop_gated gated_key_frame)

section \<open>The invariant of the clients\<close>

text \<open>
  The clients on the list are allocated and distinct, their events are live and not shared, a
  client that is to be sent frames has an event, and no buffer exceeds the limit.
\<close>

definition bev_of :: "pump \<Rightarrow> nat \<Rightarrow> nat option" where
  "bev_of s c = (case v_clients s c of None \<Rightarrow> None | Some cl \<Rightarrow> pSendVideoToServerEvent cl)"

definition client_ok :: "pump \<Rightarrow> nat \<Rightarrow> bool" where
  "client_ok s c \<longleftrightarrow>
     (\<exists>cl. v_clients s c = Some cl \<and>
       (iSendFrameFlag cl = 1 \<and> iDelFlag cl \<noteq> 1 \<longrightarrow> pSendVideoToServerEvent cl \<noteq> None) \<and>
       (\<forall>b. pSendVideoToServerEvent cl = Some b \<longrightarrow> v_out s b \<noteq> None))"

definition clients_ok :: "pump \<Rightarrow> nat list \<Rightarrow> bool" where
  "clients_ok s cs \<longleftrightarrow> distinct cs \<and> (\<forall>c \<in> set cs. client_ok s c) \<and>
     (\<forall>c \<in> set cs. \<forall>c' \<in> set cs. \<forall>b. bev_of s c = Some b \<and> bev_of s c' = Some b \<longrightarrow> c = c')"

definition buffers_bounded :: "pump \<Rightarrow> bool" where
  "buffers_bounded s \<longleftrightarrow> (\<forall>b buf. v_out s b = Some buf \<longrightarrow> int (length buf) \<le> LIBEVENT_WRITE_BUF_SIZE)"

definition packet_ok :: "AVPacket \<Rightarrow> bool" where "packet_ok p \<longleftrightarrow> pk_size p < 2 ^ 31"

definition dying :: "pump \<Rightarrow> nat \<Rightarrow> bool" where
  "dying s c \<longleftrightarrow> (\<exists>cl. v_clients s c = Some cl \<and> iDelFlag cl = 1 \<and> pSendVideoToServerEvent cl \<noteq> None)"

lemma video_frame_length [simp]: "length (video_frame p) = pk_size p + 32"
  by (simp add: video_frame_def encode_cmd_def video_cmd_def cmd_magic_def)

lemma buffer_full_iff:
  assumes "int n \<le> LIBEVENT_WRITE_BUF_SIZE" "k < 2 ^ 31"
  shows "buffer_full n k \<longleftrightarrow> LIBEVENT_WRITE_BUF_SIZE < int n + int k + 32"
proof -
  let ?r = "2097152 - n"
  have r: "LIBEVENT_WRITE_BUF_SIZE - int n = int ?r" "?r \<le> 2097152"
    using assms(1) by (simp_all add: LIBEVENT_WRITE_BUF_SIZE_def)
  have u1: "unat (of_int (LIBEVENT_WRITE_BUF_SIZE - int n) :: 32 word) = ?r"
    using r(2) by (simp only: r(1) of_int_of_nat_eq unat_of_nat) simp
  have "(of_nat k + of_nat cmd_size :: 32 word) = of_nat (k + 32)" by (simp add: cmd_size_def)
  moreover have "unat (of_nat (k + 32) :: 32 word) = k + 32"
    using assms(2) by (simp only: unat_of_nat) simp
  ultimately have u2: "unat (of_nat k + of_nat cmd_size :: 32 word) = k + 32" by simp
  have "buffer_full n k \<longleftrightarrow> ?r < k + 32"
    unfolding buffer_full_def word_less_nat_alt u1 u2 ..
  then show ?thesis using assms(1) by (auto simp: LIBEVENT_WRITE_BUF_SIZE_def)
qed

lemma deliver_bounded:
  assumes "int (length buf) \<le> LIBEVENT_WRITE_BUF_SIZE" "packet_ok p" "deliver p (miss, buf) = (miss', buf')"
  shows "int (length buf') \<le> LIBEVENT_WRITE_BUF_SIZE"
  using assms buffer_full_iff [of "length buf" "pk_size p"]
  by (auto simp: deliver_def packet_ok_def LIBEVENT_WRITE_BUF_SIZE_def split: if_splits)

text \<open>What a client and its buffer are, and become with a packet.\<close>

definition view :: "pump \<Rightarrow> nat \<Rightarrow> (CLIENT_LIST \<times> char list option) option" where
  "view s c = map_option (\<lambda>cl. (cl, case pSendVideoToServerEvent cl of None \<Rightarrow> None | Some b \<Rightarrow> v_out s b)) (v_clients s c)"

definition next_view :: "AVPacket \<Rightarrow> CLIENT_LIST \<times> char list option \<Rightarrow> CLIENT_LIST \<times> char list option" where
  "next_view p w = (case w of (cl, out) \<Rightarrow>
     if iDelFlag cl = 1 then (cl\<lparr>pSendVideoToServerEvent := None\<rparr>, None)
     else if iSendFrameFlag cl = 1 then
       (case out of None \<Rightarrow> w
        | Some buf \<Rightarrow> (case deliver p (iMissFrameFlag cl, buf) of (miss, buf') \<Rightarrow> (cl\<lparr>iMissFrameFlag := miss\<rparr>, Some buf')))
     else w)"

lemma CLIENT_LIST_same_event [simp]:
  "pSendVideoToServerEvent cl = None \<Longrightarrow> cl\<lparr>pSendVideoToServerEvent := None\<rparr> = cl"
  by (cases cl) simp

lemma client_ok_view:
  "client_ok s c \<longleftrightarrow> (\<exists>cl out. view s c = Some (cl, out) \<and>
     (iSendFrameFlag cl = 1 \<and> iDelFlag cl \<noteq> 1 \<longrightarrow> pSendVideoToServerEvent cl \<noteq> None) \<and>
     (pSendVideoToServerEvent cl \<noteq> None \<longrightarrow> out \<noteq> None))"
  by (auto simp: client_ok_def view_def)

lemma dying_view: "dying s c \<longleftrightarrow> (\<exists>cl out. view s c = Some (cl, out) \<and> iDelFlag cl = 1 \<and> pSendVideoToServerEvent cl \<noteq> None)"
  by (auto simp: dying_def view_def)

lemma bev_of_view: "bev_of s c = (case view s c of None \<Rightarrow> None | Some (cl, out) \<Rightarrow> pSendVideoToServerEvent cl)"
  by (simp add: bev_of_def view_def split: option.split)

text \<open>One client: what changes, and what does not.\<close>

lemma client_body_step:
  assumes "client_ok s c"
  shows "\<exists>s'. client_body p s c = Inr (s', dying s c) \<and> view s' c = map_option (next_view p) (view s c) \<and>
     (\<forall>c'. c' \<noteq> c \<longrightarrow> v_clients s' c' = v_clients s c') \<and>
     (\<forall>b. bev_of s c \<noteq> Some b \<longrightarrow> v_out s' b = v_out s b)"
proof -
  from assms obtain cl where cl: "v_clients s c = Some cl"
    "iSendFrameFlag cl = 1 \<and> iDelFlag cl \<noteq> 1 \<longrightarrow> pSendVideoToServerEvent cl \<noteq> None"
    "\<forall>b. pSendVideoToServerEvent cl = Some b \<longrightarrow> v_out s b \<noteq> None" by (auto simp: client_ok_def)
  show ?thesis
  proof (cases "pSendVideoToServerEvent cl")
    case None
    then show ?thesis using cl
      by (auto simp: client_body_def dying_def view_def next_view_def bev_of_def)
  next
    case (Some b)
    then obtain buf where b: "v_out s b = Some buf" using cl(3) by blast
    show ?thesis
    proof (cases "deliver p (iMissFrameFlag cl, buf)")
      case (Pair miss buf')
      then show ?thesis using cl Some b
        by (auto simp: client_body_def dying_def view_def next_view_def bev_of_def)
    qed
  qed
qed

lemma view_other:
  assumes "v_clients s' c' = v_clients s c'" "\<forall>b. bev_of s c \<noteq> Some b \<longrightarrow> v_out s' b = v_out s b"
    and "\<forall>b. bev_of s c = Some b \<and> bev_of s c' = Some b \<longrightarrow> c = c'" "c' \<noteq> c"
  shows "view s' c' = view s c'"
proof (cases "v_clients s c'")
  case None
  then show ?thesis using assms(1) by (simp add: view_def)
next
  case (Some cl)
  then have "pSendVideoToServerEvent cl = Some b \<Longrightarrow> bev_of s c \<noteq> Some b" for b
    using assms(3,4) by (auto simp: bev_of_def)
  then show ?thesis using Some assms(1,2) by (auto simp: view_def split: option.split)
qed

text \<open>All clients, in the order of the list.\<close>

lemma sweep_clients:
  assumes "clients_ok s cs"
  shows "\<exists>s'. sweep_seq (client_body p) cs s = Inr (filter (\<lambda>c. \<not> dying s c) cs, s') \<and>
     (\<forall>c \<in> set cs. view s' c = map_option (next_view p) (view s c)) \<and>
     (\<forall>c. c \<notin> set cs \<longrightarrow> v_clients s' c = v_clients s c) \<and>
     (\<forall>b. (\<forall>c \<in> set cs. bev_of s c \<noteq> Some b) \<longrightarrow> v_out s' b = v_out s b)"
  using assms
proof (induction cs arbitrary: s)
  case (Cons c cs)
  have ok: "client_ok s c" using Cons.prems by (simp add: clients_ok_def)
  from client_body_step [OF ok, of p] obtain s1 where s1:
    "client_body p s c = Inr (s1, dying s c)" "view s1 c = map_option (next_view p) (view s c)"
    "\<forall>c'. c' \<noteq> c \<longrightarrow> v_clients s1 c' = v_clients s c'"
    "\<forall>b. bev_of s c \<noteq> Some b \<longrightarrow> v_out s1 b = v_out s b" by blast
  have oth: "view s1 c' = view s c'" if "c' \<in> set cs" for c'
  proof (rule view_other [OF _ s1(4)])
    have ne: "c' \<noteq> c" using that Cons.prems by (auto simp: clients_ok_def)
    then show "v_clients s1 c' = v_clients s c'" "c' \<noteq> c" using s1(3) by simp_all
    show "\<forall>b. bev_of s c = Some b \<and> bev_of s c' = Some b \<longrightarrow> c = c'"
      using that Cons.prems unfolding clients_ok_def by auto
  qed
  have bev: "bev_of s1 c' = bev_of s c'" "client_ok s1 c' = client_ok s c'" "dying s1 c' = dying s c'"
    if "c' \<in> set cs" for c'
    using oth [OF that] by (simp_all add: bev_of_view client_ok_view dying_view)
  have "clients_ok s1 cs" using Cons.prems bev by (simp add: clients_ok_def)
  from Cons.IH [OF this] obtain s2 where s2:
    "sweep_seq (client_body p) cs s1 = Inr (filter (\<lambda>c. \<not> dying s1 c) cs, s2)"
    "\<forall>c \<in> set cs. view s2 c = map_option (next_view p) (view s1 c)"
    "\<forall>c. c \<notin> set cs \<longrightarrow> v_clients s2 c = v_clients s1 c"
    "\<forall>b. (\<forall>c \<in> set cs. bev_of s1 c \<noteq> Some b) \<longrightarrow> v_out s2 b = v_out s1 b" by blast
  have nc: "c \<notin> set cs" using Cons.prems by (simp add: clients_ok_def)
  have vc: "view s2 c = view s1 c"
  proof -
    have "v_clients s2 c = v_clients s1 c" using s2(3) nc by blast
    moreover have "v_out s2 b = v_out s1 b" if "bev_of s1 c = Some b" for b
    proof -
      have "bev_of s c = Some b" using that s1(2)
        by (auto simp: bev_of_view next_view_def split: option.splits if_splits prod.splits)
      then have "\<forall>c' \<in> set cs. bev_of s1 c' \<noteq> Some b"
        using Cons.prems bev nc by (auto simp: clients_ok_def)
      then show ?thesis using s2(4) by blast
    qed
    ultimately show ?thesis
      by (cases "v_clients s1 c") (auto simp: view_def bev_of_def split: option.split)
  qed
  have fl: "filter (\<lambda>c. \<not> dying s1 c) cs = filter (\<lambda>c. \<not> dying s c) cs"
    by (rule filter_cong) (simp_all add: bev)
  have "sweep_seq (client_body p) (c # cs) s = Inr (filter (\<lambda>c. \<not> dying s c) (c # cs), s2)"
    using s1(1) s2(1) fl by simp
  moreover have "\<forall>c' \<in> set (c # cs). view s2 c' = map_option (next_view p) (view s c')"
    using vc s1(2) s2(2) oth by simp
  moreover have "\<forall>c'. c' \<notin> set (c # cs) \<longrightarrow> v_clients s2 c' = v_clients s c'"
    using s1(3) s2(3) by simp
  moreover have "\<forall>b. (\<forall>c' \<in> set (c # cs). bev_of s c' \<noteq> Some b) \<longrightarrow> v_out s2 b = v_out s b"
    using s1(4) s2(4) bev by simp
  ultimately show ?case by blast
qed simp

lemma next_view_survivor:
  assumes "view s c = Some w" "\<not> dying s c" "view s' c = Some (next_view p w)" "client_ok s c"
  shows "client_ok s' c \<and> bev_of s' c = bev_of s c"
proof -
  obtain cl out where w: "w = (cl, out)" by (cases w)
  show ?thesis using assms unfolding w
    by (cases out; cases "pSendVideoToServerEvent cl")
      (auto simp: client_ok_view bev_of_view dying_view next_view_def split: prod.splits if_splits)
qed

lemma clients_ok_after:
  assumes "clients_ok s cs" "\<forall>c \<in> set cs. view s' c = map_option (next_view p) (view s c)"
  shows "clients_ok s' (filter (\<lambda>c. \<not> dying s c) cs)"
proof -
  have sv: "client_ok s' c \<and> bev_of s' c = bev_of s c" if "c \<in> set cs" "\<not> dying s c" for c
  proof -
    have ok: "client_ok s c" using assms(1) that by (simp add: clients_ok_def)
    then obtain w where w: "view s c = Some w" by (auto simp: client_ok_view)
    with assms(2) that have "view s' c = Some (next_view p w)" by simp
    from next_view_survivor [OF w that(2) this ok] show ?thesis .
  qed
  show ?thesis
    unfolding clients_ok_def
  proof (intro conjI ballI allI impI)
    show "distinct (filter (\<lambda>c. \<not> dying s c) cs)" using assms(1) by (simp add: clients_ok_def)
  next
    fix c assume "c \<in> set (filter (\<lambda>c. \<not> dying s c) cs)"
    then show "client_ok s' c" using sv by simp
  next
    fix c c' b
    assume m: "c \<in> set (filter (\<lambda>c. \<not> dying s c) cs)" "c' \<in> set (filter (\<lambda>c. \<not> dying s c) cs)"
      and b: "bev_of s' c = Some b \<and> bev_of s' c' = Some b"
    then have "bev_of s c = Some b" "bev_of s c' = Some b" using sv by simp_all
    then show "c = c'" using assms(1) m unfolding clients_ok_def by auto
  qed
qed

lemma client_body_bounded:
  assumes "buffers_bounded s" "packet_ok p" "client_body p s c = Inr (s', dead)"
  shows "buffers_bounded s'"
proof (cases "v_clients s c")
  case None
  then show ?thesis using assms(3) by (simp add: client_body_def)
next
  case (Some cl)
  show ?thesis
  proof (cases "pSendVideoToServerEvent cl")
    case None
    then show ?thesis using assms(1,3) Some by (auto simp: client_body_def split: if_splits)
  next
    case ev: (Some b)
    show ?thesis
    proof (cases "v_out s b")
      case None
      then show ?thesis using assms(1,3) Some ev by (auto simp: client_body_def split: if_splits)
    next
      case (Some buf)
      obtain miss buf' where d: "deliver p (iMissFrameFlag cl, buf) = (miss, buf')" by fastforce
      have "int (length buf') \<le> LIBEVENT_WRITE_BUF_SIZE"
        using deliver_bounded [OF _ assms(2) d] assms(1) Some by (auto simp: buffers_bounded_def)
      then show ?thesis using assms(1,3) Some ev \<open>v_clients s c = Some cl\<close> d
        by (auto simp: client_body_def buffers_bounded_def split: if_splits)
    qed
  qed
qed

lemma sweep_bounded:
  "buffers_bounded s \<Longrightarrow> packet_ok p \<Longrightarrow> sweep_seq (client_body p) cs s = Inr (ys, s') \<Longrightarrow> buffers_bounded s'"
proof (induction cs arbitrary: s ys)
  case (Cons c cs)
  from Cons.prems(3) obtain s1 dead zs where
    "client_body p s c = Inr (s1, dead)" "sweep_seq (client_body p) cs s1 = Inr (zs, s')"
    by (auto simp: bind_Inr_iff split: prod.splits if_splits)
  then show ?case using Cons.IH client_body_bounded Cons.prems(1,2) by blast
qed simp

lemma send_frame_step:
  assumes "holds_list l cs" "clients_ok s cs" "length cs < 2 ^ 31"
  shows "\<exists>l' s'. send_frame p l s = Inr (l', s') \<and>
      holds_list l' (filter (\<lambda>c. \<not> dying s c) cs) \<and> clients_ok s' (filter (\<lambda>c. \<not> dying s c) cs) \<and>
      (\<forall>c \<in> set cs. view s' c = map_option (next_view p) (view s c)) \<and>
      (buffers_bounded s \<and> packet_ok p \<longrightarrow> buffers_bounded s')"
proof -
  have d: "distinct cs" using assms(2) by (simp add: clients_ok_def)
  from sweep_clients [OF assms(2), of p] obtain s' where s':
    "sweep_seq (client_body p) cs s = Inr (filter (\<lambda>c. \<not> dying s c) cs, s')"
    "\<forall>c \<in> set cs. view s' c = map_option (next_view p) (view s c)" by blast
  from ptr_list.sweep_all [OF assms(1) d assms(3), of "client_body p" s] s'(1) obtain l' where
    "send_frame p l s = Inr (l', s')" "holds_list l' (filter (\<lambda>c. \<not> dying s c) cs)"
    by (auto simp: send_frame_def send_counted_def)
  then show ?thesis using clients_ok_after [OF assms(2) s'(2)] s'(2) sweep_bounded [OF _ _ s'(1)] by blast
qed

section \<open>Properties\<close>

text \<open>
  a forwarded packet reaches every client on the list exactly once, whatever the loop deletes
  on its way: a client marked for deletion with a live event leaves the list and loses the
  event, and every other client's miss flag and output buffer become what \<open>deliver\<close> says of
  that client alone.
\<close>

theorem send_frame_clients:
  assumes "holds_list l cs" "clients_ok s cs" "length cs < 2 ^ 31"
  shows "\<exists>l' s'. send_frame p l s = Inr (l', s') \<and> holds_list l' (filter (\<lambda>c. \<not> dying s c) cs) \<and>
      (\<forall>c \<in> set cs. view s' c = map_option (next_view p) (view s c))"
  using send_frame_step [OF assms] by blast

definition demo_pump :: pump where
  "demo_pump = \<lparr>v_clients = [1 \<mapsto> \<lparr>iSendFrameFlag = 1, iDelFlag = 1, iMissFrameFlag = 0, pSendVideoToServerEvent = Some 10\<rparr>,
                            2 \<mapsto> \<lparr>iSendFrameFlag = 1, iDelFlag = 0, iMissFrameFlag = 0, pSendVideoToServerEvent = Some 20\<rparr>],
                v_out = [10 \<mapsto> [], 20 \<mapsto> []]\<rparr>"

lemma demo_pump_ok: "clients_ok demo_pump [1, 2]" "buffers_bounded demo_pump"
  by (auto simp: clients_ok_def client_ok_def bev_of_def demo_pump_def buffers_bounded_def
      LIBEVENT_WRITE_BUF_SIZE_def split: if_splits)

theorem send_frame_clients_witness:
  "\<exists>l l' :: (nat, nat) list_t. \<exists>s'. holds_list l [1, 2]
     \<and> send_frame \<lparr>pk_stream = 0, pk_flags = 1, pk_pts = 5, pk_data = ''k''\<rparr> l demo_pump = Inr (l', s') \<and> holds_list l' [2]"
proof -
  obtain l :: "(nat, nat) list_t" where l: "holds_list l [1, 2]" using holds_list_exists by blast
  have f: "filter (\<lambda>c. \<not> dying demo_pump c) [1, 2] = [2]" by (simp add: dying_def demo_pump_def)
  from send_frame_clients [OF l demo_pump_ok(1)] l f show ?thesis by fastforce
qed

text \<open>
  C22: whatever packets the device sends, the loop ends without a memory fault, keeps the
  invariant of the clients, only ever removes clients, and never lets an output buffer grow
  past the limit: the unsigned comparison is right because the buffer is never over it.
\<close>

theorem pump_loop_safe:
  assumes "holds_list l cs" "clients_ok s cs" "length cs < 2 ^ 31" "buffers_bounded s" "\<forall>p \<in> set ps. packet_ok p"
  shows "\<exists>l' s' cs'. pump_loop v a flag l s ps = Inr (l', s') \<and> holds_list l' cs' \<and> clients_ok s' cs' \<and>
      buffers_bounded s' \<and> set cs' \<subseteq> set cs"
  using assms
proof (induction ps arbitrary: flag l s cs)
  case (Cons p ps)
  obtain flag' fwd where g: "gate v a flag p = (flag', fwd)" by fastforce
  show ?case
  proof (cases "list_size l < 1 \<or> \<not> fwd")
    case True
    then show ?thesis using Cons g by (cases "list_size l < 1") auto
  next
    case False
    let ?cs = "filter (\<lambda>c. \<not> dying s c) cs"
    from send_frame_step [OF Cons.prems(1-3), of p] Cons.prems(4,5) obtain l1 s1 where s1:
      "send_frame p l s = Inr (l1, s1)" "holds_list l1 ?cs" "clients_ok s1 ?cs" "buffers_bounded s1" by auto
    have "length ?cs < 2 ^ 31" using Cons.prems(3) le_less_trans length_filter_le by blast
    from Cons.IH [OF s1(2,3) this s1(4)] Cons.prems(5) obtain l' s' cs' where
      "pump_loop v a flag' l1 s1 ps = Inr (l', s')" "holds_list l' cs'" "clients_ok s' cs'"
      "buffers_bounded s'" "set cs' \<subseteq> set ?cs" by (metis list.set_intros(2))
    then show ?thesis using False g s1(1) by auto
  qed
qed auto

theorem pump_loop_safe_witness:
  "\<exists>(l :: (nat, nat) list_t) l' s'. holds_list l [1, 2] \<and>
     pump_loop 0 1 0 l demo_pump [\<lparr>pk_stream = 0, pk_flags = 1, pk_pts = 5, pk_data = ''k''\<rparr>] = Inr (l', s') \<and> buffers_bounded s'"
proof -
  obtain l :: "(nat, nat) list_t" where l: "holds_list l [1, 2]" using holds_list_exists by blast
  have "\<forall>p \<in> set [\<lparr>pk_stream = 0, pk_flags = 1, pk_pts = 5, pk_data = ''k''\<rparr>]. packet_ok p"
    by (simp add: packet_ok_def)
  from pump_loop_safe [OF l demo_pump_ok(1) _ demo_pump_ok(2) this, of 0 1 0] l show ?thesis by auto
qed

text \<open>
  What one client is sent, packet after packet: the network may have emptied any part of the
  buffer in between, so each packet comes with the buffer it meets.
\<close>

datatype sent = Sent AVPacket | Dropped

fun client_log :: "int \<Rightarrow> (AVPacket \<times> char list) list \<Rightarrow> sent list" where
  "client_log miss [] = []"
| "client_log miss ((p, buf) # xs) =
     (if buffer_full (length buf) (pk_size p) then [Dropped]
      else if snd (deliver p (miss, buf)) = buf then [] else [Sent p])
     @ client_log (fst (deliver p (miss, buf))) xs"

fun first_sent :: "sent list \<Rightarrow> AVPacket option" where
  "first_sent [] = None"
| "first_sent (Sent p # es) = Some p"
| "first_sent (Dropped # es) = first_sent es"

lemma first_sent_append: "first_sent (es @ fs) = (case first_sent es of None \<Rightarrow> first_sent fs | Some p \<Rightarrow> Some p)"
  by (induction es rule: first_sent.induct) auto

lemma video_frame_not_Nil: "video_frame p \<noteq> []"
  using video_frame_length [of p] by (metis list.size(3) add_is_0 zero_neq_numeral)

lemma client_log_missed: "first_sent (client_log 1 xs) = Some p \<Longrightarrow> pk_flags p = 1"
proof (induction xs)
  case (Cons x xs)
  then show ?case
    by (cases x) (auto simp: first_sent_append deliver_def video_frame_not_Nil split: if_splits)
qed simp

text \<open>
  C24: after a client's buffer has been dropped, the next frame it is sent is a key frame,
  whatever comes in between.
\<close>

theorem key_frame_after_drop:
  assumes "client_log miss xs = es @ Dropped # fs" "first_sent fs = Some p"
  shows "pk_flags p = 1"
  using assms
proof (induction xs arbitrary: miss es)
  case (Cons x xs)
  obtain q buf where x: "x = (q, buf)" by (cases x)
  consider "buffer_full (length buf) (pk_size q)" "es = []"
    | e es' where "es = e # es'" | "\<not> buffer_full (length buf) (pk_size q)" "es = []"
    by (cases es) auto
  then show ?case
  proof cases
    case 1
    then have "fs = client_log 1 xs" using Cons.prems(1) x by (simp add: deliver_def)
    then show ?thesis using client_log_missed Cons.prems(2) by blast
  next
    case (2 e es')
    show ?thesis
    proof (cases "buffer_full (length buf) (pk_size q) \<or> snd (deliver q (miss, buf)) \<noteq> buf")
      case True
      then have "client_log (fst (deliver q (miss, buf))) xs = es' @ Dropped # fs"
        using Cons.prems(1) x 2 by (auto split: if_splits)
      then show ?thesis using Cons.IH Cons.prems(2) by blast
    next
      case False
      then have "client_log (fst (deliver q (miss, buf))) xs = es @ Dropped # fs"
        using Cons.prems(1) x by simp
      then show ?thesis using Cons.IH Cons.prems(2) by blast
    qed
  next
    case 3
    then have "client_log (fst (deliver q (miss, buf))) xs = es @ Dropped # fs"
      using Cons.prems(1) x by (auto split: if_splits)
    then show ?thesis using Cons.IH Cons.prems(2) by blast
  qed
qed simp

theorem key_frame_after_drop_witness:
  "\<exists>b. client_log 0 [(\<lparr>pk_stream = 0, pk_flags = 0, pk_pts = 8, pk_data = ''p''\<rparr>, b),
      (\<lparr>pk_stream = 0, pk_flags = 0, pk_pts = 8, pk_data = ''p''\<rparr>, []),
      (\<lparr>pk_stream = 0, pk_flags = 1, pk_pts = 9, pk_data = ''i''\<rparr>, [])] =
    [] @ Dropped # [Sent \<lparr>pk_stream = 0, pk_flags = 1, pk_pts = 9, pk_data = ''i''\<rparr>] \<and>
    pk_flags \<lparr>pk_stream = 0, pk_flags = 1, pk_pts = 9, pk_data = ''i''\<rparr> = 1"
proof -
  let ?i = "\<lparr>pk_stream = 0, pk_flags = 1, pk_pts = 9, pk_data = ''i''\<rparr>"
  let ?p = "\<lparr>pk_stream = 0, pk_flags = 0, pk_pts = 8, pk_data = ''p''\<rparr>"
  have full: "buffer_full 2097152 1" "\<not> buffer_full 0 1"
    by (simp_all add: buffer_full_iff LIBEVENT_WRITE_BUF_SIZE_def)
  obtain B :: "char list" where B: "length B = 2097152"
    by (rule that [OF length_replicate [of _ NUL]])
  have log: "client_log 0 [(?p, B), (?p, []), (?i, [])] = [] @ Dropped # [Sent ?i]"
    using full B by (simp add: deliver_def video_frame_not_Nil)
  have "first_sent [Sent ?i] = Some ?i" by simp
  from key_frame_after_drop [OF log this] log show ?thesis by blast
qed

end
