(* ===== verification/Cjson.thy ===== *)
theory Cjson
  imports C_Strings Complex_Main "HOL-Library.Log_Nat"
begin

text \<open>
  \<open>src/src/common/cJSON.c\<close>: the parser, the lookups and \<open>cJSON_Parse\<close>. A text is a
  position in the buffer that holds it, and reading past that buffer is a fault; \<open>malloc\<close> is
  taken to succeed. The \<open>next\<close>/\<open>prev\<close> chain under \<open>child\<close> is the list of the children:
  nothing the program calls shares nodes.
\<close>

section \<open>Doubles\<close>

text \<open>
  An IEEE binary64 value is a rational; \<open>dbl\<close> rounds to nearest, ties to even. Every
  non-finite intermediate result of \<open>parse_number\<close> makes its final \<open>(int)n\<close> undefined, so
  overflow is the fault already here.
\<close>

definition pow2 :: "int \<Rightarrow> rat" where
  "pow2 k = (if 0 \<le> k then 2 ^ nat k else 1 / 2 ^ nat (- k))"

definition ilog2 :: "rat \<Rightarrow> int" where
  "ilog2 q = (case quotient_of q of (a, b) \<Rightarrow>
     let k = bitlen \<bar>a\<bar> - bitlen b in if pow2 k \<le> \<bar>q\<bar> then k else k - 1)"

definition round_even :: "rat \<Rightarrow> int" where
  "round_even q = (let f = \<lfloor>q\<rfloor>; d = q - of_int f in
     if d < 1 / 2 then f else if 1 / 2 < d then f + 1 else if even f then f else f + 1)"

definition dbl :: "rat \<Rightarrow> rat res" where
  "dbl q = (if q = 0 then Inr 0
     else let u = pow2 (max (ilog2 q - 52) (- 1074)); r = of_int (round_even (q / u)) * u in
       if pow2 1024 \<le> \<bar>r\<bar> then Inl Undefined else Inr r)"

text \<open>\<open>pow(10.0, k)\<close>, correctly rounded; and \<open>(int)n\<close>.\<close>

definition pow10 :: "int \<Rightarrow> rat res" where
  "pow10 k = dbl (if 0 \<le> k then 10 ^ nat k else 1 / 10 ^ nat (- k))"

definition int_of_double :: "rat \<Rightarrow> int res" where
  "int_of_double q = (let i = (if 0 \<le> q then \<lfloor>q\<rfloor> else \<lceil>q\<rceil>) in
     if INT_MIN \<le> i \<and> i \<le> INT_MAX then Inr i else Inl Undefined)"

section \<open>Items\<close>

datatype json_type = cJSON_False | cJSON_True | cJSON_NULL | cJSON_Number | cJSON_String
  | cJSON_Array | cJSON_Object

datatype cJSON = Item
  (c_type: json_type) (valuestring: "char list option") (valueint: int) (valuedouble: rat)
  (c_string: "char list option") (child: "cJSON list")

text \<open>\<open>calloc\<close>ed: the type is \<open>cJSON_False\<close>, which is 0.\<close>

definition cJSON_New_Item :: cJSON where
  "cJSON_New_Item = Item cJSON_False None 0 0 None []"

definition number_item :: "rat \<Rightarrow> int \<Rightarrow> cJSON" where
  "number_item d i = Item cJSON_Number None i d None []"

definition string_item :: "char list \<Rightarrow> cJSON" where
  "string_item s = Item cJSON_String (Some s) 0 0 None []"

definition list_item :: "json_type \<Rightarrow> cJSON list \<Rightarrow> cJSON" where
  "list_item t cs = Item t None 0 0 None cs"

text \<open>\<open>child->string = child->valuestring\<close>, set before the value is parsed.\<close>

definition name_item :: "char list \<Rightarrow> cJSON \<Rightarrow> cJSON" where
  "name_item k c = Item (c_type c) (valuestring c) (valueint c) (valuedouble c) (Some k) (child c)"

text \<open>A parse function returns the rest of the text, or \<open>0\<close> with \<open>ep\<close> at the error.\<close>

datatype 'a parsed = Fail nat | Got 'a nat

definition got :: "'a parsed res \<Rightarrow> ('a \<Rightarrow> nat \<Rightarrow> 'b parsed res) \<Rightarrow> 'b parsed res" where
  "got r f = bind r (\<lambda>x. case x of Fail e \<Rightarrow> Inr (Fail e) | Got v p \<Rightarrow> f v p)"

lemma got_simps [simp, res_simps]:
  "got (Inl e) f = Inl e" "got (Inr (Fail p)) f = Inr (Fail p)" "got (Inr (Got v p)) f = f v p"
  by (simp_all add: got_def)

lemma got_cong [fundef_cong]:
  "r = r' \<Longrightarrow> (\<And>v p. r' = Inr (Got v p) \<Longrightarrow> f v p = g v p) \<Longrightarrow> got r f = got r' g"
  by (auto simp: got_def split: parsed.splits intro!: bind_cong)

section \<open>Scanning\<close>

text \<open>The characters from \<open>i\<close> on that satisfy \<open>P\<close>; the one that stops the scan is read too.\<close>

definition span_at :: "(char \<Rightarrow> bool) \<Rightarrow> char list \<Rightarrow> nat \<Rightarrow> (char list \<times> nat) res" where
  "span_at P s i = (let w = takeWhile P (drop i s) in
     if i + length w < length s then Inr (w, i + length w) else Inl Out_Of_Bounds)"

definition skip :: "char list \<Rightarrow> nat \<Rightarrow> nat res" where
  "skip s i = bind (span_at (\<lambda>c. c \<noteq> NUL \<and> code_of c \<le> 32) s i) (\<lambda>(_, p). Inr p)"

text \<open>\<open>strncmp(value, literal, strlen(literal)) == 0\<close>.\<close>

fun cmp_lit :: "char list \<Rightarrow> nat \<Rightarrow> char list \<Rightarrow> bool res" where
  "cmp_lit s i [] = Inr True"
| "cmp_lit s i (c # cs) = bind (rd s i) (\<lambda>d. if d = c then cmp_lit s (i + 1) cs else Inr False)"

text \<open>\<open>do n = (n*10.0) + (*num++ - '0')\<close>.\<close>

fun add_digits :: "rat \<Rightarrow> char list \<Rightarrow> rat res" where
  "add_digits n [] = Inr n"
| "add_digits n (d # ds) =
     bind (dbl (n * 10)) (\<lambda>m. bind (dbl (m + of_nat (digit_val d))) (\<lambda>n. add_digits n ds))"

definition opt_char :: "char list \<Rightarrow> nat \<Rightarrow> char \<Rightarrow> nat res" where
  "opt_char s i c = bind (rd s i) (\<lambda>d. Inr (if d = c then i + 1 else i))"

text \<open>\<open>subscale\<close> is an \<open>int\<close>, and its overflow is undefined.\<close>

definition int_digits :: "char list \<Rightarrow> int res" where
  "int_digits ds = (if int (dec_val ds) \<le> INT_MAX then Inr (int (dec_val ds)) else Inl Undefined)"

definition number_fraction :: "rat \<Rightarrow> char list \<Rightarrow> nat \<Rightarrow> (rat \<times> int \<times> nat) res" where
  "number_fraction n s i =
     bind (rd s i) (\<lambda>c. if c \<noteq> CHR ''.'' then Inr (n, 0, i)
      else bind (rd s (i + 1)) (\<lambda>d. if \<not> isdigit d then Inr (n, 0, i)
      else bind (span_at isdigit s (i + 1)) (\<lambda>(ds, j).
           bind (add_digits n ds) (\<lambda>n. Inr (n, - int (length ds), j)))))"

definition number_exponent :: "char list \<Rightarrow> nat \<Rightarrow> (int \<times> nat) res" where
  "number_exponent s i =
     bind (rd s i) (\<lambda>c. if c \<noteq> CHR ''e'' \<and> c \<noteq> CHR ''E'' then Inr (0, i)
      else bind (rd s (i + 1)) (\<lambda>d.
           let j = (if d = CHR ''+'' \<or> d = CHR ''-'' then i + 2 else i + 1) in
           bind (span_at isdigit s j) (\<lambda>(ds, k).
           bind (int_digits ds) (\<lambda>e. Inr (if d = CHR ''-'' then - e else e, k)))))"

text \<open>From the integer digits on; then the sign, the zero and the digits.\<close>

definition number_rest :: "bool \<Rightarrow> char list \<Rightarrow> char list \<Rightarrow> nat \<Rightarrow> cJSON parsed res" where
  "number_rest neg ds s k =
     bind (add_digits 0 ds) (\<lambda>n.
     bind (number_fraction n s k) (\<lambda>(n, scale, k).
     bind (number_exponent s k) (\<lambda>(subscale, k).
     bind (pow10 (scale + subscale)) (\<lambda>w.
     bind (dbl ((if neg then - n else n) * w)) (\<lambda>n.
     bind (int_of_double n) (\<lambda>v. Inr (Got (number_item n v) k)))))))"

definition parse_number :: "char list \<Rightarrow> nat \<Rightarrow> cJSON parsed res" where
  "parse_number s i =
     bind (opt_char s i CHR ''-'') (\<lambda>j.
     bind (opt_char s j CHR ''0'') (\<lambda>k.
     bind (rd s k) (\<lambda>c.
     bind (if isdigit c \<and> c \<noteq> CHR ''0'' then span_at isdigit s k else Inr ([], k)) (\<lambda>(ds, k).
       number_rest (j \<noteq> i) ds s k))))"

section \<open>Strings\<close>

text \<open>
  \<open>sscanf(text, "%4x", ..)\<close>: blanks, then at most four characters: a sign, \<open>0x\<close>, digits;
  \<open>None\<close> when it converts nothing. It reads the whole string \<open>text\<close> is.
\<close>

definition sscanf_4x :: "char list \<Rightarrow> 32 word option" where
  "sscanf_4x cs =
     (let t = take 4 (dropWhile isspace cs);
          neg = (case t of c # _ \<Rightarrow> c = CHR ''-'' | [] \<Rightarrow> False);
          t = (case t of c # r \<Rightarrow> if c = CHR ''-'' \<or> c = CHR ''+'' then r else t | [] \<Rightarrow> t);
          t = (if prefix_of ''0x'' t \<or> prefix_of ''0X'' t then drop 2 t else t);
          ds = takeWhile (\<lambda>c. hex_digit c \<noteq> None) t
      in if ds = [] then None
         else Some (if neg then - of_nat (hex_number ds) else of_nat (hex_number ds)))"

text \<open>\<open>unsigned uc, uc2\<close> are not initialised, and keep their values from escape to escape.\<close>

type_synonym codes = "32 word option \<times> 32 word option"

definition scan_code :: "char list \<Rightarrow> nat \<Rightarrow> 32 word option \<Rightarrow> 32 word res" where
  "scan_code s i old = bind (cstr_at s i) (\<lambda>cs. case sscanf_4x cs of
       Some u \<Rightarrow> Inr u
     | None \<Rightarrow> (case old of None \<Rightarrow> Inl Undefined | Some u \<Rightarrow> Inr u))"

definition char8 :: "32 word \<Rightarrow> char" where "char8 w = char_of (unat w)"

definition firstByteMark :: "32 word list" where
  "firstByteMark = [0x00, 0x00, 0xC0, 0xE0, 0xF0, 0xF8, 0xFC]"

text \<open>The bytes written backwards from \<open>ptr2 + len\<close>, and what is left in \<open>uc\<close>.\<close>

fun utf8_tail :: "nat \<Rightarrow> 32 word \<Rightarrow> char list \<Rightarrow> 32 word \<times> char list" where
  "utf8_tail 0 uc bs = (uc, bs)"
| "utf8_tail (Suc k) uc bs = utf8_tail k (drop_bit 6 uc) (char8 ((uc OR 0x80) AND 0xBF) # bs)"

definition utf8_len :: "32 word \<Rightarrow> nat" where
  "utf8_len uc = (if uc < 0x80 then 1 else if uc < 0x800 then 2 else if uc < 0x10000 then 3 else 4)"

definition utf8_bytes :: "32 word \<Rightarrow> 32 word \<times> char list" where
  "utf8_bytes uc = (case utf8_tail (utf8_len uc - 1) uc [] of
     (u, bs) \<Rightarrow> (u, char8 (u OR firstByteMark ! utf8_len uc) # bs))"

text \<open>\<open>case 'u'\<close>, with \<open>ptr\<close> at the \<open>u\<close>: the bytes, \<open>ptr\<close> at the end of the case, the codes.\<close>

definition unicode_escape ::
  "char list \<Rightarrow> nat \<Rightarrow> codes \<Rightarrow> (char list \<times> nat \<times> codes) res" where
  "unicode_escape s p us =
     bind (scan_code s (p + 1) (fst us)) (\<lambda>uc.
     let us = (Some uc, snd us) in
     if (0xDC00 \<le> uc \<and> uc \<le> 0xDFFF) \<or> uc = 0 then Inr ([], p + 4, us)
     else if 0xD800 \<le> uc \<and> uc \<le> 0xDBFF then
       bind (rd s (p + 5)) (\<lambda>c.
       bind (if c = CHR 0x5C then rd s (p + 6) else Inr NUL) (\<lambda>d.
       if c \<noteq> CHR 0x5C \<or> d \<noteq> CHR ''u'' then Inr ([], p + 4, us)
       else bind (scan_code s (p + 7) (snd us)) (\<lambda>uc2.
         if uc2 < 0xDC00 \<or> 0xDFFF < uc2 then Inr ([], p + 10, Some uc, Some uc2)
         else case utf8_bytes (0x10000 + (push_bit 10 (uc AND 0x3FF) OR (uc2 AND 0x3FF))) of
           (u, bs) \<Rightarrow> Inr (bs, p + 10, Some u, Some uc2))))
     else case utf8_bytes uc of (u, bs) \<Rightarrow> Inr (bs, p + 4, Some u, snd us))"

definition escape_char :: "char \<Rightarrow> char" where
  "escape_char c =
     (if c = CHR ''b'' then CHR 0x08 else if c = CHR ''f'' then CHR 0x0C
      else if c = CHR ''n'' then CHR 0x0A else if c = CHR ''r'' then CHR 0x0D
      else if c = CHR ''t'' then CHR 0x09 else c)"

text \<open>The first pass counts the bytes of the copy, \<open>++len\<close> for every character or escape.\<close>

function str_len :: "char list \<Rightarrow> nat \<Rightarrow> nat \<Rightarrow> nat res" where
  "str_len s p n =
     bind (rd s p) (\<lambda>c. if c = CHR 0x22 \<or> c = NUL then Inr n
       else str_len s (if c = CHR 0x5C then p + 2 else p + 1) (n + 1))"
  by pat_completeness auto
termination
  by (relation "measure (\<lambda>(s, p, n). length s - p)") (auto simp: rd_def split: if_splits)

text \<open>\<open>*ptr2++ = ..\<close> in the \<open>len + 1\<close> bytes of \<open>out\<close>; the filled part is what counts.\<close>

definition put :: "nat \<Rightarrow> char list \<Rightarrow> char list \<Rightarrow> char list res" where
  "put cap out bs = (if length out + length bs \<le> cap then Inr (out @ bs) else Inl Out_Of_Bounds)"

lemma holds_after: "(\<And>x. holds UNIV Q (f x)) \<Longrightarrow> holds UNIV Q (bind m f)"
  by (cases m) simp_all

lemma unicode_escape_moves: "unicode_escape s p us = Inr (bs, q, us') \<Longrightarrow> p < q"
proof -
  have "holds UNIV (\<lambda>r. p < fst (snd r)) (unicode_escape s p us)"
    unfolding unicode_escape_def Let_def
    by (intro holds_after holds_if holds_prod holds_Inr) simp_all
  then show "unicode_escape s p us = Inr (bs, q, us') \<Longrightarrow> p < q" by simp
qed

function str_copy ::
  "nat \<Rightarrow> char list \<Rightarrow> nat \<Rightarrow> codes \<Rightarrow> char list \<Rightarrow> (char list \<times> nat) res" where
  "str_copy cap s p us out =
     bind (rd s p) (\<lambda>c.
     if c = CHR 0x22 \<or> c = NUL then Inr (out, p)
     else if c \<noteq> CHR 0x5C then bind (put cap out [c]) (\<lambda>out. str_copy cap s (p + 1) us out)
     else bind (rd s (p + 1)) (\<lambda>e.
       if e = CHR ''u'' then
         bind (unicode_escape s (p + 1) us) (\<lambda>(bs, q, us).
         bind (put cap out bs) (\<lambda>out. str_copy cap s (q + 1) us out))
       else bind (put cap out [escape_char e]) (\<lambda>out. str_copy cap s (p + 2) us out)))"
  by pat_completeness auto
termination
  by (relation "measure (\<lambda>(cap, s, p, us, out). length s - p)")
    (auto simp: rd_def split: if_splits dest: unicode_escape_moves)

declare str_len.simps [simp del] str_copy.simps [simp del]

definition parse_string :: "char list \<Rightarrow> nat \<Rightarrow> cJSON parsed res" where
  "parse_string s i =
     bind (rd s i) (\<lambda>c. if c \<noteq> CHR 0x22 then Inr (Fail i)
      else bind (str_len s (i + 1) 0) (\<lambda>n.
           bind (str_copy (n + 1) s (i + 1) (None, None) []) (\<lambda>(out, p).
           bind (put (n + 1) out [NUL]) (\<lambda>buf.
           bind (cstr_at buf 0) (\<lambda>v.
           bind (rd s p) (\<lambda>c. Inr (Got (string_item v) (if c = CHR 0x22 then p + 1 else p))))))))"

section \<open>Values\<close>

text \<open>
  The recursion and the loops over the elements take a step of fuel each; a text of \<open>n\<close>
  bytes needs at most \<open>2 * n + 2\<close> (\<open>parse_enough\<close>).
\<close>

datatype value_head = Leaf "cJSON parsed" | Open_Array nat | Open_Object nat

text \<open>The brackets up to the first element (lines 316-318 and 382-384).\<close>

definition open_list :: "char list \<Rightarrow> nat \<Rightarrow> char \<Rightarrow> json_type \<Rightarrow> (nat \<Rightarrow> value_head) \<Rightarrow> value_head res" where
  "open_list s i close t more =
     bind (skip s (i + 1)) (\<lambda>p. bind (rd s p) (\<lambda>c.
       Inr (if c = close then Leaf (Got (list_item t []) (p + 1)) else more p)))"

definition value_head :: "char list \<Rightarrow> nat \<Rightarrow> value_head res" where
  "value_head s i =
     bind (cmp_lit s i ''null'') (\<lambda>b. if b then Inr (Leaf (Got (list_item cJSON_NULL []) (i + 4)))
     else bind (cmp_lit s i ''false'') (\<lambda>b. if b then Inr (Leaf (Got (list_item cJSON_False []) (i + 5)))
     else bind (cmp_lit s i ''true'') (\<lambda>b. if b then Inr (Leaf (Got (Item cJSON_True None 1 0 None []) (i + 4)))
     else bind (rd s i) (\<lambda>c.
       if c = CHR 0x22 then bind (parse_string s i) (\<lambda>r. Inr (Leaf r))
       else if c = CHR ''-'' \<or> isdigit c then bind (parse_number s i) (\<lambda>r. Inr (Leaf r))
       else if c = CHR ''['' then open_list s i CHR '']'' cJSON_Array Open_Array
       else if c = CHR ''{'' then open_list s i CHR ''}'' cJSON_Object Open_Object
       else Inr (Leaf (Fail i))))))"

definition member_name :: "char list \<Rightarrow> nat \<Rightarrow> (char list parsed) res" where
  "member_name s i =
     got (parse_string s i) (\<lambda>k p.
     bind (skip s p) (\<lambda>p.
     bind (rd s p) (\<lambda>c. if c \<noteq> CHR '':'' then Inr (Fail p)
      else bind (skip s (p + 1)) (\<lambda>p. Inr (Got (the (valuestring k)) p)))))"

text \<open>After an element: \<open>Got True\<close> at the next element, \<open>Got False\<close> behind the closing bracket.\<close>

definition list_sep :: "char list \<Rightarrow> nat \<Rightarrow> char \<Rightarrow> bool parsed res" where
  "list_sep s p close =
     bind (skip s p) (\<lambda>p.
     bind (rd s p) (\<lambda>c.
       if c = CHR '','' then bind (skip s (p + 1)) (\<lambda>q. Inr (Got True q))
       else if c = close then Inr (Got False (p + 1))
       else Inr (Fail p)))"

fun parse_value :: "nat \<Rightarrow> char list \<Rightarrow> nat \<Rightarrow> cJSON parsed res"
and parse_array :: "nat \<Rightarrow> char list \<Rightarrow> nat \<Rightarrow> cJSON list \<Rightarrow> cJSON parsed res"
and parse_object :: "nat \<Rightarrow> char list \<Rightarrow> nat \<Rightarrow> cJSON list \<Rightarrow> cJSON parsed res" where
  "parse_value 0 s i = Inl Diverges"
| "parse_value (Suc k) s i =
     bind (value_head s i) (\<lambda>h. case h of
         Leaf r \<Rightarrow> Inr r
       | Open_Array p \<Rightarrow> parse_array k s p []
       | Open_Object p \<Rightarrow> parse_object k s p [])"
| "parse_array 0 s i cs = Inl Diverges"
| "parse_array (Suc k) s i cs =
     got (parse_value k s i) (\<lambda>v p.
     got (list_sep s p CHR '']'') (\<lambda>more p.
       if more then parse_array k s p (cs @ [v])
       else Inr (Got (list_item cJSON_Array (cs @ [v])) p)))"
| "parse_object 0 s i cs = Inl Diverges"
| "parse_object (Suc k) s i cs =
     got (member_name s i) (\<lambda>key p.
     got (parse_value k s p) (\<lambda>v p.
     got (list_sep s p CHR ''}'') (\<lambda>more p.
       if more then parse_object k s p (cs @ [name_item key v])
       else Inr (Got (list_item cJSON_Object (cs @ [name_item key v])) p))))"

section \<open>The interface\<close>

text \<open>The root, \<open>ep\<close>, and where the parse ended.\<close>

definition cJSON_ParseWithOpts ::
  "char list \<Rightarrow> nat \<Rightarrow> bool \<Rightarrow> (cJSON option \<times> nat option \<times> nat) res" where
  "cJSON_ParseWithOpts s i require_null_terminated =
     bind (skip s i) (\<lambda>p.
     bind (parse_value (2 * length s + 2) s p) (\<lambda>r. case r of
         Fail e \<Rightarrow> Inr (None, Some e, 0)
       | Got c p \<Rightarrow>
           if require_null_terminated then
             bind (skip s p) (\<lambda>q. bind (rd s q) (\<lambda>d.
               if d \<noteq> NUL then Inr (None, Some q, 0) else Inr (Some c, None, q)))
           else Inr (Some c, None, p)))"

definition cJSON_Parse :: "char list \<Rightarrow> nat \<Rightarrow> cJSON option res" where
  "cJSON_Parse s i = bind (cJSON_ParseWithOpts s i False) (\<lambda>(c, ep, q). Inr c)"

text \<open>
  \<open>cJSON_strcasecmp(c->string, string) == 0\<close>; a null first string differs from any other. The
  object itself is dereferenced unchecked.
\<close>

definition key_matches :: "char list \<Rightarrow> cJSON \<Rightarrow> bool" where
  "key_matches k c = (case c_string c of None \<Rightarrow> False | Some s \<Rightarrow> strcaseeq s k)"

definition cJSON_GetObjectItem :: "cJSON option \<Rightarrow> char list \<Rightarrow> cJSON option res" where
  "cJSON_GetObjectItem ob k =
     (case ob of None \<Rightarrow> Inl Null_Deref | Some c \<Rightarrow> Inr (find (key_matches k) (child c)))"

definition cJSON_GetArraySize :: "cJSON option \<Rightarrow> nat res" where
  "cJSON_GetArraySize ob = (case ob of None \<Rightarrow> Inl Null_Deref | Some c \<Rightarrow> Inr (length (child c)))"

definition cJSON_GetArrayItem :: "cJSON option \<Rightarrow> int \<Rightarrow> cJSON option res" where
  "cJSON_GetArrayItem ob i = (case ob of None \<Rightarrow> Inl Null_Deref
     | Some c \<Rightarrow> Inr (case drop (nat i) (child c) of [] \<Rightarrow> None | x # _ \<Rightarrow> Some x))"

end
