(* ===== verification/Cjson_Print.thy ===== *)
theory Cjson_Print
  imports Cjson
begin

text \<open>
  The printing half of \<open>src/src/common/cJSON.c\<close>. Each function allocates a block whose size it
  has computed and fills it from the left; a text with its terminator that is longer than the
  block is a fault. \<open>malloc\<close> is taken to succeed.
\<close>

section \<open>Blocks\<close>

text \<open>The bytes of \<open>t\<close> and a terminator in a block of \<open>cap\<close> bytes.\<close>

definition emit :: "nat \<Rightarrow> char list \<Rightarrow> char list res" where
  "emit cap t = (if length t < cap then Inr t else Inl Out_Of_Bounds)"

fun each :: "('a \<Rightarrow> 'b res) \<Rightarrow> 'a list \<Rightarrow> 'b list res" where
  "each f [] = Inr []"
| "each f (x # xs) = bind (f x) (\<lambda>y. bind (each f xs) (\<lambda>ys. Inr (y # ys)))"

lemma each_cong [fundef_cong]:
  "xs = ys \<Longrightarrow> (\<And>x. x \<in> set ys \<Longrightarrow> f x = g x) \<Longrightarrow> each f xs = each g ys"
proof (induction xs arbitrary: ys)
  case (Cons x xs)
  then show ?case by (cases ys) auto
qed simp

section \<open>Numbers\<close>

definition DBL_EPSILON :: rat where "DBL_EPSILON = 1 / 2 ^ 52"

text \<open>A number in decimal with leading zeros to \<open>w\<close> digits.\<close>

definition pad_nat :: "nat \<Rightarrow> nat \<Rightarrow> char list" where
  "pad_nat w n = (let t = show_nat n in replicate (w - length t) CHR ''0'' @ t)"

definition sign_text :: "rat \<Rightarrow> char list" where "sign_text d = (if d < 0 then ''-'' else [])"

text \<open>\<open>%.0f\<close>, \<open>%f\<close> and \<open>%e\<close> of the C library, exact and rounded to nearest even.\<close>

definition fmt_0f :: "rat \<Rightarrow> char list" where
  "fmt_0f d = sign_text d @ show_nat (nat (round_even \<bar>d\<bar>))"

definition fmt_f :: "rat \<Rightarrow> char list" where
  "fmt_f d = (let r = nat (round_even (\<bar>d\<bar> * 10 ^ 6)) in
     sign_text d @ show_nat (r div 10 ^ 6) @ ''.'' @ pad_nat 6 (r mod 10 ^ 6))"

text \<open>The decimal exponent of a positive double; the smallest is above \<open>10 ^ - 324\<close>.\<close>

fun low_exp :: "nat \<Rightarrow> rat \<Rightarrow> int" where
  "low_exp 0 q = 0"
| "low_exp (Suc k) q = (if 1 \<le> q then 0 else low_exp k (q * 10) - 1)"

definition ilog10 :: "rat \<Rightarrow> int" where
  "ilog10 q = (if 1 \<le> q then int (length (show_nat (nat \<lfloor>q\<rfloor>))) - 1 else low_exp 400 q)"

definition scale10 :: "rat \<Rightarrow> int \<Rightarrow> rat" where
  "scale10 q k = (if 0 \<le> k then q * 10 ^ nat k else q / 10 ^ nat (- k))"

definition fmt_e :: "rat \<Rightarrow> char list" where
  "fmt_e d = (let x = ilog10 \<bar>d\<bar>; m = nat (round_even (scale10 \<bar>d\<bar> (6 - x)));
                  (m, x) = (if m = 10 ^ 7 then (10 ^ 6, x + 1) else (m, x)) in
     sign_text d @ show_nat (m div 10 ^ 6) @ ''.'' @ pad_nat 6 (m mod 10 ^ 6) @ ''e'' @
     (if x < 0 then ''-'' else ''+'') @ pad_nat 2 (nat \<bar>x\<bar>))"

definition print_number :: "cJSON \<Rightarrow> char list res" where
  "print_number it = (let d = valuedouble it in
     bind (dbl (of_int (valueint it) - d)) (\<lambda>diff.
     if \<bar>diff\<bar> \<le> DBL_EPSILON \<and> d \<le> of_int INT_MAX \<and> of_int INT_MIN \<le> d
     then emit 21 (show_int (valueint it))
     else bind (dbl (of_int \<lfloor>d\<rfloor> - d)) (\<lambda>frac.
       emit 64 (if \<bar>frac\<bar> \<le> DBL_EPSILON \<and> \<bar>d\<bar> < 10 ^ 60 then fmt_0f d
                else if \<bar>d\<bar> < 1 / 10 ^ 6 \<or> 10 ^ 9 < \<bar>d\<bar> then fmt_e d
                else fmt_f d))))"

section \<open>Strings\<close>

text \<open>What the first loop counts for a character, and what the second writes.\<close>

definition specials :: "char list" where
  "specials = [CHR 0x22, CHR 0x5C, CHR 0x08, CHR 0x0C, CHR 0x0A, CHR 0x0D, CHR 0x09]"

definition escape_size :: "char \<Rightarrow> nat" where
  "escape_size c = (if c \<in> set specials then 2 else if code_of c < (32 :: nat) then 6 else 1)"

definition escape_text :: "char \<Rightarrow> char list" where
  "escape_text c =
     (if 31 < (code_of c :: nat) \<and> c \<noteq> CHR 0x22 \<and> c \<noteq> CHR 0x5C then [c]
      else CHR 0x5C #
       (if c = CHR 0x5C \<or> c = CHR 0x22 then [c]
        else if c = CHR 0x08 then ''b'' else if c = CHR 0x0C then ''f''
        else if c = CHR 0x0A then ''n'' else if c = CHR 0x0D then ''r''
        else if c = CHR 0x09 then ''t'' else ''u00'' @ hex2 (code_of c)))"

definition print_string_ptr :: "char list option \<Rightarrow> char list res" where
  "print_string_ptr str = (case str of
       None \<Rightarrow> Inr []
     | Some s \<Rightarrow> emit (sum_list (map escape_size s) + 3)
         (CHR 0x22 # concat (map escape_text s) @ [CHR 0x22]))"

section \<open>Values\<close>

fun join :: "char list \<Rightarrow> char list list \<Rightarrow> char list" where
  "join sep [] = []"
| "join sep [e] = e"
| "join sep (e # es) = e @ sep @ join sep es"

definition fmt_extra :: "bool \<Rightarrow> nat \<Rightarrow> nat" where "fmt_extra fmt n = (if fmt then n else 0)"

definition tabs :: "nat \<Rightarrow> char list" where "tabs n = replicate n CHR 0x09"

text \<open>\<open>print_array\<close> on the texts of the elements.\<close>

definition compose_array :: "bool \<Rightarrow> char list list \<Rightarrow> char list res" where
  "compose_array fmt es =
     (if es = [] then emit 3 ''[]''
      else emit (5 + sum_list (map (\<lambda>e. length e + 2 + fmt_extra fmt 1) es))
        (''['' @ join ('','' @ (if fmt then '' '' else [])) es @ '']''))"

text \<open>\<open>print_object\<close> on the names and the texts of the values, and the \<open>depth\<close> it was called with.\<close>

definition member_text :: "bool \<Rightarrow> nat \<Rightarrow> char list \<times> char list \<Rightarrow> char list" where
  "member_text fmt depth m =
     (if fmt then tabs depth else []) @ fst m @ '':'' @ (if fmt then [CHR 0x09] else []) @ snd m"

definition compose_object :: "bool \<Rightarrow> nat \<Rightarrow> (char list \<times> char list) list \<Rightarrow> char list res" where
  "compose_object fmt depth ms =
     (if ms = [] then emit (if fmt then depth + 3 else 3)
        (''{'' @ (if fmt then CHR 0x0A # tabs (depth - 1) else []) @ ''}'')
      else emit (7 + fmt_extra fmt (depth + 1) +
          sum_list (map (\<lambda>m. length (snd m) + length (fst m) + 2 + fmt_extra fmt (2 + (depth + 1))) ms))
        (''{'' @ (if fmt then [CHR 0x0A] else []) @
         join ('','' @ (if fmt then [CHR 0x0A] else [])) (map (member_text fmt (depth + 1)) ms) @
         (if fmt then CHR 0x0A # tabs depth else []) @ ''}''))"

fun print_value :: "bool \<Rightarrow> nat \<Rightarrow> cJSON \<Rightarrow> char list res" where
  "print_value fmt depth (Item t vs vi vd nm cs) = (case t of
       cJSON_NULL \<Rightarrow> emit 5 ''null''
     | cJSON_False \<Rightarrow> emit 6 ''false''
     | cJSON_True \<Rightarrow> emit 5 ''true''
     | cJSON_Number \<Rightarrow> print_number (Item t vs vi vd nm cs)
     | cJSON_String \<Rightarrow> print_string_ptr vs
     | cJSON_Array \<Rightarrow> bind (each (print_value fmt (depth + 1)) cs) (compose_array fmt)
     | cJSON_Object \<Rightarrow>
         bind (each (\<lambda>c. bind (print_string_ptr (c_string c)) (\<lambda>nm.
                          bind (print_value fmt (depth + 1) c) (\<lambda>v. Inr (nm, v)))) cs)
           (compose_object fmt depth))"

definition cJSON_Print :: "cJSON \<Rightarrow> char list res" where
  "cJSON_Print it = print_value True 0 it"

definition cJSON_PrintUnformatted :: "cJSON \<Rightarrow> char list res" where
  "cJSON_PrintUnformatted it = print_value False 0 it"

end
