(* ===== verification/Cjson_Safe.thy ===== *)
theory Cjson_Safe
  imports Cjson_Print
begin

text \<open>
  What parsing a JSON text can run into. One induction covers two readings of \<open>text_ok F s n\<close>:
  any buffer, where the parser may leave it but always ends; and a text without backslashes that
  ends at \<open>n\<close>, where it does not leave the buffer either. What is left is a number with no
  \<open>int\<close> value. And what printing runs into.
\<close>

section \<open>Texts\<close>

definition text_ok :: "fault set \<Rightarrow> char list \<Rightarrow> nat \<Rightarrow> bool" where
  "text_ok F s n \<longleftrightarrow> Diverges \<notin> F \<and> Undefined \<in> F \<and>
     (Out_Of_Bounds \<in> F \<or> terminated s n \<and> CHR 0x5C \<notin> set (take n s))"

definition at_ok :: "fault set \<Rightarrow> nat \<Rightarrow> nat \<Rightarrow> bool" where
  "at_ok F n p \<longleftrightarrow> Out_Of_Bounds \<in> F \<or> p \<le> n"

named_theorems text_wp \<open>backward rules for reading a text\<close>

lemma text_rd [text_wp]:
  assumes "text_ok F s n" "at_ok F n p"
    and "\<And>c. p < length s \<Longrightarrow> (c \<noteq> NUL \<Longrightarrow> at_ok F n (Suc p)) \<Longrightarrow> (c = CHR 0x5C \<Longrightarrow> Out_Of_Bounds \<in> F) \<Longrightarrow>
      c = s ! p \<Longrightarrow> Q c"
  shows "holds F Q (rd s p)"
proof (rule holds_rd)
  assume "length s \<le> p"
  then show "Out_Of_Bounds \<in> F" using assms(1,2) by (auto simp: text_ok_def at_ok_def terminated_def)
next
  assume p: "p < length s"
  have free: "Out_Of_Bounds \<notin> F \<Longrightarrow> s ! p = CHR 0x5C \<Longrightarrow> False"
    using assms(1,2) p in_set_conv_nth [of "s ! p" "take n s"]
    by (auto simp: text_ok_def at_ok_def terminated_def NUL_def le_less)
  show "Q (s ! p)"
    using p assms(1,2) free
    by (intro assms(3)) (auto simp: text_ok_def at_ok_def terminated_def Suc_le_eq order.order_iff_strict)
qed

lemma text_span [text_wp]:
  assumes "text_ok F s n" "at_ok F n p" "\<not> P NUL"
    and "\<And>w. at_ok F n (p + length w) \<Longrightarrow> (\<forall>c \<in> set w. P c) \<Longrightarrow> (p < length s \<Longrightarrow> P (s ! p) \<Longrightarrow> w \<noteq> []) \<Longrightarrow>
      Q (w, p + length w)"
  shows "holds F Q (span_at P s p)"
proof -
  let ?w = "takeWhile P (drop p s)"
  have bound: "p + length ?w \<le> n" if "terminated s n" "p \<le> n"
  proof (rule ccontr)
    assume "\<not> p + length ?w \<le> n"
    then have "n - p < length ?w" using that(2) by linarith
    then have "P (drop p s ! (n - p))" by (metis nth_mem set_takeWhileD takeWhile_nth)
    then show False using that assms(3) by (simp add: terminated_def)
  qed
  have ne: "?w \<noteq> []" if "p < length s" "P (s ! p)"
    using that by (cases "drop p s") (auto simp: hd_drop_conv_nth [symmetric])
  have "Q (?w, p + length ?w)" if "at_ok F n (p + length ?w)"
    by (rule assms(4) [OF that]) (auto dest: set_takeWhileD ne)
  then show ?thesis
    using assms(1,2) bound by (auto simp: span_at_def Let_def text_ok_def at_ok_def terminated_def)
qed

lemma text_skip [text_wp]:
  assumes "text_ok F s n" "at_ok F n p" "\<And>q. p \<le> q \<Longrightarrow> at_ok F n q \<Longrightarrow> Q q"
  shows "holds F Q (skip s p)"
  unfolding skip_def by (intro holds_bind text_span [OF assms(1,2)]) (simp_all add: assms(3))

lemma text_cmp_lit [text_wp]:
  assumes "text_ok F s n" "at_ok F n p" "NUL \<notin> set l" "\<And>b. (b \<Longrightarrow> at_ok F n (p + length l)) \<Longrightarrow> Q b"
  shows "holds F Q (cmp_lit s p l)"
  using assms(2-4)
proof (induction l arbitrary: p)
  case (Cons c l)
  show ?case unfolding cmp_lit.simps
    by (intro holds_bind text_rd [OF assms(1) Cons.prems(1)] holds_if holds_Inr Cons.IH)
      (use Cons.prems in auto)
qed simp

section \<open>Numbers\<close>

lemma holds_total: "holds F (\<lambda>_. True) m \<Longrightarrow> (\<And>x. Q x) \<Longrightarrow> holds F Q m"
  by (cases m) simp_all

lemma dbl_wp [text_wp]: "text_ok F s n \<Longrightarrow> (\<And>x. Q x) \<Longrightarrow> holds F Q (dbl q)"
  by (simp add: dbl_def Let_def text_ok_def)

lemma add_digits_wp [text_wp]: "text_ok F s n \<Longrightarrow> (\<And>x. Q x) \<Longrightarrow> holds F Q (add_digits m ds)"
  by (induction ds arbitrary: m) (auto intro!: holds_bind dbl_wp)

lemma pow10_wp [text_wp]: "text_ok F s n \<Longrightarrow> (\<And>x. Q x) \<Longrightarrow> holds F Q (pow10 k)"
  unfolding pow10_def by (rule dbl_wp)

lemma int_of_double_wp [text_wp]: "text_ok F s n \<Longrightarrow> (\<And>x. Q x) \<Longrightarrow> holds F Q (int_of_double q)"
  by (simp add: int_of_double_def Let_def text_ok_def)

lemma int_digits_wp [text_wp]: "text_ok F s n \<Longrightarrow> (\<And>x. Q x) \<Longrightarrow> holds F Q (int_digits ds)"
  by (simp add: int_digits_def text_ok_def)

lemma opt_char_wp [text_wp]:
  assumes "text_ok F s n" "at_ok F n p" "c \<noteq> NUL" 
    "\<And>q. at_ok F n q \<Longrightarrow> q = p \<and> s ! p \<noteq> c \<or> q = Suc p \<and> p < length s \<and> s ! p = c \<Longrightarrow> Q q"
  shows "holds F Q (opt_char s p c)"
  unfolding opt_char_def
  by (intro holds_bind text_rd [OF assms(1,2)] holds_Inr assms(4)) (use assms(2,3) in auto)

lemma isdigit_NUL [simp]: "\<not> isdigit NUL"
  by code_simp

lemma number_fraction_wp [text_wp]:
  assumes "text_ok F s n" "at_ok F n p" "\<And>m k q. p \<le> q \<Longrightarrow> at_ok F n q \<Longrightarrow> Q (m, k, q)"
  shows "holds F Q (number_fraction m s p)"
  unfolding number_fraction_def
  by (intro holds_bind text_rd [OF assms(1)] holds_if holds_Inr text_span [OF assms(1)];
      simp add: assms NUL_def isdigit_NUL [unfolded NUL_def])
    (intro holds_bind add_digits_wp [OF assms(1)] holds_Inr; simp add: assms)

lemma number_exponent_wp [text_wp]:
  assumes "text_ok F s n" "at_ok F n p" "\<And>k q. p \<le> q \<Longrightarrow> at_ok F n q \<Longrightarrow> Q (k, q)"
  shows "holds F Q (number_exponent s p)"
proof -
  have tail: "holds F Q (bind (span_at isdigit s j) (\<lambda>(ds, k).
           bind (int_digits ds) (\<lambda>e. Inr (f e, k))))" if "at_ok F n j" "p \<le> j" for j f
    using that(2) by (intro holds_bind text_span [OF assms(1) that(1)]; simp)
      (intro holds_bind int_digits_wp [OF assms(1)]; simp add: assms(3))
  show ?thesis
    unfolding number_exponent_def Let_def
    by (intro holds_bind text_rd [OF assms(1)] holds_if holds_Inr tail; auto simp: assms NUL_def split: if_splits)
qed

definition parsed_ok :: "fault set \<Rightarrow> nat \<Rightarrow> nat \<Rightarrow> 'a parsed \<Rightarrow> bool" where
  "parsed_ok F n i r \<longleftrightarrow> (case r of Fail e \<Rightarrow> True | Got v p \<Rightarrow> i < p \<and> at_ok F n p)"

lemma parsed_ok_simps [simp]: "parsed_ok F n i (Fail e)" "parsed_ok F n i (Got v p) \<longleftrightarrow> i < p \<and> at_ok F n p"
  by (simp_all add: parsed_ok_def)

lemma number_rest_wp:
  assumes "text_ok F s n" "i < k" "at_ok F n k"
  shows "holds F (parsed_ok F n i) (number_rest neg ds s k)"
  unfolding number_rest_def
  by (intro holds_bind add_digits_wp number_fraction_wp; (rule assms)?)
    (use assms in \<open>auto intro!: holds_bind number_exponent_wp pow10_wp dbl_wp int_of_double_wp\<close>)

lemma parse_number_wp:
  assumes "text_ok F s n" "at_ok F n i" "i < length s" "s ! i = CHR ''-'' \<or> isdigit (s ! i)"
  shows "holds F (parsed_ok F n i) (parse_number s i)"
  unfolding parse_number_def
proof (rule holds_bind, rule opt_char_wp [OF assms(1,2)])
  fix j assume j: "at_ok F n j" "j = i \<and> s ! i \<noteq> CHR ''-'' \<or> j = Suc i \<and> i < length s \<and> s ! i = CHR ''-''"
  show "holds F (parsed_ok F n i) (bind (opt_char s j CHR ''0'') (\<lambda>k. bind (rd s k) (\<lambda>c.
     bind (if isdigit c \<and> c \<noteq> CHR ''0'' then span_at isdigit s k else Inr ([], k)) (\<lambda>(ds, k).
       number_rest (j \<noteq> i) ds s k))))"
  proof (rule holds_bind, rule opt_char_wp [OF assms(1) j(1)])
    fix k assume k: "at_ok F n k" "k = j \<and> s ! j \<noteq> CHR ''0'' \<or> k = Suc j \<and> j < length s \<and> s ! j = CHR ''0''"
    show "holds F (parsed_ok F n i) (bind (rd s k) (\<lambda>c.
     bind (if isdigit c \<and> c \<noteq> CHR ''0'' then span_at isdigit s k else Inr ([], k)) (\<lambda>(ds, k).
       number_rest (j \<noteq> i) ds s k)))"
    proof (rule holds_bind, rule text_rd [OF assms(1) k(1)])
      fix c assume c: "c = s ! k" "k < length s"
      have start: "i < k + length w" if "w \<noteq> [] \<or> \<not> (isdigit c \<and> c \<noteq> CHR ''0'')" for w :: "char list"
        using that j(2) k(2) assms(3,4) c by (cases w) auto
      show "holds F (parsed_ok F n i) (bind (if isdigit c \<and> c \<noteq> CHR ''0'' then span_at isdigit s k else Inr ([], k))
        (\<lambda>(ds, k). number_rest (j \<noteq> i) ds s k))"
        using c k(1) start [of "[]"]
        by (intro holds_bind holds_if text_span [OF assms(1) k(1)] holds_Inr; simp add: number_rest_wp [OF assms(1)] start)
    qed
  qed (simp add: NUL_def)
qed (simp add: NUL_def)

section \<open>Strings\<close>

text \<open>The plain characters of a string from \<open>p\<close> on.\<close>

definition plain_chars :: "char list \<Rightarrow> nat \<Rightarrow> char list" where
  "plain_chars s p = takeWhile (\<lambda>c. c \<noteq> CHR 0x22 \<and> c \<noteq> NUL) (drop p s)"

lemma plain_chars_step:
  "p < length s \<Longrightarrow> plain_chars s p =
     (if s ! p = CHR 0x22 \<or> s ! p = NUL then [] else s ! p # plain_chars s (Suc p))"
  by (auto simp: plain_chars_def Cons_nth_drop_Suc [symmetric])

lemma str_len_wp:
  assumes "text_ok F s n" "at_ok F n p"
  shows "holds F (\<lambda>m. Out_Of_Bounds \<in> F \<or> m = k + length (plain_chars s p)) (str_len s p k)"
  using assms
proof (induction s p k rule: str_len.induct)
  case (1 s p k)
  show ?case
  proof (subst str_len.simps, rule holds_bind, rule text_rd [OF 1(2,3)])
    fix c
    assume c: "p < length s" "c \<noteq> NUL \<Longrightarrow> at_ok F n (Suc p)" "c = CHR 0x5C \<Longrightarrow> Out_Of_Bounds \<in> F" "c = s ! p"
    have "holds F (\<lambda>m. Out_Of_Bounds \<in> F \<or> m = k + length (plain_chars s p))
      (str_len s (if c = CHR 0x5C then p + 2 else p + 1) (k + 1))" if plain: "\<not> (c = CHR 0x22 \<or> c = NUL)"
    proof -
      have "at_ok F n (if c = CHR 0x5C then p + 2 else p + 1)" using c plain by (auto simp: at_ok_def)
      moreover have "rd s p = Inr c" using c by simp
      ultimately have "holds F (\<lambda>m. Out_Of_Bounds \<in> F \<or> m = k + 1 + length (plain_chars s (if c = CHR 0x5C then p + 2 else p + 1)))
        (str_len s (if c = CHR 0x5C then p + 2 else p + 1) (k + 1))"
        using 1(1) [OF _ plain 1(2)] by blast
      then show ?thesis
        by (rule holds_mono) (use c plain in \<open>auto simp: plain_chars_step\<close>)
    qed
    then show "holds F (\<lambda>m. Out_Of_Bounds \<in> F \<or> m = k + length (plain_chars s p))
      (if c = CHR 0x22 \<or> c = NUL then Inr k else str_len s (if c = CHR 0x5C then p + 2 else p + 1) (k + 1))"
      using c by (auto simp: plain_chars_step)
  qed
qed

lemma put_wp: "(length out + length bs \<le> cap \<Longrightarrow> Q (out @ bs)) \<Longrightarrow> (cap < length out + length bs \<Longrightarrow> Out_Of_Bounds \<in> F) \<Longrightarrow>
    holds F Q (put cap out bs)"
  by (simp add: put_def)

lemma unicode_escape_wp:
  assumes "Undefined \<in> F" "Out_Of_Bounds \<in> F" "\<And>bs q us. p < q \<Longrightarrow> Q (bs, q, us)"
  shows "holds F Q (unicode_escape s p us)"
proof -
  have code: "holds F R (scan_code s j old)" if "\<And>x. R x" for R j old
    unfolding scan_code_def
    by (intro holds_bind holds_cstr_at holds_option) (auto simp: assms that)
  show ?thesis unfolding unicode_escape_def Let_def
    by (intro holds_bind code holds_if holds_rd holds_prod) (auto intro!: code assms holds_prod split: prod.split)
qed

lemma str_copy_wp:
  assumes "text_ok F s n" "at_ok F n p" "Out_Of_Bounds \<in> F \<or> length out + length (plain_chars s p) < cap"
  shows "holds F (\<lambda>(out, q). p \<le> q \<and> at_ok F n q \<and> (Out_Of_Bounds \<in> F \<or> length out < cap)) (str_copy cap s p us out)"
  using assms
proof (induction cap s p us out rule: str_copy.induct)
  case (1 cap s p us out)
  let ?Q = "\<lambda>p (out, q). p \<le> q \<and> at_ok F n q \<and> (Out_Of_Bounds \<in> F \<or> length out < cap)"
  have weak: "holds F (?Q p) m" if "holds F (?Q p') m" "p \<le> p'" for m p'
    by (rule holds_mono [OF that(1)]) (use that(2) in auto)
  show ?case
  proof (subst str_copy.simps, rule holds_bind, rule text_rd [OF 1(4,5)])
    fix c
    assume c: "p < length s" "c \<noteq> NUL \<Longrightarrow> at_ok F n (Suc p)" "c = CHR 0x5C \<Longrightarrow> Out_Of_Bounds \<in> F" "c = s ! p"
    show "holds F (?Q p) (if c = CHR 0x22 \<or> c = NUL then Inr (out, p)
     else if c \<noteq> CHR 0x5C then bind (put cap out [c]) (\<lambda>out. str_copy cap s (p + 1) us out)
     else bind (rd s (p + 1)) (\<lambda>e.
       if e = CHR ''u'' then
         bind (unicode_escape s (p + 1) us) (\<lambda>(bs, q, us).
         bind (put cap out bs) (\<lambda>out. str_copy cap s (q + 1) us out))
       else bind (put cap out [escape_char e]) (\<lambda>out. str_copy cap s (p + 2) us out)))"
    proof (intro holds_if)
      assume "c = CHR 0x22 \<or> c = NUL"
      then show "holds F (?Q p) (Inr (out, p))" using 1(5,6) c by (auto simp: plain_chars_step)
    next
      assume p: "\<not> (c = CHR 0x22 \<or> c = NUL)" "c \<noteq> CHR 0x5C"
      have rd: "rd s p = Inr c" using c(1,4) by simp
      have next_ok: "Out_Of_Bounds \<in> F \<or> length (out @ [c]) + length (plain_chars s (p + 1)) < cap"
        using 1(6) c p by (auto simp: plain_chars_step)
      have "at_ok F n (p + 1)" using c(2) p by simp
      from 1(1) [OF rd p _ 1(4) this next_ok] next_ok
      show "holds F (?Q p) (bind (put cap out [c]) (\<lambda>out. str_copy cap s (p + 1) us out))"
        by (intro holds_bind put_wp) (auto simp: put_def intro: weak)
    next
      assume p: "\<not> (c = CHR 0x22 \<or> c = NUL)" "\<not> c \<noteq> CHR 0x5C"
      have rd: "rd s p = Inr c" and F: "Out_Of_Bounds \<in> F" "Undefined \<in> F" "\<And>q. at_ok F n q"
        using c p 1(4) by (simp_all add: at_ok_def text_ok_def)
      have unicode: "holds F (?Q p) (bind (unicode_escape s (p + 1) us) (\<lambda>(bs, q, us).
         bind (put cap out bs) (\<lambda>out. str_copy cap s (q + 1) us out)))" if u: "rd s (p + 1) = Inr CHR ''u''"
      proof (cases "unicode_escape s (p + 1) us")
        case (Inl f)
        have "holds F (\<lambda>_. True) (unicode_escape s (p + 1) us)" by (rule unicode_escape_wp [OF F(2,1)]) simp
        then show ?thesis using Inl by simp
      next
        case (Inr r)
        obtain bs q us' where r: "r = (bs, q, us')" by (cases r)
        have q: "p + 1 < q" using unicode_escape_moves Inr r by blast
        have "holds F (?Q (q + 1)) (str_copy cap s (q + 1) us' out')" if "put cap out bs = Inr out'" for out'
          using 1(2) [OF rd p u refl Inr r [symmetric] refl that 1(4)] F by simp
        then show ?thesis using Inr r q F(1)
          by (auto simp: put_def elim!: holds_mono split: if_splits)
      qed
      have other: "holds F (?Q p) (bind (put cap out [escape_char e]) (\<lambda>out. str_copy cap s (p + 2) us out))"
        if e: "rd s (p + 1) = Inr e" "e \<noteq> CHR ''u''" for e
      proof -
        have "holds F (?Q (p + 2)) (str_copy cap s (p + 2) us out')" if "put cap out [escape_char e] = Inr out'" for out'
          using 1(3) [OF rd p e that 1(4)] F by simp
        then show ?thesis using F(1) by (auto simp: put_def elim!: holds_mono split: if_splits)
      qed
      show "holds F (?Q p) (bind (rd s (p + 1)) (\<lambda>e.
       if e = CHR ''u'' then
         bind (unicode_escape s (p + 1) us) (\<lambda>(bs, q, us).
         bind (put cap out bs) (\<lambda>out. str_copy cap s (q + 1) us out))
       else bind (put cap out [escape_char e]) (\<lambda>out. str_copy cap s (p + 2) us out)))"
        using unicode other F(1) by (cases "rd s (p + 1)") (auto simp: rd_def split: if_splits)
    qed
  qed
qed

lemma cstr_put: "holds F Q (cstr_at (out @ [NUL]) 0)" if "\<And>v. Q v" for out
  by (rule holds_cstr_at) (simp_all add: that)

lemma parse_string_wp:
  assumes "text_ok F s n" "at_ok F n i"
  shows "holds F (\<lambda>r. parsed_ok F n i r \<and> (\<forall>v p. r = Got v p \<longrightarrow> valuestring v \<noteq> None)) (parse_string s i)"
  unfolding parse_string_def
proof (rule holds_bind, rule text_rd [OF assms])
  fix c assume c: "c \<noteq> NUL \<Longrightarrow> at_ok F n (Suc i)"
  let ?Q = "\<lambda>r. parsed_ok F n i r \<and> (\<forall>v p. r = Got v p \<longrightarrow> valuestring v \<noteq> None)"
  have body: "holds F ?Q (bind (str_len s (i + 1) 0) (\<lambda>n.
           bind (str_copy (n + 1) s (i + 1) (None, None) []) (\<lambda>(out, p).
           bind (put (n + 1) out [NUL]) (\<lambda>buf.
           bind (cstr_at buf 0) (\<lambda>v.
           bind (rd s p) (\<lambda>c. Inr (Got (string_item v) (if c = CHR 0x22 then p + 1 else p))))))))"
    if q: "at_ok F n (i + 1)"
  proof (rule holds_bind, rule holds_mono [OF str_len_wp [OF assms(1) q]])
    fix m assume m: "Out_Of_Bounds \<in> F \<or> m = 0 + length (plain_chars s (i + 1))"
    then have room: "Out_Of_Bounds \<in> F \<or> length ([] :: char list) + length (plain_chars s (i + 1)) < m + 1" by auto
    show "holds F ?Q (bind (str_copy (m + 1) s (i + 1) (None, None) []) (\<lambda>(out, p).
           bind (put (m + 1) out [NUL]) (\<lambda>buf.
           bind (cstr_at buf 0) (\<lambda>v.
           bind (rd s p) (\<lambda>c. Inr (Got (string_item v) (if c = CHR 0x22 then p + 1 else p)))))))"
    proof (rule holds_bind, rule holds_mono [OF str_copy_wp [OF assms(1) q room]], rule holds_prod)
      fix r and out :: "char list" and p
      assume "case r of (out, q) \<Rightarrow> i + 1 \<le> q \<and> at_ok F n q \<and> (Out_Of_Bounds \<in> F \<or> length out < m + 1)" "r = (out, p)"
      then have o: "Suc i \<le> p" "at_ok F n p" "Out_Of_Bounds \<in> F \<or> length out < m + 1" by simp_all
      show "holds F ?Q (bind (put (m + 1) out [NUL]) (\<lambda>buf. bind (cstr_at buf 0) (\<lambda>v.
           bind (rd s p) (\<lambda>c. Inr (Got (string_item v) (if c = CHR 0x22 then p + 1 else p))))))"
        using o
        by (intro holds_bind put_wp cstr_put text_rd [OF assms(1) o(2)])
          (auto simp: string_item_def NUL_def)
    qed
  qed
  show "holds F ?Q (if c \<noteq> CHR 0x22 then Inr (Fail i)
      else bind (str_len s (i + 1) 0) (\<lambda>n.
           bind (str_copy (n + 1) s (i + 1) (None, None) []) (\<lambda>(out, p).
           bind (put (n + 1) out [NUL]) (\<lambda>buf.
           bind (cstr_at buf 0) (\<lambda>v.
           bind (rd s p) (\<lambda>c. Inr (Got (string_item v) (if c = CHR 0x22 then p + 1 else p))))))))"
    using body c by (auto simp: NUL_def)
qed

section \<open>Values\<close>

definition head_ok :: "fault set \<Rightarrow> nat \<Rightarrow> nat \<Rightarrow> nat \<Rightarrow> value_head \<Rightarrow> bool" where
  "head_ok F len n i h \<longleftrightarrow> (case h of Leaf r \<Rightarrow> parsed_ok F n i r
     | Open_Array p \<Rightarrow> i < p \<and> i < len \<and> at_ok F n p | Open_Object p \<Rightarrow> i < p \<and> i < len \<and> at_ok F n p)"

lemma open_list_wp:
  assumes "text_ok F s n" "at_ok F n (i + 1)" "i < length s" "close \<noteq> NUL"
    "\<And>p. i < p \<Longrightarrow> at_ok F n p \<Longrightarrow> head_ok F (length s) n i (more p)"
  shows "holds F (head_ok F (length s) n i) (open_list s i close t more)"
  unfolding open_list_def
  by (intro holds_bind text_skip [OF assms(1,2)] text_rd [OF assms(1)] holds_Inr)
    (auto simp: head_ok_def assms(4) intro!: assms(5) [unfolded head_ok_def])

lemma value_head_wp:
  assumes "text_ok F s n" "at_ok F n i"
  shows "holds F (head_ok F (length s) n i) (value_head s i)"
proof -
  have last: "holds F (head_ok F (length s) n i) (bind (rd s i) (\<lambda>c.
       if c = CHR 0x22 then bind (parse_string s i) (\<lambda>r. Inr (Leaf r))
       else if c = CHR ''-'' \<or> isdigit c then bind (parse_number s i) (\<lambda>r. Inr (Leaf r))
       else if c = CHR ''['' then open_list s i CHR '']'' cJSON_Array Open_Array
       else if c = CHR ''{'' then open_list s i CHR ''}'' cJSON_Object Open_Object
       else Inr (Leaf (Fail i))))"
  proof (rule holds_bind, rule text_rd [OF assms])
    fix c assume c: "i < length s" "c \<noteq> NUL \<Longrightarrow> at_ok F n (Suc i)" "c = s ! i"
    show "holds F (head_ok F (length s) n i) (if c = CHR 0x22 then bind (parse_string s i) (\<lambda>r. Inr (Leaf r))
       else if c = CHR ''-'' \<or> isdigit c then bind (parse_number s i) (\<lambda>r. Inr (Leaf r))
       else if c = CHR ''['' then open_list s i CHR '']'' cJSON_Array Open_Array
       else if c = CHR ''{'' then open_list s i CHR ''}'' cJSON_Object Open_Object
       else Inr (Leaf (Fail i)))"
    proof (intro holds_if holds_bind)
      show "holds F (\<lambda>r. holds F (head_ok F (length s) n i) (Inr (Leaf r))) (parse_string s i)"
        by (rule holds_mono [OF parse_string_wp [OF assms]]) (simp add: head_ok_def)
      assume "c = CHR ''-'' \<or> isdigit c"
      then show "holds F (\<lambda>r. holds F (head_ok F (length s) n i) (Inr (Leaf r))) (parse_number s i)"
        using c by (intro holds_mono [OF parse_number_wp [OF assms]]) (auto simp: head_ok_def)
    qed (use c in \<open>auto simp: head_ok_def NUL_def intro!: open_list_wp [OF assms(1)]\<close>)
  qed
  show ?thesis unfolding value_head_def
    by (rule last | rule holds_bind holds_if holds_Inr text_cmp_lit [OF assms]
        | (simp add: head_ok_def NUL_def numeral_eq_Suc; fail))+
qed

lemma holds_got:
  assumes "holds F (parsed_ok F n i) m" "\<And>v p. i < p \<Longrightarrow> at_ok F n p \<Longrightarrow> holds F (parsed_ok F n j) (f v p)"
  shows "holds F (parsed_ok F n j) (got m f)"
  unfolding got_def
  by (rule holds_bind, rule holds_mono [OF assms(1)]) (use assms(2) in \<open>auto split: parsed.split\<close>)

lemma parsed_ok_later: "holds F (parsed_ok F n i) m \<Longrightarrow> j \<le> i \<Longrightarrow> holds F (parsed_ok F n j) m"
  by (erule holds_mono) (auto simp: parsed_ok_def split: parsed.splits)

lemma member_name_wp:
  assumes "text_ok F s n" "at_ok F n i"
  shows "holds F (parsed_ok F n i) (member_name s i)"
  unfolding member_name_def
proof (rule holds_got)
  show "holds F (parsed_ok F n i) (parse_string s i)"
    by (rule holds_mono [OF parse_string_wp [OF assms]]) simp
next
  fix k p assume p: "i < p" "at_ok F n p"
  show "holds F (parsed_ok F n i) (bind (skip s p) (\<lambda>p. bind (rd s p) (\<lambda>c.
      if c \<noteq> CHR '':'' then Inr (Fail p) else bind (skip s (p + 1)) (\<lambda>p. Inr (Got (the (valuestring k)) p)))))"
    using p by (intro holds_bind text_skip [OF assms(1)] text_rd [OF assms(1)] holds_if holds_Inr) (auto simp: NUL_def)
qed

lemma list_sep_wp:
  assumes "text_ok F s n" "at_ok F n i" "close \<noteq> NUL"
  shows "holds F (parsed_ok F n i) (list_sep s i close)"
  unfolding list_sep_def
  by (intro holds_bind text_skip [OF assms(1)] text_rd [OF assms(1)] holds_if holds_Inr)
    (use assms in \<open>auto simp: NUL_def dest!: sym [of "CHR '',''"]\<close>)

lemma holds_got_len:
  assumes "holds F (parsed_ok F n i) m"
    "\<And>v p. m = Inr (Got v p) \<Longrightarrow> i < p \<Longrightarrow> at_ok F n p \<Longrightarrow> holds F (parsed_ok F n j) (f v p)"
  shows "holds F (parsed_ok F n j) (got m f)"
  using assms by (cases m) (auto simp: got_def split: parsed.splits)

text \<open>Nothing is parsed from beyond the buffer.\<close>

lemma value_inside: "parse_value k s i = Inr (Got v p) \<Longrightarrow> i < length s"
  by (cases k) (auto simp: value_head_def rd_def split: if_splits)

lemma member_inside: "member_name s i = Inr (Got v p) \<Longrightarrow> i < length s"
  by (auto simp: member_name_def got_def parse_string_def rd_def split: if_splits)

text \<open>Enough fuel for a value, an array or an object that starts at \<open>i\<close>.\<close>

lemma parse_enough:
  assumes "text_ok F s n"
  shows "\<And>i. at_ok F n i \<Longrightarrow> 2 * (length s - i) + 1 \<le> k \<Longrightarrow> holds F (parsed_ok F n i) (parse_value k s i)"
    and "\<And>i cs. at_ok F n i \<Longrightarrow> 2 * (length s - i) + 2 \<le> k \<Longrightarrow> holds F (parsed_ok F n i) (parse_array k s i cs)"
    and "\<And>i cs. at_ok F n i \<Longrightarrow> 2 * (length s - i) + 2 \<le> k \<Longrightarrow> holds F (parsed_ok F n i) (parse_object k s i cs)"
proof (induction k)
  case 0
  { case 1 then show ?case by simp }
  { case 2 then show ?case by simp }
  { case 3 then show ?case by simp }
next
  case (Suc k)
  {
    case 1
    show ?case unfolding parse_value.simps
    proof (rule holds_bind, rule holds_mono [OF value_head_wp [OF assms 1(1)]])
      fix h assume h: "head_ok F (length s) n i h"
      show "holds F (parsed_ok F n i) (case h of Leaf r \<Rightarrow> Inr r | Open_Array p \<Rightarrow> parse_array k s p []
        | Open_Object p \<Rightarrow> parse_object k s p [])"
        using h 1(2) by (cases h) (auto simp: head_ok_def intro!: parsed_ok_later [OF Suc.IH(2)] parsed_ok_later [OF Suc.IH(3)])
    qed
  next
    case 2
    show ?case unfolding parse_array.simps
      by (rule holds_got_len [OF Suc.IH(1)], use 2 in simp, use 2 in simp, rule holds_got_len [OF list_sep_wp [OF assms]])
        (use 2 in \<open>auto simp: NUL_def dest!: value_inside intro!: parsed_ok_later [OF Suc.IH(2)]\<close>)
  next
    case 3
    show ?case unfolding parse_object.simps
      by (rule holds_got_len [OF member_name_wp [OF assms]], use 3 in simp, rule holds_got_len [OF Suc.IH(1)], use 3 in simp,
          use 3 in \<open>simp add: member_inside\<close>, rule holds_got_len [OF list_sep_wp [OF assms]])
        (use 3 in \<open>auto simp: NUL_def dest!: value_inside member_inside intro!: parsed_ok_later [OF Suc.IH(3)]\<close>)
  }
qed

lemma parse_faults:
  assumes "text_ok F s n" "at_ok F n i" "cJSON_Parse s i = Inl f"
  shows "f \<in> F"
proof -
  have "holds F (\<lambda>_. True) (cJSON_Parse s i)"
    unfolding cJSON_Parse_def cJSON_ParseWithOpts_def
  proof (rule holds_bind, rule holds_bind, rule text_skip [OF assms(1,2)], rule holds_bind)
    fix q assume "at_ok F n q"
    then have "holds F (parsed_ok F n q) (parse_value (2 * length s + 2) s q)"
      by (rule parse_enough(1) [OF assms(1)]) simp
    then show "holds F (\<lambda>r. holds F (\<lambda>x. holds F (\<lambda>_. True) (case x of (c, ep, q) \<Rightarrow> Inr c))
        (case r of Fail e \<Rightarrow> Inr (None, Some e, 0) | Got c p \<Rightarrow> if False then bind (skip s p) (\<lambda>q.
               bind (rd s q) (\<lambda>d. if d \<noteq> NUL then Inr (None, Some q, 0) else Inr (Some c, None, q)))
             else Inr (Some c, None, p))) (parse_value (2 * length s + 2) s q)"
      by (rule holds_mono) (simp split: parsed.split)
  qed
  then show ?thesis using assms(3) by simp
qed

section \<open>Properties\<close>

text \<open>
  C14: parsing ends on every input, well-formed or not: \<open>2 * n + 2\<close> steps are enough for any
  buffer of \<open>n\<close> bytes, whatever the nesting.
\<close>

theorem cJSON_Parse_ends: "cJSON_Parse s i \<noteq> Inl Diverges"
  using parse_faults [of "UNIV - {Diverges}" s 0 i Diverges] by (auto simp: text_ok_def at_ok_def)

text \<open>
  C13: on a text without backslashes, terminated inside its buffer, the parser stays within the
  buffer and within the blocks it allocates, and follows no null pointer: it returns, or it meets
  behaviour C leaves undefined (as a number whose value is no \<open>int\<close>), and there is no other fault.
\<close>

theorem cJSON_Parse_in_bounds:
  assumes "terminated s n" "CHR 0x5C \<notin> set (take n s)" "i \<le> n"
  shows "(\<exists>r. cJSON_Parse s i = Inr r) \<or> cJSON_Parse s i = Inl Undefined"
  using parse_faults [of "{Undefined}" s n i] assms
  by (cases "cJSON_Parse s i") (auto simp: text_ok_def at_ok_def)

theorem cJSON_Parse_in_bounds_witness:
  "(\<exists>r. cJSON_Parse (''[1e99]'' @ [NUL]) 0 = Inr r) \<or> cJSON_Parse (''[1e99]'' @ [NUL]) 0 = Inl Undefined"
  by (rule cJSON_Parse_in_bounds [of _ 6]) (simp_all add: terminated_def)

text \<open>A run of plain characters.\<close>

definition plain_char :: "char \<Rightarrow> bool" where
  "plain_char c \<longleftrightarrow> c \<noteq> CHR 0x22 \<and> c \<noteq> NUL \<and> c \<noteq> CHR 0x5C"

lemma drop_ConsD: "drop p s = c # r \<Longrightarrow> p < length s \<and> s ! p = c \<and> drop (p + 1) s = r"
  by (metis Suc_eq_plus1 drop_Suc drop_eq_Nil hd_drop_conv_nth list.discI list.sel(1,3) not_le_imp_less tl_drop)

lemma str_copy_plain:
  assumes "drop p s = w @ r" "\<forall>c \<in> set w. plain_char c" "length out \<le> cap"
  shows "str_copy cap s p us out =
    (if length out + length w \<le> cap then str_copy cap s (p + length w) us (out @ w) else Inl Out_Of_Bounds)"
  using assms
proof (induction w arbitrary: p out)
  case (Cons c w)
  have c: "plain_char c" using Cons.prems(2) by simp
  have p: "p < length s" "s ! p = c" "drop (p + 1) s = w @ r" using drop_ConsD Cons.prems(1) by fastforce+
  have "str_copy cap s p us out = bind (put cap out [c]) (\<lambda>out. str_copy cap s (p + 1) us out)"
    using p c by (subst str_copy.simps) (simp add: plain_char_def)
  also have "\<dots> = (if length out + length (c # w) \<le> cap then str_copy cap s (p + length (c # w)) us (out @ c # w)
      else Inl Out_Of_Bounds)"
  proof (cases "length out < cap")
    case True
    then show ?thesis using Cons.IH [OF p(3), of "out @ [c]"] Cons.prems(2) by (simp add: put_def)
  qed (simp add: put_def)
  finally show ?case .
qed simp

lemma str_len_plain:
  assumes "drop p s = w @ r" "\<forall>c \<in> set w. plain_char c"
  shows "str_len s p k = str_len s (p + length w) (k + length w)"
  using assms
proof (induction w arbitrary: p k)
  case (Cons c w)
  have c: "plain_char c" using Cons.prems(2) by simp
  have p: "p < length s" "s ! p = c" "drop (p + 1) s = w @ r" using drop_ConsD Cons.prems(1) by fastforce+
  have "str_len s p k = str_len s (p + 1) (k + 1)"
    using p c by (subst str_len.simps) (simp add: plain_char_def)
  then show ?case using Cons.IH [OF p(3), of "k + 1"] Cons.prems(2) by simp
qed simp

text \<open>
  C40: a string of any plain characters that ends in an escape with one digit, \<open>\u1\<close>. The first
  pass stops at its closing quote; the second takes the quote and the two characters behind it
  for the rest of the escape and goes on copying, while the block only has room for what stood
  before the quote: when at least two plain characters follow there (up to a quote or the end of
  the text), the copy runs past the end of the heap block. The start \<open>"\u1","ab"\<close> of a list of
  strings is enough.
\<close>

theorem cJSON_short_escape_overflows:
  assumes "\<forall>c \<in> set t. plain_char c" "\<forall>c \<in> set w. plain_char c" "2 \<le> length w" "q = CHR 0x22 \<or> q = NUL"
  shows "cJSON_Parse (CHR 0x22 # t @ CHR 0x5C # ''u1'' @ CHR 0x22 # x # y # w @ q # NUL # r) 0 = Inl Out_Of_Bounds"
proof -
  define s where "s = CHR 0x22 # t @ CHR 0x5C # ''u1'' @ CHR 0x22 # x # y # w @ q # NUL # r"
  let ?a = "length t"
  have at: "s ! 0 = CHR 0x22" "s ! (?a + 1) = CHR 0x5C" "s ! (?a + 2) = CHR ''u''" "s ! (?a + 3) = CHR ''1''"
      "s ! (?a + 4) = CHR 0x22"
    and d: "drop 1 s = t @ CHR 0x5C # ''u1'' @ CHR 0x22 # x # y # w @ q # NUL # r"
    and long: "?a + 10 < length s"
    using assms(3) by (simp_all add: s_def nth_append)
  have d3: "drop (?a + 3) s = CHR ''1'' # CHR 0x22 # x # y # w @ q # NUL # r"
    using drop_append [of "?a + 3" "CHR 0x22 # t @ CHR 0x5C # ''u''" "CHR ''1'' # CHR 0x22 # x # y # w @ q # NUL # r"]
    by (simp add: s_def)
  have d7: "drop (?a + 7) s = w @ q # NUL # r"
    using drop_append [of "?a + 7" "CHR 0x22 # t @ CHR 0x5C # ''u1'' @ CHR 0x22 # [x, y]" "w @ q # NUL # r"]
    by (simp add: s_def)
  have rds: "rd s i = Inr (s ! i)" if "i < ?a + 10" for i using that long by simp
  have "str_len s 1 0 = str_len s (?a + 1) ?a" using str_len_plain [OF d assms(1), of 0] by simp
  also have "\<dots> = str_len s (?a + 1 + 2) (?a + 1)"
    by (subst str_len.simps) (simp add: rds at NUL_def del: One_nat_def add_2_eq_Suc')
  also have "\<dots> = str_len s (?a + 3) (?a + 1)" by (simp add: numeral_3_eq_3)
  also have "\<dots> = str_len s (?a + 3 + 1) (?a + 1 + 1)"
    by (subst str_len.simps) (simp add: rds at NUL_def del: One_nat_def)
  also have "\<dots> = str_len s (?a + 4) (?a + 2)" by (simp add: eval_nat_numeral)
  also have "\<dots> = Inr (?a + 2)" by (subst str_len.simps) (simp add: rds at NUL_def del: One_nat_def)
  finally have len: "str_len s 1 0 = Inr (?a + 2)" .
  obtain u where "cstr_at s (?a + 3) = Inr (CHR ''1'' # CHR 0x22 # u)"
    using long d3 by (simp add: cstr_at_def NUL_def)
  moreover have "\<not> isspace CHR ''1''" "hex_digit CHR ''1'' = Some 1" "hex_digit CHR 0x22 = None" by code_simp+
  ultimately have code: "scan_code s (?a + 3) None = Inr 1"
    by (simp add: scan_code_def sscanf_4x_def hex_number_def)
  have utf8: "utf8_bytes 1 = (1, [CHR 0x01])" by code_simp
  have "unicode_escape s (?a + 2) (None, None) = Inr ([CHR 0x01], ?a + 6, Some 1, None)"
    using code by (simp add: unicode_escape_def Let_def utf8 word_le_nat_alt numeral_3_eq_3)
  then have "str_copy (?a + 3) s (?a + 1) (None, None) t = str_copy (?a + 3) s (?a + 7) (Some 1, None) (t @ [CHR 0x01])"
    using at(2,3) by (subst str_copy.simps) (simp add: put_def NUL_def rds add.commute [of 7])
  moreover have "str_copy (?a + 3) s 1 (None, None) [] = str_copy (?a + 3) s (?a + 1) (None, None) t"
    using str_copy_plain [OF d assms(1), of "[]" "?a + 3" "(None, None)"] by simp
  ultimately have first: "str_copy (?a + 3) s 1 (None, None) [] = str_copy (?a + 3) s (?a + 7) (Some 1, None) (t @ [CHR 0x01])"
    by simp
  note run = str_copy_plain [OF d7 assms(2), of "t @ [CHR 0x01]" "?a + 3" "(Some 1, None)", simplified]
  have "bind (str_copy (?a + 3) s 1 (None, None) []) (\<lambda>(out, p). bind (put (?a + 3) out [NUL]) (f p)) = Inl Out_Of_Bounds"
    for f :: "nat \<Rightarrow> char list \<Rightarrow> cJSON parsed res"
  proof (cases "length w = 2")
    case True
    have "s ! (?a + 9) = q" using d7 True nth_drop [of "?a + 7" s 2] long by (simp add: nth_append add.commute [of 9])
    then have "rd s (?a + 9) = Inr q" by (simp add: rds)
    then have "str_copy (?a + 3) s (?a + 9) (Some 1, None) (t @ CHR 0x01 # w) = Inr (t @ CHR 0x01 # w, ?a + 9)"
      using assms(4) by (subst str_copy.simps) auto
    then show ?thesis using True run by (simp add: first put_def add.commute [of 9] del: One_nat_def)
  next
    case False
    then show ?thesis using run assms(3) by (simp add: first del: One_nat_def)
  qed
  then have "parse_string s 0 = Inl Out_Of_Bounds"
    using len by (simp add: parse_string_def rds at numeral_3_eq_3)
  then have "value_head s 0 = Inl Out_Of_Bounds"
    by (simp add: value_head_def rds at)
  moreover have "skip s 0 = Inr 0"
    using at(1) long by (cases s) (simp_all add: skip_def span_at_def)
  ultimately have "cJSON_Parse s 0 = Inl Out_Of_Bounds"
    by (simp add: cJSON_Parse_def cJSON_ParseWithOpts_def)
  then show ?thesis unfolding s_def .
qed

theorem cJSON_short_escape_overflows_witness:
  "cJSON_Parse (CHR 0x22 # ''cam'' @ CHR 0x5C # ''u1'' @ CHR 0x22 # CHR '','' # CHR 0x22 # ''devId'' @ CHR 0x22 # NUL # []) 0
    = Inl Out_Of_Bounds"
  by (rule cJSON_short_escape_overflows) (simp_all add: plain_char_def NUL_def)

text \<open>
  printing an empty object at the top level with formatting writes four bytes (brace, line
  feed, brace, terminator) into a block of three.
\<close>

theorem cJSON_Print_empty_overflows:
  "cJSON_Print (Item cJSON_Object vs vi vd nm []) = Inl Out_Of_Bounds"
  by (simp add: cJSON_Print_def compose_object_def emit_def tabs_def)

end
