(* ===== verification/Cjson_Roundtrip.thy ===== *)
theory Cjson_Roundtrip
  imports Cjson_Safe
begin

text \<open>
  Parsing undoes printing (\<open>src/src/common/cJSON.c\<close>), formatted or not: integers through the
  doubles they are stored as, strings through their escapes, arrays and objects of any depth.
\<close>

section \<open>Doubles that are integers\<close>

lemma ilog2_int:
  assumes "\<bar>i\<bar> < 2 ^ 53"
  shows "ilog2 (of_int i) \<le> 52"
proof -
  have "bitlen \<bar>i\<bar> \<le> 53" using bitlen_le_iff_power [of "\<bar>i\<bar>" 53] assms by simp
  moreover have "quotient_of (of_int i :: rat) = (i, 1)" by (simp add: of_int_rat quotient_of_Fract)
  moreover have "bitlen 1 = 1" using bitlen_pow2 [of 1 0] by (simp add: bitlen_alt_def)
  ultimately show ?thesis by (simp add: ilog2_def Let_def)
qed

lemma round_even_int [simp]: "round_even (of_int i) = i"
  by (simp add: round_even_def Let_def)

lemma pow2_inverse: "k \<le> 0 \<Longrightarrow> q / pow2 k = q * 2 ^ nat (- k)"
  by (cases "k = 0") (simp_all add: pow2_def)

lemma dbl_int:
  assumes "\<bar>i\<bar> < 2 ^ 53"
  shows "dbl (of_int i) = Inr (of_int i)"
proof (cases "i = 0")
  case False
  let ?k = "max (ilog2 (of_int i) - 52) (- 1074)"
  have k: "?k \<le> 0" using ilog2_int [OF assms] by simp
  have "of_int i / pow2 ?k = (of_int (i * 2 ^ nat (- ?k)) :: rat)" using pow2_inverse [OF k] by simp
  then have r: "round_even (of_int i / pow2 ?k) = i * 2 ^ nat (- ?k)" by (metis round_even_int)
  have "pow2 ?k * 2 ^ nat (- ?k) = 1"
    using k by (cases "?k = 0") (simp_all add: pow2_def)
  then have r2: "of_int (round_even (of_int i / pow2 ?k)) * pow2 ?k = of_int i"
    unfolding r by (simp add: mult.assoc mult.commute)
  have "\<bar>of_int i\<bar> < (pow2 1024 :: rat)"
  proof -
    have "\<bar>of_int i :: rat\<bar> = of_int \<bar>i\<bar>" by simp
    also have "\<dots> < of_int (2 ^ 53)" using assms by (simp only: of_int_less_iff)
    also have "\<dots> \<le> pow2 1024"
    proof -
      have "(2 :: rat) ^ 53 \<le> 2 ^ 1024" by (rule power_increasing) simp_all
      then show ?thesis by (simp add: pow2_def)
    qed
    finally show ?thesis .
  qed
  then show ?thesis using False r2 unfolding dbl_def Let_def by simp
qed (simp add: dbl_def)

lemma add_digits_exact:
  assumes "\<forall>c \<in> set ds. isdigit c" "foldl (\<lambda>n c. 10 * n + digit_val c) n ds < 2 ^ 53"
  shows "add_digits (of_nat n) ds = Inr (of_nat (foldl (\<lambda>n c. 10 * n + digit_val c) n ds))"
  using assms
proof (induction ds arbitrary: n)
  case (Cons d ds)
  have mono: "n \<le> foldl (\<lambda>n c. 10 * n + digit_val c) n ds" for n ds
  proof (induction ds arbitrary: n)
    case (Cons d ds)
    show ?case using Cons [of "10 * n + digit_val d"] by simp
  qed simp
  have b: "10 * n + digit_val d < 2 ^ 53" using Cons.prems(2) mono [of "10 * n + digit_val d" ds] by simp
  have e: "(of_nat m :: rat) = of_int (int m)" for m by simp
  have "dbl (of_nat n * 10) = Inr (of_nat (10 * n))"
    using dbl_int [of "int (10 * n)"] b by (simp add: mult.commute)
  moreover have "dbl (of_nat (10 * n) + of_nat (digit_val d)) = Inr (of_nat (10 * n + digit_val d))"
    using dbl_int [of "int (10 * n + digit_val d)"] b by simp
  ultimately show ?case using Cons.IH [of "10 * n + digit_val d"] Cons.prems by simp
qed simp

lemma pow10_0: "pow10 0 = Inr 1"
  using dbl_int [of 1] by (simp add: pow10_def)

lemma int_of_double_int: "INT_MIN \<le> i \<Longrightarrow> i \<le> INT_MAX \<Longrightarrow> int_of_double (of_int i) = Inr i"
  by (simp add: int_of_double_def)

section \<open>Numbers\<close>

text \<open>What may follow a number: anything that does not continue it.\<close>

definition ends_number :: "char \<Rightarrow> bool" where
  "ends_number c \<longleftrightarrow> \<not> isdigit c \<and> c \<noteq> CHR ''.'' \<and> c \<noteq> CHR ''e'' \<and> c \<noteq> CHR ''E''"

lemma rd_drop: "drop p s = c # r \<Longrightarrow> rd s p = Inr c"
  using drop_ConsD [of p s c r] by simp

lemma drop_appendD: "drop p s = u @ v \<Longrightarrow> drop (p + length u) s = v"
  by (metis append_eq_conv_conj drop_drop add.commute)

lemma span_drop:
  assumes "drop p s = w @ c # r" "\<forall>x \<in> set w. P x" "\<not> P c"
  shows "span_at P s p = Inr (w, p + length w)"
proof -
  have "takeWhile P (drop p s) = w" using assms by (simp add: takeWhile_append)
  moreover have "p + length w < length s" using drop_ConsD [OF drop_appendD [OF assms(1)]] by simp
  ultimately show ?thesis by (simp add: span_at_def)
qed

lemma number_rest_int:
  assumes "\<forall>c \<in> set ds. isdigit c" "drop k s = c # r" "ends_number c"
    "i = (if neg then - int (dec_val ds) else int (dec_val ds))" "INT_MIN \<le> i" "i \<le> INT_MAX"
  shows "number_rest neg ds s k = Inr (Got (number_item (of_int i) i) k)"
proof -
  have "dec_val ds < 2 ^ 53" using assms(4-6) by (auto simp: INT_MIN_def INT_MAX_def split: if_splits)
  then have ds: "add_digits 0 ds = Inr (of_nat (dec_val ds))"
    using add_digits_exact [OF assms(1), of 0] by (simp add: dec_val_def)
  have d: "dbl (of_int i) = Inr (of_int i)"
    by (rule dbl_int) (use assms(5,6) in \<open>auto simp: INT_MIN_def INT_MAX_def\<close>)
  have "(if neg then - of_nat (dec_val ds) else of_nat (dec_val ds)) = (of_int i :: rat)" by (simp add: assms(4))
  then show ?thesis
    using assms(3) by (simp add: number_rest_def ds number_fraction_def number_exponent_def rd_drop [OF assms(2)]
      ends_number_def pow10_0 d int_of_double_int [OF assms(5,6)])
qed

lemma show_nat_first: "0 < n \<Longrightarrow> hd (show_nat n) \<noteq> CHR ''0''"
proof (induction n rule: show_nat.induct)
  case (1 n)
  show ?case
  proof (cases "n < 10")
    case True
    have "digit_val CHR ''0'' = 0" by code_simp
    then have "char_of (48 + n) \<noteq> CHR ''0''" using digit_char [OF True] 1(2) by auto
    then show ?thesis using True by (simp add: show_nat.simps [of n])
  next
    case False
    then have "hd (show_nat (n div 10)) \<noteq> CHR ''0''" using 1 by simp
    then show ?thesis using False show_nat_digits [of "n div 10"] by (simp add: show_nat.simps [of n])
  qed
qed

lemma parse_number_int:
  assumes "drop p s = show_int i @ c # r" "ends_number c" "INT_MIN \<le> i" "i \<le> INT_MAX"
  shows "parse_number s p = Inr (Got (number_item (of_int i) i) (p + length (show_int i)))"
proof -
  let ?ds = "show_nat (nat \<bar>i\<bar>)"
  let ?j = "if i < 0 then p + 1 else p"
  obtain d ds where d: "?ds = d # ds" using show_nat_digits [of "nat \<bar>i\<bar>"] by (cases ?ds) auto
  have dig: "\<forall>c \<in> set ?ds. isdigit c" and val: "dec_val ?ds = nat \<bar>i\<bar>" using show_nat_digits by simp_all
  have d_not: "isdigit d" "d \<noteq> CHR ''-''" using dig d isdigit_not by auto
  have j: "opt_char s p CHR ''-'' = Inr ?j" "drop ?j s = ?ds @ c # r"
    using assms(1) d d_not drop_appendD [of p s "''-''" "?ds @ c # r"]
    by (auto simp: opt_char_def show_int_def rd_drop)
  have len: "p + length (show_int i) = ?j + length ?ds" by (simp add: show_int_def)
  have sign: "i = (if ?j \<noteq> p then - int (nat \<bar>i\<bar>) else int (nat \<bar>i\<bar>))" by auto
  have after: "drop (?j + length ?ds) s = c # r" by (rule drop_appendD [OF j(2)])
  have nd: "\<not> isdigit c" using assms(2) by (simp add: ends_number_def)
  show ?thesis
  proof (cases "i = 0")
    case True
    then have z: "?ds = ''0''" by simp code_simp
    have "opt_char s p CHR ''0'' = Inr (p + 1)" using j(2) z True by (simp add: opt_char_def rd_drop)
    moreover have "drop (p + 1) s = c # r" using after True z by simp
    moreover from this have "number_rest False [] s (p + 1) = Inr (Got (number_item (of_int 0) 0) (p + 1))"
      by (intro number_rest_int [OF _ _ assms(2)]) (simp_all add: dec_val_def INT_MIN_def INT_MAX_def)
    ultimately show ?thesis
      using j(1) nd True len z by (simp add: parse_number_def rd_drop)
  next
    case False
    then have "d \<noteq> CHR ''0''" using show_nat_first [of "nat \<bar>i\<bar>"] d by simp
    moreover have "drop ?j s = d # ds @ c # r" using j(2) d by simp
    moreover have "span_at isdigit s ?j = Inr (?ds, ?j + length ?ds)" by (rule span_drop [OF j(2) dig nd])
    moreover have "number_rest (?j \<noteq> p) ?ds s (?j + length ?ds) = Inr (Got (number_item (of_int i) i) (?j + length ?ds))"
      by (rule number_rest_int [OF dig after assms(2)]) (use sign val assms(3,4) in simp_all)
    ultimately show ?thesis
      using j(1) d_not unfolding len by (simp add: parse_number_def opt_char_def rd_drop)
  qed
qed

lemma show_int_length:
  assumes "INT_MIN \<le> i" "i \<le> INT_MAX"
  shows "length (show_int i) \<le> 11"
proof -
  have "nat \<bar>i\<bar> < 10 ^ 10" using assms by (auto simp: INT_MIN_def INT_MAX_def)
  then have "length (show_nat (nat \<bar>i\<bar>)) \<le> 10" by (rule show_nat_length) simp
  then show ?thesis by (cases "i < 0") (simp_all add: show_int_def)
qed

lemma print_number_int:
  assumes "INT_MIN \<le> i" "i \<le> INT_MAX"
  shows "print_number (Item t vs i (of_int i) nm cs) = Inr (show_int i)"
  using assms show_int_length [OF assms] dbl_int [of 0]
  by (simp add: print_number_def emit_def DBL_EPSILON_def)

section \<open>Strings\<close>

lemma sscanf_hex2:
  assumes "n < 256"
  shows "sscanf_4x (''00'' @ hex2 n @ u) = Some (of_nat n)"
proof -
  have zero: "\<not> isspace CHR ''0''" "hex_digit CHR ''0'' = Some 0" by code_simp+
  have dig: "\<forall>c \<in> set (hex2 n). hex_digit c \<noteq> None" and val: "hex_number (''00'' @ hex2 n) = n"
    using hex2_scan [of n 0] assms zero(2) by (simp_all add: hex_number_def)
  have "takeWhile (\<lambda>c. hex_digit c \<noteq> None) (''00'' @ hex2 n) = ''00'' @ hex2 n" using dig zero(2) by simp
  then show ?thesis using zero(1) val by (simp add: sscanf_4x_def hex2_def)
qed

lemma utf8_low:
  assumes "n < 32"
  shows "utf8_bytes (of_nat n) = (of_nat n, [char_of n])"
proof -
  have u: "unat (of_nat n :: 32 word) = n" using assms by (simp add: unat_of_nat)
  then have "utf8_len (of_nat n) = 1" using assms by (simp add: utf8_len_def word_less_nat_alt)
  then show ?thesis by (simp add: utf8_bytes_def firstByteMark_def char8_def u)
qed

lemma hex2_plain:
  assumes "n < 256"
  shows "\<forall>c \<in> set (hex2 n). plain_char c"
proof -
  have "hex_digit CHR 0x22 = None" "hex_digit CHR 0x5C = None" "hex_digit NUL = None" by code_simp+
  then show ?thesis using hex2_scan [OF assms, THEN conjunct2] unfolding plain_char_def by force
qed

lemma control_escape:
  assumes "drop p s = ''u00'' @ hex2 n @ r" "NUL \<in> set r" "0 < n" "n < 32"
  shows "unicode_escape s p us = Inr ([char_of n], p + 4, Some (of_nat n), snd us)"
proof -
  have d: "drop (p + 1) s = ''00'' @ hex2 n @ r" using drop_appendD [of p s "''u''"] assms(1) by simp
  have "NUL \<notin> set (''00'' @ hex2 n)" using hex2_plain [of n] assms(4) by (auto simp: plain_char_def NUL_def)
  then have "takeWhile (\<lambda>c. c \<noteq> NUL) (drop (p + 1) s) = ''00'' @ hex2 n @ takeWhile (\<lambda>c. c \<noteq> NUL) r"
    unfolding d by (auto simp: hex2_def)
  moreover have "p + 1 < length s" using drop_ConsD [of "p + 1" s] d by simp
  ultimately have c: "cstr_at s (p + 1) = Inr (''00'' @ hex2 n @ takeWhile (\<lambda>c. c \<noteq> NUL) r)"
    using assms(2) d by (simp add: cstr_at_def)
  have u: "unat (of_nat n :: 32 word) = n" using assms(4) by (simp add: unat_of_nat)
  have "scan_code s (p + 1) (fst us) = Inr (of_nat n)"
    unfolding scan_code_def c using sscanf_hex2 [of n] assms(4) by simp
  moreover have "(of_nat n :: 32 word) \<noteq> 0" using u assms(3) by auto
  moreover have "\<not> (0xDC00 :: 32 word) \<le> of_nat n" "\<not> (0xD800 :: 32 word) \<le> of_nat n"
    using u assms(4) by (simp_all add: word_le_nat_alt)
  ultimately show ?thesis
    by (simp add: unicode_escape_def Let_def utf8_low [OF assms(4)])
qed

text \<open>The three ways a character is written.\<close>

lemma escape_cases:
  assumes "c \<noteq> NUL"
  obtains (plain) "escape_text c = [c]" "plain_char c" "escape_size c = 1"
    | (short) e where "escape_text c = [CHR 0x5C, e]" "e \<noteq> CHR ''u''" "escape_char e = c" "escape_size c = 2"
    | (control) "escape_text c = CHR 0x5C # ''u00'' @ hex2 (code_of c)" "0 < (code_of c :: nat)" "(code_of c :: nat) < 32"
      "escape_size c = 6"
proof -
  have nz: "0 < (code_of c :: nat)" using assms using of_char_eq_iff [of c NUL, where ?'a = nat] by (simp add: NUL_def)
  show ?thesis
  proof (cases "c \<in> set specials")
    case True
    then have "\<exists>e. escape_text c = [CHR 0x5C, e] \<and> e \<noteq> CHR ''u'' \<and> escape_char e = c"
      by (auto simp: specials_def escape_text_def escape_char_def)
    then show ?thesis using short True by (auto simp: escape_size_def)
  next
    case False
    then show ?thesis
      using plain control nz assms
      by (cases "(code_of c :: nat) < 32") (auto simp: specials_def escape_text_def escape_size_def plain_char_def)
  qed
qed

definition escape_count :: "char \<Rightarrow> nat" where
  "escape_count c = (if escape_size c = 6 then 5 else 1)"

abbreviation escaped :: "char list \<Rightarrow> char list" where "escaped k \<equiv> concat (map escape_text k)"

lemma str_len_char:
  assumes "drop p s = escape_text c @ r" "c \<noteq> NUL"
  shows "str_len s p m = str_len s (p + length (escape_text c)) (m + escape_count c)"
  using assms(2)
proof (cases rule: escape_cases)
  case plain
  then show ?thesis using str_len_plain [of p s "[c]" r m] assms(1) by (simp add: escape_count_def)
next
  case (short e)
  then show ?thesis using assms(1)
    by (subst str_len.simps) (simp add: rd_drop escape_count_def NUL_def)
next
  case control
  let ?w = "''00'' @ hex2 (code_of c)"
  have two: "drop (p + 2) s = ?w @ r" using drop_appendD [of p s "[CHR 0x5C, CHR ''u'']" "?w @ r"] assms(1) control(1) by simp
  have "str_len s p m = str_len s (p + 2) (m + 1)"
    using assms(1) control(1) by (subst str_len.simps) (simp add: rd_drop NUL_def)
  also have "\<dots> = str_len s (p + 2 + length ?w) (m + 1 + length ?w)"
    by (rule str_len_plain [OF two]) (use hex2_plain [of "code_of c"] control(3) in \<open>auto simp: plain_char_def NUL_def\<close>)
  finally have run: "str_len s p m = str_len s (p + 2 + length ?w) (m + 1 + length ?w)" .
  have "escape_count c = 5" "length (escape_text c) = 6" using control by (simp_all add: escape_count_def hex2_def)
  moreover have "p + 2 + length ?w = p + 6" "m + 1 + length ?w = m + 5" by (simp_all add: hex2_def)
  ultimately show ?thesis using run by (simp only:)
qed

lemma str_len_escaped:
  "drop p s = escaped k @ r \<Longrightarrow> NUL \<notin> set k \<Longrightarrow>
   str_len s p m = str_len s (p + length (escaped k)) (m + sum_list (map escape_count k))"
proof (induction k arbitrary: p m)
  case (Cons c k)
  have c: "str_len s p m = str_len s (p + length (escape_text c)) (m + escape_count c)"
    by (rule str_len_char [of _ _ _ "escaped k @ r"]) (use Cons.prems in auto)
  have "drop (p + length (escape_text c)) s = escaped k @ r"
    by (rule drop_appendD) (use Cons.prems in simp)
  from Cons.IH [OF this] c Cons.prems(2) show ?case by (simp add: add.assoc)
qed simp

lemma str_copy_char:
  assumes "drop p s = escape_text c @ r" "c \<noteq> NUL" "NUL \<in> set r" "length out < cap"
  shows "\<exists>us'. str_copy cap s p us out = str_copy cap s (p + length (escape_text c)) us' (out @ [c])"
  using assms(2)
proof (cases rule: escape_cases)
  case plain
  then show ?thesis using str_copy_plain [of p s "[c]" r out cap us] assms(1,4) by (intro exI [of _ us]) simp
next
  case (short e)
  have "drop (p + 1) s = e # r" using drop_appendD [of p s "[CHR 0x5C]"] assms(1) short(1) by simp
  then show ?thesis using short assms(1,4)
    by (intro exI [of _ us], subst str_copy.simps) (auto simp: rd_drop put_def NUL_def)
next
  case control
  have two: "drop (p + 1) s = ''u00'' @ hex2 (code_of c) @ r"
    using drop_appendD [of p s "[CHR 0x5C]"] assms(1) control(1) by simp
  have "unicode_escape s (p + 1) us = Inr ([c], p + 1 + 4, Some (of_nat (code_of c)), snd us)"
    using control_escape [OF two assms(3) control(2,3)] by simp
  moreover have "rd s p = Inr CHR 0x5C" "rd s (p + 1) = Inr CHR ''u''"
    using rd_drop two assms(1) control(1) by simp_all
  moreover have "p + length (escape_text c) = p + 1 + 4 + 1" using control(1) by (simp add: hex2_def)
  ultimately show ?thesis using assms(4)
    by (intro exI [of _ "(Some (of_nat (code_of c)), snd us)"], subst str_copy.simps)
      (simp add: put_def NUL_def add.commute)
qed

lemma str_copy_escaped:
  "drop p s = escaped k @ r \<Longrightarrow> NUL \<notin> set k \<Longrightarrow> NUL \<in> set r \<Longrightarrow> length out + length k \<le> cap \<Longrightarrow>
   \<exists>us'. str_copy cap s p us out = str_copy cap s (p + length (escaped k)) us' (out @ k)"
proof (induction k arbitrary: p out us)
  case Nil
  then show ?case by (intro exI [of _ us]) simp
next
  case (Cons c k)
  have d: "drop (p + length (escape_text c)) s = escaped k @ r"
    by (rule drop_appendD) (use Cons.prems in simp)
  obtain us1 where 1: "str_copy cap s p us out = str_copy cap s (p + length (escape_text c)) us1 (out @ [c])"
    using str_copy_char [of p s c "escaped k @ r" out cap us] Cons.prems by auto
  obtain us2 where "str_copy cap s (p + length (escape_text c)) us1 (out @ [c]) =
      str_copy cap s (p + length (escape_text c) + length (escaped k)) us2 ((out @ [c]) @ k)"
    using Cons.IH [OF d, of "out @ [c]" us1] Cons.prems by auto
  with 1 show ?case by (intro exI [of _ us2]) (simp add: add.assoc)
qed

definition quoted :: "char list \<Rightarrow> char list" where
  "quoted k = CHR 0x22 # escaped k @ [CHR 0x22]"

lemma parse_quoted:
  assumes "drop p s = quoted k @ r" "NUL \<notin> set k" "NUL \<in> set r"
  shows "parse_string s p = Inr (Got (string_item k) (p + length (quoted k)))"
proof -
  let ?n = "sum_list (map escape_count k)" and ?q = "p + 1 + length (escaped k)"
  have d: "drop (p + 1) s = escaped k @ CHR 0x22 # r"
    using drop_appendD [of p s "[CHR 0x22]"] assms(1) by (simp add: quoted_def)
  have e: "rd s ?q = Inr CHR 0x22" by (rule rd_drop [OF drop_appendD [OF d]])
  have "str_len s (p + 1) 0 = Inr ?n"
    using str_len_escaped [OF d assms(2), of 0] e by (simp add: str_len.simps [of s "Suc (p + length (escaped k))"])
  moreover have len: "length k \<le> ?n"
    by (induction k) (auto simp: escape_count_def)
  have "\<exists>us'. str_copy (?n + 1) s (p + 1) (None, None) [] = str_copy (?n + 1) s ?q us' ([] @ k)"
    by (rule str_copy_escaped [OF d assms(2)]) (use assms(3) len in auto)
  then have "str_copy (?n + 1) s (p + 1) (None, None) [] = Inr (k, ?q)"
    using e by (elim exE) (simp, subst str_copy.simps, simp)
  moreover have "cstr_at (k @ [NUL]) 0 = Inr k" using assms(2) by (simp add: cstr_at_terminated)
  moreover have "rd s p = Inr CHR 0x22" using assms(1) by (simp add: quoted_def rd_drop)
  ultimately show ?thesis
    using len e by (simp add: parse_string_def put_def quoted_def)
qed

lemma print_quoted:
  assumes "NUL \<notin> set k"
  shows "print_string_ptr (Some k) = Inr (quoted k)"
proof -
  have "length (escaped k) = sum_list (map escape_size k)" if "NUL \<notin> set k"
    using that
  proof (induction k)
    case (Cons c k)
    have "c \<noteq> NUL" using Cons.prems by auto
    then have "length (escape_text c) = escape_size c" by (cases rule: escape_cases) (simp_all add: hex2_def)
    then show ?case using Cons by simp
  qed simp
  then show ?thesis using assms by (simp add: print_string_ptr_def emit_def quoted_def)
qed

section \<open>Values\<close>

definition blank :: "char \<Rightarrow> bool" where "blank c \<longleftrightarrow> c \<noteq> NUL \<and> (code_of c :: nat) \<le> 32"

lemma skip_blanks:
  assumes "drop p s = w @ c # r" "\<forall>x \<in> set w. blank x" "\<not> blank c"
  shows "skip s p = Inr (p + length w)"
  using span_drop [OF assms(1), of "\<lambda>c. c \<noteq> NUL \<and> code_of c \<le> (32 :: nat)"] assms(2,3)
  by (simp add: skip_def blank_def)

lemma cmp_lit_match: "drop p s = l @ r \<Longrightarrow> cmp_lit s p l = Inr True"
proof (induction l arbitrary: p)
  case (Cons c l)
  then show ?case using drop_ConsD [of p s c "l @ r"] by simp
qed simp

lemma cmp_lit_differs: "drop p s = c # r \<Longrightarrow> l \<noteq> [] \<Longrightarrow> hd l \<noteq> c \<Longrightarrow> cmp_lit s p l = Inr False"
  by (cases l) (simp_all add: rd_drop)

lemma value_head_char:
  assumes "drop p s = c # r" "c \<noteq> CHR ''n''" "c \<noteq> CHR ''f''" "c \<noteq> CHR ''t''"
  shows "value_head s p =
    (if c = CHR 0x22 then bind (parse_string s p) (\<lambda>r. Inr (Leaf r))
     else if c = CHR ''-'' \<or> isdigit c then bind (parse_number s p) (\<lambda>r. Inr (Leaf r))
     else if c = CHR ''['' then open_list s p CHR '']'' cJSON_Array Open_Array
     else if c = CHR ''{'' then open_list s p CHR ''}'' cJSON_Object Open_Object
     else Inr (Leaf (Fail p)))"
  using cmp_lit_differs [OF assms(1), of "''null''"] cmp_lit_differs [OF assms(1), of "''false''"]
    cmp_lit_differs [OF assms(1), of "''true''"] assms rd_drop [OF assms(1)]
  by (simp add: value_head_def del: cmp_lit.simps)

text \<open>
  A text starts a value: no blank and no closing bracket. \<open>parses t v\<close>: wherever \<open>t\<close> stands,
  followed by what ends a number, it is read as \<open>v\<close>.
\<close>

definition starts :: "char list \<Rightarrow> bool" where
  "starts t \<longleftrightarrow> t \<noteq> [] \<and> \<not> blank (hd t) \<and> hd t \<noteq> CHR '']''"

definition parses :: "char list \<Rightarrow> cJSON \<Rightarrow> bool" where
  "parses t v \<longleftrightarrow> starts t \<and> (\<forall>k s p c r. drop p s = t @ c # r \<longrightarrow> NUL \<in> set (c # r) \<longrightarrow> ends_number c \<longrightarrow>
     2 * length t + 1 \<le> k \<longrightarrow> parse_value k s p = Inr (Got v (p + length t)))"

lemma parsesD:
  "parses t v \<Longrightarrow> drop p s = t @ c # r \<Longrightarrow> NUL \<in> set (c # r) \<Longrightarrow> ends_number c \<Longrightarrow> 2 * length t + 1 \<le> k \<Longrightarrow>
   parse_value k s p = Inr (Got v (p + length t))"
  unfolding parses_def by blast

lemma parses_leaf:
  assumes "starts t"
    "\<And>s p c r. drop p s = t @ c # r \<Longrightarrow> NUL \<in> set (c # r) \<Longrightarrow> ends_number c \<Longrightarrow> value_head s p = Inr (Leaf (Got v (p + length t)))"
  shows "parses t v"
  unfolding parses_def
proof (intro conjI assms(1) allI impI)
  fix k s p c r
  assume "drop p s = t @ c # r" "NUL \<in> set (c # r)" "ends_number c" "2 * length t + 1 \<le> k"
  then show "parse_value k s p = Inr (Got v (p + length t))" using assms(2) by (cases k) simp_all
qed

lemma starts_simps: "starts (c # t) \<longleftrightarrow> \<not> blank c \<and> c \<noteq> CHR '']''"
  by (simp add: starts_def)

lemma parses_literals:
  "parses ''null'' (list_item cJSON_NULL [])" "parses ''false'' (list_item cJSON_False [])"
  "parses ''true'' (Item cJSON_True None 1 0 None [])"
proof -
  have "\<not> blank CHR ''n''" "\<not> blank CHR ''f''" "\<not> blank CHR ''t''" by (simp_all add: blank_def)
  moreover note cmp_lit_match [of _ _ "''null''"] cmp_lit_match [of _ _ "''false''"] cmp_lit_match [of _ _ "''true''"]
    cmp_lit_differs [of _ _ "CHR ''f''" _ "''null''"] cmp_lit_differs [of _ _ "CHR ''t''" _ "''null''"]
    cmp_lit_differs [of _ _ "CHR ''t''" _ "''false''"]
  ultimately show "parses ''null'' (list_item cJSON_NULL [])" "parses ''false'' (list_item cJSON_False [])"
    "parses ''true'' (Item cJSON_True None 1 0 None [])"
    by (auto intro!: parses_leaf simp: starts_simps value_head_def simp del: cmp_lit.simps)
qed

lemma parses_int:
  assumes "INT_MIN \<le> i" "i \<le> INT_MAX"
  shows "parses (show_int i) (number_item (of_int i) i)"
proof (rule parses_leaf)
  obtain d ds where d: "show_int i = d # ds" "d = CHR ''-'' \<or> isdigit d"
    using show_nat_digits [of "nat \<bar>i\<bar>"]
    by (cases "show_nat (nat \<bar>i\<bar>)"; cases "i < 0") (auto simp: show_int_def)
  have n: "\<not> blank d \<and> d \<noteq> CHR '']'' \<and> d \<noteq> CHR ''n'' \<and> d \<noteq> CHR ''f'' \<and> d \<noteq> CHR ''t'' \<and> d \<noteq> CHR 0x22"
    using d(2) by (auto simp: blank_def isdigit_def in_range_def)
  then show "starts (show_int i)" using d(1) by (simp add: starts_simps)
  fix s p c r assume s: "drop p s = show_int i @ c # r" "ends_number c"
  show "value_head s p = Inr (Leaf (Got (number_item (of_int i) i) (p + length (show_int i))))"
    using value_head_char [of p s d] parse_number_int [OF s assms] s(1) d n by simp
qed

lemma parses_string:
  assumes "NUL \<notin> set k"
  shows "parses (quoted k) (string_item k)"
proof (rule parses_leaf)
  show "starts (quoted k)" by (simp add: quoted_def starts_simps blank_def)
  fix s p c r assume "drop p s = quoted k @ c # r" "NUL \<in> set (c # r)"
  then show "value_head s p = Inr (Leaf (Got (string_item k) (p + length (quoted k))))"
    using value_head_char [of p s "CHR 0x22"] parse_quoted [OF _ assms, of p s "c # r"] by (simp add: quoted_def)
qed

section \<open>Lists of values\<close>

lemma ends_blank: "blank c \<Longrightarrow> ends_number c"
  by (auto simp: blank_def ends_number_def isdigit_def in_range_def)

lemma ends_marks [simp]: "ends_number CHR '',''" "ends_number CHR '']''" "ends_number CHR ''}''"
  by (simp_all add: ends_number_def isdigit_def in_range_def)

lemma blank_marks [simp]: "\<not> blank CHR '',''" "\<not> blank CHR '']''" "\<not> blank CHR ''}''" "\<not> blank CHR '':''"
    "\<not> blank CHR 0x22" "\<not> blank CHR ''[''" "\<not> blank CHR ''{''"
  by (simp_all add: blank_def)

lemma starts_hd: "starts t \<Longrightarrow> \<exists>c u. t = c # u \<and> \<not> blank c \<and> c \<noteq> CHR '']''"
  by (cases t) (simp_all add: starts_def)

text \<open>Between two elements, and behind the last.\<close>

lemma list_sep_comma:
  assumes "drop p s = CHR '','' # sp @ t @ r" "\<forall>x \<in> set sp. blank x" "starts t"
  shows "list_sep s p close = Inr (Got True (p + 1 + length sp))"
proof -
  obtain c u where t: "t = c # u" "\<not> blank c" using starts_hd [OF assms(3)] by blast
  have "drop (p + 1) s = sp @ c # u @ r" using drop_ConsD [OF assms(1)] t by simp
  then have "skip s (p + 1) = Inr (p + 1 + length sp)" by (rule skip_blanks [OF _ assms(2) t(2)])
  moreover have "skip s p = Inr p" using skip_blanks [of p s "[]"] assms(1) by simp
  ultimately show ?thesis using rd_drop [OF assms(1)] by (simp add: list_sep_def)
qed

lemma list_sep_close:
  assumes "drop p s = w @ close # r" "\<forall>x \<in> set w. blank x" "\<not> blank close" "close \<noteq> CHR '',''"
  shows "list_sep s p close = Inr (Got False (p + length w + 1))"
  using skip_blanks [OF assms(1-3)] rd_drop [OF drop_appendD [OF assms(1)]] assms(4)
  by (simp add: list_sep_def)

lemma join_Cons: "es \<noteq> [] \<Longrightarrow> join sep (e # es) = e @ sep @ join sep es"
  by (cases es) simp_all

lemma join_starts: "es \<noteq> [] \<Longrightarrow> \<forall>e \<in> set es. starts e \<Longrightarrow> starts (join sep es)"
  by (cases es; cases "tl es") (auto simp: starts_def)

lemma parse_array_text:
  assumes "list_all2 parses es vs" "es \<noteq> []" "\<forall>x \<in> set sp. blank x" "NUL \<in> set r"
    "drop p s = join (CHR '','' # sp) es @ CHR '']'' # r" "2 * length (join (CHR '','' # sp) es) + 2 \<le> k"
  shows "parse_array k s p cs =
    Inr (Got (list_item cJSON_Array (cs @ vs)) (p + length (join (CHR '','' # sp) es) + 1))"
  using assms
proof (induction es arbitrary: vs p k cs)
  case (Cons e es)
  obtain v vs' where vs: "vs = v # vs'" "parses e v" "list_all2 parses es vs'"
    using Cons.prems(1) by (auto simp: list_all2_Cons1)
  obtain k' where k: "k = Suc k'" using Cons.prems(6) by (cases k) auto
  show ?case
  proof (cases "es = []")
    case True
    then have s: "drop p s = e @ CHR '']'' # r" using Cons.prems(5) by simp
    have "parse_value k' s p = Inr (Got v (p + length e))"
      by (rule parsesD [OF vs(2) s]) (use Cons.prems(4,6) k True in auto)
    moreover have "list_sep s (p + length e) CHR '']'' = Inr (Got False (p + length e + 1))"
      using list_sep_close [of "p + length e" s "[]"] drop_appendD [OF s] by simp
    ultimately show ?thesis using True vs k by simp
  next
    case False
    let ?rest = "join (CHR '','' # sp) es"
    have s: "drop p s = e @ CHR '','' # sp @ ?rest @ CHR '']'' # r" using Cons.prems(5) join_Cons [OF False] by simp
    have len: "length (join (CHR '','' # sp) (e # es)) = length e + 1 + length sp + length ?rest"
      using join_Cons [OF False] by simp
    have "\<forall>e \<in> set es. starts e" using vs(3) by (auto simp: list_all2_conv_all_nth in_set_conv_nth parses_def)
    from join_starts [OF False this] have st: "starts ?rest" .
    have v: "parse_value k' s p = Inr (Got v (p + length e))"
      by (rule parsesD [OF vs(2) s]) (use Cons.prems(4,6) k len in auto)
    have sep: "list_sep s (p + length e) CHR '']'' = Inr (Got True (p + length e + 1 + length sp))"
      by (rule list_sep_comma [OF drop_appendD [OF s] Cons.prems(3) st])
    have d: "drop (p + length e + 1 + length sp) s = ?rest @ CHR '']'' # r"
      using drop_appendD [of p s "e @ CHR '','' # sp"] s by (simp add: add.assoc)
    have "parse_array k' s (p + length e + 1 + length sp) (cs @ [v]) =
        Inr (Got (list_item cJSON_Array ((cs @ [v]) @ vs')) (p + length e + 1 + length sp + length ?rest + 1))"
      by (rule Cons.IH [OF vs(3) False Cons.prems(3,4) d]) (use Cons.prems(6) k len in simp)
    then show ?thesis using v sep vs(1) k len by (simp add: add.assoc)
  qed
qed simp

text \<open>The members of an object: a name, and how its value is read.\<close>

definition member :: "char list \<Rightarrow> char list \<times> char list \<Rightarrow> char list" where
  "member gap m = quoted (fst m) @ '':'' @ gap @ snd m"

lemma member_name_text:
  assumes "drop p s = member gap (k, t) @ r" "NUL \<notin> set k" "\<forall>x \<in> set gap. blank x" "starts t" "NUL \<in> set r"
  shows "member_name s p = Inr (Got k (p + length (quoted k) + 1 + length gap))"
proof -
  let ?q = "p + length (quoted k)"
  obtain c u where t: "t = c # u" "\<not> blank c" using starts_hd [OF assms(4)] by blast
  have s: "drop p s = quoted k @ CHR '':'' # gap @ c # u @ r" using assms(1) t by (simp add: member_def)
  have colon: "drop ?q s = CHR '':'' # gap @ c # u @ r" by (rule drop_appendD [OF s])
  then have "drop (?q + 1) s = gap @ c # u @ r" using drop_ConsD [of ?q s] by simp
  from skip_blanks [OF this assms(3) t(2)] have gap: "skip s (?q + 1) = Inr (?q + 1 + length gap)" .
  have "skip s ?q = Inr ?q" using skip_blanks [of ?q s "[]"] colon by simp
  moreover have "parse_string s p = Inr (Got (string_item k) ?q)" by (rule parse_quoted [OF s assms(2)]) (use assms(5) in simp)
  ultimately show ?thesis using gap rd_drop [OF colon] by (simp add: member_name_def string_item_def)
qed

lemma member_starts: "starts (member gap m)"
  by (simp add: member_def quoted_def starts_simps)

definition member_ok :: "char list \<times> char list \<Rightarrow> cJSON \<Rightarrow> bool" where
  "member_ok m v \<longleftrightarrow> parses (snd m) v \<and> NUL \<notin> set (fst m)"

lemma member_read:
  assumes "member_ok m v" "drop p s = member gap m @ c # r" "\<forall>x \<in> set gap. blank x" "NUL \<in> set (c # r)"
    "ends_number c" "2 * length (member gap m) \<le> k"
  shows "\<exists>q. member_name s p = Inr (Got (fst m) q) \<and> parse_value k s q = Inr (Got v (p + length (member gap m)))"
proof -
  let ?q = "p + length (quoted (fst m)) + 1 + length gap"
  have m: "parses (snd m) v" "NUL \<notin> set (fst m)" "starts (snd m)" using assms(1) by (simp_all add: member_ok_def parses_def)
  have "member_name s p = Inr (Got (fst m) ?q)"
    using member_name_text [of p s gap "fst m" "snd m" "c # r"] assms(2-4) m(2,3) by simp
  moreover have "drop ?q s = snd m @ c # r"
    using drop_appendD [of p s "quoted (fst m) @ '':'' @ gap"] assms(2) by (simp add: member_def add.assoc)
  then have "parse_value k s ?q = Inr (Got v (?q + length (snd m)))"
    by (rule parsesD [OF m(1) _ assms(4,5)]) (use assms(6) in \<open>simp add: member_def quoted_def\<close>)
  ultimately show ?thesis by (auto simp: member_def)
qed

lemma parse_object_text:
  assumes "list_all2 member_ok ms vs" "ms \<noteq> []" "\<forall>x \<in> set (gap @ sp @ w). blank x" "NUL \<in> set r"
    "drop p s = join (CHR '','' # sp) (map (member gap) ms) @ w @ CHR ''}'' # r"
    "2 * length (join (CHR '','' # sp) (map (member gap) ms)) + 2 \<le> k"
  shows "parse_object k s p cs = Inr (Got (list_item cJSON_Object (cs @ map2 (\<lambda>m v. name_item (fst m) v) ms vs))
    (p + length (join (CHR '','' # sp) (map (member gap) ms)) + length w + 1))"
  using assms
proof (induction ms arbitrary: vs p k cs)
  case (Cons m ms)
  obtain v vs' where vs: "vs = v # vs'" "member_ok m v" "list_all2 member_ok ms vs'"
    using Cons.prems(1) by (auto simp: list_all2_Cons1)
  obtain k' where k: "k = Suc k'" using Cons.prems(6) by (cases k) auto
  let ?e = "member gap m" and ?rest = "join (CHR '','' # sp) (map (member gap) ms)"
  have g: "\<forall>x \<in> set gap. blank x" "\<forall>x \<in> set sp. blank x" "\<forall>x \<in> set w. blank x" using Cons.prems(3) by auto
  show ?case
  proof (cases "ms = []")
    case True
    then have s: "drop p s = ?e @ w @ CHR ''}'' # r" using Cons.prems(5) by simp
    obtain c u where c: "w @ CHR ''}'' # r = c # u" "ends_number c"
      using g(3) ends_blank by (cases w) auto
    have "NUL \<in> set (c # u)" using Cons.prems(4) c(1) [symmetric] by auto
    then obtain q where "member_name s p = Inr (Got (fst m) q)" "parse_value k' s q = Inr (Got v (p + length ?e))"
      using member_read [OF vs(2) _ g(1) _ c(2), of p s u k'] s c(1) Cons.prems(6) k True by auto
    moreover have "list_sep s (p + length ?e) CHR ''}'' = Inr (Got False (p + length ?e + length w + 1))"
      by (rule list_sep_close [OF drop_appendD [OF s] g(3)]) simp_all
    ultimately show ?thesis using True vs k by simp
  next
    case False
    then have nm: "map (member gap) ms \<noteq> []" by simp
    have s: "drop p s = ?e @ CHR '','' # sp @ ?rest @ w @ CHR ''}'' # r" using Cons.prems(5) join_Cons [OF nm] by simp
    have len: "length (join (CHR '','' # sp) (map (member gap) (m # ms))) = length ?e + 1 + length sp + length ?rest"
      using join_Cons [OF nm] by simp
    have st: "starts ?rest" by (rule join_starts [OF nm]) (simp add: member_starts)
    obtain q where q: "member_name s p = Inr (Got (fst m) q)" "parse_value k' s q = Inr (Got v (p + length ?e))"
      using member_read [OF vs(2) s g(1), of k'] Cons.prems(4,6) k len by auto
    have sep: "list_sep s (p + length ?e) CHR ''}'' = Inr (Got True (p + length ?e + 1 + length sp))"
      by (rule list_sep_comma [OF drop_appendD [OF s] g(2) st])
    have d: "drop (p + length ?e + 1 + length sp) s = ?rest @ w @ CHR ''}'' # r"
      using drop_appendD [of p s "?e @ CHR '','' # sp"] s by (simp add: add.assoc)
    have "parse_object k' s (p + length ?e + 1 + length sp) (cs @ [name_item (fst m) v]) =
        Inr (Got (list_item cJSON_Object ((cs @ [name_item (fst m) v]) @ map2 (\<lambda>m v. name_item (fst m) v) ms vs'))
          (p + length ?e + 1 + length sp + length ?rest + length w + 1))"
      by (rule Cons.IH [OF vs(3) False Cons.prems(3,4) d]) (use Cons.prems(6) k len in simp)
    then show ?thesis using q sep vs(1) k len by (simp add: add.assoc)
  qed
qed simp

section \<open>Brackets\<close>

lemma parses_array:
  assumes "list_all2 parses es vs" "es \<noteq> []" "\<forall>x \<in> set sp. blank x"
  shows "parses (CHR ''['' # join (CHR '','' # sp) es @ '']'') (list_item cJSON_Array vs)"
  unfolding parses_def
proof (intro conjI allI impI)
  show "starts (CHR ''['' # join (CHR '','' # sp) es @ '']'')" by (simp add: starts_simps)
  let ?j = "join (CHR '','' # sp) es"
  fix k s p c r
  assume s: "drop p s = (CHR ''['' # ?j @ '']'') @ c # r" and r: "NUL \<in> set (c # r)"
    and k: "2 * length (CHR ''['' # ?j @ '']'') + 1 \<le> k"
  obtain k' where k': "k = Suc k'" using k by (cases k) auto
  have "\<forall>e \<in> set es. starts e" using assms(1) by (auto simp: list_all2_conv_all_nth in_set_conv_nth parses_def)
  then obtain x u where x: "?j = x # u" "\<not> blank x" "x \<noteq> CHR '']''"
    using starts_hd [OF join_starts [OF assms(2)]] by blast
  have d: "drop (p + 1) s = ?j @ CHR '']'' # c # r" using drop_ConsD [of p s "CHR ''[''"] s by simp
  have "skip s (p + 1) = Inr (p + 1)" using skip_blanks [of "p + 1" s "[]"] d x by simp
  moreover have "rd s (p + 1) = Inr x" using rd_drop d x by simp
  ultimately have "value_head s p = Inr (Open_Array (p + 1))"
    using value_head_char [of p s "CHR ''[''"] s x(3) by (simp add: open_list_def isdigit_def in_range_def)
  moreover have "parse_array k' s (p + 1) [] = Inr (Got (list_item cJSON_Array ([] @ vs)) (p + 1 + length ?j + 1))"
    by (rule parse_array_text [OF assms _ d]) (use r k k' in simp_all)
  ultimately show "parse_value k s p = Inr (Got (list_item cJSON_Array vs) (p + length (CHR ''['' # ?j @ '']'')))"
    using k' by simp
qed

lemma parses_object:
  assumes "list_all2 member_ok ms vs" "ms \<noteq> []" "\<forall>x \<in> set (gap @ sp @ w @ pre). blank x"
  shows "parses (CHR ''{'' # pre @ join (CHR '','' # sp) (map (member gap) ms) @ w @ ''}'')
    (list_item cJSON_Object (map2 (\<lambda>m v. name_item (fst m) v) ms vs))"
  unfolding parses_def
proof (intro conjI allI impI)
  let ?j = "join (CHR '','' # sp) (map (member gap) ms)"
  show "starts (CHR ''{'' # pre @ ?j @ w @ ''}'')" by (simp add: starts_simps)
  fix k s p c r
  assume s: "drop p s = (CHR ''{'' # pre @ ?j @ w @ ''}'') @ c # r" and r: "NUL \<in> set (c # r)"
    and k: "2 * length (CHR ''{'' # pre @ ?j @ w @ ''}'') + 1 \<le> k"
  obtain k' where k': "k = Suc k'" using k by (cases k) auto
  let ?q = "p + 1 + length pre"
  have x: "?j = CHR 0x22 # tl ?j" using assms(2) by (cases ms; cases "tl ms") (auto simp: member_def quoted_def)
  have d1: "drop (p + 1) s = pre @ ?j @ w @ CHR ''}'' # c # r" using drop_ConsD [of p s "CHR ''{''"] s by simp
  then have d: "drop ?q s = ?j @ w @ CHR ''}'' # c # r" using drop_appendD [of "p + 1" s pre] by simp
  have pre: "\<forall>x \<in> set pre. blank x" using assms(3) by simp
  have "skip s (p + 1) = Inr ?q"
    by (rule skip_blanks [of _ _ _ "CHR 0x22" "tl ?j @ w @ CHR ''}'' # c # r", OF _ pre]) (use d1 x in simp_all)
  moreover have "rd s ?q = Inr CHR 0x22" using rd_drop [of ?q s "CHR 0x22"] d x by (metis append_Cons)
  ultimately have "value_head s p = Inr (Open_Object ?q)"
    using value_head_char [of p s "CHR ''{''"] s by (simp add: open_list_def isdigit_def in_range_def)
  moreover have "parse_object k' s ?q [] = Inr (Got (list_item cJSON_Object ([] @ map2 (\<lambda>m v. name_item (fst m) v) ms vs))
      (?q + length ?j + length w + 1))"
    by (rule parse_object_text [OF assms(1,2) _ _ d]) (use assms(3) r k k' in auto)
  ultimately show "parse_value k s p = Inr (Got (list_item cJSON_Object (map2 (\<lambda>m v. name_item (fst m) v) ms vs))
      (p + length (CHR ''{'' # pre @ ?j @ w @ ''}'')))"
    using k' by simp
qed

lemma parses_empty_array: "parses ''[]'' (list_item cJSON_Array [])"
proof (rule parses_leaf)
  fix s p c r assume s: "drop p s = ''[]'' @ c # r"
  then have d: "drop (p + 1) s = CHR '']'' # c # r" using drop_ConsD [of p s] by simp
  show "value_head s p = Inr (Leaf (Got (list_item cJSON_Array []) (p + length ''[]'')))"
    using value_head_char [of p s "CHR ''[''"] s skip_blanks [of "p + 1" s "[]"] d rd_drop [OF d]
    by (simp add: open_list_def isdigit_def in_range_def)
qed (simp add: starts_simps)

lemma parses_empty_object:
  assumes "\<forall>x \<in> set w. blank x"
  shows "parses (CHR ''{'' # w @ ''}'') (list_item cJSON_Object [])"
proof (rule parses_leaf)
  fix s p c r assume s: "drop p s = (CHR ''{'' # w @ ''}'') @ c # r"
  then have d: "drop (p + 1) s = w @ CHR ''}'' # c # r" using drop_ConsD [of p s] by simp
  show "value_head s p = Inr (Leaf (Got (list_item cJSON_Object []) (p + length (CHR ''{'' # w @ ''}''))))"
    using value_head_char [of p s "CHR ''{''"] s skip_blanks [OF d assms] rd_drop [OF drop_appendD [OF d]]
    by (simp add: open_list_def isdigit_def in_range_def)
qed (simp add: starts_simps)

section \<open>Printing\<close>

text \<open>
  The items that are read back as they are: what the parser builds, with \<open>int\<close> values for
  numbers, strings without \<open>NUL\<close>, names for the members of objects only, and \<open>valueint\<close> 1 for
  \<open>true\<close> (\<open>cJSON_CreateTrue\<close> leaves it at 0; such an item has the same text and reads back with 1).
\<close>

fun json_ok :: "cJSON \<Rightarrow> bool" where
  "json_ok (Item t vs vi vd nm cs) = (case t of
       cJSON_NULL \<Rightarrow> vs = None \<and> vi = 0 \<and> vd = 0 \<and> cs = []
     | cJSON_False \<Rightarrow> vs = None \<and> vi = 0 \<and> vd = 0 \<and> cs = []
     | cJSON_True \<Rightarrow> vs = None \<and> vi = 1 \<and> vd = 0 \<and> cs = []
     | cJSON_Number \<Rightarrow> vs = None \<and> vd = of_int vi \<and> INT_MIN \<le> vi \<and> vi \<le> INT_MAX \<and> cs = []
     | cJSON_String \<Rightarrow> vs \<noteq> None \<and> NUL \<notin> set (the vs) \<and> vi = 0 \<and> vd = 0 \<and> cs = []
     | cJSON_Array \<Rightarrow> vs = None \<and> vi = 0 \<and> vd = 0 \<and> (\<forall>c \<in> set cs. json_ok c \<and> c_string c = None)
     | cJSON_Object \<Rightarrow> vs = None \<and> vi = 0 \<and> vd = 0 \<and>
         (\<forall>c \<in> set cs. json_ok c \<and> c_string c \<noteq> None \<and> NUL \<notin> set (the (c_string c))))"

definition unnamed :: "cJSON \<Rightarrow> cJSON" where
  "unnamed c = Item (c_type c) (valuestring c) (valueint c) (valuedouble c) None (child c)"

lemma unnamed_simps [simp]:
  "unnamed (Item t vs vi vd nm cs) = Item t vs vi vd None cs"
  "c_string c = None \<Longrightarrow> unnamed c = c" "c_string c = Some k \<Longrightarrow> name_item k (unnamed c) = c"
  by (cases c; simp add: unnamed_def name_item_def)+

text \<open>The block that does not hold: an empty object printed with formatting at the top level.\<close>

definition empty_top :: "bool \<Rightarrow> nat \<Rightarrow> cJSON \<Rightarrow> bool" where
  "empty_top fmt depth c \<longleftrightarrow> fmt \<and> depth = 0 \<and> c_type c = cJSON_Object \<and> child c = []"

lemma each_exists:
  "\<forall>x \<in> set xs. \<exists>y. f x = Inr y \<and> P y (g x) \<Longrightarrow> \<exists>ys. each f xs = Inr ys \<and> list_all2 P ys (map g xs)"
  by (induction xs) (simp, fastforce)

lemma join_length: "es \<noteq> [] \<Longrightarrow> length (join sep es) + length sep = sum_list (map (\<lambda>e. length e + length sep) es)"
  by (induction es) (simp, case_tac es, auto)

lemma blank_layout [simp]: "blank CHR 0x0A" "blank CHR 0x09"
  by (simp_all add: blank_def NUL_def)

lemma tabs_blank: "\<forall>x \<in> set (tabs n). blank x"
  by (simp add: tabs_def blank_def NUL_def)

lemma compose_array_parses:
  assumes "list_all2 parses es vs"
  shows "\<exists>t. compose_array fmt es = Inr t \<and> parses t (list_item cJSON_Array vs)"
proof (cases "es = []")
  case True
  then show ?thesis using assms parses_empty_array by (simp add: compose_array_def emit_def)
next
  case False
  let ?sp = "if fmt then '' '' else []"
  let ?t = "CHR ''['' # join (CHR '','' # ?sp) es @ '']''"
  have "sum_list (map (\<lambda>e. length e + length (CHR '','' # ?sp)) es) \<le> sum_list (map (\<lambda>e. length e + 2 + fmt_extra fmt 1) es)"
    by (rule sum_list_mono) (simp add: fmt_extra_def)
  with join_length [OF False, of "CHR '','' # ?sp"]
  have "length ?t < 5 + sum_list (map (\<lambda>e. length e + 2 + fmt_extra fmt 1) es)" by simp
  then have "compose_array fmt es = Inr ?t" using False by (auto simp: compose_array_def emit_def)
  moreover have "parses ?t (list_item cJSON_Array vs)"
    by (rule parses_array [OF assms False]) (simp add: blank_def NUL_def)
  ultimately show ?thesis by blast
qed

definition as_printed :: "char list \<times> char list \<Rightarrow> char list \<times> char list" where
  "as_printed m = (quoted (fst m), snd m)"

lemma member_text_eq:
  "member_text fmt d (as_printed m) = (if fmt then tabs d else []) @ member (if fmt then [CHR 0x09] else []) m"
  by (simp add: member_text_def member_def as_printed_def)

lemma join_indent: "ms \<noteq> [] \<Longrightarrow> join sep (map (\<lambda>m. pre @ f m) ms) = pre @ join (sep @ pre) (map f ms)"
  by (induction ms) (simp, case_tac ms, auto)

lemma compose_object_parses:
  assumes "list_all2 member_ok ms vs" "ms = [] \<Longrightarrow> \<not> (fmt \<and> depth = 0)"
  shows "\<exists>t. compose_object fmt depth (map as_printed ms) = Inr t \<and>
    parses t (list_item cJSON_Object (map2 (\<lambda>m v. name_item (fst m) v) ms vs))"
proof (cases "ms = []")
  case True
  let ?w = "if fmt then CHR 0x0A # tabs (depth - 1) else []"
  have "parses (CHR ''{'' # ?w @ ''}'') (list_item cJSON_Object [])"
    by (rule parses_empty_object) (use tabs_blank in \<open>cases fmt; simp\<close>)
  moreover have "length ?w + 2 < (if fmt then depth + 3 else 3)"
    using assms(2) True by (auto simp: tabs_def)
  ultimately show ?thesis using True assms(1) by (auto simp: compose_object_def emit_def)
next
  case False
  define gap where "gap = (if fmt then [CHR 0x09] else [])"
  define nl where "nl = (if fmt then [CHR 0x0A] else [])"
  define pre where "pre = (if fmt then tabs (depth + 1) else [])"
  define w where "w = (if fmt then CHR 0x0A # tabs depth else [])"
  note layout = gap_def nl_def pre_def w_def
  have blanks: "\<forall>x \<in> set (gap @ (nl @ pre) @ w @ nl @ pre). blank x"
    using tabs_blank by (cases fmt) (simp_all add: layout ball_Un)
  have lens: "length gap + length nl + length pre = fmt_extra fmt (2 + (depth + 1))" "length w \<le> fmt_extra fmt (depth + 1)"
    by (simp_all add: layout fmt_extra_def tabs_def)
  have shape: "member_text fmt (depth + 1) (as_printed m) = pre @ member gap m" for m
    by (simp add: member_text_eq layout)
  let ?j = "join (CHR '','' # nl @ pre) (map (member gap) ms)"
  let ?t = "CHR ''{'' # (nl @ pre) @ ?j @ w @ ''}''"
  let ?S = "sum_list (map (\<lambda>m. length (snd m) + length (fst m) + 2 + fmt_extra fmt (2 + (depth + 1))) (map as_printed ms))"
  have nm: "map (member gap) ms \<noteq> []" using False by simp
  have j: "join ('','' @ nl) (map (member_text fmt (depth + 1)) (map as_printed ms)) = pre @ ?j"
    using join_indent [OF False, of "'','' @ nl" pre "member gap"] by (simp add: shape [simplified] comp_def)
  have "length (member gap m) + length (CHR '','' # nl @ pre) =
      length (snd (as_printed m)) + length (fst (as_printed m)) + 2 + fmt_extra fmt (2 + (depth + 1))" for m
    using lens(1) by (simp add: member_def as_printed_def)
  then have "?S = sum_list (map (\<lambda>e. length e + length (CHR '','' # nl @ pre)) (map (member gap) ms))"
    by (simp only: map_map comp_def)
  with join_length [OF nm, of "CHR '','' # nl @ pre"] have "length ?j + length (CHR '','' # nl @ pre) = ?S" by (simp only:)
  moreover have "length ?t = length ?j + length (nl @ pre) + length w + 2" "length (CHR '','' # nl @ pre) = length (nl @ pre) + 1"
    by simp_all
  ultimately have "length ?t < 7 + fmt_extra fmt (depth + 1) + ?S" using lens(2) by linarith
  moreover have "compose_object fmt depth (map as_printed ms) =
      emit (7 + fmt_extra fmt (depth + 1) + ?S) (CHR ''{'' # nl @ (pre @ ?j) @ w @ ''}'')"
    unfolding compose_object_def nl_def [symmetric] w_def [symmetric] j using False by simp
  ultimately have "compose_object fmt depth (map as_printed ms) = Inr ?t" by (simp add: emit_def)
  moreover have "parses ?t (list_item cJSON_Object (map2 (\<lambda>m v. name_item (fst m) v) ms vs))"
    by (rule parses_object [OF assms(1) False blanks])
  ultimately show ?thesis by blast
qed

lemma print_parses:
  "json_ok v \<Longrightarrow> \<not> empty_top fmt depth v \<Longrightarrow> \<exists>t. print_value fmt depth v = Inr t \<and> parses t (unnamed v)"
proof (induction v arbitrary: depth)
  case (Item t vs vi vd nm cs)
  have kids: "\<exists>t. print_value fmt (depth + 1) c = Inr t \<and> parses t (unnamed c)" if "c \<in> set cs" "json_ok c" for c
    using Item.IH [OF that] by (simp add: empty_top_def)
  show ?case
  proof (cases t)
    case cJSON_False
    then show ?thesis using Item.prems parses_literals by (simp add: emit_def list_item_def)
  next
    case cJSON_True
    then show ?thesis using Item.prems parses_literals by (simp add: emit_def)
  next
    case cJSON_NULL
    then show ?thesis using Item.prems parses_literals by (simp add: emit_def list_item_def)
  next
    case cJSON_Number
    then show ?thesis using Item.prems cJSON_Number print_number_int [of vi] parses_int [of vi]
      by (simp add: number_item_def)
  next
    case cJSON_String
    then show ?thesis using Item.prems print_quoted parses_string by (auto simp: string_item_def)
  next
    case cJSON_Array
    have "\<exists>es. each (print_value fmt (depth + 1)) cs = Inr es \<and> list_all2 parses es (map unnamed cs)"
      by (rule each_exists) (use Item.prems cJSON_Array kids in auto)
    then obtain es where es: "each (print_value fmt (depth + 1)) cs = Inr es" "list_all2 parses es (map unnamed cs)" by blast
    have "map unnamed cs = cs" using Item.prems cJSON_Array by (auto intro: map_idI)
    then show ?thesis using compose_array_parses [OF es(2), of fmt] es(1) Item.prems cJSON_Array
      by (auto simp: list_item_def)
  next
    case cJSON_Object
    let ?f = "\<lambda>c. bind (print_string_ptr (c_string c)) (\<lambda>nm. bind (print_value fmt (depth + 1) c) (\<lambda>v. Inr (nm, v)))"
    let ?P = "\<lambda>m c. \<exists>k x. m = as_printed (k, x) \<and> c_string c = Some k \<and> member_ok (k, x) (unnamed c)"
    have "\<exists>ms. each ?f cs = Inr ms \<and> list_all2 ?P ms (map (\<lambda>c. c) cs)"
    proof (rule each_exists, rule ballI)
      fix c assume c: "c \<in> set cs"
      then obtain k where k: "c_string c = Some k" "NUL \<notin> set k" "json_ok c" using Item.prems cJSON_Object by fastforce
      from kids [OF c k(3)] k print_quoted [OF k(2)]
      show "\<exists>y. ?f c = Inr y \<and> ?P y c" by (auto simp: as_printed_def member_ok_def)
    qed
    then obtain ms where ms: "each ?f cs = Inr ms" "list_all2 ?P ms cs" by auto
    have "\<exists>ks. ms = map as_printed ks \<and> list_all2 member_ok ks (map unnamed cs) \<and>
        map2 (\<lambda>m v. name_item (fst m) v) ks (map unnamed cs) = cs"
      using ms(2)
    proof (induction ms cs rule: list_all2_induct)
      case (Cons m ms c cs)
      then obtain k x ks where "m = as_printed (k, x)" "c_string c = Some k" "member_ok (k, x) (unnamed c)"
        "ms = map as_printed ks" "list_all2 member_ok ks (map unnamed cs)"
        "map2 (\<lambda>m v. name_item (fst m) v) ks (map unnamed cs) = cs" by blast
      then show ?case by (intro exI [of _ "(k, x) # ks"]) simp
    qed simp
    then obtain ks where ks: "ms = map as_printed ks" "list_all2 member_ok ks (map unnamed cs)"
        "map2 (\<lambda>m v. name_item (fst m) v) ks (map unnamed cs) = cs" by blast
    have "\<not> (fmt \<and> depth = 0)" if "ks = []"
      using that ks(2) Item.prems(2) cJSON_Object by (simp add: empty_top_def)
    from compose_object_parses [OF ks(2) this] ms(1) ks(1,3) Item.prems cJSON_Object show ?thesis
      by (auto simp: list_item_def)
  qed
qed

section \<open>Properties\<close>

lemma parse_printed:
  assumes "parses t v" "drop p s = t @ NUL # r"
  shows "cJSON_Parse s p = Inr (Some v)"
proof -
  obtain c u where t: "t = c # u" "\<not> blank c" using starts_hd [of t] assms(1) unfolding parses_def by blast
  have len: "length t \<le> length s" using arg_cong [OF assms(2), of length] by simp
  have "parse_value (2 * length s + 2) s p = Inr (Got v (p + length t))"
    by (rule parsesD [OF assms]) (use len in \<open>auto simp: ends_number_def NUL_def isdigit_NUL [unfolded NUL_def]\<close>)
  moreover have "skip s p = Inr p" using skip_blanks [of p s "[]" c] assms(2) t by simp
  ultimately show ?thesis by (simp add: cJSON_Parse_def cJSON_ParseWithOpts_def)
qed

text \<open>
  C12: parsing undoes printing, formatted and unformatted. An item of the kind the parser builds,
  unnamed at the top, from numbers with an \<open>int\<close> value, strings without \<open>NUL\<close> (escapes and
  control characters included), literals (\<open>true\<close> with \<open>valueint\<close> 1, as the parser sets it and
  \<open>cJSON_CreateTrue\<close> does not), arrays and objects of any depth is printed without leaving the
  blocks, and the text is read back as the same item. The one exception is the empty object
  printed with formatting at the top level, whose text does not fit its block.
\<close>

theorem cJSON_print_parse:
  assumes "json_ok v" "c_string v = None" "\<not> empty_top fmt 0 v"
  shows "\<exists>t. print_value fmt 0 v = Inr t \<and> cJSON_Parse (t @ NUL # r) 0 = Inr (Some v)"
  using print_parses [OF assms(1,3)] parse_printed [of _ v 0 _ r] assms(2) by auto

text \<open>An array of a number, an escaped string and an object with one member.\<close>

theorem cJSON_print_parse_witness:
  "\<exists>t. print_value True 0 (list_item cJSON_Array [number_item (of_int (- 7)) (- 7), string_item [CHR 0x22, CHR 0x01],
        list_item cJSON_Object [name_item ''k'' (list_item cJSON_NULL [])]]) = Inr t \<and>
     cJSON_Parse (t @ NUL # []) 0 = Inr (Some (list_item cJSON_Array [number_item (of_int (- 7)) (- 7),
        string_item [CHR 0x22, CHR 0x01], list_item cJSON_Object [name_item ''k'' (list_item cJSON_NULL [])]]))"
  by (rule cJSON_print_parse)
    (simp_all add: list_item_def number_item_def string_item_def name_item_def empty_top_def INT_MIN_def INT_MAX_def NUL_def)

end
