(* ===== verification/Cjson_Typed.thy ===== *)
theory Cjson_Typed
  imports Cjson_Roundtrip
begin

text \<open>
  The type discipline of \<open>cJSON\<close> items, which their struct does not express: what the parser
  returns has a string exactly where its type says so, an integer that agrees with its double,
  children only where they belong, named below objects and unnamed below arrays.
\<close>

fun well_typed :: "cJSON \<Rightarrow> bool" where
  "well_typed (Item ty vs vi vd nm ts) \<longleftrightarrow>
     (vs \<noteq> None \<longleftrightarrow> ty = cJSON_String) \<and> (ty = cJSON_Number \<longrightarrow> int_of_double vd = Inr vi) \<and>
     (ts \<noteq> [] \<longrightarrow> ty = cJSON_Array \<or> ty = cJSON_Object) \<and>
     (\<forall>c \<in> set ts. well_typed c \<and> (c_string c = None \<longleftrightarrow> ty = cJSON_Array))"

text \<open>The result of a parse function: an item without a name.\<close>

definition typed_result :: "cJSON parsed \<Rightarrow> bool" where
  "typed_result r = (case r of Fail e \<Rightarrow> True | Got v p \<Rightarrow> well_typed v \<and> c_string v = None)"

lemma typed_result_simps [simp]:
  "typed_result (Fail e)" "typed_result (Got v p) \<longleftrightarrow> well_typed v \<and> c_string v = None"
  by (simp_all add: typed_result_def)

lemma holds_weaken:
  assumes "holds F R r" "\<And>x. R x \<Longrightarrow> Q x"
  shows "holds F Q r"
  by (rule holds_mono [OF assms(1)]) (rule assms(2))

lemma holds_got_typed:
  assumes "holds UNIV typed_result m" "\<And>v p. well_typed v \<Longrightarrow> c_string v = None \<Longrightarrow> holds UNIV Q (f v p)" "\<And>e. Q (Fail e)"
  shows "holds UNIV Q (got m f)"
  using assms by (cases m) (auto simp: got_def typed_result_def split: parsed.splits)

lemma holds_got_any:
  assumes "\<And>v p. holds UNIV Q (f v p)" "\<And>e. Q (Fail e)"
  shows "holds UNIV Q (got m f)"
  using assms by (cases m) (auto simp: got_def split: parsed.splits)

lemma number_typed: "holds UNIV typed_result (parse_number s i)"
proof -
  have last: "holds UNIV typed_result (bind (int_of_double n) (\<lambda>v. Inr (Got (number_item n v) k)))" for n k
    by (cases "int_of_double n") (simp_all add: number_item_def)
  have "holds UNIV typed_result (number_rest neg ds s k)" for neg ds k
    unfolding number_rest_def by (rule last | rule holds_after | rule holds_prod)+
  then show ?thesis unfolding parse_number_def by (intro holds_after holds_prod)
qed

lemma string_typed: "holds UNIV typed_result (parse_string s i)"
  unfolding parse_string_def by (intro holds_after holds_if holds_prod holds_Inr) (simp_all add: string_item_def)

definition typed_head :: "value_head \<Rightarrow> bool" where
  "typed_head h = (case h of Leaf r \<Rightarrow> typed_result r | _ \<Rightarrow> True)"

lemma typed_head_simps [simp]: "typed_head (Leaf r) = typed_result r" "typed_head (Open_Array p)" "typed_head (Open_Object p)"
  by (simp_all add: typed_head_def)

lemma open_list_typed:
  "t = cJSON_Array \<or> t = cJSON_Object \<Longrightarrow> (\<And>p. typed_head (more p)) \<Longrightarrow> holds UNIV typed_head (open_list s i close t more)"
  unfolding open_list_def by (intro holds_after holds_Inr) (auto simp: list_item_def)

lemma value_head_typed: "holds UNIV typed_head (value_head s i)"
proof -
  have leaf: "holds UNIV typed_head (bind m (\<lambda>r. Inr (Leaf r)))" if "holds UNIV typed_result m" for m
    using that by (cases m) simp_all
  have arr: "holds UNIV typed_head (open_list s i CHR '']'' cJSON_Array Open_Array)"
    and obj: "holds UNIV typed_head (open_list s i CHR ''}'' cJSON_Object Open_Object)"
    by (intro open_list_typed; simp)+
  show ?thesis unfolding value_head_def
    by (intro holds_after holds_if leaf string_typed number_typed arr obj holds_Inr) (simp_all add: list_item_def)
qed

lemma list_item_typed:
  "(\<forall>c \<in> set cs. well_typed c \<and> (c_string c = None \<longleftrightarrow> t = cJSON_Array)) \<Longrightarrow> t = cJSON_Array \<or> t = cJSON_Object
   \<Longrightarrow> well_typed (list_item t cs) \<and> c_string (list_item t cs) = None"
  by (auto simp: list_item_def)

lemma name_item_typed: "well_typed c \<Longrightarrow> well_typed (name_item k c) \<and> c_string (name_item k c) \<noteq> None"
  by (cases c) (simp add: name_item_def)

lemma parse_typed:
  "holds UNIV typed_result (parse_value k s i)"
  "\<forall>c \<in> set cs. well_typed c \<and> c_string c = None \<Longrightarrow> holds UNIV typed_result (parse_array k s i cs)"
  "\<forall>c \<in> set cs. well_typed c \<and> c_string c \<noteq> None \<Longrightarrow> holds UNIV typed_result (parse_object k s i cs)"
proof (induction k arbitrary: i cs)
  case (Suc k)
  {
    case 1
    show ?case unfolding parse_value.simps
      by (rule holds_bind, rule holds_mono [OF value_head_typed])
        (auto simp: typed_head_def intro: Suc.IH split: value_head.splits)
  next
    case 2
    show ?case unfolding parse_array.simps
      by (intro holds_got_typed [OF Suc.IH(1)] holds_got_any holds_if Suc.IH(2) holds_Inr)
        (use 2 list_item_typed [of _ cJSON_Array] in auto)
  next
    case 3
    show ?case unfolding parse_object.simps
      by (intro holds_got_any holds_got_typed [OF Suc.IH(1)] holds_if Suc.IH(3) holds_Inr)
        (use 3 list_item_typed [of _ cJSON_Object] name_item_typed in auto)
  }
qed simp_all

text \<open>
  C21: every item \<open>cJSON_Parse\<close> returns is well typed at every depth, whatever bytes it was given,
  and the root has no name.
\<close>

theorem cJSON_Parse_well_typed:
  assumes "cJSON_Parse s i = Inr (Some c)"
  shows "well_typed c \<and> c_string c = None"
proof -
  let ?Q = "\<lambda>(c, ep, q). \<forall>v. c = Some v \<longrightarrow> well_typed v \<and> c_string v = None"
  have last: "holds UNIV ?Q (case r of Fail e \<Rightarrow> Inr (None, Some e, 0) | Got c p \<Rightarrow> if False then f c p else Inr (Some c, None, p))"
    if "typed_result r" for r f using that by (cases r) simp_all
  have "holds UNIV ?Q (cJSON_ParseWithOpts s i False)"
    unfolding cJSON_ParseWithOpts_def by (rule holds_after, rule holds_bind, rule holds_weaken [OF parse_typed(1)], rule last)
  then show ?thesis using assms unfolding cJSON_Parse_def by (cases "cJSON_ParseWithOpts s i False") auto
qed

theorem cJSON_Parse_well_typed_witness:
  "\<exists>t. let c = list_item cJSON_Array [number_item (of_int (- 7)) (- 7),
          list_item cJSON_Object [name_item ''k'' (list_item cJSON_NULL [])]] in
     cJSON_Parse (t @ [NUL]) 0 = Inr (Some c) \<and> well_typed c \<and> c_string c = None"
proof -
  define c where "c = list_item cJSON_Array [number_item (of_int (- 7)) (- 7),
    list_item cJSON_Object [name_item ''k'' (list_item cJSON_NULL [])]]"
  have "json_ok c" "\<not> empty_top True 0 c" "unnamed c = c"
    by (simp_all add: c_def list_item_def number_item_def name_item_def empty_top_def INT_MIN_def INT_MAX_def NUL_def)
  then obtain t where t: "parses t c" using print_parses [of c True 0] by auto
  have "cJSON_Parse (t @ [NUL]) 0 = Inr (Some c)" using parse_printed [OF t, of 0 _ "[]"] by simp
  then show ?thesis using cJSON_Parse_well_typed [of "t @ [NUL]" 0 c] by (auto simp: c_def Let_def)
qed

end
