(* ===== verification/Cjson_Heap.thy ===== *)
theory Cjson_Heap
  imports Cjson
begin

text \<open>
  \<open>src/src/common/cJSON.c\<close>: the operations that build, change, copy and delete a tree of
  items. They work on shared, linked memory, so here an item is a block of a heap, its
  \<open>next\<close>, \<open>prev\<close>, \<open>child\<close> and strings are addresses, and a block that was freed is absent.
  Whether the \<open>n\<close>-th allocation succeeds is a parameter of the memory.
\<close>

section \<open>Memory\<close>

text \<open>\<open>jc_ref\<close> is the bit \<open>cJSON_IsReference\<close> of \<open>type\<close>.\<close>

record jcell =
  jc_next :: "nat option"
  jc_prev :: "nat option"
  jc_child :: "nat option"
  jc_type :: json_type
  jc_ref :: bool
  jc_valuestring :: "nat option"
  jc_valueint :: int
  jc_valuedouble :: rat
  jc_string :: "nat option"

record jmem =
  jm_cells :: "nat \<Rightarrow> jcell option"
  jm_strs :: "nat \<Rightarrow> char list option"
  jm_brk :: nat
  jm_fails :: "nat \<Rightarrow> bool"

definition get_cell :: "jmem \<Rightarrow> nat option \<Rightarrow> jcell res" where
  "get_cell m p = (case p of None \<Rightarrow> Inl Null_Deref
     | Some a \<Rightarrow> (case jm_cells m a of None \<Rightarrow> Inl Use_After_Free | Some x \<Rightarrow> Inr x))"

definition put_cell :: "jmem \<Rightarrow> nat option \<Rightarrow> (jcell \<Rightarrow> jcell) \<Rightarrow> jmem res" where
  "put_cell m p f = (case p of None \<Rightarrow> Inl Null_Deref
     | Some a \<Rightarrow> (case jm_cells m a of None \<Rightarrow> Inl Use_After_Free
         | Some x \<Rightarrow> Inr (m\<lparr>jm_cells := (jm_cells m)(a \<mapsto> f x)\<rparr>)))"

definition get_str :: "jmem \<Rightarrow> nat option \<Rightarrow> char list res" where
  "get_str m p = (case p of None \<Rightarrow> Inl Null_Deref
     | Some a \<Rightarrow> (case jm_strs m a of None \<Rightarrow> Inl Use_After_Free | Some s \<Rightarrow> Inr s))"

text \<open>\<open>cJSON_free\<close> of a block that is not allocated is undefined.\<close>

definition free_cell :: "jmem \<Rightarrow> nat \<Rightarrow> jmem res" where
  "free_cell m a = (case jm_cells m a of None \<Rightarrow> Inl Use_After_Free
     | Some x \<Rightarrow> Inr (m\<lparr>jm_cells := (jm_cells m)(a := None)\<rparr>))"

definition free_str :: "jmem \<Rightarrow> nat option \<Rightarrow> jmem res" where
  "free_str m p = (case p of None \<Rightarrow> Inr m
     | Some a \<Rightarrow> (case jm_strs m a of None \<Rightarrow> Inl Use_After_Free
         | Some s \<Rightarrow> Inr (m\<lparr>jm_strs := (jm_strs m)(a := None)\<rparr>)))"

definition zero_cell :: jcell where
  "zero_cell = \<lparr>jc_next = None, jc_prev = None, jc_child = None, jc_type = cJSON_False, jc_ref = False,
     jc_valuestring = None, jc_valueint = 0, jc_valuedouble = 0, jc_string = None\<rparr>"

definition new_cell :: "jmem \<Rightarrow> nat option \<times> jmem" where
  "new_cell m = (if jm_fails m (jm_brk m) then (None, m\<lparr>jm_brk := jm_brk m + 1\<rparr>)
     else (Some (jm_brk m), m\<lparr>jm_brk := jm_brk m + 1, jm_cells := (jm_cells m)(jm_brk m \<mapsto> zero_cell)\<rparr>))"

definition cJSON_strdup :: "jmem \<Rightarrow> char list \<Rightarrow> nat option \<times> jmem" where
  "cJSON_strdup m s = (if jm_fails m (jm_brk m) then (None, m\<lparr>jm_brk := jm_brk m + 1\<rparr>)
     else (Some (jm_brk m), m\<lparr>jm_brk := jm_brk m + 1, jm_strs := (jm_strs m)(jm_brk m \<mapsto> s)\<rparr>))"

text \<open>A walk that visits more blocks than were ever allocated has met one twice.\<close>

definition walk_fuel :: "jmem \<Rightarrow> nat" where "walk_fuel m = jm_brk m + 1"

section \<open>Deletion\<close>

primrec delete_items :: "nat \<Rightarrow> jmem \<Rightarrow> nat option \<Rightarrow> jmem res" where
  "delete_items 0 m c = Inl Diverges"
| "delete_items (Suc k) m c = (case c of None \<Rightarrow> Inr m
     | Some a \<Rightarrow>
         bind (get_cell m c) (\<lambda>x. let nxt = jc_next x in
         bind (if \<not> jc_ref x \<and> jc_child x \<noteq> None then delete_items k m (jc_child x) else Inr m) (\<lambda>m.
         bind (get_cell m c) (\<lambda>x.
         bind (if \<not> jc_ref x then free_str m (jc_valuestring x) else Inr m) (\<lambda>m.
         bind (free_str m (jc_string x)) (\<lambda>m.
         bind (free_cell m a) (\<lambda>m. delete_items k m nxt)))))))"

definition cJSON_Delete :: "jmem \<Rightarrow> nat option \<Rightarrow> jmem res" where
  "cJSON_Delete m c = delete_items (jm_brk m + 2) m c"

section \<open>Walks along the children\<close>

text \<open>\<open>while (c && which > 0) c = c->next, which--\<close>.\<close>

primrec skip_items :: "nat \<Rightarrow> jmem \<Rightarrow> nat option \<Rightarrow> nat option res" where
  "skip_items 0 m c = Inr c"
| "skip_items (Suc n) m c = (case c of None \<Rightarrow> Inr None
     | Some a \<Rightarrow> bind (get_cell m c) (\<lambda>x. skip_items n m (jc_next x)))"

text \<open>\<open>while (c && c->next) c = c->next\<close>.\<close>

primrec last_item :: "nat \<Rightarrow> jmem \<Rightarrow> nat option \<Rightarrow> nat option res" where
  "last_item 0 m c = Inl Diverges"
| "last_item (Suc k) m c = (case c of None \<Rightarrow> Inr None
     | Some a \<Rightarrow> bind (get_cell m c) (\<lambda>x. if jc_next x = None then Inr c else last_item k m (jc_next x)))"

text \<open>\<open>cJSON_strcasecmp(c->string, string) == 0\<close>.\<close>

definition has_name :: "jmem \<Rightarrow> jcell \<Rightarrow> char list \<Rightarrow> bool res" where
  "has_name m x key = (case jc_string x of None \<Rightarrow> Inr False
     | Some b \<Rightarrow> bind (get_str m (Some b)) (\<lambda>s. Inr (strcaseeq s key)))"

text \<open>\<open>while (c && cJSON_strcasecmp(c->string, string)) i++, c = c->next\<close>.\<close>

primrec find_item :: "nat \<Rightarrow> jmem \<Rightarrow> nat option \<Rightarrow> char list \<Rightarrow> int \<Rightarrow> (nat option \<times> int) res" where
  "find_item 0 m c key i = Inl Diverges"
| "find_item (Suc k) m c key i = (case c of None \<Rightarrow> Inr (None, i)
     | Some a \<Rightarrow> bind (get_cell m c) (\<lambda>x. bind (has_name m x key) (\<lambda>b.
         if b then Inr (c, i) else find_item k m (jc_next x) key (i + 1))))"

section \<open>Adding\<close>

definition suffix_object :: "jmem \<Rightarrow> nat option \<Rightarrow> nat option \<Rightarrow> jmem res" where
  "suffix_object m prev item =
     bind (put_cell m prev (\<lambda>x. x\<lparr>jc_next := item\<rparr>)) (\<lambda>m. put_cell m item (\<lambda>x. x\<lparr>jc_prev := prev\<rparr>))"

definition create_reference :: "jmem \<Rightarrow> nat option \<Rightarrow> (nat option \<times> jmem) res" where
  "create_reference m item = (case new_cell m of (ref, m) \<Rightarrow>
     if ref = None then Inr (None, m)
     else bind (get_cell m item) (\<lambda>x.
       bind (put_cell m ref (\<lambda>_. x\<lparr>jc_string := None, jc_ref := True, jc_next := None, jc_prev := None\<rparr>)) (\<lambda>m.
         Inr (ref, m))))"

definition cJSON_AddItemToArray :: "jmem \<Rightarrow> nat option \<Rightarrow> nat option \<Rightarrow> jmem res" where
  "cJSON_AddItemToArray m array item =
     bind (get_cell m array) (\<lambda>x. let c = jc_child x in
       if item = None then Inr m
       else if c = None then put_cell m array (\<lambda>x. x\<lparr>jc_child := item\<rparr>)
       else bind (last_item (walk_fuel m) m c) (\<lambda>c. suffix_object m c item))"

definition cJSON_AddItemToObject :: "jmem \<Rightarrow> nat option \<Rightarrow> char list \<Rightarrow> nat option \<Rightarrow> jmem res" where
  "cJSON_AddItemToObject m object key item =
     (if item = None then Inr m
      else bind (get_cell m item) (\<lambda>x.
        bind (free_str m (jc_string x)) (\<lambda>m.
        case cJSON_strdup m key of (s, m) \<Rightarrow>
        bind (put_cell m item (\<lambda>x. x\<lparr>jc_string := s\<rparr>)) (\<lambda>m. cJSON_AddItemToArray m object item))))"

definition cJSON_AddItemReferenceToArray :: "jmem \<Rightarrow> nat option \<Rightarrow> nat option \<Rightarrow> jmem res" where
  "cJSON_AddItemReferenceToArray m array item =
     bind (create_reference m item) (\<lambda>(ref, m). cJSON_AddItemToArray m array ref)"

definition cJSON_AddItemReferenceToObject :: "jmem \<Rightarrow> nat option \<Rightarrow> char list \<Rightarrow> nat option \<Rightarrow> jmem res" where
  "cJSON_AddItemReferenceToObject m object key item =
     bind (create_reference m item) (\<lambda>(ref, m). cJSON_AddItemToObject m object key ref)"

section \<open>Detaching, deleting and replacing\<close>

text \<open>\<open>if (p) p->f = v\<close>.\<close>

definition put_if :: "jmem \<Rightarrow> nat option \<Rightarrow> (jcell \<Rightarrow> jcell) \<Rightarrow> jmem res" where
  "put_if m p f = (if p = None then Inr m else put_cell m p f)"

definition cJSON_DetachItemFromArray :: "jmem \<Rightarrow> nat option \<Rightarrow> int \<Rightarrow> (nat option \<times> jmem) res" where
  "cJSON_DetachItemFromArray m array which =
     bind (get_cell m array) (\<lambda>x.
     bind (skip_items (nat which) m (jc_child x)) (\<lambda>c.
       if c = None then Inr (None, m)
       else bind (get_cell m c) (\<lambda>x.
         bind (put_if m (jc_prev x) (\<lambda>y. y\<lparr>jc_next := jc_next x\<rparr>)) (\<lambda>m.
         bind (get_cell m c) (\<lambda>x.
         bind (put_if m (jc_next x) (\<lambda>y. y\<lparr>jc_prev := jc_prev x\<rparr>)) (\<lambda>m.
         bind (get_cell m array) (\<lambda>ar.
         bind (get_cell m c) (\<lambda>x.
         bind (if c = jc_child ar then put_cell m array (\<lambda>y. y\<lparr>jc_child := jc_next x\<rparr>) else Inr m) (\<lambda>m.
         bind (put_cell m c (\<lambda>y. y\<lparr>jc_prev := None, jc_next := None\<rparr>)) (\<lambda>m.
           Inr (c, m)))))))))))"

definition cJSON_DeleteItemFromArray :: "jmem \<Rightarrow> nat option \<Rightarrow> int \<Rightarrow> jmem res" where
  "cJSON_DeleteItemFromArray m array which =
     bind (cJSON_DetachItemFromArray m array which) (\<lambda>(c, m). cJSON_Delete m c)"

definition cJSON_DetachItemFromObject :: "jmem \<Rightarrow> nat option \<Rightarrow> char list \<Rightarrow> (nat option \<times> jmem) res" where
  "cJSON_DetachItemFromObject m object key =
     bind (get_cell m object) (\<lambda>x.
     bind (find_item (walk_fuel m) m (jc_child x) key 0) (\<lambda>(c, i).
       if c \<noteq> None then cJSON_DetachItemFromArray m object i else Inr (None, m)))"

definition cJSON_DeleteItemFromObject :: "jmem \<Rightarrow> nat option \<Rightarrow> char list \<Rightarrow> jmem res" where
  "cJSON_DeleteItemFromObject m object key =
     bind (cJSON_DetachItemFromObject m object key) (\<lambda>(c, m). cJSON_Delete m c)"

definition cJSON_ReplaceItemInArray :: "jmem \<Rightarrow> nat option \<Rightarrow> int \<Rightarrow> nat option \<Rightarrow> jmem res" where
  "cJSON_ReplaceItemInArray m array which newitem =
     bind (get_cell m array) (\<lambda>x.
     bind (skip_items (nat which) m (jc_child x)) (\<lambda>c.
       if c = None then Inr m
       else bind (get_cell m c) (\<lambda>x.
         bind (put_cell m newitem (\<lambda>y. y\<lparr>jc_next := jc_next x, jc_prev := jc_prev x\<rparr>)) (\<lambda>m.
         bind (get_cell m newitem) (\<lambda>nw.
         bind (put_if m (jc_next nw) (\<lambda>y. y\<lparr>jc_prev := newitem\<rparr>)) (\<lambda>m.
         bind (get_cell m array) (\<lambda>ar.
         bind (get_cell m newitem) (\<lambda>nw.
         bind (if c = jc_child ar then put_cell m array (\<lambda>y. y\<lparr>jc_child := newitem\<rparr>)
               else put_cell m (jc_prev nw) (\<lambda>y. y\<lparr>jc_next := newitem\<rparr>)) (\<lambda>m.
         bind (put_cell m c (\<lambda>y. y\<lparr>jc_next := None, jc_prev := None\<rparr>)) (\<lambda>m.
           cJSON_Delete m c))))))))))"

text \<open>The name the new item may have had is overwritten.\<close>

definition cJSON_ReplaceItemInObject :: "jmem \<Rightarrow> nat option \<Rightarrow> char list \<Rightarrow> nat option \<Rightarrow> jmem res" where
  "cJSON_ReplaceItemInObject m object key newitem =
     bind (get_cell m object) (\<lambda>x.
     bind (find_item (walk_fuel m) m (jc_child x) key 0) (\<lambda>(c, i).
       if c \<noteq> None then
         case cJSON_strdup m key of (s, m) \<Rightarrow>
         bind (put_cell m newitem (\<lambda>y. y\<lparr>jc_string := s\<rparr>)) (\<lambda>m. cJSON_ReplaceItemInArray m object i newitem)
       else Inr m))"

section \<open>Creation\<close>

definition create_item :: "jmem \<Rightarrow> (jcell \<Rightarrow> jcell) \<Rightarrow> (nat option \<times> jmem) res" where
  "create_item m f = (case new_cell m of (item, m) \<Rightarrow>
     bind (put_if m item f) (\<lambda>m. Inr (item, m)))"

definition cJSON_CreateNull :: "jmem \<Rightarrow> (nat option \<times> jmem) res" where
  "cJSON_CreateNull m = create_item m (\<lambda>x. x\<lparr>jc_type := cJSON_NULL\<rparr>)"
definition cJSON_CreateTrue :: "jmem \<Rightarrow> (nat option \<times> jmem) res" where
  "cJSON_CreateTrue m = create_item m (\<lambda>x. x\<lparr>jc_type := cJSON_True\<rparr>)"
definition cJSON_CreateFalse :: "jmem \<Rightarrow> (nat option \<times> jmem) res" where
  "cJSON_CreateFalse m = create_item m (\<lambda>x. x\<lparr>jc_type := cJSON_False\<rparr>)"
definition cJSON_CreateBool :: "jmem \<Rightarrow> int \<Rightarrow> (nat option \<times> jmem) res" where
  "cJSON_CreateBool m b = create_item m (\<lambda>x. x\<lparr>jc_type := if b \<noteq> 0 then cJSON_True else cJSON_False\<rparr>)"
definition cJSON_CreateArray :: "jmem \<Rightarrow> (nat option \<times> jmem) res" where
  "cJSON_CreateArray m = create_item m (\<lambda>x. x\<lparr>jc_type := cJSON_Array\<rparr>)"
definition cJSON_CreateObject :: "jmem \<Rightarrow> (nat option \<times> jmem) res" where
  "cJSON_CreateObject m = create_item m (\<lambda>x. x\<lparr>jc_type := cJSON_Object\<rparr>)"

definition cJSON_CreateNumber :: "jmem \<Rightarrow> rat \<Rightarrow> (nat option \<times> jmem) res" where
  "cJSON_CreateNumber m num = (case new_cell m of (item, m) \<Rightarrow>
     if item = None then Inr (None, m)
     else bind (int_of_double num) (\<lambda>i.
       bind (put_cell m item (\<lambda>x. x\<lparr>jc_type := cJSON_Number, jc_valuedouble := num, jc_valueint := i\<rparr>)) (\<lambda>m.
         Inr (item, m))))"

definition cJSON_CreateString :: "jmem \<Rightarrow> char list \<Rightarrow> (nat option \<times> jmem) res" where
  "cJSON_CreateString m str = (case new_cell m of (item, m) \<Rightarrow>
     if item = None then Inr (None, m)
     else case cJSON_strdup m str of (s, m) \<Rightarrow>
       bind (put_cell m item (\<lambda>x. x\<lparr>jc_type := cJSON_String, jc_valuestring := s\<rparr>)) (\<lambda>m.
         Inr (item, m)))"

text \<open>The loop of \<open>cJSON_CreateIntArray\<close> and its siblings: \<open>p\<close> is the item before, \<open>first\<close> is \<open>!i\<close>.\<close>

primrec fill_array :: "(jmem \<Rightarrow> 'v \<Rightarrow> (nat option \<times> jmem) res) \<Rightarrow> 'v list \<Rightarrow> jmem \<Rightarrow> nat option \<Rightarrow> nat option \<Rightarrow> bool
    \<Rightarrow> jmem res" where
  "fill_array create [] m a p first = Inr m"
| "fill_array create (v # vs) m a p first =
     bind (create m v) (\<lambda>(n, m).
     bind (if first then put_cell m a (\<lambda>x. x\<lparr>jc_child := n\<rparr>) else suffix_object m p n) (\<lambda>m.
       fill_array create vs m a n False))"

definition create_array_of :: "(jmem \<Rightarrow> 'v \<Rightarrow> (nat option \<times> jmem) res) \<Rightarrow> jmem \<Rightarrow> 'v list \<Rightarrow> (nat option \<times> jmem) res" where
  "create_array_of create m vs = bind (cJSON_CreateArray m) (\<lambda>(a, m).
     if a = None then Inr (None, m)
     else bind (fill_array create vs m a None True) (\<lambda>m. Inr (a, m)))"

definition cJSON_CreateIntArray :: "jmem \<Rightarrow> int list \<Rightarrow> (nat option \<times> jmem) res" where
  "cJSON_CreateIntArray = create_array_of (\<lambda>m i. cJSON_CreateNumber m (of_int i))"
definition cJSON_CreateFloatArray :: "jmem \<Rightarrow> rat list \<Rightarrow> (nat option \<times> jmem) res" where
  "cJSON_CreateFloatArray = create_array_of cJSON_CreateNumber"
definition cJSON_CreateDoubleArray :: "jmem \<Rightarrow> rat list \<Rightarrow> (nat option \<times> jmem) res" where
  "cJSON_CreateDoubleArray = create_array_of cJSON_CreateNumber"
definition cJSON_CreateStringArray :: "jmem \<Rightarrow> char list list \<Rightarrow> (nat option \<times> jmem) res" where
  "cJSON_CreateStringArray = create_array_of cJSON_CreateString"

section \<open>Duplication\<close>

text \<open>\<open>if (item->s) { newitem->s = cJSON_strdup(item->s); if (!newitem->s) ... }\<close>: whether it worked.\<close>

definition copy_str :: "jmem \<Rightarrow> nat option \<Rightarrow> nat option \<Rightarrow> (nat option \<Rightarrow> jcell \<Rightarrow> jcell) \<Rightarrow> (bool \<times> jmem) res" where
  "copy_str m newitem p f =
     (if p = None then Inr (True, m)
      else bind (get_str m p) (\<lambda>s. case cJSON_strdup m s of (q, m) \<Rightarrow>
        bind (put_cell m newitem (f q)) (\<lambda>m. Inr (q \<noteq> None, m))))"

definition give_up :: "jmem \<Rightarrow> nat option \<Rightarrow> (nat option \<times> jmem) res" where
  "give_up m newitem = bind (cJSON_Delete m newitem) (\<lambda>m. Inr (None, m))"

text \<open>The part before the children: the new item, or \<open>0\<close> with everything released.\<close>

definition copy_item :: "jmem \<Rightarrow> nat option \<Rightarrow> (nat option \<times> jmem) res" where
  "copy_item m item = (case new_cell m of (newitem, m) \<Rightarrow>
     if newitem = None then Inr (None, m)
     else bind (get_cell m item) (\<lambda>x.
       bind (put_cell m newitem (\<lambda>y. y\<lparr>jc_type := jc_type x, jc_ref := False, jc_valueint := jc_valueint x,
         jc_valuedouble := jc_valuedouble x\<rparr>)) (\<lambda>m.
       bind (copy_str m newitem (jc_valuestring x) (\<lambda>q y. y\<lparr>jc_valuestring := q\<rparr>)) (\<lambda>(ok, m).
       if \<not> ok then give_up m newitem
       else bind (copy_str m newitem (jc_string x) (\<lambda>q y. y\<lparr>jc_string := q\<rparr>)) (\<lambda>(ok, m).
         if \<not> ok then give_up m newitem else Inr (newitem, m))))))"

text \<open>\<open>copy_children\<close> is the loop over \<open>cptr\<close>; \<open>nptr\<close> is the last copy so far.\<close>

fun duplicate :: "nat \<Rightarrow> jmem \<Rightarrow> nat option \<Rightarrow> bool \<Rightarrow> (nat option \<times> jmem) res"
  and copy_children :: "nat \<Rightarrow> jmem \<Rightarrow> nat option \<Rightarrow> nat option \<Rightarrow> nat option \<Rightarrow> (nat option \<times> jmem) res" where
  "duplicate 0 m item recurse = Inl Diverges"
| "duplicate (Suc k) m item recurse =
     (if item = None then Inr (None, m)
      else bind (copy_item m item) (\<lambda>(newitem, m).
        if newitem = None \<or> \<not> recurse then Inr (newitem, m)
        else bind (get_cell m item) (\<lambda>x. copy_children k m newitem (jc_child x) None)))"
| "copy_children 0 m newitem cptr nptr = Inl Diverges"
| "copy_children (Suc k) m newitem cptr nptr =
     (if cptr = None then Inr (newitem, m)
      else bind (duplicate k m cptr True) (\<lambda>(newchild, m).
        if newchild = None then give_up m newitem
        else bind (if nptr \<noteq> None then suffix_object m nptr newchild
                   else put_cell m newitem (\<lambda>y. y\<lparr>jc_child := newchild\<rparr>)) (\<lambda>m.
          bind (get_cell m cptr) (\<lambda>x. copy_children k m newitem (jc_next x) newchild))))"

definition cJSON_Duplicate :: "jmem \<Rightarrow> nat option \<Rightarrow> bool \<Rightarrow> (nat option \<times> jmem) res" where
  "cJSON_Duplicate m item recurse = duplicate (2 * jm_brk m + 2) m item recurse"

end
