(* ===== verification/Cjson_Tree.thy ===== *)
theory Cjson_Tree
  imports Cjson_Heap
begin

text \<open>
  What a heap of JSON items holds: a tree of addresses whose blocks spell out an item, and the
  effect of the operations of Cjson_Heap on it. Separation is the distinctness of the addresses.
\<close>

section \<open>Trees in memory\<close>

text \<open>The block of an item, of its \<open>valuestring\<close>, of its \<open>string\<close>, and those of its children.\<close>

datatype loc = Loc (l_addr: nat) (l_val: "nat option") (l_name: "nat option") (l_kids: "loc list")

definition opt_list :: "'a option \<Rightarrow> 'a list" where
  "opt_list v = (case v of None \<Rightarrow> [] | Some a \<Rightarrow> [a])"

lemma opt_list_simps [simp]: "opt_list None = []" "opt_list (Some a) = [a]" "set (opt_list v) = set_option v"
  by (auto simp: opt_list_def split: option.splits)

fun addrs :: "loc \<Rightarrow> nat list" where
  "addrs (Loc p v n Ls) = p # opt_list v @ opt_list n @ concat (map addrs Ls)"

abbreviation forest_addrs :: "loc list \<Rightarrow> nat list" where
  "forest_addrs Ls \<equiv> concat (map addrs Ls)"

lemma addr_in_addrs [simp, intro]: "l_addr L \<in> set (addrs L)"
  by (cases L) simp

lemma addr_in_forest: "L \<in> set Ls \<Longrightarrow> l_addr L \<in> set (forest_addrs Ls)"
  by (auto intro!: bexI [of _ L])

text \<open>The chain of siblings from the one after \<open>pv\<close> to the one before \<open>nx\<close>.\<close>

definition hd_or :: "'a list \<Rightarrow> 'a option \<Rightarrow> 'a option" where
  "hd_or ps nx = (case ps of [] \<Rightarrow> nx | p # _ \<Rightarrow> Some p)"

definition last_or :: "'a option \<Rightarrow> 'a list \<Rightarrow> 'a option" where
  "last_or pv ps = (if ps = [] then pv else Some (last ps))"

lemma hd_or_simps [simp]:
  "hd_or [] nx = nx" "hd_or (p # ps) nx = Some p" "hd_or (ps @ qs) nx = hd_or ps (hd_or qs nx)"
  by (auto simp: hd_or_def split: list.splits)

lemma last_or_simps [simp]:
  "last_or pv [] = pv" "last_or pv (p # ps) = last_or (Some p) ps" "last_or pv (ps @ qs) = last_or (last_or pv ps) qs"
  by (auto simp: last_or_def)

fun seg :: "jmem \<Rightarrow> nat option \<Rightarrow> nat list \<Rightarrow> nat option \<Rightarrow> bool" where
  "seg m pv [] nx = True"
| "seg m pv (p # ps) nx = ((\<exists>x. jm_cells m p = Some x \<and> jc_prev x = pv \<and> jc_next x = hd_or ps nx) \<and> seg m (Some p) ps nx)"

lemma seg_append [simp]: "seg m pv (ps @ qs) nx \<longleftrightarrow> seg m pv ps (hd_or qs nx) \<and> seg m (last_or pv ps) qs nx"
  by (induction ps arbitrary: pv) auto

lemma seg_cong: "(\<And>a. a \<in> set ps \<Longrightarrow> jm_cells m' a = jm_cells m a) \<Longrightarrow> seg m pv ps nx \<Longrightarrow> seg m' pv ps nx"
  by (induction ps arbitrary: pv) auto

definition str_at :: "jmem \<Rightarrow> nat option \<Rightarrow> char list option \<Rightarrow> bool" where
  "str_at m v s \<longleftrightarrow> (case v of None \<Rightarrow> s = None | Some a \<Rightarrow> s \<noteq> None \<and> jm_strs m a = s)"

lemma str_at_simps [simp]: "str_at m None s \<longleftrightarrow> s = None" "str_at m (Some a) s \<longleftrightarrow> s \<noteq> None \<and> jm_strs m a = s"
  by (simp_all add: str_at_def)

lemma str_at_cong: "(\<And>a. a \<in> set_option v \<Longrightarrow> jm_strs m' a = jm_strs m a) \<Longrightarrow> str_at m v s \<Longrightarrow> str_at m' v s"
  by (cases v) auto

text \<open>The fields of an item's own block, its links to its siblings apart.\<close>

definition fields :: "jcell \<Rightarrow> json_type \<Rightarrow> nat option \<Rightarrow> nat option \<Rightarrow> int \<Rightarrow> rat \<Rightarrow> nat option \<Rightarrow> bool" where
  "fields x ty v n vi vd c \<longleftrightarrow> \<not> jc_ref x \<and> jc_type x = ty \<and> jc_valuestring x = v \<and> jc_string x = n \<and>
     jc_valueint x = vi \<and> jc_valuedouble x = vd \<and> jc_child x = c"

lemma fields_links [simp]:
  "fields (x\<lparr>jc_next := a\<rparr>) ty v n vi vd c = fields x ty v n vi vd c"
  "fields (x\<lparr>jc_prev := a\<rparr>) ty v n vi vd c = fields x ty v n vi vd c"
  by (simp_all add: fields_def)

fun body :: "jmem \<Rightarrow> loc \<Rightarrow> cJSON \<Rightarrow> bool" where
  "body m (Loc p v n Ls) (Item ty vs vi vd nm ts) \<longleftrightarrow>
     (\<exists>x. jm_cells m p = Some x \<and> fields x ty v n vi vd (hd_or (map l_addr Ls) None)) \<and>
     str_at m v vs \<and> str_at m n nm \<and> seg m None (map l_addr Ls) None \<and> list_all2 (body m) Ls ts"

definition item_at :: "jmem \<Rightarrow> loc \<Rightarrow> cJSON \<Rightarrow> bool" where
  "item_at m L t \<longleftrightarrow> body m L t \<and> distinct (addrs L)"

text \<open>An item that is in no list.\<close>

definition loose :: "jmem \<Rightarrow> loc \<Rightarrow> bool" where "loose m L \<longleftrightarrow> seg m None [l_addr L] None"

text \<open>Agreement on a set of addresses, and up to the links.\<close>

definition same_at :: "jmem \<Rightarrow> jmem \<Rightarrow> nat \<Rightarrow> bool" where
  "same_at m m' a \<longleftrightarrow> jm_cells m' a = jm_cells m a \<and> jm_strs m' a = jm_strs m a"

definition unlinked :: "jcell \<Rightarrow> jcell" where "unlinked x = x\<lparr>jc_next := None, jc_prev := None\<rparr>"

definition same_but_links :: "jmem \<Rightarrow> jmem \<Rightarrow> nat \<Rightarrow> bool" where
  "same_but_links m m' a \<longleftrightarrow> map_option unlinked (jm_cells m' a) = map_option unlinked (jm_cells m a) \<and> jm_strs m' a = jm_strs m a"

lemma same_at_links: "same_at m m' a \<Longrightarrow> same_but_links m m' a"
  by (simp add: same_at_def same_but_links_def)

lemma fields_unlinked: "fields (unlinked x) ty v n vi vd c = fields x ty v n vi vd c"
  by (simp add: unlinked_def)

lemma fields_same:
  assumes "same_but_links m m' p" "jm_cells m p = Some x" "fields x ty v n vi vd c"
  shows "\<exists>x'. jm_cells m' p = Some x' \<and> fields x' ty v n vi vd c"
proof -
  from assms(1,2) obtain x' where "jm_cells m' p = Some x'" "unlinked x' = unlinked x" by (auto simp: same_but_links_def)
  with assms(3) show ?thesis by (metis fields_unlinked)
qed

lemma forest_seg_same:
  assumes "seg m pv (map l_addr Ls) nx" "\<And>a. a \<in> set (forest_addrs Ls) \<Longrightarrow> same_at m m' a"
  shows "seg m' pv (map l_addr Ls) nx"
proof (rule seg_cong [OF _ assms(1)])
  fix a assume "a \<in> set (map l_addr Ls)"
  then obtain L where "L \<in> set Ls" "a = l_addr L" by auto
  then show "jm_cells m' a = jm_cells m a" using assms(2) addr_in_forest by (simp only: same_at_def)
qed

lemma body_frame:
  assumes "body m L t" "distinct (addrs L)" "same_but_links m m' (l_addr L)"
    and "\<And>a. a \<in> set (addrs L) \<Longrightarrow> a \<noteq> l_addr L \<Longrightarrow> same_at m m' a"
  shows "body m' L t"
  using assms
proof (induction m L t rule: body.induct)
  case (1 m p v n Ls ty vs vi vd nm ts)
  note B = 1(2) [unfolded body.simps] and D = 1(3) and S = 1(4,5)
  have in_kids: "a \<noteq> p \<and> a \<in> set (addrs (Loc p v n Ls))" if "a \<in> set (forest_addrs Ls)" for a
    using that D by auto
  have kid: "body m' L t" if "(L, t) \<in> set (zip Ls ts)" for L t
  proof -
    have L: "L \<in> set Ls" "t \<in> set ts" using that set_zip_leftD set_zip_rightD by fastforce+
    have "body m L t" using B that by (auto simp: list_all2_iff)
    moreover have "distinct (addrs L)" using D L(1) by (auto simp: distinct_concat_iff)
    moreover have "same_at m m' a" if "a \<in> set (addrs L)" for a
      using S(2) in_kids [of a] that L(1) by auto
    ultimately show ?thesis using 1(1) [OF L] same_at_links by auto
  qed
  have "list_all2 (body m') Ls ts" using B kid by (auto simp: list_all2_iff)
  moreover have "seg m' None (map l_addr Ls) None"
    by (rule forest_seg_same [of m]) (use B S(2) in_kids in auto)
  moreover have "str_at m' v vs" "str_at m' n nm"
    using B D S(2) by (auto intro!: str_at_cong [of _ m' m] simp: same_at_def)
  moreover obtain x where "jm_cells m p = Some x" "fields x ty v n vi vd (hd_or (map l_addr Ls) None)" using B by blast
  then have "\<exists>x'. jm_cells m' p = Some x' \<and> fields x' ty v n vi vd (hd_or (map l_addr Ls) None)"
    by (rule fields_same [rotated]) (use S(1) in simp)
  ultimately show ?case by simp
qed

lemma body_same: "body m L t \<Longrightarrow> distinct (addrs L) \<Longrightarrow> (\<And>a. a \<in> set (addrs L) \<Longrightarrow> same_at m m' a) \<Longrightarrow> body m' L t"
  by (rule body_frame) (auto intro: same_at_links)

lemma bodies_same:
  "list_all2 (body m) Ls ts \<Longrightarrow> distinct (forest_addrs Ls) \<Longrightarrow> (\<And>a. a \<in> set (forest_addrs Ls) \<Longrightarrow> same_at m m' a)
   \<Longrightarrow> list_all2 (body m') Ls ts"
  by (erule list.rel_mono_strong) (auto simp: distinct_concat_iff intro: body_same)


section \<open>Deletion\<close>

lemma get_cell_Some [simp]: "jm_cells m a = Some x \<Longrightarrow> get_cell m (Some a) = Inr x"
  by (simp add: get_cell_def)

lemma put_cell_Some [simp]:
  "jm_cells m a = Some x \<Longrightarrow> put_cell m (Some a) f = Inr (m\<lparr>jm_cells := (jm_cells m)(a \<mapsto> f x)\<rparr>)"
  by (simp add: put_cell_def)

text \<open>The memory without some blocks.\<close>

definition without :: "jmem \<Rightarrow> nat set \<Rightarrow> jmem" where
  "without m A = m\<lparr>jm_cells := jm_cells m |` (- A), jm_strs := jm_strs m |` (- A)\<rparr>"

lemma without_simps [simp]:
  "jm_brk (without m A) = jm_brk m" "jm_fails (without m A) = jm_fails m"
  "jm_cells (without m A) a = (if a \<in> A then None else jm_cells m a)"
  "jm_strs (without m A) a = (if a \<in> A then None else jm_strs m a)"
  by (simp_all add: without_def restrict_map_def)

lemma without_empty [simp]: "without m {} = m"
  by (simp add: without_def restrict_map_def)

lemma without_without: "without (without m A) B = without m (A \<union> B)"
  by (auto simp: without_def restrict_map_def fun_eq_iff)

lemma same_without: "a \<notin> A \<Longrightarrow> same_at m (without m A) a"
  by (simp add: same_at_def)

lemma str_at_without: "str_at m v s \<Longrightarrow> set_option v \<inter> A = {} \<Longrightarrow> str_at (without m A) v s"
  by (cases v) auto

text \<open>An address is a block of one kind, and none beyond \<open>jm_brk\<close> is allocated.\<close>

definition jmem_ok :: "jmem \<Rightarrow> bool" where
  "jmem_ok m \<longleftrightarrow> (\<forall>a. jm_cells m a = None \<or> jm_strs m a = None) \<and> (\<forall>a \<ge> jm_brk m. jm_cells m a = None \<and> jm_strs m a = None)"

lemma jmem_okD:
  "jmem_ok m \<Longrightarrow> jm_cells m a = Some x \<Longrightarrow> jm_strs m a = None"
  "jmem_ok m \<Longrightarrow> jm_strs m a = Some s \<Longrightarrow> jm_cells m a = None"
  "jmem_ok m \<Longrightarrow> jm_cells m a = Some x \<Longrightarrow> a < jm_brk m"
  "jmem_ok m \<Longrightarrow> jm_strs m a = Some s \<Longrightarrow> a < jm_brk m"
  by (force simp: jmem_ok_def not_less [symmetric])+

lemma jmem_ok_without: "jmem_ok m \<Longrightarrow> jmem_ok (without m A)"
  by (simp add: jmem_ok_def)

lemma free_string: "jmem_ok m \<Longrightarrow> str_at m v s \<Longrightarrow> free_str m v = Inr (without m (set_option v))"
  by (cases v) (auto simp: free_str_def without_def restrict_map_def fun_eq_iff dest: jmem_okD split: option.splits)

lemma free_block: "jmem_ok m \<Longrightarrow> jm_cells m a = Some x \<Longrightarrow> free_cell m a = Inr (without m {a})"
  by (auto simp: free_cell_def without_def restrict_map_def fun_eq_iff dest: jmem_okD)

fun items :: "loc \<Rightarrow> nat" where
  "items (Loc p v n Ls) = Suc (sum_list (map items Ls))"

text \<open>The last frees of an item whose children are gone.\<close>

lemma free_item:
  assumes "jmem_ok m" "jm_cells m p = Some x" "fields x ty v n vi vd c" "str_at m v vs" "str_at m n nm"
    "distinct (p # opt_list v @ opt_list n)"
  shows "bind (if \<not> jc_ref x then free_str m (jc_valuestring x) else Inr m) (\<lambda>m.
      bind (free_str m (jc_string x)) (\<lambda>m. bind (free_cell m p) f)) = f (without m ({p} \<union> set_option v \<union> set_option n))"
proof -
  let ?m = "without m (set_option v)" and ?m' = "without m (set_option v \<union> set_option n)"
  have d: "p \<notin> set_option v" "p \<notin> set_option n" "set_option v \<inter> set_option n = {}" using assms(6) by auto
  have "free_str m v = Inr ?m" by (rule free_string [OF assms(1,4)])
  moreover have "str_at ?m n nm" by (rule str_at_cong [OF _ assms(5)]) (use d in auto)
  then have "free_str ?m n = Inr ?m'"
    using free_string [OF jmem_ok_without [OF assms(1)]] by (simp add: without_without)
  moreover have "jm_cells ?m' p = Some x" using assms(2) d by simp
  then have "free_cell ?m' p = Inr (without m ({p} \<union> set_option v \<union> set_option n))"
    using free_block [OF jmem_ok_without [OF assms(1)]] by (simp add: without_without Un_commute)
  ultimately show ?thesis using assms(3) by (simp add: fields_def)
qed

lemma delete_items_rep:
  assumes "jmem_ok m" "seg m pv (map l_addr Ls) None" "list_all2 (body m) Ls ts" "distinct (forest_addrs Ls)"
    "sum_list (map items Ls) < k"
  shows "delete_items k m (hd_or (map l_addr Ls) None) = Inr (without m (set (forest_addrs Ls)))"
  using assms
proof (induction k arbitrary: m pv Ls ts)
  case (Suc k)
  show ?case
  proof (cases Ls)
    case (Cons L Ls')
    obtain p v n Ks where L: "L = Loc p v n Ks" by (cases L)
    obtain ty vs vi vd nm cs ts' where t: "ts = Item ty vs vi vd nm cs # ts'"
      using Suc.prems(3) Cons by (cases ts; cases "hd ts") auto
    from Suc.prems(2,3) obtain x where x: "jm_cells m p = Some x" "jc_next x = hd_or (map l_addr Ls') None"
      "fields x ty v n vi vd (hd_or (map l_addr Ks) None)" by (auto simp: Cons L t)
    note kids = Suc.prems(3) [unfolded Cons L t list_all2_Cons body.simps]
    note D = Suc.prems(4) [unfolded Cons L, simplified]
    let ?K = "set (forest_addrs Ks)" and ?m = "without m (set (forest_addrs Ks))" and ?R = "set (addrs L)"
    have del: "delete_items k m (hd_or (map l_addr Ks) None) = Inr ?m"
      by (rule Suc.IH [OF Suc.prems(1), where pv = None and ts = cs]) (use kids D Suc.prems(5) in \<open>auto simp: Cons L\<close>)
    then have step: "(if \<not> jc_ref x \<and> jc_child x \<noteq> None then delete_items k m (jc_child x) else Inr m) = Inr ?m"
      using x(3) by (cases Ks) (simp_all add: fields_def)
    have x': "jm_cells ?m p = Some x" using x(1) D by auto
    have "set_option v \<inter> ?K = {}" "set_option n \<inter> ?K = {}" using D by auto
    then have "str_at ?m v vs" "str_at ?m n nm" using kids str_at_without by blast+
    moreover have "distinct (p # opt_list v @ opt_list n)" using D by auto
    ultimately have free: "bind (if \<not> jc_ref x then free_str ?m (jc_valuestring x) else Inr ?m) (\<lambda>m.
        bind (free_str m (jc_string x)) (\<lambda>m. bind (free_cell m p) f)) = f (without ?m ({p} \<union> set_option v \<union> set_option n))" for f
      by (rule free_item [OF jmem_ok_without [OF Suc.prems(1)] x' x(3)])
    have R: "?K \<union> ({p} \<union> set_option v \<union> set_option n) = ?R" by (auto simp: L)
    have rest: "delete_items k (without m ?R) (hd_or (map l_addr Ls') None) = Inr (without (without m ?R) (set (forest_addrs Ls')))"
    proof (rule Suc.IH [OF jmem_ok_without [OF Suc.prems(1)], where pv = "Some p" and ts = ts'])
      have dis: "?R \<inter> set (forest_addrs Ls') = {}" using Suc.prems(4) by (simp add: Cons)
      have same: "same_at m (without m ?R) a" if "a \<in> set (forest_addrs Ls')" for a
        using that dis by (intro same_without) blast
      have "seg m (Some p) (map l_addr Ls') None" using Suc.prems(2) by (simp add: Cons L)
      then show "seg (without m ?R) (Some p) (map l_addr Ls') None"
        by (rule forest_seg_same) (rule same)
      from same show "list_all2 (body (without m ?R)) Ls' ts'"
        by (rule bodies_same [of m, rotated 2]) (use Suc.prems(3,4) in \<open>simp_all add: Cons t\<close>)
      show "distinct (forest_addrs Ls')" using Suc.prems(4) by (simp add: Cons)
      show "sum_list (map items Ls') < k" using Suc.prems(5) by (simp add: Cons L)
    qed
    have "delete_items (Suc k) m (Some p) = delete_items k (without m ?R) (jc_next x)"
      unfolding delete_items.simps option.case get_cell_Some [OF x(1)] bind.simps Let_def step get_cell_Some [OF x'] free
        without_without R by (rule refl)
    then show ?thesis using rest x(2) by (simp add: without_without Cons L Un_assoc)
  qed simp
qed simp


text \<open>Every item is an allocated block, so \<open>jm_brk\<close> bounds their number.\<close>

lemma items_le: "items L \<le> length (addrs L)"
proof (induction L)
  case (Loc p v n Ls)
  then have "sum_list (map items Ls) \<le> length (forest_addrs Ls)"
    by (induction Ls) (auto intro: add_mono)
  then show ?case by simp
qed

lemma str_at_allocated: "jmem_ok m \<Longrightarrow> str_at m v s \<Longrightarrow> a \<in> set_option v \<Longrightarrow> a < jm_brk m"
  by (cases v; cases s) (auto dest: jmem_okD)

lemma body_allocated: "body m L t \<Longrightarrow> jmem_ok m \<Longrightarrow> set (addrs L) \<subseteq> {..< jm_brk m}"
proof (induction m L t rule: body.induct)
  case (1 m p v n Ls ty vs vi vd nm ts)
  note B = 1(2) [unfolded body.simps]
  have "set (addrs L) \<subseteq> {..< jm_brk m}" if mem: "L \<in> set Ls" for L
  proof -
    obtain i where i: "i < length Ls" "L = Ls ! i" using mem by (auto simp: in_set_conv_nth)
    then have "body m L (ts ! i)" "ts ! i \<in> set ts" using B by (auto simp: list_all2_conv_all_nth)
    then show ?thesis using 1(1) [OF mem _ _ 1(3)] by blast
  qed
  then have "set (forest_addrs Ls) \<subseteq> {..< jm_brk m}" by auto
  then show ?case using B 1(3) str_at_allocated [OF 1(3)] by (auto dest: jmem_okD)
qed

lemma items_bound: "item_at m L t \<Longrightarrow> jmem_ok m \<Longrightarrow> items L \<le> jm_brk m"
  using items_le [of L] body_allocated [of m L t] card_mono [of "{..< jm_brk m}" "set (addrs L)"]
  by (simp add: item_at_def distinct_card)

text \<open>An item is read through a pointer to it.\<close>

abbreviation ptr :: "loc \<Rightarrow> nat option" where "ptr L \<equiv> Some (l_addr L)"

lemma cJSON_Delete_rep:
  assumes "jmem_ok m" "item_at m L t" "seg m pv [l_addr L] None"
  shows "cJSON_Delete m (ptr L) = Inr (without m (set (addrs L)))"
  using delete_items_rep [of m pv "[L]" "[t]" "jm_brk m + 2"] assms items_bound [OF assms(2,1)]
  by (simp add: cJSON_Delete_def item_at_def)

end
