(* ===== verification/Cjson_Edit.thy ===== *)
theory Cjson_Edit
  imports Cjson_Tree
begin

text \<open>
  Adding, detaching, deleting and replacing: each edit of the linked blocks is an edit of the list
  of children.
\<close>

section \<open>Links\<close>

definition set_nx :: "nat option \<Rightarrow> jcell \<Rightarrow> jcell" where "set_nx q x = x\<lparr>jc_next := q\<rparr>"
definition set_pv :: "nat option \<Rightarrow> jcell \<Rightarrow> jcell" where "set_pv q x = x\<lparr>jc_prev := q\<rparr>"
definition set_ch :: "nat option \<Rightarrow> jcell \<Rightarrow> jcell" where "set_ch q x = x\<lparr>jc_child := q\<rparr>"

lemma set_sel [simp]:
  "jc_next (set_nx q x) = q" "jc_prev (set_nx q x) = jc_prev x" "jc_child (set_nx q x) = jc_child x"
  "jc_next (set_pv q x) = jc_next x" "jc_prev (set_pv q x) = q" "jc_child (set_pv q x) = jc_child x"
  "jc_next (set_ch q x) = jc_next x" "jc_prev (set_ch q x) = jc_prev x" "jc_child (set_ch q x) = q"
  "unlinked (set_nx q x) = unlinked x" "unlinked (set_pv q x) = unlinked x"
  by (simp_all add: set_nx_def set_pv_def set_ch_def unlinked_def)

text \<open>A cell changed where the pointer is not null.\<close>

definition upd_at :: "jmem \<Rightarrow> nat option \<Rightarrow> (jcell \<Rightarrow> jcell) \<Rightarrow> jmem" where
  "upd_at m q f = (case q of None \<Rightarrow> m | Some a \<Rightarrow> m\<lparr>jm_cells := (jm_cells m)(a := map_option f (jm_cells m a))\<rparr>)"

lemma upd_at_simps [simp]:
  "jm_strs (upd_at m q f) = jm_strs m" "jm_brk (upd_at m q f) = jm_brk m" "jm_fails (upd_at m q f) = jm_fails m"
  "jm_cells (upd_at m q f) a = (if q = Some a then map_option f (jm_cells m a) else jm_cells m a)"
  by (auto simp: upd_at_def split: option.split)

lemma upd_at_None [simp]: "upd_at m None f = m" by (simp add: upd_at_def)

lemma put_cell_upd: "jm_cells m a \<noteq> None \<Longrightarrow> put_cell m (Some a) f = Inr (upd_at m (Some a) f)"
  by (auto simp: put_cell_def upd_at_def)

lemma put_if_upd: "(\<And>a. q = Some a \<Longrightarrow> jm_cells m a \<noteq> None) \<Longrightarrow> put_if m q f = Inr (upd_at m q f)"
  by (cases q) (auto simp: put_if_def put_cell_upd)

lemma jmem_ok_upd: "jmem_ok m \<Longrightarrow> jmem_ok (upd_at m q f)"
  by (auto simp: jmem_ok_def)

lemma seg_cells: "seg m pv ps nx \<Longrightarrow> a \<in> set ps \<Longrightarrow> jm_cells m a \<noteq> None"
  by (induction ps arbitrary: pv) auto

lemma seg_set_next:
  assumes "seg m pv ps nx" "distinct ps"
    and "\<And>a. a \<in> set ps \<Longrightarrow> jm_cells m' a = (if last_or None ps = Some a then map_option (set_nx nx') (jm_cells m a) else jm_cells m a)"
  shows "seg m' pv ps nx'"
proof (cases ps rule: rev_cases)
  case (snoc qs q)
  have "seg m' pv qs (Some q)"
    by (rule seg_cong [of _ _ m]) (use assms in \<open>auto simp: snoc\<close>)
  then show ?thesis using assms(1,3) by (auto simp: snoc)
qed simp

lemma seg_set_prev:
  assumes "seg m pv ps nx" "distinct ps"
    and "\<And>a. a \<in> set ps \<Longrightarrow> jm_cells m' a = (if hd_or ps None = Some a then map_option (set_pv pv') (jm_cells m a) else jm_cells m a)"
  shows "seg m' pv' ps nx"
proof (cases ps)
  case (Cons q qs)
  have "seg m' (Some q) qs nx"
    by (rule seg_cong [of _ _ m]) (use assms in \<open>auto simp: Cons\<close>)
  then show ?thesis using assms(1,3) by (auto simp: Cons)
qed simp

lemma ends_in: "last_or None ps = Some a \<Longrightarrow> a \<in> set ps" "hd_or ps None = Some a \<Longrightarrow> a \<in> set ps"
  by (auto simp: last_or_def hd_or_def split: if_splits list.splits)

lemma skip_items_rep: "seg m pv ps None \<Longrightarrow> skip_items k m (hd_or ps None) = Inr (hd_or (drop k ps) None)"
proof (induction k arbitrary: pv ps)
  case (Suc k)
  then show ?case by (cases ps) (auto split: option.splits)
qed simp

lemma last_item_rep: "seg m pv ps None \<Longrightarrow> length ps \<le> k \<Longrightarrow> 0 < k \<Longrightarrow> last_item k m (hd_or ps None) = Inr (last_or None ps)"
proof (induction k arbitrary: pv ps)
  case (Suc k)
  show ?case
  proof (cases ps)
    case (Cons p qs)
    then show ?thesis using Suc.prems Suc.IH [of "Some p" qs] by (cases qs) auto
  qed simp
qed simp

text \<open>Where only the links of roots change, the bodies stay.\<close>

definition relinked :: "jmem \<Rightarrow> jmem \<Rightarrow> nat set \<Rightarrow> nat set \<Rightarrow> bool" where
  "relinked m m' R A \<longleftrightarrow> (\<forall>a \<in> A. same_but_links m m' a \<and> (a \<notin> R \<longrightarrow> same_at m m' a))"

lemma body_relinked:
  "body m L t \<Longrightarrow> distinct (addrs L) \<Longrightarrow> relinked m m' {l_addr L} (set (addrs L)) \<Longrightarrow> body m' L t"
  by (rule body_frame) (auto simp: relinked_def)

lemma hd_addrs: "hd (addrs L) = l_addr L"
  by (cases L) simp

lemma bodies_relinked:
  assumes "list_all2 (body m) Ls ts" "distinct (forest_addrs Ls)" "relinked m m' (l_addr ` set Ls) (set (forest_addrs Ls))"
  shows "list_all2 (body m') Ls ts"
proof (rule list.rel_mono_strong [OF assms(1)])
  fix L t assume L: "L \<in> set Ls" "body m L t"
  have d: "distinct (addrs L)" using assms(2) L(1) by (simp add: distinct_concat_iff)
  have root: "a = l_addr L" if "a \<in> set (addrs L)" "a \<in> l_addr ` set Ls" for a
  proof -
    from that(2) obtain K where K: "K \<in> set Ls" "a = l_addr K" by auto
    then have "addrs K = addrs L"
      using distinct_concat_iff [THEN iffD1, OF assms(2)] L(1) that(1) addr_in_addrs [of K] by (metis IntI emptyE image_eqI list.set_map)
    then show ?thesis using K(2) by (metis hd_addrs)
  qed
  have "relinked m m' {l_addr L} (set (addrs L))"
    using assms(3) L(1) root unfolding relinked_def by force
  then show "body m' L t" by (rule body_relinked [OF L(2) d])
qed


lemma roots_distinct: "distinct (forest_addrs Ls) \<Longrightarrow> distinct (map l_addr Ls)"
proof (induction Ls)
  case (Cons L Ls)
  have "l_addr L \<notin> l_addr ` set Ls"
    using Cons.prems addr_in_addrs [of L] addr_in_forest [of _ Ls] by fastforce
  then show ?case using Cons by simp
qed simp

section \<open>Edits of the children\<close>

definition with_kids :: "cJSON \<Rightarrow> cJSON list \<Rightarrow> cJSON" where
  "with_kids t ts = Item (c_type t) (valuestring t) (valueint t) (valuedouble t) (c_string t) ts"

lemma body_parts:
  assumes "body m (Loc p v n Ls) t"
  shows "\<exists>x. jm_cells m p = Some x \<and> fields x (c_type t) v n (valueint t) (valuedouble t) (hd_or (map l_addr Ls) None)"
    "str_at m v (valuestring t)" "str_at m n (c_string t)" "seg m None (map l_addr Ls) None" "list_all2 (body m) Ls (child t)"
  using assms by (cases t; simp)+

text \<open>Putting an item back together, with other children.\<close>

lemma body_edit:
  assumes B: "body m (Loc p v n Ls) t" and x: "jm_cells m p = Some x" "jm_cells m' p = Some x'"
    "unlinked x' = unlinked (set_ch (hd_or (map l_addr Ls') None) x)"
    and strs: "\<And>a. a \<in> set_option v \<union> set_option n \<Longrightarrow> jm_strs m' a = jm_strs m a"
    and kids: "seg m' None (map l_addr Ls') None" "list_all2 (body m') Ls' ts'"
  shows "body m' (Loc p v n Ls') (with_kids t ts')"
proof -
  note P = body_parts [OF B]
  from P(1) x(1) have "fields x (c_type t) v n (valueint t) (valuedouble t) (hd_or (map l_addr Ls) None)" by simp
  then have "fields (set_ch (hd_or (map l_addr Ls') None) x) (c_type t) v n (valueint t) (valuedouble t) (hd_or (map l_addr Ls') None)"
    by (simp add: fields_def set_ch_def)
  then have "fields x' (c_type t) v n (valueint t) (valuedouble t) (hd_or (map l_addr Ls') None)"
    using x(3) fields_unlinked by metis
  moreover have "str_at m' v (valuestring t)" "str_at m' n (c_string t)"
    by (rule str_at_cong [OF _ P(2)], use strs in blast) (rule str_at_cong [OF _ P(3)], use strs in blast)
  ultimately show ?thesis using x(2) kids by (simp add: with_kids_def)
qed

text \<open>The neighbours of an item keep what they had, and no other block is touched.\<close>

definition edits :: "jmem \<Rightarrow> jmem \<Rightarrow> nat \<Rightarrow> nat set \<Rightarrow> bool" where
  "edits m m' p A \<longleftrightarrow> (jmem_ok m \<longrightarrow> jmem_ok m') \<and> jm_fails m' = jm_fails m \<and> jm_brk m' = jm_brk m \<and> (\<forall>a. a \<notin> A \<longrightarrow> same_at m m' a) \<and>
     (\<forall>pv nx. seg m pv [p] nx \<longrightarrow> seg m' pv [p] nx)"

lemma item_atD: "item_at m L t \<Longrightarrow> body m L t" "item_at m L t \<Longrightarrow> distinct (addrs L)"
  by (simp_all add: item_at_def)

text \<open>The memory in which the item at \<open>q\<close> is the last child of the one at \<open>p\<close>.\<close>

definition linked_kid :: "jmem \<Rightarrow> nat \<Rightarrow> loc list \<Rightarrow> nat \<Rightarrow> jmem" where
  "linked_kid m p Ls q = (let r = last_or None (map l_addr Ls) in
     upd_at (upd_at (upd_at m r (set_nx (Some q))) (Some q) (set_pv r)) (if Ls = [] then Some p else None) (set_ch (Some q)))"

lemma linked_kid_run:
  assumes A: "item_at m (Loc p v n Ls) t" and K: "item_at m K u" "loose m K"
    and dis: "set (addrs (Loc p v n Ls)) \<inter> set (addrs K) = {}"
  shows "Ls = [] \<Longrightarrow> put_cell m (Some p) (\<lambda>x. x\<lparr>jc_child := ptr K\<rparr>) = Inr (linked_kid m p Ls (l_addr K))"
    "Ls \<noteq> [] \<Longrightarrow> suffix_object m (last_or None (map l_addr Ls)) (ptr K) = Inr (linked_kid m p Ls (l_addr K))"
proof -
  note P = body_parts [OF item_atD(1) [OF A]]
  obtain x where x: "jm_cells m p = Some x" using P(1) by blast
  obtain y where y: "jm_cells m (l_addr K) = Some y" "jc_prev y = None" "jc_next y = None" using K(2) by (auto simp: loose_def)
  have "set_pv None y = y" using y(2) by (cases y) (simp add: set_pv_def)
  then have "upd_at m (ptr K) (set_pv None) = m" using y(1) by (simp add: upd_at_def fun_upd_idem)
  then have "linked_kid m p [] (l_addr K) = upd_at m (Some p) (set_ch (ptr K))" by (simp add: linked_kid_def)
  then show "Ls = [] \<Longrightarrow> put_cell m (Some p) (\<lambda>x. x\<lparr>jc_child := ptr K\<rparr>) = Inr (linked_kid m p Ls (l_addr K))"
    using x by (simp add: set_ch_def [abs_def] put_cell_upd del: put_cell_Some)
  assume "Ls \<noteq> []"
  then obtain a where a: "last_or None (map l_addr Ls) = Some a" by (simp add: last_or_def)
  have "jm_cells m a \<noteq> None" by (rule seg_cells [OF P(4) ends_in(1) [OF a]])
  have "a \<in> set (forest_addrs Ls)" using ends_in(1) [OF a] addr_in_forest by fastforce
  then have "a \<notin> set (addrs K)" using dis by (auto simp del: set_concat)
  then have "l_addr K \<noteq> a" by auto
  moreover note \<open>jm_cells m a \<noteq> None\<close>
  ultimately show "suffix_object m (last_or None (map l_addr Ls)) (ptr K) = Inr (linked_kid m p Ls (l_addr K))"
    using y(1) \<open>Ls \<noteq> []\<close>
    by (auto simp: linked_kid_def Let_def suffix_object_def put_cell_upd a set_nx_def [abs_def] set_pv_def [abs_def] simp del: put_cell_Some)
qed

lemma linked_kid_rep:
  assumes A: "item_at m (Loc p v n Ls) t" and K: "item_at m K u" "loose m K"
    and dis: "set (addrs (Loc p v n Ls)) \<inter> set (addrs K) = {}"
  shows "item_at (linked_kid m p Ls (l_addr K)) (Loc p v n (Ls @ [K])) (with_kids t (child t @ [u]))"
    "edits m (linked_kid m p Ls (l_addr K)) p (set (addrs (Loc p v n Ls)) \<union> set (addrs K))"
proof -
  note P = body_parts [OF item_atD(1) [OF A]] and D = item_atD(2) [OF A]
  obtain x where x: "jm_cells m p = Some x" "jc_child x = hd_or (map l_addr Ls) None" using P(1) by (auto simp: fields_def)
  obtain y where y: "jm_cells m (l_addr K) = Some y" "jc_prev y = None" "jc_next y = None" using K(2) by (auto simp: loose_def)
  let ?q = "l_addr K" and ?r = "last_or None (map l_addr Ls)"
  let ?m = "upd_at (upd_at m ?r (set_nx (Some ?q))) (Some ?q) (set_pv ?r)"
  let ?m' = "upd_at ?m (if Ls = [] then Some p else None) (set_ch (Some ?q))"
  have rin: "a \<in> l_addr ` set Ls" if "?r = Some a" for a using ends_in(1) [OF that] by simp
  have r: "jm_cells m a \<noteq> None" if "?r = Some a" for a by (rule seg_cells [OF P(4) ends_in(1) [OF that]])
  have kin: "a \<in> set (forest_addrs Ls)" if "a \<in> l_addr ` set Ls" for a using that addr_in_forest by blast
  have q: "?q \<noteq> p" "?q \<notin> set (forest_addrs Ls)" "p \<notin> set (forest_addrs Ls)" "p \<notin> set (addrs K)"
    using dis D addr_in_addrs [of K] by auto
  have nq: "?q \<notin> l_addr ` set Ls" "p \<notin> l_addr ` set Ls" using q kin by blast+
  have m': "linked_kid m p Ls ?q = ?m'" by (simp add: linked_kid_def Let_def)
  have cells: "jm_cells ?m' a = (if ?r = Some a then map_option (set_nx (Some ?q)) (jm_cells m a) else jm_cells m a)" if "a \<in> l_addr ` set Ls" for a
    using that nq by auto
  have seg: "seg ?m' None (map l_addr (Ls @ [K])) None"
  proof -
    have "distinct (map l_addr Ls)" using D by (simp add: roots_distinct)
    then have "seg ?m' None (map l_addr Ls) (Some ?q)" by (intro seg_set_next [OF P(4)]) (use cells in auto)
    moreover have "jm_cells ?m' ?q = Some (set_pv ?r y)" using y q(1) nq(1) rin by auto
    ultimately show ?thesis using y by simp
  qed
  have kn: "?r \<noteq> Some a \<and> a \<noteq> p" if "a \<in> set (addrs K)" for a
    using that q rin [of a] kin [of a] dis by auto
  have fn: "a \<noteq> ?q \<and> a \<noteq> p" if "a \<in> set (forest_addrs Ls)" for a using that q by metis
  have "relinked m ?m' {?q} (set (addrs K))" using kn
    by (auto simp: relinked_def same_at_def same_but_links_def option.map_comp comp_def)
  moreover have "relinked m ?m' (l_addr ` set Ls) (set (forest_addrs Ls))" using fn rin
    by (auto simp: relinked_def same_at_def same_but_links_def option.map_comp comp_def simp del: set_concat)
  ultimately have bodies: "list_all2 (body ?m') Ls (child t)" "body ?m' K u"
    using bodies_relinked [OF P(5)] D body_relinked [OF item_atD [OF K(1)]] by auto
  have "body ?m' (Loc p v n (Ls @ [K])) (with_kids t (child t @ [u]))"
    by (rule body_edit [OF item_atD(1) [OF A] x(1) _ _ _ seg list_all2_appendI [OF bodies(1)]])
      (use x q nq rin bodies(2) in \<open>auto simp: set_ch_def unlinked_def hd_or_def split: list.splits\<close>)
  moreover have "distinct (addrs (Loc p v n (Ls @ [K])))" using D dis item_atD(2) [OF K(1)] by auto
  ultimately show "item_at (linked_kid m p Ls (l_addr K)) (Loc p v n (Ls @ [K])) (with_kids t (child t @ [u]))"
    unfolding m' by (simp add: item_at_def)
  show "edits m (linked_kid m p Ls (l_addr K)) p (set (addrs (Loc p v n Ls)) \<union> set (addrs K))"
  proof -
    have out: "?r \<noteq> Some a" if "a \<notin> set (forest_addrs Ls)" for a using rin kin that by blast
    have "jmem_ok m \<longrightarrow> jmem_ok ?m'" using jmem_ok_upd by blast
    moreover have "seg ?m' pv [p] nx" if "seg m pv [p] nx" for pv nx using that q(1) out [OF q(3)] by auto
    moreover have "same_at m ?m' a" if "a \<notin> set (addrs (Loc p v n Ls)) \<union> set (addrs K)" for a
      using that out [of a] addr_in_addrs [of K] by (auto simp: same_at_def simp del: set_concat)
    ultimately show ?thesis unfolding m' by (simp add: edits_def)
  qed
qed


lemma AddItemToArray_rep:
  assumes A: "item_at m (Loc p v n Ls) t" and K: "item_at m K u" "loose m K"
    and dis: "set (addrs (Loc p v n Ls)) \<inter> set (addrs K) = {}" and ok: "jmem_ok m"
  shows "cJSON_AddItemToArray m (Some p) (ptr K) = Inr (linked_kid m p Ls (l_addr K))"
proof -
  note P = body_parts [OF item_atD(1) [OF A]]
  obtain x where x: "jm_cells m p = Some x" "jc_child x = hd_or (map l_addr Ls) None" using P(1) by (auto simp: fields_def)
  show ?thesis
  proof (cases "Ls = []")
    case True
    then show ?thesis using x linked_kid_run(1) [OF A K dis] by (simp add: cJSON_AddItemToArray_def)
  next
    case False
    then obtain a where a: "last_or None (map l_addr Ls) = Some a" by (simp add: last_or_def)
    have "length (map l_addr Ls) \<le> walk_fuel m"
    proof -
      have "length (map l_addr Ls) \<le> sum_list (map items Ls)"
      proof (induction Ls)
        case (Cons L Ls)
        then show ?case by (cases L) simp
      qed simp
      then show ?thesis using items_bound [OF A ok] by (simp add: walk_fuel_def)
    qed
    then have "last_item (walk_fuel m) m (jc_child x) = Inr (Some a)"
      using last_item_rep [OF P(4), of "walk_fuel m"] a x(2) by (simp add: walk_fuel_def del: last_item.simps)
    moreover have "jc_child x \<noteq> None" using False x(2) by (cases Ls) simp_all
    ultimately show ?thesis using x(1) linked_kid_run(2) [OF A K dis False] a by (auto simp: cJSON_AddItemToArray_def Let_def)
  qed
qed

section \<open>The item in the middle\<close>

text \<open>What is known of the blocks around the item at an index, and which addresses differ.\<close>

lemma middle_item:
  assumes A: "item_at m (Loc p v n (Ls1 @ K # Ls2)) t" and t: "child t = ts1 @ u # ts2" "length ts1 = length Ls1"
  shows "\<exists>x. jm_cells m p = Some x \<and> jc_child x = hd_or (map l_addr Ls1) (ptr K)"
    and "\<exists>y. jm_cells m (l_addr K) = Some y \<and> jc_prev y = last_or None (map l_addr Ls1) \<and> jc_next y = hd_or (map l_addr Ls2) None"
    and "seg m None (map l_addr Ls1) (ptr K)" "seg m (ptr K) (map l_addr Ls2) None"
    and "list_all2 (body m) Ls1 ts1" "body m K u" "list_all2 (body m) Ls2 ts2"
    and "p \<notin> set (forest_addrs Ls1)" "p \<notin> set (forest_addrs Ls2)" "p \<notin> set (addrs K)"
    and "set (forest_addrs Ls1) \<inter> set (forest_addrs Ls2) = {}" "set (forest_addrs Ls1) \<inter> set (addrs K) = {}"
      "set (forest_addrs Ls2) \<inter> set (addrs K) = {}"
    and "distinct (forest_addrs Ls1)" "distinct (forest_addrs Ls2)" "distinct (addrs K)"
proof -
  note P = body_parts [OF item_atD(1) [OF A]] and D = item_atD(2) [OF A]
  show "\<exists>x. jm_cells m p = Some x \<and> jc_child x = hd_or (map l_addr Ls1) (ptr K)" using P(1) by (auto simp: fields_def)
  from P(4) show "\<exists>y. jm_cells m (l_addr K) = Some y \<and> jc_prev y = last_or None (map l_addr Ls1) \<and> jc_next y = hd_or (map l_addr Ls2) None"
    "seg m None (map l_addr Ls1) (ptr K)" "seg m (ptr K) (map l_addr Ls2) None" by simp_all
  from P(5) show "list_all2 (body m) Ls1 ts1" "body m K u" "list_all2 (body m) Ls2 ts2"
    using t(2) by (simp_all add: t(1) list_all2_append)
  from D show "p \<notin> set (forest_addrs Ls1)" "p \<notin> set (forest_addrs Ls2)" "p \<notin> set (addrs K)"
    "set (forest_addrs Ls1) \<inter> set (forest_addrs Ls2) = {}" "set (forest_addrs Ls1) \<inter> set (addrs K) = {}"
    "set (forest_addrs Ls2) \<inter> set (addrs K) = {}"
    "distinct (forest_addrs Ls1)" "distinct (forest_addrs Ls2)" "distinct (addrs K)"
    by (auto simp del: set_concat)
qed

lemma ends_in_forest:
  "last_or None (map l_addr Ls) = Some a \<Longrightarrow> a \<in> l_addr ` set Ls \<and> a \<in> set (forest_addrs Ls)"
  "hd_or (map l_addr Ls) None = Some a \<Longrightarrow> a \<in> l_addr ` set Ls \<and> a \<in> set (forest_addrs Ls)"
  using ends_in [of "map l_addr Ls" a] addr_in_forest by auto

text \<open>Rewiring both sides of a gap in the chain to \<open>q\<close> and \<open>q'\<close>.\<close>

definition rewired :: "jmem \<Rightarrow> nat option \<Rightarrow> nat option \<Rightarrow> nat option \<Rightarrow> nat option \<Rightarrow> jmem" where
  "rewired m r q s q' = upd_at (upd_at m r (set_nx q)) s (set_pv q')"

lemma rewired_side1:
  assumes "seg m None (map l_addr Ls1) (ptr K)" "distinct (forest_addrs Ls1)" "list_all2 (body m) Ls1 ts1"
    and "set (forest_addrs Ls1) \<inter> set (forest_addrs Ls2) = {}"
    and m': "\<And>a. a \<in> set (forest_addrs Ls1) \<Longrightarrow>
      same_at (rewired m (last_or None (map l_addr Ls1)) q (hd_or (map l_addr Ls2) None) q') m' a"
  shows "seg m' None (map l_addr Ls1) q" "list_all2 (body m') Ls1 ts1"
proof -
  let ?r = "last_or None (map l_addr Ls1)" and ?s = "hd_or (map l_addr Ls2) None"
  have s: "?s \<noteq> Some a" if "a \<in> set (forest_addrs Ls1)" for a using that ends_in_forest(2) assms(4) by blast
  have c: "jm_cells m' a = (if ?r = Some a then map_option (set_nx q) (jm_cells m a) else jm_cells m a)" "jm_strs m' a = jm_strs m a"
    if "a \<in> set (forest_addrs Ls1)" for a using m' [OF that] s [OF that] by (auto simp: same_at_def rewired_def)
  have kin: "a \<in> set (forest_addrs Ls1)" if "a \<in> set (map l_addr Ls1)" for a using that addr_in_forest by fastforce
  show "seg m' None (map l_addr Ls1) q"
    by (rule seg_set_next [OF assms(1) roots_distinct [OF assms(2)]]) (use c(1) kin in blast)
  have "relinked m m' (l_addr ` set Ls1) (set (forest_addrs Ls1))"
    unfolding relinked_def same_at_def same_but_links_def using c ends_in_forest(1) [of Ls1]
    by (auto simp: option.map_comp comp_def simp del: set_concat)
  then show "list_all2 (body m') Ls1 ts1" by (rule bodies_relinked [OF assms(3,2)])
qed

lemma rewired_side2:
  assumes "seg m (ptr K) (map l_addr Ls2) None" "distinct (forest_addrs Ls2)" "list_all2 (body m) Ls2 ts2"
    and "set (forest_addrs Ls1) \<inter> set (forest_addrs Ls2) = {}"
    and m': "\<And>a. a \<in> set (forest_addrs Ls2) \<Longrightarrow>
      same_at (rewired m (last_or None (map l_addr Ls1)) q (hd_or (map l_addr Ls2) None) q') m' a"
  shows "seg m' q' (map l_addr Ls2) None" "list_all2 (body m') Ls2 ts2"
proof -
  let ?r = "last_or None (map l_addr Ls1)" and ?s = "hd_or (map l_addr Ls2) None"
  have r: "?r \<noteq> Some a" if "a \<in> set (forest_addrs Ls2)" for a using that ends_in_forest(1) assms(4) by blast
  have c: "jm_cells m' a = (if ?s = Some a then map_option (set_pv q') (jm_cells m a) else jm_cells m a)" "jm_strs m' a = jm_strs m a"
    if "a \<in> set (forest_addrs Ls2)" for a using m' [OF that] r [OF that] by (auto simp: same_at_def rewired_def)
  have kin: "a \<in> set (forest_addrs Ls2)" if "a \<in> set (map l_addr Ls2)" for a using that addr_in_forest by fastforce
  show "seg m' q' (map l_addr Ls2) None"
    by (rule seg_set_prev [OF assms(1) roots_distinct [OF assms(2)]]) (use c(1) kin in blast)
  have "relinked m m' (l_addr ` set Ls2) (set (forest_addrs Ls2))"
    unfolding relinked_def same_at_def same_but_links_def using c ends_in_forest(2) [of Ls2]
    by (auto simp: option.map_comp comp_def simp del: set_concat)
  then show "list_all2 (body m') Ls2 ts2" by (rule bodies_relinked [OF assms(3,2)])
qed


text \<open>Addresses outside a set are not the ends of a chain inside it.\<close>

lemma not_ends:
  "a \<notin> set (forest_addrs Ls) \<Longrightarrow> last_or None (map l_addr Ls) \<noteq> Some a"
  "a \<notin> set (forest_addrs Ls) \<Longrightarrow> hd_or (map l_addr Ls) None \<noteq> Some a"
  using ends_in_forest by blast+

lemma rewired_other:
  assumes "a \<notin> set (forest_addrs Ls1)" "a \<notin> set (forest_addrs Ls2)"
  shows "jm_cells (rewired m (last_or None (map l_addr Ls1)) q (hd_or (map l_addr Ls2) None) q') a = jm_cells m a"
  using not_ends [OF assms(1)] not_ends [OF assms(2)] by (simp add: rewired_def)

lemma rewired_simps [simp]:
  "jm_strs (rewired m r q s q') = jm_strs m" "jm_brk (rewired m r q s q') = jm_brk m" "jm_fails (rewired m r q s q') = jm_fails m"
  by (simp_all add: rewired_def)

lemma unlink_alt: "(\<lambda>z. z\<lparr>jc_prev := None, jc_next := None\<rparr>) = unlinked" "(\<lambda>z. z\<lparr>jc_next := None, jc_prev := None\<rparr>) = unlinked"
  by (simp_all add: fun_eq_iff unlinked_def)

lemma DetachItemFromArray_rep:
  assumes A: "item_at m (Loc p v n (Ls1 @ K # Ls2)) t" and t: "child t = ts1 @ u # ts2" "length ts1 = length Ls1"
    and w: "nat which = length Ls1"
  shows "\<exists>m'. cJSON_DetachItemFromArray m (Some p) which = Inr (ptr K, m') \<and>
    item_at m' (Loc p v n (Ls1 @ Ls2)) (with_kids t (ts1 @ ts2)) \<and> item_at m' K u \<and> loose m' K \<and>
    edits m m' p (set (addrs (Loc p v n (Ls1 @ K # Ls2))))"
proof -
  note M = middle_item [OF A t] and P = body_parts [OF item_atD(1) [OF A]]
  let ?a = "l_addr K" and ?r = "last_or None (map l_addr Ls1)" and ?s = "hd_or (map l_addr Ls2) None"
  from M(1,2) obtain x y where x: "jm_cells m p = Some x" "jc_child x = hd_or (map l_addr Ls1) (ptr K)"
    and y: "jm_cells m ?a = Some y" "jc_prev y = ?r" "jc_next y = ?s" by blast
  let ?w = "rewired m ?r ?s ?s ?r"
  let ?c = "upd_at ?w (if Ls1 = [] then Some p else None) (set_ch ?s)"
  let ?m' = "upd_at ?c (ptr K) unlinked"
  have a: "?a \<notin> set (forest_addrs Ls1)" "?a \<notin> set (forest_addrs Ls2)" "?a \<noteq> p" using M(10,12,13) addr_in_addrs [of K] by auto
  have ends: "jm_cells m b \<noteq> None" if "?r = Some b" for b by (rule seg_cells [OF M(3) ends_in(1) [OF that]])
  have ends': "jm_cells m b \<noteq> None" if "?s = Some b" for b by (rule seg_cells [OF M(4) ends_in(2) [OF that]])
  have rs: "?r \<noteq> Some b" if "?s = Some b" for b using that ends_in_forest M(11) by blast
  have wy: "jm_cells ?w ?a = Some y" "jm_cells ?w p = Some x"
    using rewired_other [OF a(1,2)] rewired_other [OF M(8,9)] x(1) y(1) by simp_all
  have s1: "put_if m (jc_prev y) (\<lambda>z. z\<lparr>jc_next := jc_next y\<rparr>) = Inr (upd_at m ?r (set_nx ?s))"
    unfolding y set_nx_def [symmetric] by (rule put_if_upd) (rule ends)
  have y1: "jm_cells (upd_at m ?r (set_nx ?s)) ?a = Some y" using y(1) not_ends(1) [OF a(1)] by simp
  have s2: "put_if (upd_at m ?r (set_nx ?s)) (jc_next y) (\<lambda>z. z\<lparr>jc_prev := jc_prev y\<rparr>) = Inr ?w"
    unfolding y set_pv_def [symmetric] rewired_def by (rule put_if_upd) (use ends' rs in auto)
  have first: "ptr K = jc_child x \<longleftrightarrow> Ls1 = []"
    using x(2) a(1) addr_in_forest [of _ Ls1] by (cases Ls1) auto
  have s3: "(if ptr K = jc_child x then put_cell ?w (Some p) (\<lambda>z. z\<lparr>jc_child := jc_next y\<rparr>) else Inr ?w) = Inr ?c"
    using wy(2) unfolding first y set_ch_def [symmetric] by (auto simp: put_cell_upd simp del: put_cell_Some)
  have cy: "jm_cells ?c ?a = Some y" using wy(1) a(3) by auto
  have s4: "put_cell ?c (ptr K) (\<lambda>z. z\<lparr>jc_prev := None, jc_next := None\<rparr>) = Inr ?m'"
    unfolding unlink_alt by (rule put_cell_upd) (use cy in simp)
  have mk: "jm_cells ?m' ?a = Some (unlinked y)" using cy by simp
  have skip: "skip_items (nat which) m (jc_child x) = Inr (ptr K)"
    using skip_items_rep [OF P(4), of "nat which"] x(2) w by simp
  have run: "cJSON_DetachItemFromArray m (Some p) which = Inr (ptr K, ?m')"
    unfolding cJSON_DetachItemFromArray_def get_cell_Some [OF x(1)] bind.simps skip
      get_cell_Some [OF y(1)] s1 get_cell_Some [OF y1] s2 get_cell_Some [OF wy(2)] get_cell_Some [OF wy(1)] s3 s4 by simp
  have frame: "same_at ?w ?m' b" if "b \<in> set (forest_addrs Ls1) \<union> set (forest_addrs Ls2)" for b
    using that M(8,9) a by (auto simp: same_at_def simp del: set_concat)
  note W1 = rewired_side1 [OF M(3,14,5,11), of ?s ?r ?m'] and W2 = rewired_side2 [OF M(4,15,7,11), of ?s ?r ?m']
  have "seg ?m' None (map l_addr (Ls1 @ Ls2)) None" using W1(1) W2(1) frame by simp
  moreover have "list_all2 (body ?m') (Ls1 @ Ls2) (ts1 @ ts2)" using W1(2) W2(2) frame by (simp add: list_all2_appendI)
  ultimately have "body ?m' (Loc p v n (Ls1 @ Ls2)) (with_kids t (ts1 @ ts2))"
    by (rule body_edit [OF item_atD(1) [OF A] x(1), rotated 3])
      (use wy(2) a(3) x(2) in \<open>auto simp: set_ch_def unlinked_def hd_or_def split: list.splits\<close>)
  moreover have "body ?m' K u"
  proof (rule body_relinked [OF M(6,16)])
    have "same_at m ?m' b" if "b \<in> set (addrs K)" "b \<noteq> ?a" for b
    proof -
      have "b \<notin> set (forest_addrs Ls1)" "b \<notin> set (forest_addrs Ls2)" "b \<noteq> p" using that(1) M(10,12,13) by auto
      then show ?thesis using rewired_other [of b Ls1 Ls2] that(2) by (auto simp: same_at_def simp del: set_concat)
    qed
    moreover have "same_but_links m ?m' ?a"
      unfolding same_but_links_def mk y(1) by (simp add: unlinked_def)
    ultimately show "relinked m ?m' {?a} (set (addrs K))"
      unfolding relinked_def by (metis same_at_links singletonI)
  qed
  moreover have "loose ?m' K" unfolding loose_def seg.simps mk by (simp add: unlinked_def)
  moreover have "edits m ?m' p (set (addrs (Loc p v n (Ls1 @ K # Ls2))))"
  proof -
    have "jmem_ok m \<longrightarrow> jmem_ok ?m'" using jmem_ok_upd unfolding rewired_def by blast
    moreover have "seg ?m' pv [p] nx" if "seg m pv [p] nx" for pv nx using that x(1) wy(2) a(3) by auto
    moreover have "same_at m ?m' b" if "b \<notin> set (addrs (Loc p v n (Ls1 @ K # Ls2)))" for b
    proof -
      have "b \<notin> set (forest_addrs Ls1)" "b \<notin> set (forest_addrs Ls2)" "b \<noteq> p" "b \<noteq> ?a" using that addr_in_addrs [of K] by auto
      then show ?thesis using rewired_other [of b Ls1 Ls2] by (auto simp: same_at_def simp del: set_concat)
    qed
    ultimately show ?thesis by (simp add: edits_def)
  qed
  moreover have "distinct (addrs (Loc p v n (Ls1 @ Ls2)))" using item_atD(2) [OF A] by auto
  ultimately show ?thesis using run M(16) by (auto simp: item_at_def)
qed


lemma upd_at_swap: "q \<noteq> q' \<Longrightarrow> upd_at (upd_at m q f) q' g = upd_at (upd_at m q' g) q f"
  by (auto simp: upd_at_def fun_upd_twist split: option.splits)

lemma rewired_upd:
  "r \<noteq> Some b \<Longrightarrow> s \<noteq> Some b \<Longrightarrow> a \<noteq> b \<Longrightarrow> jm_cells (rewired (upd_at m (Some b) f) r q s q') a = jm_cells (rewired m r q s q') a"
  "r \<noteq> Some b \<Longrightarrow> s \<noteq> Some b \<Longrightarrow> jm_cells (rewired (upd_at m (Some b) f) r q s q') b = map_option f (jm_cells m b)"
  by (simp_all add: rewired_def)

lemma ReplaceItemInArray_rep:
  assumes A: "item_at m (Loc p v n (Ls1 @ K # Ls2)) t" and t: "child t = ts1 @ u # ts2" "length ts1 = length Ls1"
    and w: "nat which = length Ls1" and N: "item_at m N u'" and ok: "jmem_ok m"
    and dis: "set (addrs (Loc p v n (Ls1 @ K # Ls2))) \<inter> set (addrs N) = {}"
  shows "\<exists>m'. cJSON_ReplaceItemInArray m (Some p) which (ptr N) = Inr m' \<and>
    item_at m' (Loc p v n (Ls1 @ N # Ls2)) (with_kids t (ts1 @ u' # ts2)) \<and>
    (\<forall>a \<in> set (addrs K). jm_cells m' a = None \<and> jm_strs m' a = None) \<and>
    edits m m' p (set (addrs (Loc p v n (Ls1 @ K # Ls2))) \<union> set (addrs N))"
proof -
  note M = middle_item [OF A t] and P = body_parts [OF item_atD(1) [OF A]]
  let ?a = "l_addr K" and ?b = "l_addr N" and ?r = "last_or None (map l_addr Ls1)" and ?s = "hd_or (map l_addr Ls2) None"
  from M(1,2) obtain x y where x: "jm_cells m p = Some x" "jc_child x = hd_or (map l_addr Ls1) (ptr K)"
    and y: "jm_cells m ?a = Some y" "jc_prev y = ?r" "jc_next y = ?s" by blast
  obtain z where z: "jm_cells m ?b = Some z" using item_atD(1) [OF N] by (cases N; cases u') auto
  let ?f = "\<lambda>z. set_pv ?r (set_nx ?s z)"
  let ?m1 = "upd_at m (ptr N) ?f"
  let ?w = "rewired ?m1 ?r (ptr N) ?s (ptr N)"
  let ?c = "upd_at ?w (if Ls1 = [] then Some p else None) (set_ch (ptr N))"
  let ?d = "upd_at ?c (ptr K) unlinked"
  let ?m' = "without ?d (set (addrs K))"
  have a: "?a \<notin> set (forest_addrs Ls1)" "?a \<notin> set (forest_addrs Ls2)" "?a \<noteq> p" using M(10,12,13) addr_in_addrs [of K] by auto
  have nd: "b \<notin> set (forest_addrs Ls1)" "b \<notin> set (forest_addrs Ls2)" "b \<noteq> p" "b \<notin> set (addrs K)" if "b \<in> set (addrs N)" for b
    using that dis by (auto simp del: set_concat)
  note nb = nd [OF addr_in_addrs]
  have ba: "?b \<noteq> ?a" using nb(4) addr_in_addrs [of K] by metis
  have rs: "?r \<noteq> Some b" if "?s = Some b" for b using that ends_in_forest M(11) by blast
  note bn = not_ends(1) [OF nb(1)] not_ends(2) [OF nb(2)]
  have wo: "jm_cells ?w b = jm_cells m b" if "b \<notin> set (forest_addrs Ls1)" "b \<notin> set (forest_addrs Ls2)" "b \<noteq> ?b" for b
    using rewired_upd(1) [OF bn that(3)] rewired_other [OF that(1,2)] by simp
  have wy: "jm_cells ?w ?a = Some y" "jm_cells ?w p = Some x" "jm_cells ?w ?b = Some (?f z)"
    using wo [OF a(1,2)] wo [OF M(8,9)] ba nb(3) x(1) y(1) z rewired_upd(2) [OF bn] by simp_all
  have s1: "put_cell m (ptr N) (\<lambda>z. z\<lparr>jc_next := jc_next y, jc_prev := jc_prev y\<rparr>) = Inr ?m1"
  proof -
    have "(\<lambda>z. z\<lparr>jc_next := ?s, jc_prev := ?r\<rparr>) = ?f" by (simp add: fun_eq_iff set_pv_def set_nx_def)
    then show ?thesis unfolding y by (simp only:) (rule put_cell_upd, use z in simp)
  qed
  have z1: "jm_cells ?m1 ?b = Some (?f z)" using z by simp
  let ?m2 = "upd_at ?m1 ?s (set_pv (ptr N))"
  have s2: "put_if ?m1 (jc_next (?f z)) (\<lambda>z. z\<lparr>jc_prev := ptr N\<rparr>) = Inr ?m2"
  proof -
    have "jm_cells ?m1 b \<noteq> None" if "?s = Some b" for b using seg_cells [OF M(4) ends_in(2) [OF that]] by auto
    then show ?thesis unfolding set_sel set_pv_def [symmetric] by (rule put_if_upd)
  qed
  have z2: "jm_cells ?m2 ?b = Some (?f z)" "jm_cells ?m2 p = Some x"
    using z1 bn(2) x(1) nb(3) not_ends(2) [OF M(9)] by auto
  have first: "ptr K = jc_child x \<longleftrightarrow> Ls1 = []"
    using x(2) a(1) addr_in_forest [of _ Ls1] by (cases Ls1) auto
  have s3: "(if ptr K = jc_child x then put_cell ?m2 (Some p) (\<lambda>z. z\<lparr>jc_child := ptr N\<rparr>)
      else put_cell ?m2 (jc_prev (?f z)) (\<lambda>z. z\<lparr>jc_next := ptr N\<rparr>)) = Inr ?c"
  proof (cases "Ls1 = []")
    case True
    then show ?thesis using z2(2) unfolding first by (simp add: rewired_def put_cell_upd set_ch_def [abs_def] del: put_cell_Some)
  next
    case False
    then obtain b where b: "?r = Some b" by (simp add: last_or_def)
    have "?r \<noteq> ?s" using b rs by metis
    then have "?c = upd_at ?m2 ?r (set_nx (ptr N))"
      using False upd_at_swap [of ?r ?s ?m1 "set_nx (ptr N)" "set_pv (ptr N)"] by (simp add: rewired_def)
    moreover have "jm_cells ?m2 b \<noteq> None" using seg_cells [OF M(3) ends_in(1) [OF b]] by auto
    ultimately show ?thesis using False first b by (simp add: put_cell_upd set_nx_def [abs_def] del: put_cell_Some)
  qed
  have cy: "jm_cells ?c ?a = Some y" using wy(1) a(3) by auto
  have s4: "put_cell ?c (ptr K) (\<lambda>z. z\<lparr>jc_next := None, jc_prev := None\<rparr>) = Inr ?d"
    unfolding unlink_alt by (rule put_cell_upd) (use cy in simp)
  have mk: "jm_cells ?d ?a = Some (unlinked y)" using cy by simp
  have okd: "jmem_ok ?d" unfolding rewired_def by (intro jmem_ok_upd ok)
  have "body ?d K u"
  proof (rule body_relinked [OF M(6,16)])
    have "same_at m ?d b" if "b \<in> set (addrs K)" "b \<noteq> ?a" for b
    proof -
      have "b \<notin> set (forest_addrs Ls1)" "b \<notin> set (forest_addrs Ls2)" "b \<noteq> p" "b \<noteq> ?b" using that(1) M(10,12,13) nb(4) by auto
      then show ?thesis using wo [of b] that(2) by (auto simp: same_at_def simp del: set_concat)
    qed
    moreover have "same_but_links m ?d ?a" unfolding same_but_links_def mk y(1) by (simp add: unlinked_def)
    ultimately show "relinked m ?d {?a} (set (addrs K))" unfolding relinked_def by (metis same_at_links singletonI)
  qed
  then have del: "cJSON_Delete ?d (ptr K) = Inr ?m'"
    by (intro cJSON_Delete_rep [OF okd, where pv = None]) (use M(16) mk in \<open>auto simp: item_at_def unlinked_def\<close>)
  have skip: "skip_items (nat which) m (jc_child x) = Inr (ptr K)"
    using skip_items_rep [OF P(4), of "nat which"] x(2) w by simp
  have run: "cJSON_ReplaceItemInArray m (Some p) which (ptr N) = Inr ?m'"
    unfolding cJSON_ReplaceItemInArray_def get_cell_Some [OF x(1)] bind.simps skip
      get_cell_Some [OF y(1)] s1 get_cell_Some [OF z1] s2 get_cell_Some [OF z2(2)] get_cell_Some [OF z2(1)] s3 s4 by (simp add: del)
  have frame: "same_at (rewired m ?r (ptr N) ?s (ptr N)) ?m' b" if "b \<in> set (forest_addrs Ls1) \<union> set (forest_addrs Ls2)" for b
  proof -
    have "b \<noteq> ?b" "b \<noteq> p" "b \<noteq> ?a" "b \<notin> set (addrs K)" using that nb M(8,9,12,13) a by (auto simp del: set_concat)
    then show ?thesis using rewired_upd(1) [OF bn] by (simp add: same_at_def)
  qed
  note W1 = rewired_side1 [OF M(3,14,5,11), of "ptr N" "ptr N" ?m'] and W2 = rewired_side2 [OF M(4,15,7,11), of "ptr N" "ptr N" ?m']
  have nk: "jm_cells ?m' ?b = Some (?f z)" using wy(3) nb ba by auto
  have "seg ?m' None (map l_addr (Ls1 @ N # Ls2)) None" using W1(1) W2(1) frame nk by simp
  moreover have "body ?m' N u'"
  proof (rule body_relinked [OF item_atD [OF N]])
    have "same_at m ?m' b" if "b \<in> set (addrs N)" "b \<noteq> ?b" for b
      using nd [OF that(1)] wo [of b] that(2) addr_in_addrs [of K] by (auto simp: same_at_def simp del: set_concat)
    moreover have "same_but_links m ?m' ?b"
      unfolding same_but_links_def nk z using nb(4) by (simp add: unlinked_def set_pv_def set_nx_def)
    ultimately show "relinked m ?m' {?b} (set (addrs N))" unfolding relinked_def by (metis same_at_links singletonI)
  qed
  then have "list_all2 (body ?m') (Ls1 @ N # Ls2) (ts1 @ u' # ts2)" using W1(2) W2(2) frame by (simp add: list_all2_appendI)
  ultimately have "body ?m' (Loc p v n (Ls1 @ N # Ls2)) (with_kids t (ts1 @ u' # ts2))"
    by (rule body_edit [OF item_atD(1) [OF A] x(1), rotated 3])
      (use wy(2) a(3) x(2) M(10) item_atD(2) [OF A] in \<open>auto simp: set_ch_def unlinked_def hd_or_def split: list.splits\<close>)
  moreover have "edits m ?m' p (set (addrs (Loc p v n (Ls1 @ K # Ls2))) \<union> set (addrs N))"
  proof -
    have "jmem_ok m \<longrightarrow> jmem_ok ?m'" using okd jmem_ok_without by blast
    moreover have "seg ?m' pv [p] nx" if "seg m pv [p] nx" for pv nx using that x(1) wy(2) a(3) M(10) by auto
    moreover have "same_at m ?m' b" if "b \<notin> set (addrs (Loc p v n (Ls1 @ K # Ls2))) \<union> set (addrs N)" for b
    proof -
      have "b \<notin> set (forest_addrs Ls1)" "b \<notin> set (forest_addrs Ls2)" "b \<noteq> p" "b \<noteq> ?a" "b \<noteq> ?b" "b \<notin> set (addrs K)"
        using that addr_in_addrs [of K] addr_in_addrs [of N] by auto
      then show ?thesis using wo [of b] by (auto simp: same_at_def simp del: set_concat)
    qed
    ultimately show ?thesis by (simp add: edits_def)
  qed
  moreover have "distinct (addrs (Loc p v n (Ls1 @ N # Ls2)))" using item_atD(2) [OF A] item_atD(2) [OF N] dis by auto
  ultimately show ?thesis using run by (auto simp: item_at_def)
qed

end
