(* ===== verification/Cjson_Copy.thy ===== *)
theory Cjson_Copy
  imports Cjson_Edit
begin

text \<open>
  New items: the creation functions, and \<open>cJSON_Duplicate\<close>. Whatever allocation fails, a copy is
  complete and in fresh blocks, or everything allocated for it has been released.
\<close>

section \<open>Fresh blocks\<close>

definition fresh :: "jmem \<Rightarrow> jmem \<Rightarrow> nat set \<Rightarrow> bool" where
  "fresh m m' A \<longleftrightarrow> jmem_ok m' \<and> jm_fails m' = jm_fails m \<and> jm_brk m \<le> jm_brk m' \<and>
     A \<subseteq> {jm_brk m ..< jm_brk m'} \<and> (\<forall>a. a \<notin> A \<longrightarrow> same_at m m' a)"

lemma same_at_trans: "same_at m m' a \<Longrightarrow> same_at m' m'' a \<Longrightarrow> same_at m m'' a"
  by (simp add: same_at_def)

lemma fresh_trans: "fresh m m' A \<Longrightarrow> fresh m' m'' B \<Longrightarrow> fresh m m'' (A \<union> B)"
  by (fastforce simp: fresh_def same_at_def)

lemma fresh_old: "fresh m m' A \<Longrightarrow> a < jm_brk m \<Longrightarrow> same_at m m' a"
  by (auto simp: fresh_def)

lemma fresh_edits: "fresh m m' A \<Longrightarrow> edits m' m'' p A \<Longrightarrow> fresh m m'' A"
  by (auto simp: fresh_def edits_def same_at_def)

lemma fresh_ok: "fresh m m' A \<Longrightarrow> jmem_ok m'"
  by (simp add: fresh_def)

text \<open>An old item is still there.\<close>

lemma fresh_body: "body m L t \<Longrightarrow> distinct (addrs L) \<Longrightarrow> jmem_ok m \<Longrightarrow> fresh m m' A \<Longrightarrow> body m' L t"
  by (rule body_same) (auto dest!: body_allocated intro: fresh_old)

lemma fresh_none: "jmem_ok m \<Longrightarrow> fresh m m' A \<Longrightarrow> a \<in> A \<Longrightarrow> jm_cells m a = None \<and> jm_strs m a = None"
  by (auto simp: fresh_def jmem_ok_def)

text \<open>Deleting what is fresh restores the memory.\<close>

lemma give_up_rep:
  assumes ok: "jmem_ok m" and I: "item_at m' L t" "loose m' L" and F: "fresh m m' (set (addrs L))"
  shows "\<exists>m''. give_up m' (ptr L) = Inr (None, m'') \<and> fresh m m'' {}"
proof -
  have "give_up m' (ptr L) = Inr (None, without m' (set (addrs L)))"
    using cJSON_Delete_rep [OF fresh_ok [OF F] I(1)] I(2) by (simp add: give_up_def loose_def)
  moreover have "fresh m (without m' (set (addrs L))) {}"
    using F fresh_none [OF ok F] jmem_ok_without by (auto simp: fresh_def same_at_def)
  ultimately show ?thesis by blast
qed

section \<open>Allocation\<close>

lemma jmem_ok_new:
  "jmem_ok m \<Longrightarrow> jmem_ok (m\<lparr>jm_brk := Suc (jm_brk m), jm_cells := (jm_cells m)(jm_brk m \<mapsto> x)\<rparr>)"
  "jmem_ok m \<Longrightarrow> jmem_ok (m\<lparr>jm_brk := Suc (jm_brk m), jm_strs := (jm_strs m)(jm_brk m \<mapsto> s)\<rparr>)"
  "jmem_ok m \<Longrightarrow> jmem_ok (m\<lparr>jm_brk := Suc (jm_brk m)\<rparr>)"
  by (auto simp: jmem_ok_def)

text \<open>A leaf: an item without children.\<close>

abbreviation leaf :: "nat \<Rightarrow> nat option \<Rightarrow> nat option \<Rightarrow> loc" where "leaf q v n \<equiv> Loc q v n []"

lemma leaf_at: "item_at m (leaf q v n) (Item ty vs vi vd nm []) \<longleftrightarrow>
    (\<exists>x. jm_cells m q = Some x \<and> fields x ty v n vi vd None) \<and> str_at m v vs \<and> str_at m n nm \<and>
    distinct (q # opt_list v @ opt_list n)"
  by (simp add: item_at_def)

lemma new_cell_rep:
  assumes "jmem_ok m"
  shows "if jm_fails m (jm_brk m) then fst (new_cell m) = None \<and> fresh m (snd (new_cell m)) {}
    else fst (new_cell m) = Some (jm_brk m) \<and> fresh m (snd (new_cell m)) {jm_brk m} \<and>
      jm_cells (snd (new_cell m)) (jm_brk m) = Some zero_cell"
  using jmem_ok_new [OF assms] by (auto simp: new_cell_def fresh_def same_at_def)

lemma strdup_rep:
  assumes "jmem_ok m"
  shows "if jm_fails m (jm_brk m) then fst (cJSON_strdup m s) = None \<and> fresh m (snd (cJSON_strdup m s)) {}
    else fst (cJSON_strdup m s) = Some (jm_brk m) \<and> fresh m (snd (cJSON_strdup m s)) {jm_brk m} \<and>
      jm_strs (snd (cJSON_strdup m s)) (jm_brk m) = Some s"
  using jmem_ok_new [OF assms] by (auto simp: cJSON_strdup_def fresh_def same_at_def)


section \<open>Copying one item\<close>

lemma distinct_opt [simp]: "distinct (opt_list v)"
  by (cases v) simp_all

text \<open>
  The copy of a string into the new item: the pointer that is stored, and the memory. It is null
  where the source is null or the allocation failed.
\<close>

lemma copy_str_rep:
  assumes ok: "jmem_ok m" and p: "str_at m p s" and q: "jm_cells m q = Some y"
    and f: "p = None \<Longrightarrow> f None y = y"
  obtains r m' where "copy_str m (Some q) p f = Inr (r = None \<longrightarrow> p = None, m')"
    "jm_cells m' q = Some (f r y)" "\<And>a. a \<noteq> q \<Longrightarrow> jm_cells m' a = jm_cells m a"
    "\<And>a. a \<notin> set_option r \<Longrightarrow> jm_strs m' a = jm_strs m a" "str_at m' r (if r = None then None else s)"
    "jmem_ok m'" "jm_fails m' = jm_fails m" "jm_brk m \<le> jm_brk m'" "set_option r \<subseteq> {jm_brk m ..< jm_brk m'}"
    "r = None \<and> p \<noteq> None \<longrightarrow> (\<exists>a \<ge> jm_brk m. jm_fails m a)" "p = None \<longrightarrow> r = None"
proof (cases p)
  case None
  show ?thesis by (rule that [of None m]) (use None q f ok p in \<open>simp_all add: copy_str_def\<close>)
next
  case (Some b)
  then obtain c where c: "s = Some c" "jm_strs m b = Some c" using p by auto
  have lt: "q < jm_brk m" using jmem_okD(3) [OF ok q] .
  show ?thesis
  proof (cases "jm_fails m (jm_brk m)")
    case True
    let ?m = "m\<lparr>jm_brk := Suc (jm_brk m), jm_cells := (jm_cells m)(q \<mapsto> f None y)\<rparr>"
    have "copy_str m (Some q) p f = Inr (False, ?m)"
      using True Some c q by (simp add: copy_str_def get_str_def cJSON_strdup_def)
    moreover have "jmem_ok ?m" using ok q jmem_okD(1) [OF ok q] by (auto simp: jmem_ok_def)
    ultimately show ?thesis by (intro that [of None ?m]) (use True Some in auto)
  next
    case False
    let ?r = "jm_brk m"
    let ?m = "m\<lparr>jm_brk := Suc ?r, jm_strs := (jm_strs m)(?r \<mapsto> c), jm_cells := (jm_cells m)(q \<mapsto> f (Some ?r) y)\<rparr>"
    have "copy_str m (Some q) p f = Inr (True, ?m)"
      using False Some c q by (simp add: copy_str_def get_str_def cJSON_strdup_def)
    moreover have "jmem_ok ?m" using ok q lt jmem_okD(1) [OF ok q] by (auto simp: jmem_ok_def)
    ultimately show ?thesis by (intro that [of "Some ?r" ?m]) (use Some c in auto)
  qed
qed


text \<open>\<open>item_at\<close> of what \<open>cJSON_Duplicate\<close> has before the children, and its failure.\<close>

definition copied :: "jmem \<Rightarrow> cJSON \<Rightarrow> nat option \<times> jmem \<Rightarrow> bool" where
  "copied m t res \<longleftrightarrow> (case fst res of
       None \<Rightarrow> fresh m (snd res) {} \<and> (\<exists>a \<ge> jm_brk m. jm_fails m a)
     | Some q \<Rightarrow> \<exists>L. l_addr L = q \<and> fresh m (snd res) (set (addrs L)) \<and> item_at (snd res) L t \<and> loose (snd res) L)"

lemma copied_given_up:
  assumes "jmem_ok m" "item_at m' L t'" "loose m' L" "fresh m m' (set (addrs L))" "a \<ge> jm_brk m" "jm_fails m a"
  shows "\<exists>res. give_up m' (ptr L) = Inr res \<and> copied m t res"
  using give_up_rep [OF assms(1-4)] assms(5,6) by (auto simp: copied_def)

lemma copy_value_leaf:
  assumes ok: "jmem_ok m0" and F: "fresh m0 m (set (addrs (leaf q None n)))"
    and I: "item_at m (leaf q None n) (Item ty None vi vd nm [])" "loose m (leaf q None n)" and p: "str_at m0 p s"
  shows "\<exists>b m' v s'. copy_str m (Some q) p (\<lambda>q y. y\<lparr>jc_valuestring := q\<rparr>) = Inr (b, m') \<and>
    item_at m' (leaf q v n) (Item ty s' vi vd nm []) \<and> loose m' (leaf q v n) \<and>
    fresh m0 m' (set (addrs (leaf q v n))) \<and> (b \<longrightarrow> s' = s) \<and> (\<not> b \<longrightarrow> (\<exists>a \<ge> jm_brk m0. jm_fails m0 a))"
proof -
  obtain y where y: "jm_cells m q = Some y" "fields y ty None n vi vd None" using I(1) by (auto simp: leaf_at)
  have y0: "y\<lparr>jc_valuestring := None\<rparr> = y" using y(2) by (cases y) (simp add: fields_def)
  have p': "str_at m p s" by (rule str_at_cong [OF _ p]) (use str_at_allocated [OF ok p] fresh_old [OF F] in \<open>auto simp: same_at_def\<close>)
  obtain v m' where c: "copy_str m (Some q) p (\<lambda>q y. y\<lparr>jc_valuestring := q\<rparr>) = Inr (v = None \<longrightarrow> p = None, m')"
    "jm_cells m' q = Some (y\<lparr>jc_valuestring := v\<rparr>)" "\<And>a. a \<noteq> q \<Longrightarrow> jm_cells m' a = jm_cells m a"
    "\<And>a. a \<notin> set_option v \<Longrightarrow> jm_strs m' a = jm_strs m a" "str_at m' v (if v = None then None else s)"
    "jmem_ok m'" "jm_fails m' = jm_fails m" "jm_brk m \<le> jm_brk m'" "set_option v \<subseteq> {jm_brk m ..< jm_brk m'}"
    "v = None \<and> p \<noteq> None \<longrightarrow> (\<exists>a \<ge> jm_brk m. jm_fails m a)" "p = None \<longrightarrow> v = None"
    by (rule copy_str_rep [OF fresh_ok [OF F] p' y(1), of "\<lambda>q y. y\<lparr>jc_valuestring := q\<rparr>", OF y0]) (rule that)
  have new: "a \<notin> set_option v" if "a \<in> set (addrs (leaf q None n))" for a
    using that c(9) F by (fastforce simp: fresh_def)
  have n: "str_at m' n nm" by (rule str_at_cong [of _ _ m]) (use I(1) c(4) new in \<open>auto simp: leaf_at\<close>)
  have "q \<notin> set_option v" "set_option v \<inter> set_option n = {}" using new by force+
  then have "distinct (q # opt_list v @ opt_list n)" using I(1) by (auto simp: leaf_at)
  then have "item_at m' (leaf q v n) (Item ty (if v = None then None else s) vi vd nm [])"
    using c(2,5) y(2) n by (simp add: leaf_at fields_def)
  moreover have "loose m' (leaf q v n)" using c(2) I(2) y(1) by (simp add: loose_def)
  moreover have "fresh m0 m' (set (addrs (leaf q v n)))" using F c(3,4,6-9) by (fastforce simp: fresh_def same_at_def)
  moreover have "(v = None \<longrightarrow> p = None) \<Longrightarrow> (if v = None then None else s) = s" using p c(11) by (cases v) auto
  moreover have "\<exists>a \<ge> jm_brk m0. jm_fails m0 a" if "\<not> (v = None \<longrightarrow> p = None)"
    using c(10) that F by (auto simp: fresh_def intro: order_trans)
  ultimately show ?thesis using c(1) by blast
qed

lemma copy_name_leaf:
  assumes ok: "jmem_ok m0" and F: "fresh m0 m (set (addrs (leaf q v None)))"
    and I: "item_at m (leaf q v None) (Item ty vs vi vd None [])" "loose m (leaf q v None)" and p: "str_at m0 p s"
  shows "\<exists>b m' n s'. copy_str m (Some q) p (\<lambda>q y. y\<lparr>jc_string := q\<rparr>) = Inr (b, m') \<and>
    item_at m' (leaf q v n) (Item ty vs vi vd s' []) \<and> loose m' (leaf q v n) \<and>
    fresh m0 m' (set (addrs (leaf q v n))) \<and> (b \<longrightarrow> s' = s) \<and> (\<not> b \<longrightarrow> (\<exists>a \<ge> jm_brk m0. jm_fails m0 a))"
proof -
  obtain y where y: "jm_cells m q = Some y" "fields y ty v None vi vd None" using I(1) by (auto simp: leaf_at)
  have y0: "y\<lparr>jc_string := None\<rparr> = y" using y(2) by (cases y) (simp add: fields_def)
  have p': "str_at m p s" by (rule str_at_cong [OF _ p]) (use str_at_allocated [OF ok p] fresh_old [OF F] in \<open>auto simp: same_at_def\<close>)
  obtain n m' where c: "copy_str m (Some q) p (\<lambda>q y. y\<lparr>jc_string := q\<rparr>) = Inr (n = None \<longrightarrow> p = None, m')"
    "jm_cells m' q = Some (y\<lparr>jc_string := n\<rparr>)" "\<And>a. a \<noteq> q \<Longrightarrow> jm_cells m' a = jm_cells m a"
    "\<And>a. a \<notin> set_option n \<Longrightarrow> jm_strs m' a = jm_strs m a" "str_at m' n (if n = None then None else s)"
    "jmem_ok m'" "jm_fails m' = jm_fails m" "jm_brk m \<le> jm_brk m'" "set_option n \<subseteq> {jm_brk m ..< jm_brk m'}"
    "n = None \<and> p \<noteq> None \<longrightarrow> (\<exists>a \<ge> jm_brk m. jm_fails m a)" "p = None \<longrightarrow> n = None"
    by (rule copy_str_rep [OF fresh_ok [OF F] p' y(1), of "\<lambda>q y. y\<lparr>jc_string := q\<rparr>", OF y0]) (rule that)
  have new: "a \<notin> set_option n" if "a \<in> set (addrs (leaf q v None))" for a
    using that c(9) F by (fastforce simp: fresh_def)
  have v: "str_at m' v vs" by (rule str_at_cong [of _ _ m]) (use I(1) c(4) new in \<open>auto simp: leaf_at\<close>)
  have "q \<notin> set_option n" "set_option v \<inter> set_option n = {}" using new by force+
  then have "distinct (q # opt_list v @ opt_list n)" using I(1) by (auto simp: leaf_at)
  then have "item_at m' (leaf q v n) (Item ty vs vi vd (if n = None then None else s) [])"
    using c(2,5) y(2) v by (simp add: leaf_at fields_def)
  moreover have "loose m' (leaf q v n)" using c(2) I(2) y(1) by (simp add: loose_def)
  moreover have "fresh m0 m' (set (addrs (leaf q v n)))" using F c(3,4,6-9) by (fastforce simp: fresh_def same_at_def)
  moreover have "(n = None \<longrightarrow> p = None) \<Longrightarrow> (if n = None then None else s) = s" using p c(11) by (cases n) auto
  moreover have "\<exists>a \<ge> jm_brk m0. jm_fails m0 a" if "\<not> (n = None \<longrightarrow> p = None)"
    using c(10) that F by (auto simp: fresh_def intro: order_trans)
  ultimately show ?thesis using c(1) by blast
qed


text \<open>The new item before its children: complete, or released.\<close>

lemma copy_item_rep:
  assumes ok: "jmem_ok m" and B: "body m L t"
  shows "\<exists>r m'. copy_item m (ptr L) = Inr (r, m') \<and>
    (case r of None \<Rightarrow> fresh m m' {} \<and> (\<exists>a \<ge> jm_brk m. jm_fails m a)
     | Some q \<Rightarrow> \<exists>v n. fresh m m' (set (addrs (leaf q v n))) \<and> item_at m' (leaf q v n) (with_kids t []) \<and> loose m' (leaf q v n))"
proof -
  obtain p vp np Ls where L: "L = Loc p vp np Ls" by (cases L)
  note P = body_parts [OF B [unfolded L]]
  obtain x where x: "jm_cells m p = Some x" and fx: "fields x (c_type t) vp np (valueint t) (valuedouble t) (hd_or (map l_addr Ls) None)"
    using P(1) by blast
  obtain r1 m1 where n1: "new_cell m = (r1, m1)" by (cases "new_cell m")
  note N = new_cell_rep [OF ok, unfolded n1 fst_conv snd_conv]
  show ?thesis
  proof (cases "jm_fails m (jm_brk m)")
    case True
    then show ?thesis using N n1 by (auto simp: copy_item_def)
  next
    case False
    let ?q = "jm_brk m"
    from N False have r1: "r1 = Some ?q" and F1: "fresh m m1 {?q}" and z: "jm_cells m1 ?q = Some zero_cell" by simp_all
    have x1: "jm_cells m1 p = Some x" using fresh_old [OF F1 jmem_okD(3) [OF ok x]] x by (simp add: same_at_def)
    let ?y = "zero_cell\<lparr>jc_type := jc_type x, jc_ref := False, jc_valueint := jc_valueint x, jc_valuedouble := jc_valuedouble x\<rparr>"
    let ?m2 = "m1\<lparr>jm_cells := (jm_cells m1)(?q \<mapsto> ?y)\<rparr>"
    have ok2: "jmem_ok ?m2" using fresh_ok [OF F1] z jmem_okD(1) [OF fresh_ok [OF F1] z] by (auto simp: jmem_ok_def)
    have F2: "fresh m ?m2 (set (addrs (leaf ?q None None)))" using F1 ok2 by (auto simp: fresh_def same_at_def)
    have I2: "item_at ?m2 (leaf ?q None None) (Item (c_type t) None (valueint t) (valuedouble t) None [])" "loose ?m2 (leaf ?q None None)"
      using fx by (simp_all add: leaf_at fields_def zero_cell_def loose_def)
    from copy_value_leaf [OF ok F2 I2 P(2)] obtain b m3 v s where c3:
      "copy_str ?m2 (Some ?q) vp (\<lambda>q y. y\<lparr>jc_valuestring := q\<rparr>) = Inr (b, m3)"
      "item_at m3 (leaf ?q v None) (Item (c_type t) s (valueint t) (valuedouble t) None [])" "loose m3 (leaf ?q v None)"
      "fresh m m3 (set (addrs (leaf ?q v None)))" "b \<longrightarrow> s = valuestring t" "\<not> b \<longrightarrow> (\<exists>a \<ge> jm_brk m. jm_fails m a)" by blast
    have run: "copy_item m (ptr L) = (if \<not> b then give_up m3 (Some ?q)
        else bind (copy_str m3 (Some ?q) np (\<lambda>q y. y\<lparr>jc_string := q\<rparr>)) (\<lambda>(ok, m).
          if \<not> ok then give_up m (Some ?q) else Inr (Some ?q, m)))"
      using n1 r1 x1 z c3(1) fx by (simp add: copy_item_def L fields_def)
    show ?thesis
    proof (cases b)
      case False
      then show ?thesis using give_up_rep [OF ok c3(2,3,4)] c3(6) run by auto
    next
      case True
      from copy_name_leaf [OF ok c3(4,2,3) P(3)] obtain b' m4 n s' where c4:
        "copy_str m3 (Some ?q) np (\<lambda>q y. y\<lparr>jc_string := q\<rparr>) = Inr (b', m4)"
        "item_at m4 (leaf ?q v n) (Item (c_type t) s (valueint t) (valuedouble t) s' [])" "loose m4 (leaf ?q v n)"
        "fresh m m4 (set (addrs (leaf ?q v n)))" "b' \<longrightarrow> s' = c_string t" "\<not> b' \<longrightarrow> (\<exists>a \<ge> jm_brk m. jm_fails m a)" by blast
      show ?thesis
      proof (cases b')
        case False
        then show ?thesis using give_up_rep [OF ok c4(2,3,4)] c4(1,6) run True by auto
      next
        case t: True
        then show ?thesis using c3(5) c4 run True by (auto simp: with_kids_def)
      qed
    qed
  qed
qed

section \<open>Copying a tree\<close>

lemma with_kids_simps [simp]: "with_kids (with_kids t ts) us = with_kids t us" "child (with_kids t ts) = ts" "with_kids t (child t) = t"
  by (cases t; simp add: with_kids_def)+

lemma copied_fail: "fresh m m' {} \<Longrightarrow> jm_brk m \<le> a \<Longrightarrow> jm_fails m a \<Longrightarrow> copied m t (None, m')"
  by (auto simp: copied_def)

lemma copied_done: "fresh m m' (set (addrs L)) \<Longrightarrow> item_at m' L t \<Longrightarrow> loose m' L \<Longrightarrow> copied m t (ptr L, m')"
  by (auto simp: copied_def)

text \<open>Both functions, by induction on the fuel they share.\<close>

definition dup_ok :: "nat \<Rightarrow> bool" where
  "dup_ok k \<longleftrightarrow> (\<forall>m L t. jmem_ok m \<longrightarrow> item_at m L t \<longrightarrow> 2 * items L \<le> k \<longrightarrow>
     (\<exists>res. duplicate k m (ptr L) True = Inr res \<and> copied m t res))"

definition kids_ok :: "nat \<Rightarrow> bool" where
  "kids_ok k \<longleftrightarrow> (\<forall>m0 m q v n Ls t ts Ks us pv. jmem_ok m0 \<longrightarrow> fresh m0 m (set (addrs (Loc q v n Ls))) \<longrightarrow>
     item_at m (Loc q v n Ls) (with_kids t ts) \<longrightarrow> loose m (Loc q v n Ls) \<longrightarrow>
     seg m0 pv (map l_addr Ks) None \<longrightarrow> list_all2 (body m0) Ks us \<longrightarrow> distinct (forest_addrs Ks) \<longrightarrow>
     2 * sum_list (map items Ks) + 1 \<le> k \<longrightarrow>
     (\<exists>res. copy_children k m (Some q) (hd_or (map l_addr Ks) None) (last_or None (map l_addr Ls)) = Inr res \<and>
        copied m0 (with_kids t (ts @ us)) res))"

lemma items_pos: "0 < items L"
  by (cases L) simp

lemma dup_step:
  assumes "kids_ok k"
  shows "dup_ok (Suc k)"
  unfolding dup_ok_def
proof (intro allI impI)
  fix m L t assume ok: "jmem_ok m" and I: "item_at m L t" and k: "2 * items L \<le> Suc k"
  obtain p vp np Ls where L: "L = Loc p vp np Ls" by (cases L)
  note P = body_parts [OF item_atD(1) [OF I, unfolded L]]
  from copy_item_rep [OF ok item_atD(1) [OF I]] obtain r m' where c: "copy_item m (ptr L) = Inr (r, m')"
    "case r of None \<Rightarrow> fresh m m' {} \<and> (\<exists>a \<ge> jm_brk m. jm_fails m a)
     | Some q \<Rightarrow> \<exists>v n. fresh m m' (set (addrs (leaf q v n))) \<and> item_at m' (leaf q v n) (with_kids t []) \<and> loose m' (leaf q v n)" by blast
  show "\<exists>res. duplicate (Suc k) m (ptr L) True = Inr res \<and> copied m t res"
  proof (cases r)
    case None
    then show ?thesis using c by (auto simp: copied_def)
  next
    case (Some q)
    then obtain v n where n: "fresh m m' (set (addrs (leaf q v n)))" "item_at m' (leaf q v n) (with_kids t [])" "loose m' (leaf q v n)"
      using c(2) by auto
    from P(1) obtain x where x: "jm_cells m p = Some x" "jc_child x = hd_or (map l_addr Ls) None" by (auto simp: fields_def)
    have x': "jm_cells m' p = Some x" using fresh_old [OF n(1) jmem_okD(3) [OF ok x(1)]] x(1) by (simp add: same_at_def)
    have "\<exists>res. copy_children k m' (Some q) (hd_or (map l_addr Ls) None) (last_or None (map l_addr [])) = Inr res \<and>
        copied m (with_kids t ([] @ child t)) res"
      using assms [unfolded kids_ok_def, rule_format, OF ok n P(4,5)] item_atD(2) [OF I] k by (simp add: L)
    then show ?thesis using c(1) Some x x' by (simp add: L)
  qed
qed


lemma fresh_loose: "loose m L \<Longrightarrow> jmem_ok m \<Longrightarrow> fresh m m' A \<Longrightarrow> loose m' L"
proof -
  assume a: "loose m L" "jmem_ok m" "fresh m m' A"
  then have "same_at m m' (l_addr L)" using fresh_old [OF a(3)] jmem_okD(3) [OF a(2)] by (auto simp: loose_def)
  with a(1) show ?thesis by (simp add: loose_def same_at_def)
qed

lemma kids_step:
  assumes "dup_ok k" "kids_ok k"
  shows "kids_ok (Suc k)"
  unfolding kids_ok_def
proof (intro allI impI)
  fix m0 m q v n Ls t ts Ks us pv
  assume ok: "jmem_ok m0" and F: "fresh m0 m (set (addrs (Loc q v n Ls)))" and I: "item_at m (Loc q v n Ls) (with_kids t ts)"
    and lo: "loose m (Loc q v n Ls)" and S: "seg m0 pv (map l_addr Ks) None" and B: "list_all2 (body m0) Ks us"
    and D: "distinct (forest_addrs Ks)" and k: "2 * sum_list (map items Ks) + 1 \<le> Suc k"
  note okm = fresh_ok [OF F]
  show "\<exists>res. copy_children (Suc k) m (Some q) (hd_or (map l_addr Ks) None) (last_or None (map l_addr Ls)) = Inr res \<and>
      copied m0 (with_kids t (ts @ us)) res"
  proof (cases Ks)
    case Nil
    then show ?thesis using B copied_done [OF F I lo] by simp
  next
    case (Cons K Ks')
    then obtain u us' where us: "us = u # us'" and BK: "body m0 K u" "list_all2 (body m0) Ks' us'" using B by (cases us) auto
    have DK: "distinct (addrs K)" "distinct (forest_addrs Ks')" using D Cons by simp_all
    have IK: "item_at m K u" using fresh_body [OF BK(1) DK(1) ok F] DK(1) by (simp add: item_at_def)
    have "2 * items K \<le> k" "2 * sum_list (map items Ks') + 1 \<le> k" using k items_pos [of K] by (simp_all add: Cons)
    note kk = this
    from assms(1) [unfolded dup_ok_def, rule_format, OF okm IK kk(1)] obtain r m1 where
      d: "duplicate k m (ptr K) True = Inr (r, m1)" "copied m u (r, m1)" by auto
    have I1: "item_at m1 (Loc q v n Ls) (with_kids t ts)" and l1: "loose m1 (Loc q v n Ls)" if "fresh m m1 A" for A
      using fresh_body [OF item_atD [OF I] okm that] item_atD(2) [OF I] fresh_loose [OF lo okm that] by (simp_all add: item_at_def)
    show ?thesis
    proof (cases r)
      case None
      with d(2) obtain a where F1: "fresh m m1 {}" and a: "a \<ge> jm_brk m" "jm_fails m a" by (auto simp: copied_def)
      have F1': "fresh m0 m1 (set (addrs (Loc q v n Ls)))" using fresh_trans [OF F F1] by simp
      from give_up_rep [OF ok I1 [OF F1] l1 [OF F1] F1'] obtain m2 where m2: "give_up m1 (Some q) = Inr (None, m2)" "fresh m0 m2 {}" by auto
      have "jm_brk m0 \<le> a" "jm_fails m0 a" using a F by (auto simp: fresh_def)
      then show ?thesis using d(1) None m2 copied_fail by (simp add: Cons)
    next
      case (Some q')
      with d(2) obtain N where N: "l_addr N = q'" "fresh m m1 (set (addrs N))" "item_at m1 N u" "loose m1 N" by (auto simp: copied_def)
      have lt: "set (addrs (Loc q v n Ls)) \<subseteq> {..< jm_brk m}" by (rule body_allocated [OF item_atD(1) [OF I] okm])
      have dis: "set (addrs (Loc q v n Ls)) \<inter> set (addrs N) = {}" using lt N(2) by (fastforce simp: fresh_def)
      let ?m2 = "linked_kid m1 q Ls q'" and ?A = "set (addrs (Loc q v n (Ls @ [N])))"
      note R = linked_kid_rep [OF I1 [OF N(2)] N(3,4) dis, unfolded N(1)]
      have run: "(if last_or None (map l_addr Ls) \<noteq> None then suffix_object m1 (last_or None (map l_addr Ls)) (Some q')
          else put_cell m1 (Some q) (\<lambda>y. y\<lparr>jc_child := Some q'\<rparr>)) = Inr ?m2"
        using linked_kid_run [OF I1 [OF N(2)] N(3,4) dis, unfolded N(1)] by (cases "Ls = []") (auto simp: last_or_def)
      have A: "set (addrs (Loc q v n Ls)) \<union> set (addrs N) = ?A" by auto
      have F2: "fresh m0 ?m2 ?A" using fresh_edits [OF fresh_trans [OF F N(2)] R(2)] unfolding A .
      have I2: "item_at ?m2 (Loc q v n (Ls @ [N])) (with_kids t (ts @ [u]))" using R(1) by simp
      have l2: "loose ?m2 (Loc q v n (Ls @ [N]))" using R(2) l1 [OF N(2)] by (simp add: loose_def edits_def)
      from S obtain x where x: "jm_cells m0 (l_addr K) = Some x" "jc_next x = hd_or (map l_addr Ks') None"
        and S': "seg m0 (ptr K) (map l_addr Ks') None" by (auto simp: Cons)
      have x2: "jm_cells ?m2 (l_addr K) = Some x" using fresh_old [OF F2 jmem_okD(3) [OF ok x(1)]] x(1) by (simp add: same_at_def)
      from assms(2) [unfolded kids_ok_def, rule_format, OF ok F2 I2 l2 S' BK(2) DK(2) kk(2)] N(1)
      obtain res where "copy_children k ?m2 (Some q) (hd_or (map l_addr Ks') None) (Some q') = Inr res" "copied m0 (with_kids t (ts @ us)) res"
        by (auto simp: us)
      moreover have "copy_children (Suc k) m (Some q) (ptr K) (last_or None (map l_addr Ls)) = copy_children k ?m2 (Some q) (jc_next x) (Some q')"
        unfolding copy_children.simps d(1) Some bind.simps prod.case option.distinct if_False run get_cell_Some [OF x2] by simp
      ultimately show ?thesis using x(2) by (simp add: Cons)
    qed
  qed
qed

lemma duplicate_rep: "dup_ok k \<and> kids_ok k"
proof (induction k)
  case 0
  have "dup_ok 0" using items_pos by (auto simp: dup_ok_def)
  moreover have "kids_ok 0" by (simp add: kids_ok_def)
  ultimately show ?case ..
next
  case (Suc k)
  then show ?case using dup_step kids_step by blast
qed

lemma cJSON_Duplicate_rep:
  assumes "jmem_ok m" "item_at m L t"
  shows "\<exists>res. cJSON_Duplicate m (ptr L) True = Inr res \<and> copied m t res"
  using duplicate_rep [THEN conjunct1, unfolded dup_ok_def, rule_format, OF assms, of "2 * jm_brk m + 2"] items_bound [OF assms(2,1)]
  by (simp add: cJSON_Duplicate_def)

end
