(* ===== verification/Cjson_Props.thy ===== *)
theory Cjson_Props
  imports Cjson_Copy
begin

text \<open>
  The properties of the tree operations of \<open>cJSON.c\<close>: each is the edit of a list of children
  that its name says, in memory without dangling links, lost or doubly released blocks.
\<close>

section \<open>Search and names\<close>

lemma body_name:
  assumes "body m K u" "jm_cells m (l_addr K) = Some x"
  shows "has_name m x key = Inr (key_matches key u)"
proof -
  obtain p v n Ls where K: "K = Loc p v n Ls" by (cases K)
  note P = body_parts [OF assms(1) [unfolded K]]
  have n: "jc_string x = n" using P(1) assms(2) by (auto simp: K fields_def)
  show ?thesis using P(3) n by (cases n; cases "c_string u") (auto simp: has_name_def key_matches_def get_str_def)
qed

lemma find_item_rep:
  assumes "seg m pv (map l_addr Ls) None" "list_all2 (body m) Ls ts" "length Ls < k"
  shows "find_item k m (hd_or (map l_addr Ls) None) key i =
    Inr (let j = length (takeWhile (\<lambda>u. \<not> key_matches key u) ts) in (hd_or (drop j (map l_addr Ls)) None, i + int j))"
  using assms
proof (induction k arbitrary: pv Ls ts i)
  case (Suc k)
  show ?case
  proof (cases Ls)
    case Nil
    then show ?thesis using Suc.prems by simp
  next
    case (Cons K Ks)
    then obtain u us where ts: "ts = u # us" "body m K u" "list_all2 (body m) Ks us" using Suc.prems(2) by (cases ts) auto
    from Suc.prems(1) obtain x where x: "jm_cells m (l_addr K) = Some x" "jc_next x = hd_or (map l_addr Ks) None"
      and S: "seg m (ptr K) (map l_addr Ks) None" by (auto simp: Cons)
    have "find_item k m (hd_or (map l_addr Ks) None) key (i + 1) =
        Inr (let j = length (takeWhile (\<lambda>u. \<not> key_matches key u) us) in (hd_or (drop j (map l_addr Ks)) None, i + 1 + int j))"
      by (rule Suc.IH [OF S ts(3)]) (use Suc.prems(3) in \<open>simp add: Cons\<close>)
    then show ?thesis using x body_name [OF ts(2) x(1)] by (simp add: Cons ts Let_def)
  qed
qed simp

lemma kids_fuel:
  assumes "item_at m (Loc p v n Ls) t" "jmem_ok m"
  shows "length Ls < walk_fuel m"
proof -
  have "length Ls \<le> sum_list (map items Ls)"
  proof (induction Ls)
    case (Cons L Ls)
    then show ?case by (cases L) simp
  qed simp
  then show ?thesis using items_bound [OF assms] by (simp add: walk_fuel_def)
qed

lemma edits_ok: "edits m m' p A \<Longrightarrow> jmem_ok m \<Longrightarrow> jmem_ok m'"
  by (simp add: edits_def)

text \<open>A list of children cut at an index, in both views.\<close>

lemma kids_at:
  assumes "item_at m (Loc p v n Ls) t" "i < length (child t)"
  obtains Ls1 K Ls2 where "Ls = Ls1 @ K # Ls2" "length Ls1 = i" "length (take i (child t)) = length Ls1"
    "child t = take i (child t) @ child t ! i # drop (Suc i) (child t)"
proof -
  have len: "length Ls = length (child t)" using body_parts(5) [OF item_atD(1) [OF assms(1)]] by (rule list_all2_lengthD)
  show ?thesis
    by (rule that [of "take i Ls" "Ls ! i" "drop (Suc i) Ls"]) (use assms(2) len in \<open>simp_all add: id_take_nth_drop [symmetric]\<close>)
qed

section \<open>Properties\<close>

text \<open>
  \<open>cJSON_Delete\<close> of an item that is in no list releases every block of its tree, the strings
  included, each once, and no other block.
\<close>

theorem cJSON_Delete_frees_all:
  assumes "jmem_ok m" and "item_at m L t" and "loose m L"
  shows "\<exists>m'. cJSON_Delete m (Some (l_addr L)) = Inr m' \<and> jmem_ok m' \<and>
    (\<forall>a. (a \<in> set (addrs L) \<longrightarrow> jm_cells m' a = None \<and> jm_strs m' a = None) \<and> (a \<notin> set (addrs L) \<longrightarrow> same_at m m' a))"
  using cJSON_Delete_rep [OF assms(1,2)] assms(1,3) jmem_ok_without same_without
  by (intro exI [of _ "without m (set (addrs L))"]) (simp add: loose_def)

text \<open>
  C19: \<open>cJSON_AddItemToObject\<close> appends an item that is in no list, and shares no block with the
  object, to the children under the given name. The blocks
  of the object are then those of the two trees, with the block of the item's old name, if it had
  one, released, and the fresh block of the new name in its place. When there is no memory for
  the name, the item is appended without one. No other block changes.
\<close>

theorem cJSON_AddItemToObject_appends:
  assumes "jmem_ok m" and "item_at m L t" and "item_at m K u" and "loose m K" and "set (addrs L) \<inter> set (addrs K) = {}"
  shows "\<exists>m' L'. cJSON_AddItemToObject m (Some (l_addr L)) key (Some (l_addr K)) = Inr m' \<and> jmem_ok m' \<and>
    l_addr L' = l_addr L \<and>
    item_at m' L' (with_kids t (child t @ [Item (c_type u) (valuestring u) (valueint u) (valuedouble u)
      (if jm_fails m (jm_brk m) then None else Some key) (child u)])) \<and>
    set (addrs L') = set (addrs L) \<union> (set (addrs K) - set_option (l_name K)) \<union> (if jm_fails m (jm_brk m) then {} else {jm_brk m}) \<and>
    (\<forall>a \<in> set_option (l_name K). jm_cells m' a = None \<and> jm_strs m' a = None) \<and>
    (\<forall>a. a \<notin> set (addrs L') \<union> set_option (l_name K) \<longrightarrow> same_at m m' a)"
proof -
  obtain p v n Ls where L: "L = Loc p v n Ls" by (cases L)
  obtain q w o' Ks where K: "K = Loc q w o' Ks" by (cases K)
  note P = body_parts [OF item_atD(1) [OF assms(3), unfolded K]] and D = item_atD(2) [OF assms(3), unfolded K]
  from P(1) obtain y where y: "jm_cells m q = Some y" "fields y (c_type u) w o' (valueint u) (valuedouble u) (hd_or (map l_addr Ks) None)" by blast
  let ?m1 = "without m (set_option o')"
  have f: "free_str m o' = Inr ?m1" by (rule free_string [OF assms(1) P(3)])
  have ok1: "jmem_ok ?m1" by (rule jmem_ok_without [OF assms(1)])
  obtain s m2 where s2: "cJSON_strdup ?m1 key = (s, m2)" by (cases "cJSON_strdup ?m1 key")
  note S = strdup_rep [OF ok1, of key, unfolded s2 fst_conv snd_conv]
  have s: "s = (if jm_fails m (jm_brk m) then None else Some (jm_brk m))" and F: "fresh ?m1 m2 (set_option s)"
    and str: "s \<noteq> None \<Longrightarrow> jm_strs m2 (jm_brk m) = Some key"
    using S by (auto split: if_splits)
  have lt: "set (addrs L) \<subseteq> {..< jm_brk m}" "set (addrs K) \<subseteq> {..< jm_brk m}"
    using body_allocated [OF item_atD(1) [OF assms(2)] assms(1)] body_allocated [OF item_atD(1) [OF assms(3)] assms(1)] .
  have snew: "set_option s \<subseteq> {jm_brk m}" using s by auto
  have old: "same_at m m2 a" if "a \<notin> set_option s" "a \<notin> set_option o'" for a
    using F that by (auto simp: fresh_def same_at_def)
  have qo: "q \<notin> set_option o'" "q \<notin> set_option s" using D lt(2) snew by (auto simp: K)
  have y2: "jm_cells m2 q = Some y" using old [OF qo(2,1)] y(1) by (simp add: same_at_def)
  let ?m3 = "upd_at m2 (Some q) (\<lambda>x. x\<lparr>jc_string := s\<rparr>)"
  have ok3: "jmem_ok ?m3" by (rule jmem_ok_upd [OF fresh_ok [OF F]])
  have same': "same_at m ?m3 a" if "a \<notin> set_option s" "a \<notin> set_option o'" "a \<noteq> q" for a
    using old [OF that(1,2)] that(3) by (simp add: same_at_def)
  have same: "same_at m ?m3 a" if "a < jm_brk m" "a \<notin> set_option o'" "a \<noteq> q" for a
    using same' that snew by auto
  let ?K = "Loc q w s Ks" and ?u = "Item (c_type u) (valuestring u) (valueint u) (valuedouble u) (if jm_fails m (jm_brk m) then None else Some key) (child u)"
  have kids: "same_at m ?m3 a" if "a \<in> set (forest_addrs Ks)" for a
    using that D lt(2) by (intro same) (auto simp: K)
  have "body ?m3 ?K ?u"
  proof -
    have "str_at ?m3 w (valuestring u)"
      by (rule str_at_cong [OF _ P(2)]) (use same D lt(2) in \<open>auto simp: K same_at_def\<close>)
    moreover have "str_at ?m3 s (if jm_fails m (jm_brk m) then None else Some key)" using s str by auto
    moreover have "seg ?m3 None (map l_addr Ks) None" by (rule forest_seg_same [OF P(4) kids])
    moreover have "list_all2 (body ?m3) Ks (child u)"
      by (rule bodies_same [OF P(5) _ kids]) (use D in auto)
    ultimately show ?thesis using y2 y(2) by (simp add: fields_def)
  qed
  moreover have "distinct (addrs ?K)" using D lt(2) snew by (auto simp: K)
  ultimately have IK: "item_at ?m3 ?K ?u" by (simp add: item_at_def)
  have lK: "loose ?m3 ?K" using assms(4) y(1) y2 by (simp add: loose_def K)
  have qL: "same_at m ?m3 a" if "a \<in> set (addrs L)" for a
    using that assms(5) lt(1) by (intro same) (auto simp: K)
  have IL: "item_at ?m3 (Loc p v n Ls) t"
    using body_same [OF item_atD [OF assms(2)] qL] item_atD(2) [OF assms(2)] by (simp add: item_at_def L)
  have dis: "set (addrs (Loc p v n Ls)) \<inter> set (addrs ?K) = {}" using assms(5) lt(1) snew by (fastforce simp: L K)
  let ?m4 = "linked_kid ?m3 p Ls q"
  note R = linked_kid_rep [OF IL IK lK dis, simplified loc.sel]
  have "cJSON_AddItemToObject m (Some p) key (Some q) = cJSON_AddItemToArray ?m3 (Some p) (Some q)"
    using y f s2 y2 by (simp add: cJSON_AddItemToObject_def fields_def put_cell_upd del: put_cell_Some)
  also have "\<dots> = Inr ?m4" using AddItemToArray_rep [OF IL IK lK dis ok3] by simp
  finally have run: "cJSON_AddItemToObject m (Some p) key (Some q) = Inr ?m4" .
  let ?L = "Loc p v n (Ls @ [?K])"
  have frame: "same_at ?m3 ?m4 a" if "a \<notin> set (addrs ?L)" for a
    using R(2) that unfolding edits_def by auto
  have all: "set (addrs ?L) = set (addrs L) \<union> (set (addrs K) - set_option o') \<union> (if jm_fails m (jm_brk m) then {} else {jm_brk m})"
    using D assms(5) s by (auto simp: L K)
  have o': "a \<in> set (addrs K)" "a \<noteq> q" "a < jm_brk m" "a \<notin> set (addrs L)" "a \<notin> set (addrs ?L)" if "a \<in> set_option o'" for a
  proof -
    show k: "a \<in> set (addrs K)" using that by (simp add: K)
    show "a \<noteq> q" using that qo(1) by blast
    show b: "a < jm_brk m" using k lt(2) by blast
    show "a \<notin> set (addrs L)" using k assms(5) by blast
    then show "a \<notin> set (addrs ?L)" unfolding all using that b by auto
  qed
  have freed: "jm_cells ?m4 a = None \<and> jm_strs ?m4 a = None" if "a \<in> set_option o'" for a
  proof -
    have "same_at ?m1 m2 a" using fresh_old [OF F] o'(3) [OF that] by simp
    then have "jm_cells ?m3 a = None \<and> jm_strs ?m3 a = None" using that o'(2) [OF that] by (simp add: same_at_def)
    then show ?thesis using frame [OF o'(5) [OF that]] by (simp only: same_at_def)
  qed
  have "same_at m ?m4 a" if "a \<notin> set (addrs ?L) \<union> set_option o'" for a
  proof -
    have "same_at m ?m3 a" by (rule same') (use that in auto)
    then show ?thesis using frame that same_at_trans by blast
  qed
  moreover have "jmem_ok ?m4" by (rule edits_ok [OF R(2) ok3])
  ultimately show ?thesis using run R(1) all freed unfolding L K loc.sel
    by (intro exI [of _ ?m4] exI [of _ ?L] conjI ballI allI impI) (assumption | rule loc.sel(1) | blast)+
qed

text \<open>
  C17: \<open>cJSON_DetachItemFromArray\<close> takes the child at the index (the first, for a negative one)
  out of the list: the neighbours are linked to each other, the rest of the tree is as it was, and
  the item is returned whole and in no list. Beyond the end it returns \<open>0\<close> and changes nothing.
\<close>

theorem cJSON_DetachItemFromArray_removes:
  assumes "item_at m L t"
  shows "if nat which < length (child t)
    then \<exists>m' L' K. cJSON_DetachItemFromArray m (Some (l_addr L)) which = Inr (Some (l_addr K), m') \<and>
      item_at m' L' (with_kids t (take (nat which) (child t) @ drop (Suc (nat which)) (child t))) \<and> l_addr L' = l_addr L \<and>
      item_at m' K (child t ! nat which) \<and> loose m' K \<and> set (addrs L') \<inter> set (addrs K) = {} \<and>
      set (addrs L) = set (addrs L') \<union> set (addrs K) \<and> edits m m' (l_addr L) (set (addrs L))
    else cJSON_DetachItemFromArray m (Some (l_addr L)) which = Inr (None, m)"
proof -
  obtain p v n Ls where L: "L = Loc p v n Ls" by (cases L)
  note I = assms [unfolded L] and P = body_parts [OF item_atD(1) [OF assms, unfolded L]]
  show ?thesis
  proof (cases "nat which < length (child t)")
    case True
    from kids_at [OF I True] obtain Ls1 K Ls2 where K: "Ls = Ls1 @ K # Ls2" "length Ls1 = nat which"
      "length (take (nat which) (child t)) = length Ls1" "child t = take (nat which) (child t) @ child t ! nat which # drop (Suc (nat which)) (child t)" .
    from DetachItemFromArray_rep [OF I [unfolded K(1)] K(4,3) K(2) [symmetric]] obtain m' where
      d: "cJSON_DetachItemFromArray m (Some p) which = Inr (ptr K, m')"
      "item_at m' (Loc p v n (Ls1 @ Ls2)) (with_kids t (take (nat which) (child t) @ drop (Suc (nat which)) (child t)))"
      "item_at m' K (child t ! nat which)" "loose m' K" "edits m m' p (set (addrs (Loc p v n (Ls1 @ K # Ls2))))" by blast
    have dis: "set (addrs (Loc p v n (Ls1 @ Ls2))) \<inter> set (addrs K) = {}" using item_atD(2) [OF I] by (auto simp: K(1))
    have un: "set (addrs L) = set (addrs (Loc p v n (Ls1 @ Ls2))) \<union> set (addrs K)" by (auto simp: L K(1))
    have e: "edits m m' p (set (addrs L))" using d(5) unfolding L K(1) .
    have "\<exists>m' L' K. cJSON_DetachItemFromArray m (Some p) which = Inr (Some (l_addr K), m') \<and>
      item_at m' L' (with_kids t (take (nat which) (child t) @ drop (Suc (nat which)) (child t))) \<and> l_addr L' = p \<and>
      item_at m' K (child t ! nat which) \<and> loose m' K \<and> set (addrs L') \<inter> set (addrs K) = {} \<and>
      set (addrs L) = set (addrs L') \<union> set (addrs K) \<and> edits m m' p (set (addrs L))"
      using d(1-4) dis un e
      by (intro exI [of _ m'] exI [of _ "Loc p v n (Ls1 @ Ls2)"] exI [of _ K] conjI) (assumption | rule loc.sel(1))+
    then show ?thesis using True by (simp only: if_True L loc.sel)
  next
    case False
    have "length Ls = length (child t)" using P(5) by (rule list_all2_lengthD)
    moreover obtain x where "jm_cells m p = Some x" "jc_child x = hd_or (map l_addr Ls) None" using P(1) by (auto simp: fields_def)
    ultimately show ?thesis using False skip_items_rep [OF P(4), of "nat which"]
      by (simp add: cJSON_DetachItemFromArray_def L)
  qed
qed

text \<open>
  C16: \<open>cJSON_DeleteItemFromObject\<close> removes the first child whose name matches, case aside, and
  releases exactly its blocks; without such a child nothing changes.
\<close>

theorem cJSON_DeleteItemFromObject_removes:
  assumes "jmem_ok m" and "item_at m L t"
  shows "let i = length (takeWhile (\<lambda>u. \<not> key_matches key u) (child t)) in
    if i < length (child t)
    then \<exists>m' L'. cJSON_DeleteItemFromObject m (Some (l_addr L)) key = Inr m' \<and> jmem_ok m' \<and>
      item_at m' L' (with_kids t (take i (child t) @ drop (Suc i) (child t))) \<and> l_addr L' = l_addr L \<and> set (addrs L') \<subseteq> set (addrs L) \<and>
      (\<forall>a. (a \<in> set (addrs L) - set (addrs L') \<longrightarrow> jm_cells m' a = None \<and> jm_strs m' a = None) \<and> (a \<notin> set (addrs L) \<longrightarrow> same_at m m' a))
    else cJSON_DeleteItemFromObject m (Some (l_addr L)) key = Inr m"
proof -
  obtain p v n Ls where L: "L = Loc p v n Ls" by (cases L)
  note I = assms(2) [unfolded L] and P = body_parts [OF item_atD(1) [OF assms(2), unfolded L]]
  let ?i = "length (takeWhile (\<lambda>u. \<not> key_matches key u) (child t))"
  have len: "length Ls = length (child t)" using P(5) by (rule list_all2_lengthD)
  obtain x where x: "jm_cells m p = Some x" "jc_child x = hd_or (map l_addr Ls) None" using P(1) by (auto simp: fields_def)
  have find: "find_item (walk_fuel m) m (jc_child x) key 0 = Inr (hd_or (drop ?i (map l_addr Ls)) None, int ?i)"
    using find_item_rep [OF P(4,5) kids_fuel [OF I assms(1)], of key 0] x(2) by (simp add: Let_def)
  show ?thesis
  proof (cases "?i < length (child t)")
    case True
    from kids_at [OF I True] obtain Ls1 K Ls2 where K: "Ls = Ls1 @ K # Ls2" "length Ls1 = ?i"
      "length (take ?i (child t)) = length Ls1" "child t = take ?i (child t) @ child t ! ?i # drop (Suc ?i) (child t)" .
    from DetachItemFromArray_rep [OF I [unfolded K(1)] K(4,3), of "int ?i"] obtain m1 where
      d: "cJSON_DetachItemFromArray m (Some p) (int ?i) = Inr (ptr K, m1)"
      "item_at m1 (Loc p v n (Ls1 @ Ls2)) (with_kids t (take ?i (child t) @ drop (Suc ?i) (child t)))"
      "item_at m1 K (child t ! ?i)" "loose m1 K" "edits m m1 p (set (addrs (Loc p v n (Ls1 @ K # Ls2))))" using K(2) by auto
    have ok1: "jmem_ok m1" by (rule edits_ok [OF d(5) assms(1)])
    let ?m' = "without m1 (set (addrs K))" and ?L = "Loc p v n (Ls1 @ Ls2)"
    have "hd_or (drop ?i (map l_addr Ls)) None = ptr K" by (simp add: K(1) K(2) [symmetric])
    then have run: "cJSON_DeleteItemFromObject m (Some p) key = Inr ?m'"
      using find x d(1) cJSON_Delete_rep [OF ok1 d(3)] d(4)
      by (simp add: cJSON_DeleteItemFromObject_def cJSON_DetachItemFromObject_def loose_def)
    have dis: "set (addrs ?L) \<inter> set (addrs K) = {}" and un: "set (addrs L) = set (addrs ?L) \<union> set (addrs K)"
      using item_atD(2) [OF I] by (auto simp: K(1) L)
    have "same_at m1 ?m' a" if "a \<in> set (addrs ?L)" for a using that dis by (intro same_without) blast
    then have "item_at ?m' ?L (with_kids t (take ?i (child t) @ drop (Suc ?i) (child t)))"
      using body_same [OF item_atD [OF d(2)]] item_atD(2) [OF d(2)] by (simp only: item_at_def)
    moreover have "jm_cells ?m' a = None \<and> jm_strs ?m' a = None" if "a \<in> set (addrs L) - set (addrs ?L)" for a
      using that un by auto
    moreover have "same_at m ?m' a" if "a \<notin> set (addrs L)" for a
      using d(5) that un same_without [of a "set (addrs K)" m1] by (auto simp: edits_def K(1) L intro: same_at_trans)
    ultimately have "\<exists>m' L'. cJSON_DeleteItemFromObject m (Some p) key = Inr m' \<and> jmem_ok m' \<and>
      item_at m' L' (with_kids t (take ?i (child t) @ drop (Suc ?i) (child t))) \<and> l_addr L' = p \<and> set (addrs L') \<subseteq> set (addrs L) \<and>
      (\<forall>a. (a \<in> set (addrs L) - set (addrs L') \<longrightarrow> jm_cells m' a = None \<and> jm_strs m' a = None) \<and> (a \<notin> set (addrs L) \<longrightarrow> same_at m m' a))"
      using run jmem_ok_without [OF ok1] un by (intro exI [of _ ?m'] exI [of _ ?L]) (simp only: loc.sel, blast)
    then show ?thesis unfolding Let_def using True by (simp only: if_True L loc.sel)
  next
    case False
    then have "hd_or (drop ?i (map l_addr Ls)) None = None" using len by simp
    then show ?thesis using False find x
      by (simp add: Let_def L cJSON_DeleteItemFromObject_def cJSON_DetachItemFromObject_def cJSON_Delete_def)
  qed
qed


text \<open>
  C18: \<open>cJSON_ReplaceItemInArray\<close> puts the new item in the place of the child at the index and
  releases every block of the old one; beyond the end it changes nothing.
\<close>

theorem cJSON_ReplaceItemInArray_replaces:
  assumes "jmem_ok m" and "item_at m L t" and "item_at m N u" and "set (addrs L) \<inter> set (addrs N) = {}"
  shows "if nat which < length (child t)
    then \<exists>m' L'. cJSON_ReplaceItemInArray m (Some (l_addr L)) which (Some (l_addr N)) = Inr m' \<and> jmem_ok m' \<and>
      item_at m' L' (with_kids t ((child t)[nat which := u])) \<and> l_addr L' = l_addr L \<and>
      (\<forall>a \<in> set (addrs L) - set (addrs L'). jm_cells m' a = None \<and> jm_strs m' a = None) \<and>
      edits m m' (l_addr L) (set (addrs L) \<union> set (addrs N))
    else cJSON_ReplaceItemInArray m (Some (l_addr L)) which (Some (l_addr N)) = Inr m"
proof -
  obtain p v n Ls where L: "L = Loc p v n Ls" by (cases L)
  note I = assms(2) [unfolded L] and P = body_parts [OF item_atD(1) [OF assms(2), unfolded L]]
  show ?thesis
  proof (cases "nat which < length (child t)")
    case True
    from kids_at [OF I True] obtain Ls1 K Ls2 where K: "Ls = Ls1 @ K # Ls2" "length Ls1 = nat which"
      "length (take (nat which) (child t)) = length Ls1" "child t = take (nat which) (child t) @ child t ! nat which # drop (Suc (nat which)) (child t)" .
    let ?L = "Loc p v n (Ls1 @ N # Ls2)"
    from ReplaceItemInArray_rep [OF I [unfolded K(1)] K(4,3) K(2) [symmetric] assms(3,1) assms(4) [unfolded L K(1)]] obtain m' where
      r: "cJSON_ReplaceItemInArray m (Some p) which (ptr N) = Inr m'"
      "item_at m' ?L (with_kids t (take (nat which) (child t) @ u # drop (Suc (nat which)) (child t)))"
      "\<forall>a \<in> set (addrs K). jm_cells m' a = None \<and> jm_strs m' a = None"
      "edits m m' p (set (addrs (Loc p v n (Ls1 @ K # Ls2))) \<union> set (addrs N))" by blast
    have u: "(child t)[nat which := u] = take (nat which) (child t) @ u # drop (Suc (nat which)) (child t)"
      using True by (rule upd_conv_take_nth_drop)
    have gone: "\<forall>a \<in> set (addrs L) - set (addrs ?L). jm_cells m' a = None \<and> jm_strs m' a = None" using r(3) by (auto simp: L K(1))
    have e: "edits m m' p (set (addrs L) \<union> set (addrs N))" using r(4) unfolding L K(1) .
    have "\<exists>m' L'. cJSON_ReplaceItemInArray m (Some p) which (Some (l_addr N)) = Inr m' \<and> jmem_ok m' \<and>
      item_at m' L' (with_kids t ((child t)[nat which := u])) \<and> l_addr L' = p \<and>
      (\<forall>a \<in> set (addrs L) - set (addrs L'). jm_cells m' a = None \<and> jm_strs m' a = None) \<and>
      edits m m' p (set (addrs L) \<union> set (addrs N))"
      using r(1) r(2) [folded u] gone e edits_ok [OF e assms(1)]
      by (intro exI [of _ m'] exI [of _ ?L] conjI) (assumption | rule loc.sel(1))+
    then show ?thesis using True by (simp only: if_True L loc.sel)
  next
    case False
    have "length Ls = length (child t)" using P(5) by (rule list_all2_lengthD)
    moreover obtain x where "jm_cells m p = Some x" "jc_child x = hd_or (map l_addr Ls) None" using P(1) by (auto simp: fields_def)
    ultimately show ?thesis using False skip_items_rep [OF P(4), of "nat which"]
      by (simp add: cJSON_ReplaceItemInArray_def L)
  qed
qed

text \<open>
  C15: \<open>cJSON_Duplicate\<close> of a tree ends, and either returns a copy of the whole tree, in blocks of
  its own and in no list, with the original and everything else as it was; or an allocation failed,
  it returns \<open>0\<close>, and the memory is what it was before: no block of the partial copy is left.
\<close>

theorem cJSON_Duplicate_copy_or_nothing:
  assumes "jmem_ok m" and "item_at m L t"
  shows "\<exists>r m'. cJSON_Duplicate m (Some (l_addr L)) True = Inr (r, m') \<and> jmem_ok m' \<and>
    (case r of
       None \<Rightarrow> (\<forall>a. same_at m m' a) \<and> (\<exists>a \<ge> jm_brk m. jm_fails m a)
     | Some q \<Rightarrow> \<exists>L'. l_addr L' = q \<and> item_at m' L' t \<and> loose m' L' \<and> item_at m' L t \<and>
         set (addrs L') \<subseteq> {jm_brk m ..< jm_brk m'} \<and> (\<forall>a. a \<notin> set (addrs L') \<longrightarrow> same_at m m' a))"
proof -
  from cJSON_Duplicate_rep [OF assms] obtain r m' where d: "cJSON_Duplicate m (ptr L) True = Inr (r, m')" "copied m t (r, m')" by auto
  show ?thesis
  proof (cases r)
    case None
    then show ?thesis using d by (auto simp: copied_def fresh_def)
  next
    case (Some q)
    with d(2) obtain L' where L': "l_addr L' = q" "fresh m m' (set (addrs L'))" "item_at m' L' t" "loose m' L'" by (auto simp: copied_def)
    have "item_at m' L t" using fresh_body [OF item_atD [OF assms(2)] assms(1) L'(2)] item_atD(2) [OF assms(2)] by (simp add: item_at_def)
    then show ?thesis using d(1) Some L' by (auto simp: fresh_def)
  qed
qed


section \<open>Arrays of numbers\<close>

lemma create_number_rep:
  assumes "INT_MIN \<le> i" "i \<le> INT_MAX" "jmem_ok m"
  shows "if jm_fails m (jm_brk m) then cJSON_CreateNumber m (of_int i) = Inr (None, m\<lparr>jm_brk := jm_brk m + 1\<rparr>)
    else \<exists>m'. cJSON_CreateNumber m (of_int i) = Inr (Some (jm_brk m), m') \<and> jm_brk m' = jm_brk m + 1 \<and>
      fresh m m' {jm_brk m} \<and> item_at m' (leaf (jm_brk m) None None) (number_item (of_int i) i) \<and> loose m' (leaf (jm_brk m) None None)"
proof (cases "jm_fails m (jm_brk m)")
  case True
  then show ?thesis by (simp add: cJSON_CreateNumber_def new_cell_def)
next
  case False
  let ?q = "jm_brk m"
  let ?x = "zero_cell\<lparr>jc_type := cJSON_Number, jc_valuedouble := of_int i, jc_valueint := i\<rparr>"
  let ?m = "m\<lparr>jm_brk := ?q + 1, jm_cells := (jm_cells m)(?q \<mapsto> ?x)\<rparr>"
  have "int_of_double (of_int i) = Inr i" using assms(1,2) by (simp add: int_of_double_def)
  then have "cJSON_CreateNumber m (of_int i) = Inr (Some ?q, ?m)" using False by (simp add: cJSON_CreateNumber_def new_cell_def)
  moreover have "jmem_ok ?m" using jmem_ok_new(1) [OF assms(3)] by simp
  then have "fresh m ?m {?q}" by (simp add: fresh_def same_at_def)
  moreover have "item_at ?m (leaf ?q None None) (number_item (of_int i) i)" "loose ?m (leaf ?q None None)"
    by (simp_all add: number_item_def leaf_at fields_def zero_cell_def loose_def)
  ultimately show ?thesis using False by auto
qed

text \<open>The loop: each number is the next child, and the first failure is followed through a null pointer.\<close>

abbreviation number_maker :: "jmem \<Rightarrow> int \<Rightarrow> (nat option \<times> jmem) res" where
  "number_maker m i \<equiv> cJSON_CreateNumber m (of_int i)"

lemma fill_turn:
  assumes ok: "jmem_ok m" and A: "item_at m (Loc a None None Ls) (list_item cJSON_Array ts)" and l: "loose m (Loc a None None Ls)"
    and i: "INT_MIN \<le> i" "i \<le> INT_MAX" and nf: "\<not> jm_fails m (jm_brk m)"
  obtains m2 where
    "\<And>is. fill_array number_maker (i # is) m (Some a) (last_or None (map l_addr Ls)) (Ls = []) = fill_array number_maker is m2 (Some a) (Some (jm_brk m)) False"
    "item_at m2 (Loc a None None (Ls @ [leaf (jm_brk m) None None])) (list_item cJSON_Array (ts @ [number_item (of_int i) i]))"
    "loose m2 (Loc a None None (Ls @ [leaf (jm_brk m) None None]))" "jmem_ok m2" "jm_brk m2 = Suc (jm_brk m)" "jm_fails m2 = jm_fails m"
    "\<And>b. b < jm_brk m \<Longrightarrow> b \<notin> set (addrs (Loc a None None Ls)) \<Longrightarrow> same_at m m2 b"
proof -
  let ?L = "Loc a None None Ls" and ?q = "jm_brk m" and ?K = "leaf (jm_brk m) None None"
  from create_number_rep [OF i ok] nf obtain m1 where
    c: "number_maker m i = Inr (Some ?q, m1)" "jm_brk m1 = jm_brk m + 1" "fresh m m1 {?q}"
      "item_at m1 ?K (number_item (of_int i) i)" "loose m1 ?K" by auto
  have lt: "set (addrs ?L) \<subseteq> {..< ?q}" by (rule body_allocated [OF item_atD(1) [OF A] ok])
  have dis: "set (addrs ?L) \<inter> set (addrs ?K) = {}" using lt by auto
  have I: "item_at m1 ?L (list_item cJSON_Array ts)"
    using fresh_body [OF item_atD [OF A] ok c(3)] item_atD(2) [OF A] by (simp only: item_at_def)
  note lo = fresh_loose [OF l ok c(3)]
  let ?m2 = "linked_kid m1 a Ls ?q"
  note R = linked_kid_rep [OF I c(4,5) dis, unfolded loc.sel]
  have link: "bind (if Ls = [] then put_cell m1 (Some a) (\<lambda>x. x\<lparr>jc_child := Some ?q\<rparr>)
      else suffix_object m1 (last_or None (map l_addr Ls)) (Some ?q)) f = f ?m2" for f
    using linked_kid_run [OF I c(4,5) dis] by (cases "Ls = []") simp_all
  show thesis
  proof (rule that [of ?m2])
    show "fill_array number_maker (i # is) m (Some a) (last_or None (map l_addr Ls)) (Ls = []) = fill_array number_maker is ?m2 (Some a) (Some ?q) False" for "is"
      by (simp only: fill_array.simps c(1) bind.simps prod.case link)
    show "item_at ?m2 (Loc a None None (Ls @ [?K])) (list_item cJSON_Array (ts @ [number_item (of_int i) i]))"
      using R(1) by (simp add: with_kids_def list_item_def)
    show "loose ?m2 (Loc a None None (Ls @ [?K]))" using R(2) lo by (simp add: loose_def edits_def)
    show "jmem_ok ?m2" by (rule edits_ok [OF R(2) fresh_ok [OF c(3)]])
    show "jm_brk ?m2 = Suc ?q" "jm_fails ?m2 = jm_fails m" using R(2) c(2,3) by (simp_all add: edits_def fresh_def)
    show "same_at m ?m2 b" if "b < ?q" "b \<notin> set (addrs ?L)" for b
      using fresh_old [OF c(3) that(1)] R(2) that by (auto simp: edits_def intro: same_at_trans)
  qed
qed

lemma fill_array_rep:
  assumes "jmem_ok m" "item_at m (Loc a None None Ls) (list_item cJSON_Array ts)" "loose m (Loc a None None Ls)"
    "\<forall>i \<in> set is. INT_MIN \<le> i \<and> i \<le> INT_MAX" "\<forall>j < length is. \<not> jm_fails m (jm_brk m + j)"
  shows "\<exists>m' Ls'. fill_array number_maker is m (Some a) (last_or None (map l_addr Ls)) (Ls = []) = Inr m' \<and>
    item_at m' (Loc a None None (Ls @ Ls')) (list_item cJSON_Array (ts @ map (\<lambda>i. number_item (of_int i) i) is)) \<and>
    loose m' (Loc a None None (Ls @ Ls')) \<and> jmem_ok m' \<and>
    (\<forall>b < jm_brk m. b \<notin> set (addrs (Loc a None None Ls)) \<longrightarrow> same_at m m' b)"
  using assms
proof (induction "is" arbitrary: m Ls ts)
  case Nil
  then show ?case by (intro exI [of _ m] exI [of _ "[]"]) (simp add: same_at_def)
next
  case (Cons i "is")
  let ?K = "leaf (jm_brk m) None None"
  have "INT_MIN \<le> i" "i \<le> INT_MAX" "\<not> jm_fails m (jm_brk m)" using Cons.prems(4,5) by auto
  then obtain m2 where t: "\<And>is. fill_array number_maker (i # is) m (Some a) (last_or None (map l_addr Ls)) (Ls = []) = fill_array number_maker is m2 (Some a) (Some (jm_brk m)) False"
    "item_at m2 (Loc a None None (Ls @ [?K])) (list_item cJSON_Array (ts @ [number_item (of_int i) i]))"
    "loose m2 (Loc a None None (Ls @ [?K]))" "jmem_ok m2" "jm_brk m2 = Suc (jm_brk m)" "jm_fails m2 = jm_fails m"
    "\<And>b. b < jm_brk m \<Longrightarrow> b \<notin> set (addrs (Loc a None None Ls)) \<Longrightarrow> same_at m m2 b"
    by (rule fill_turn [OF Cons.prems(1-3)]) (rule that)
  have nf: "\<forall>j < length is. \<not> jm_fails m2 (jm_brk m2 + j)" using Cons.prems(5) unfolding t(5,6) by auto
  from Cons.IH [OF t(4,2,3) _ nf] Cons.prems(4) obtain m' Ls' where r:
    "fill_array number_maker is m2 (Some a) (Some (jm_brk m)) False = Inr m'"
    "item_at m' (Loc a None None ((Ls @ [?K]) @ Ls')) (list_item cJSON_Array ((ts @ [number_item (of_int i) i]) @ map (\<lambda>i. number_item (of_int i) i) is))"
    "loose m' (Loc a None None ((Ls @ [?K]) @ Ls'))" "jmem_ok m'"
    "\<forall>b < jm_brk m2. b \<notin> set (addrs (Loc a None None (Ls @ [?K]))) \<longrightarrow> same_at m2 m' b" by auto
  have "same_at m m' b" if "b < jm_brk m" "b \<notin> set (addrs (Loc a None None Ls))" for b
    using t(7) [OF that] r(5) that t(5) by (auto intro: same_at_trans)
  then show ?case unfolding t(1) using r(1-4) by (intro exI [of _ m'] exI [of _ "?K # Ls'"]) simp
qed

lemma fill_array_fails:
  assumes "jmem_ok m" "item_at m (Loc a None None Ls) (list_item cJSON_Array ts)" "loose m (Loc a None None Ls)"
    "\<forall>i \<in> set is. INT_MIN \<le> i \<and> i \<le> INT_MAX" "j < length is" "jm_fails m (jm_brk m + j)" "Ls \<noteq> [] \<or> 1 < length is"
  shows "fill_array number_maker is m (Some a) (last_or None (map l_addr Ls)) (Ls = []) = Inl Null_Deref"
  using assms
proof (induction "is" arbitrary: m Ls ts j)
  case (Cons i "is")
  let ?K = "leaf (jm_brk m) None None"
  note P = body_parts [OF item_atD(1) [OF Cons.prems(2)]]
  from P(1) obtain x where x: "jm_cells m a = Some x" by blast
  have range: "INT_MIN \<le> i" "i \<le> INT_MAX" using Cons.prems(4) by auto
  have null: "suffix_object m' None q = Inl Null_Deref" for m' q by (simp add: suffix_object_def put_cell_def)
  show ?case
  proof (cases "jm_fails m (jm_brk m)")
    case True
    let ?m1 = "m\<lparr>jm_brk := jm_brk m + 1\<rparr>"
    have c: "number_maker m i = Inr (None, ?m1)" using create_number_rep [OF range Cons.prems(1)] True by simp
    show ?thesis
    proof (cases "Ls = []")
      case False
      then obtain b where b: "last_or None (map l_addr Ls) = Some b" by (simp add: last_or_def)
      have "jm_cells ?m1 b \<noteq> None" using seg_cells [OF P(4) ends_in(1) [OF b]] by simp
      then have "suffix_object ?m1 (Some b) None = Inl Null_Deref" by (auto simp: suffix_object_def put_cell_def)
      then show ?thesis using c False b by simp
    next
      case True
      then obtain i' is' where is': "is = i' # is'" using Cons.prems(7) by (cases "is") auto
      let ?m2 = "m\<lparr>jm_brk := jm_brk m + 1, jm_cells := (jm_cells m)(a \<mapsto> x\<lparr>jc_child := None\<rparr>)\<rparr>"
      have "jmem_ok ?m2" using Cons.prems(1) x jmem_okD(1,3) [OF Cons.prems(1) x] by (auto simp: jmem_ok_def)
      then obtain n m3 where "number_maker ?m2 i' = Inr (n, m3)"
        using create_number_rep [of i' ?m2] Cons.prems(4) is' by (auto split: if_splits)
      then show ?thesis using c True x is' null by simp
    qed
  next
    case False
    then obtain j' where j': "j = Suc j'" using Cons.prems(6) by (cases j) auto
    obtain m2 where t: "\<And>is. fill_array number_maker (i # is) m (Some a) (last_or None (map l_addr Ls)) (Ls = []) = fill_array number_maker is m2 (Some a) (Some (jm_brk m)) False"
      "item_at m2 (Loc a None None (Ls @ [?K])) (list_item cJSON_Array (ts @ [number_item (of_int i) i]))"
      "loose m2 (Loc a None None (Ls @ [?K]))" "jmem_ok m2" "jm_brk m2 = Suc (jm_brk m)" "jm_fails m2 = jm_fails m"
      by (rule fill_turn [OF Cons.prems(1-3) range False]) (rule that)
    have "jm_fails m2 (jm_brk m2 + j')" using Cons.prems(6) unfolding t(5,6) j' by simp
    from Cons.IH [OF t(4,2,3) _ _ this] Cons.prems(4,5) j' show ?thesis unfolding t(1) by simp
  qed
qed simp

text \<open>
  C20: \<open>cJSON_CreateIntArray\<close> builds the array of the numbers in order, in no list. When there is
  no memory for the array it returns \<open>0\<close>; when there is none for one of its elements, the null
  pointer that \<open>cJSON_CreateNumber\<close> returns is dereferenced, unless it is the only element.
\<close>

theorem cJSON_CreateIntArray_builds:
  assumes "jmem_ok m" and "\<forall>i \<in> set is. INT_MIN \<le> i \<and> i \<le> INT_MAX"
  shows "(jm_fails m (jm_brk m) \<longrightarrow> (\<exists>m'. cJSON_CreateIntArray m is = Inr (None, m') \<and> (\<forall>a. same_at m m' a)))
    \<and> ((\<forall>j \<le> length is. \<not> jm_fails m (jm_brk m + j)) \<longrightarrow>
        (\<exists>m' L. cJSON_CreateIntArray m is = Inr (Some (l_addr L), m') \<and> jmem_ok m' \<and> loose m' L \<and>
           item_at m' L (list_item cJSON_Array (map (\<lambda>i. number_item (of_int i) i) is)) \<and> (\<forall>a < jm_brk m. same_at m m' a)))
    \<and> (\<not> jm_fails m (jm_brk m) \<and> (\<exists>j < length is. jm_fails m (jm_brk m + 1 + j)) \<and> 1 < length is \<longrightarrow>
        cJSON_CreateIntArray m is = Inl Null_Deref)"
proof -
  let ?q = "jm_brk m"
  let ?m = "m\<lparr>jm_brk := Suc ?q, jm_cells := (jm_cells m)(?q \<mapsto> zero_cell\<lparr>jc_type := cJSON_Array\<rparr>)\<rparr>"
  have ok: "jmem_ok ?m" using jmem_ok_new(1) [OF assms(1)] by simp
  have A: "item_at ?m (Loc ?q None None []) (list_item cJSON_Array [])" "loose ?m (Loc ?q None None [])"
    by (simp_all add: list_item_def leaf_at fields_def zero_cell_def loose_def)
  have run: "cJSON_CreateIntArray m is = bind (fill_array number_maker is ?m (Some ?q) None True) (\<lambda>m. Inr (Some ?q, m))"
    if "\<not> jm_fails m ?q" using that
    by (simp add: cJSON_CreateIntArray_def create_array_of_def cJSON_CreateArray_def create_item_def new_cell_def put_if_def)
  have 1: "\<exists>m'. cJSON_CreateIntArray m is = Inr (None, m') \<and> (\<forall>a. same_at m m' a)" if "jm_fails m ?q"
    using that by (simp add: cJSON_CreateIntArray_def create_array_of_def cJSON_CreateArray_def create_item_def new_cell_def put_if_def same_at_def)
  have 2: "\<exists>m' L. cJSON_CreateIntArray m is = Inr (Some (l_addr L), m') \<and> jmem_ok m' \<and> loose m' L \<and>
      item_at m' L (list_item cJSON_Array (map (\<lambda>i. number_item (of_int i) i) is)) \<and> (\<forall>a < ?q. same_at m m' a)"
    if nf: "\<forall>j \<le> length is. \<not> jm_fails m (?q + j)"
  proof -
    have "\<not> jm_fails m ?q" using nf [rule_format, of 0] by simp
    have nf': "\<forall>j < length is. \<not> jm_fails ?m (jm_brk ?m + j)" using nf [rule_format, of "Suc j" for j] by auto
    from fill_array_rep [OF ok A assms(2) nf'] obtain m' Ls where
      "fill_array number_maker is ?m (Some ?q) None True = Inr m'" "item_at m' (Loc ?q None None Ls) (list_item cJSON_Array (map (\<lambda>i. number_item (of_int i) i) is))"
      "loose m' (Loc ?q None None Ls)" "jmem_ok m'" "\<forall>b < Suc ?q. b \<noteq> ?q \<longrightarrow> same_at ?m m' b" by auto
    then show ?thesis using run [OF \<open>\<not> jm_fails m ?q\<close>]
      by (intro exI [of _ m'] exI [of _ "Loc ?q None None Ls"]) (auto simp: same_at_def)
  qed
  have 3: "cJSON_CreateIntArray m is = Inl Null_Deref" if "\<not> jm_fails m ?q" "j < length is" "jm_fails m (?q + 1 + j)" "1 < length is" for j
    using fill_array_fails [OF ok A assms(2) that(2)] that run by simp
  show ?thesis using 1 2 3 by blast
qed


section \<open>Witnesses\<close>

text \<open>An object with one number under the name \<open>a\<close>, and a number in no list.\<close>

definition number_cell :: "int \<Rightarrow> nat option \<Rightarrow> jcell" where
  "number_cell i s = zero_cell\<lparr>jc_type := cJSON_Number, jc_valueint := i, jc_valuedouble := of_int i, jc_string := s\<rparr>"

definition sample :: jmem where
  "sample = \<lparr>jm_cells = [0 \<mapsto> zero_cell\<lparr>jc_type := cJSON_Object, jc_child := Some 1\<rparr>, 1 \<mapsto> number_cell 7 (Some 2), 3 \<mapsto> number_cell 8 None],
     jm_strs = [2 \<mapsto> ''a''], jm_brk = 4, jm_fails = (\<lambda>_. False)\<rparr>"

definition sample_object :: loc where "sample_object = Loc 0 None None [leaf 1 None (Some 2)]"

definition sample_tree :: cJSON where "sample_tree = list_item cJSON_Object [name_item ''a'' (number_item 7 7)]"

lemma sample_facts:
  "jmem_ok sample" "item_at sample sample_object sample_tree" "loose sample sample_object"
  "item_at sample (leaf 3 None None) (number_item 8 8)" "loose sample (leaf 3 None None)"
  "set (addrs sample_object) \<inter> set (addrs (leaf 3 None None)) = {}" "l_addr sample_object = 0" "set (addrs sample_object) = {0, 1, 2}"
  "child sample_tree = [name_item ''a'' (number_item 7 7)]" "\<not> jm_fails sample a"
  by (auto simp: jmem_ok_def sample_def sample_object_def sample_tree_def number_cell_def zero_cell_def item_at_def fields_def
      list_item_def name_item_def number_item_def loose_def)

theorem cJSON_Delete_frees_all_witness:
  "\<exists>m'. cJSON_Delete sample (Some 0) = Inr m' \<and> jm_strs m' 2 = None \<and> same_at sample m' 3"
  using cJSON_Delete_frees_all [OF sample_facts(1-3)] unfolding sample_facts(7,8) by auto

text \<open>The same with the number named \<open>x\<close>.\<close>

definition named_sample :: jmem where
  "named_sample = sample\<lparr>jm_cells := (jm_cells sample)(3 \<mapsto> number_cell 8 (Some 4)), jm_strs := (jm_strs sample)(4 \<mapsto> ''x''), jm_brk := 5\<rparr>"

lemma named_sample_facts:
  "jmem_ok named_sample" "item_at named_sample sample_object sample_tree"
  "item_at named_sample (leaf 3 None (Some 4)) (name_item ''x'' (number_item 8 8))" "loose named_sample (leaf 3 None (Some 4))"
  "set (addrs sample_object) \<inter> set (addrs (leaf 3 None (Some 4))) = {}" "\<not> jm_fails named_sample a" "jm_brk named_sample = 5"
  by (auto simp: jmem_ok_def named_sample_def sample_def sample_object_def sample_tree_def number_cell_def zero_cell_def
      item_at_def fields_def list_item_def name_item_def number_item_def loose_def)

theorem cJSON_AddItemToObject_appends_witness:
  "\<exists>m' L'. cJSON_AddItemToObject named_sample (Some 0) ''b'' (Some 3) = Inr m' \<and> item_at m' L' (list_item cJSON_Object
     [name_item ''a'' (number_item 7 7), name_item ''b'' (number_item 8 8)]) \<and> set (addrs L') = {0, 1, 2, 3, 5} \<and> jm_strs m' 4 = None"
proof -
  from cJSON_AddItemToObject_appends [OF named_sample_facts(1-5), of "''b''"] obtain m' L' where
    r: "cJSON_AddItemToObject named_sample (Some 0) ''b'' (Some 3) = Inr m'" "jm_strs m' 4 = None"
    and t: "item_at m' L' (list_item cJSON_Object [name_item ''a'' (number_item 7 7), name_item ''b'' (number_item 8 8)])"
    and b: "set (addrs L') = {0, 1, 2} \<union> ({3, 4} - {4}) \<union> {5}"
    by (auto simp: sample_facts(7,8) named_sample_facts(6,7) sample_tree_def with_kids_def list_item_def name_item_def number_item_def)
  have "set (addrs L') = {0, 1, 2, 3, 5}" unfolding b by auto
  with r t show ?thesis by blast
qed

theorem cJSON_DetachItemFromArray_removes_witness:
  "(\<exists>m' L' K. cJSON_DetachItemFromArray sample (Some 0) 0 = Inr (Some (l_addr K), m') \<and>
     item_at m' L' (list_item cJSON_Object []) \<and> loose m' K)"
  using cJSON_DetachItemFromArray_removes [OF sample_facts(2), of 0]
  by (auto simp: sample_facts(7) sample_tree_def with_kids_def list_item_def)

theorem cJSON_DeleteItemFromObject_removes_witness:
  "\<exists>m' L'. cJSON_DeleteItemFromObject sample (Some 0) ''A'' = Inr m' \<and> item_at m' L' (list_item cJSON_Object []) \<and> same_at sample m' 3"
proof -
  have k: "key_matches ''A'' (name_item ''a'' (number_item 7 7))" by code_simp
  show ?thesis
    using cJSON_DeleteItemFromObject_removes [OF sample_facts(1,2), of "''A''"] k
    by (auto simp: sample_facts(7,8,9) with_kids_def sample_tree_def list_item_def)
qed

theorem cJSON_ReplaceItemInArray_replaces_witness:
  "\<exists>m' L'. cJSON_ReplaceItemInArray sample (Some 0) 0 (Some 3) = Inr m' \<and> item_at m' L' (list_item cJSON_Object [number_item 8 8])"
  using cJSON_ReplaceItemInArray_replaces [OF sample_facts(1,2,4,6), of 0]
  by (auto simp: sample_facts(7) sample_tree_def with_kids_def list_item_def)

theorem cJSON_Duplicate_copy_or_nothing_witness:
  "\<exists>q m' L'. cJSON_Duplicate sample (Some 0) True = Inr (Some q, m') \<and> l_addr L' = q \<and> item_at m' L' sample_tree \<and>
     item_at m' sample_object sample_tree \<and> q \<noteq> 0"
proof -
  from cJSON_Duplicate_copy_or_nothing [OF sample_facts(1,2)] sample_facts(10) obtain q m' L' where
    d: "cJSON_Duplicate sample (Some (l_addr sample_object)) True = Inr (Some q, m')" "l_addr L' = q" "item_at m' L' sample_tree"
    "item_at m' sample_object sample_tree" "set (addrs L') \<subseteq> {jm_brk sample ..< jm_brk m'}"
    by (auto split: option.splits)
  have "q \<in> set (addrs L')" using d(2) addr_in_addrs by blast
  then have "q \<noteq> 0" using d(5) by (auto simp: sample_def)
  with d(1-4) show ?thesis unfolding sample_facts(7) by blast
qed

theorem cJSON_CreateIntArray_builds_witness:
  "\<exists>m' L. cJSON_CreateIntArray sample [5, - 6] = Inr (Some (l_addr L), m') \<and>
     item_at m' L (list_item cJSON_Array [number_item 5 5, number_item (- 6) (- 6)])"
  using cJSON_CreateIntArray_builds [OF sample_facts(1), of "[5, - 6]"] sample_facts(10) by (auto simp: INT_MIN_def INT_MAX_def)

end
