(* ===== verification/Server_State.thy ===== *)
theory Server_State
  imports Dev_Info Video_Pump Url_Code Cjson
begin

text \<open>
  The state of the running server: the heap of devices, clients, waiting clients, callback
  arguments and bufferevents, the device list \<open>listDevList\<close> and the lock \<open>rwlockMyLock\<close>
  (\<open>src/inc/dev_list.h\<close>, \<open>src/inc/libevent_server.h\<close>), and what the code uses of libevent,
  SQLite and FFmpeg. Of a bufferevent the model keeps what the program sets and reads: its
  buffers, its callbacks and their argument, what is enabled, the peer it connects to. When a
  callback fires is left to the step relation of Server_Step.

  Pointers are addresses of one allocator, handed out once. Dereferencing \<open>NULL\<close> or freed
  memory is a fault.
\<close>

section \<open>Callbacks and bufferevents\<close>

datatype read_cb = Deal_Client_Cmd | Read_Sdp_Basic | Read_Sdp_Digest | Deal_Write_Ok

datatype event_cb = Cmd_Error_Cb1 | Cmd_Error_Cb2 | Active_Connect | Connect_Rtsp | Send_Rtsp_Error | Send_To_Push

text \<open>The \<open>void *arg\<close>: a device, a \<open>LIBEVENT_ARGS_DEV_OBJ\<close>, or a buffer on a stack frame that is gone.\<close>

datatype cb_arg = No_Arg | Arg_Dev nat | Arg_Msg nat | Arg_Stack

datatype bev_what = BEV_EVENT_CONNECTED | BEV_EVENT_EOF | BEV_EVENT_ERROR | BEV_EVENT_TIMEOUT

record bev =
  b_in :: "char list"
  b_out :: "char list"
  b_read :: "read_cb option"
  b_event :: "event_cb option"
  b_arg :: cb_arg
  b_en_read :: bool
  b_en_write :: bool
  b_peer :: "(char list \<times> nat) option"
  b_open :: bool

text \<open>\<open>bufferevent_socket_new\<close>: writing is enabled, reading is not, nothing is set.\<close>

definition socket_new :: bev where
  "socket_new = \<lparr>b_in = [], b_out = [], b_read = None, b_event = None, b_arg = No_Arg,
     b_en_read = False, b_en_write = True, b_peer = None, b_open = False\<rparr>"

section \<open>The heap\<close>

text \<open>
  A device with its two lists; \<open>LIBEVENT_ARGS_DEV_OBJ\<close>; a video thread, by the point it has
  reached: not yet run, at the head of its loop (the two stream indices and \<open>iIFlag\<close>), in front
  of the lock with a packet for the clients it has counted (\<open>iClientNum\<close>), in front of the lock
  at \<open>End\<close>.
\<close>

record dev_node =
  n_dev :: DEV_LIST
  n_rtsp :: "(nat, unit) list_t"
  n_wait :: "(nat, unit) list_t"

record LIBEVENT_ARGS_DEV =
  a_pDevNode :: "nat option"
  a_pClientNode :: "nat option"

datatype thread_phase =
    Created
  | Streaming int int int
  | Sending int int int AVPacket nat
  | Ending

record video_thread =
  t_dev :: nat
  t_phase :: thread_phase

record server =
  s_devlist :: "(nat, DEV_INFO) list_t"
  s_devs :: "nat \<Rightarrow> dev_node option"
  s_clients :: "nat \<Rightarrow> CLIENT_LIST option"
  s_waits :: "nat \<Rightarrow> nat option"
  s_args :: "nat \<Rightarrow> LIBEVENT_ARGS_DEV option"
  s_bevs :: "nat \<Rightarrow> bev option"
  s_threads :: "nat \<Rightarrow> video_thread option"
  s_locked :: bool
  s_brk :: nat

text \<open>\<open>main\<close> up to the event loop: an empty device list, the lock, nothing else.\<close>

definition server_init :: server where
  "server_init = \<lparr>s_devlist = list_init, s_devs = Map.empty, s_clients = Map.empty, s_waits = Map.empty,
     s_args = Map.empty, s_bevs = Map.empty, s_threads = Map.empty, s_locked = False, s_brk = 0\<rparr>"

text \<open>What the program takes from outside: SQLite's answer to a statement (the rows handed to the
  callback, then \<open>SQLITE_OK\<close> or the message), FFmpeg's streams of a URL over TCP or UDP, the
  bytes an \<open>MD5_CTX\<close> starts with, and what a read through the pointer into the destroyed RTSP
  parser finds where the header value was.\<close>

datatype db_result = Db_Open_Failed | Db_Exec "char list option list list" "char list option"

datatype codec_type = Codec_Video | Codec_Audio | Codec_Other

record env =
  e_rtsp :: rtsp_env
  e_junk :: "u8 list"
  e_stale :: "char list \<Rightarrow> char list res"
  e_db :: "char list \<Rightarrow> db_result"
  e_open :: "char list \<Rightarrow> bool \<Rightarrow> codec_type list option"

section \<open>Memory\<close>

definition lookup :: "(nat \<Rightarrow> 'v option) \<Rightarrow> nat \<Rightarrow> 'v res" where
  "lookup h a = (case h a of None \<Rightarrow> Inl Use_After_Free | Some v \<Rightarrow> Inr v)"

definition non_null :: "'p option \<Rightarrow> 'p res" where
  "non_null p = (case p of None \<Rightarrow> Inl Null_Deref | Some a \<Rightarrow> Inr a)"

definition set_dev :: "nat \<Rightarrow> dev_node \<Rightarrow> server \<Rightarrow> server" where
  "set_dev d n s = s\<lparr>s_devs := (s_devs s)(d \<mapsto> n)\<rparr>"

definition free_dev :: "nat \<Rightarrow> server \<Rightarrow> server res" where
  "free_dev d s = bind (lookup (s_devs s) d) (\<lambda>_. Inr (s\<lparr>s_devs := (s_devs s)(d := None)\<rparr>))"

definition set_client :: "nat \<Rightarrow> CLIENT_LIST \<Rightarrow> server \<Rightarrow> server" where
  "set_client c v s = s\<lparr>s_clients := (s_clients s)(c \<mapsto> v)\<rparr>"

definition free_client :: "nat \<Rightarrow> server \<Rightarrow> server res" where
  "free_client c s = bind (lookup (s_clients s) c) (\<lambda>_. Inr (s\<lparr>s_clients := (s_clients s)(c := None)\<rparr>))"

definition set_arg :: "nat \<Rightarrow> LIBEVENT_ARGS_DEV \<Rightarrow> server \<Rightarrow> server" where
  "set_arg a v s = s\<lparr>s_args := (s_args s)(a \<mapsto> v)\<rparr>"

definition free_arg :: "nat \<Rightarrow> server \<Rightarrow> server res" where
  "free_arg a s = bind (lookup (s_args s) a) (\<lambda>_. Inr (s\<lparr>s_args := (s_args s)(a := None)\<rparr>))"

definition set_bev :: "nat \<Rightarrow> bev \<Rightarrow> server \<Rightarrow> server" where
  "set_bev b v s = s\<lparr>s_bevs := (s_bevs s)(b \<mapsto> v)\<rparr>"

definition malloc_dev :: "dev_node \<Rightarrow> server \<Rightarrow> nat \<times> server" where
  "malloc_dev n s = (s_brk s, s\<lparr>s_devs := (s_devs s)(s_brk s \<mapsto> n), s_brk := s_brk s + 1\<rparr>)"

definition malloc_client :: "CLIENT_LIST \<Rightarrow> server \<Rightarrow> nat \<times> server" where
  "malloc_client v s = (s_brk s, s\<lparr>s_clients := (s_clients s)(s_brk s \<mapsto> v), s_brk := s_brk s + 1\<rparr>)"

definition malloc_wait :: "nat \<Rightarrow> server \<Rightarrow> nat \<times> server" where
  "malloc_wait b s = (s_brk s, s\<lparr>s_waits := (s_waits s)(s_brk s \<mapsto> b), s_brk := s_brk s + 1\<rparr>)"

definition malloc_arg :: "LIBEVENT_ARGS_DEV \<Rightarrow> server \<Rightarrow> nat \<times> server" where
  "malloc_arg v s = (s_brk s, s\<lparr>s_args := (s_args s)(s_brk s \<mapsto> v), s_brk := s_brk s + 1\<rparr>)"

definition bufferevent_new :: "bev \<Rightarrow> server \<Rightarrow> nat \<times> server" where
  "bufferevent_new v s = (s_brk s, s\<lparr>s_bevs := (s_bevs s)(s_brk s \<mapsto> v), s_brk := s_brk s + 1\<rparr>)"

definition pthread_create :: "nat \<Rightarrow> server \<Rightarrow> server" where
  "pthread_create d s = s\<lparr>s_threads := (s_threads s)(s_brk s \<mapsto> \<lparr>t_dev = d, t_phase = Created\<rparr>), s_brk := s_brk s + 1\<rparr>"

section \<open>libevent\<close>

definition on_bev :: "nat \<Rightarrow> (bev \<Rightarrow> bev) \<Rightarrow> server \<Rightarrow> server res" where
  "on_bev b f s = bind (lookup (s_bevs s) b) (\<lambda>v. Inr (set_bev b (f v) s))"

definition bufferevent_free :: "nat \<Rightarrow> server \<Rightarrow> server res" where
  "bufferevent_free b s = bind (lookup (s_bevs s) b) (\<lambda>_. Inr (s\<lparr>s_bevs := (s_bevs s)(b := None)\<rparr>))"

definition bufferevent_write :: "char list \<Rightarrow> bev \<Rightarrow> bev" where
  "bufferevent_write bs v = v\<lparr>b_out := b_out v @ bs\<rparr>"

definition bufferevent_setcb :: "read_cb option \<Rightarrow> event_cb option \<Rightarrow> cb_arg \<Rightarrow> bev \<Rightarrow> bev" where
  "bufferevent_setcb r e a v = v\<lparr>b_read := r, b_event := e, b_arg := a\<rparr>"

definition enable_read :: "bool \<Rightarrow> bev \<Rightarrow> bev" where "enable_read x v = v\<lparr>b_en_read := x\<rparr>"
definition enable_write :: "bool \<Rightarrow> bev \<Rightarrow> bev" where "enable_write x v = v\<lparr>b_en_write := x\<rparr>"

definition disable_both :: "bev \<Rightarrow> bev" where
  "disable_both v = enable_write False (enable_read False v)"

text \<open>\<open>sin_port = htons(port)\<close>, \<open>inet_pton\<close> and \<open>bufferevent_socket_connect\<close>.\<close>

definition socket_connect :: "char list \<Rightarrow> int \<Rightarrow> bev \<Rightarrow> bev" where
  "socket_connect ip port v = v\<lparr>b_peer := Some (ip, nat (port mod 65536))\<rparr>"

section \<open>The lock\<close>

text \<open>
  \<open>pthread_rwlock_wrlock\<close> by a thread that already holds the lock does not return (POSIX lets
  it deadlock or fail; the code never looks at the result).
\<close>

definition wrlock :: "server \<Rightarrow> server res" where
  "wrlock s = (if s_locked s then Inl Diverges else Inr (s\<lparr>s_locked := True\<rparr>))"

definition unlock :: "server \<Rightarrow> server" where "unlock s = s\<lparr>s_locked := False\<rparr>"

section \<open>The lists\<close>

text \<open>
  \<open>list_append\<close> and \<open>list_delete\<close> on the lists of a device and on \<open>listDevList\<close>. A list of
  zero bytes (never initialised) has size 0, and every operation that follows its links faults.
\<close>

definition zero_list :: "('a, 'k) list_t" where
  "zero_list = list_init\<lparr>l_heap := Map.empty\<rparr>"

definition append_rtsp :: "nat \<Rightarrow> nat \<Rightarrow> server \<Rightarrow> server res" where
  "append_rtsp d c s =
     bind (lookup (s_devs s) d) (\<lambda>n.
     bind (list_append True (n_rtsp n) (Some c)) (\<lambda>(l, _). Inr (set_dev d (n\<lparr>n_rtsp := l\<rparr>) s)))"

definition delete_rtsp :: "nat \<Rightarrow> nat option \<Rightarrow> server \<Rightarrow> server res" where
  "delete_rtsp d c s =
     bind (lookup (s_devs s) d) (\<lambda>n.
     bind (list_delete (n_rtsp n) c) (\<lambda>(l, _). Inr (set_dev d (n\<lparr>n_rtsp := l\<rparr>) s)))"

definition destroy_rtsp :: "nat \<Rightarrow> server \<Rightarrow> server res" where
  "destroy_rtsp d s =
     bind (lookup (s_devs s) d) (\<lambda>n.
     bind (list_destroy (n_rtsp n)) (\<lambda>l. Inr (set_dev d (n\<lparr>n_rtsp := l\<rparr>) s)))"

definition append_wait :: "nat \<Rightarrow> nat \<Rightarrow> server \<Rightarrow> server res" where
  "append_wait d w s =
     bind (lookup (s_devs s) d) (\<lambda>n.
     bind (list_append True (n_wait n) (Some w)) (\<lambda>(l, _). Inr (set_dev d (n\<lparr>n_wait := l\<rparr>) s)))"

definition destroy_wait :: "nat \<Rightarrow> server \<Rightarrow> server res" where
  "destroy_wait d s =
     bind (lookup (s_devs s) d) (\<lambda>n.
     bind (list_destroy (n_wait n)) (\<lambda>l. Inr (set_dev d (n\<lparr>n_wait := l\<rparr>) s)))"

definition append_dev :: "nat \<Rightarrow> server \<Rightarrow> server res" where
  "append_dev d s =
     bind (list_append True (s_devlist s) (Some d)) (\<lambda>(l, _). Inr (s\<lparr>s_devlist := l\<rparr>))"

definition delete_dev :: "nat \<Rightarrow> server \<Rightarrow> server res" where
  "delete_dev d s =
     bind (list_delete (s_devlist s) (Some d)) (\<lambda>(l, _). Inr (s\<lparr>s_devlist := l\<rparr>))"

definition rtsp_size :: "nat \<Rightarrow> server \<Rightarrow> nat res" where
  "rtsp_size d s = bind (lookup (s_devs s) d) (\<lambda>n. Inr (list_size (n_rtsp n)))"

definition wait_size :: "nat \<Rightarrow> server \<Rightarrow> nat res" where
  "wait_size d s = bind (lookup (s_devs s) d) (\<lambda>n. Inr (list_size (n_wait n)))"

end
