(* ===== verification/Server.thy ===== *)
theory Server
  imports Server_State
begin

text \<open>
  The handlers of \<open>src/src/libevent_server.c\<close> and the callbacks of \<open>src/src/dev_opt.c\<close>, each
  a function on the server's state that faults where the code would follow a null or dangling
  pointer or leave a buffer. Traces are left out.
\<close>

section \<open>Small callbacks\<close>

text \<open>\<open>deal_write_ok\<close>.\<close>

definition deal_write_ok :: "nat \<Rightarrow> server \<Rightarrow> server res" where
  "deal_write_ok b s =
     bind (lookup (s_bevs s) b) (\<lambda>v.
       if length (b_out v) = 0 then bufferevent_free b s else Inr s)"

definition deal_client_cmd_error_cb1 :: "nat \<Rightarrow> server \<Rightarrow> server res" where
  "deal_client_cmd_error_cb1 b s = bufferevent_free b s"

text \<open>The address of a list of a null device is not null: only the list is read after the check.\<close>

definition deal_client_cmd_error_cb2 :: "nat \<Rightarrow> nat option \<Rightarrow> server \<Rightarrow> server res" where
  "deal_client_cmd_error_cb2 b dev s =
     bind (on_bev b disable_both s) (\<lambda>s.
     bind (case dev of
         None \<Rightarrow> Inr s
       | Some d \<Rightarrow>
           bind (rtsp_size d s) (\<lambda>n.
           if n < 1 then
             bind (wait_size d s) (\<lambda>m.
             if m < 1 then bind (wrlock s) (\<lambda>s. bind (delete_dev d s) (\<lambda>s. Inr (unlock s)))
             else Inr s)
           else Inr s)) (\<lambda>s.
       bufferevent_free b s))"

text \<open>\<open>send_msg_to_push_client\<close>: \<open>arg\<close> is a buffer of a handler that has returned.\<close>

definition send_msg_to_push_client :: "nat \<Rightarrow> bev_what \<Rightarrow> server \<Rightarrow> server res" where
  "send_msg_to_push_client b what s =
     (if what = BEV_EVENT_CONNECTED then Inl Use_After_Free
      else bind (on_bev b disable_both s) (\<lambda>s. bufferevent_free b s))"

section \<open>Pushing video to an RTSP server\<close>

definition zero_client :: CLIENT_LIST where
  "zero_client = \<lparr>iSendFrameFlag = 0, iDelFlag = 0, iMissFrameFlag = 0, pSendVideoToServerEvent = None\<rparr>"

text \<open>\<open>connect_to_rtsp_server\<close>: \<open>ip\<close> is the 16-byte array the caller filled.\<close>

definition connect_to_rtsp_server :: "char list \<Rightarrow> int \<Rightarrow> nat option \<Rightarrow> server \<Rightarrow> server res" where
  "connect_to_rtsp_server ip port dev s =
     (case malloc_client zero_client s of (c, s) \<Rightarrow>
     bind (wrlock s) (\<lambda>s.
     bind (non_null dev) (\<lambda>d.
     bind (append_rtsp d c s) (\<lambda>s.
     let s = unlock s in
     case malloc_arg \<lparr>a_pDevNode = Some d, a_pClientNode = Some c\<rparr> s of (a, s) \<Rightarrow>
     bind (cstr_at ip 0) (\<lambda>host.
     case bufferevent_new
         (socket_connect host port (enable_read True
           (bufferevent_setcb None (Some Connect_Rtsp) (Arg_Msg a) socket_new))) s of (b, s) \<Rightarrow> Inr s)))))"

text \<open>\<open>connect_to_rtsp_server_event_cb\<close>.\<close>

definition rtsp_connected :: "nat \<Rightarrow> nat \<Rightarrow> nat \<Rightarrow> nat \<Rightarrow> server \<Rightarrow> server res" where
  "rtsp_connected b a d c s =
     bind (lookup (s_clients s) c) (\<lambda>cl.
     let s = set_client c (cl\<lparr>pSendVideoToServerEvent := Some b, iSendFrameFlag := 1\<rparr>) s in
     bind (wrlock s) (\<lambda>s.
     bind (lookup (s_devs s) d) (\<lambda>n.
     let s = (if iStartThreadFlag (n_dev n) = 0 then pthread_create d s else s) in
     bind (on_bev b (\<lambda>v. enable_write True (bufferevent_setcb None (Some Send_Rtsp_Error) (Arg_Msg a) v)) s) (\<lambda>s.
       Inr (unlock s)))))"

definition rtsp_connect_failed :: "nat \<Rightarrow> nat \<Rightarrow> nat \<Rightarrow> nat \<Rightarrow> server \<Rightarrow> server res" where
  "rtsp_connect_failed b a d c s =
     bind (on_bev b disable_both s) (\<lambda>s.
     bind (wrlock s) (\<lambda>s.
     bind (rtsp_size d s) (\<lambda>n.
     bind (if n < 1 then
             bind (delete_dev d s) (\<lambda>s.
             bind (delete_rtsp d (Some c) s) (\<lambda>s.
             bind (free_client c s) (\<lambda>s.
             bind (destroy_rtsp d s) (\<lambda>s. free_dev d s))))
           else bind (delete_rtsp d (Some c) s) (\<lambda>s. free_client c s)) (\<lambda>s.
     bind (bufferevent_free b (unlock s)) (\<lambda>s. free_arg a s)))))"

definition connect_to_rtsp_server_event_cb :: "nat \<Rightarrow> bev_what \<Rightarrow> nat \<Rightarrow> server \<Rightarrow> server res" where
  "connect_to_rtsp_server_event_cb b what a s =
     bind (lookup (s_args s) a) (\<lambda>m.
     bind (non_null (a_pDevNode m)) (\<lambda>d.
     bind (non_null (a_pClientNode m)) (\<lambda>c.
       if what = BEV_EVENT_CONNECTED then rtsp_connected b a d c s
       else rtsp_connect_failed b a d c s)))"

text \<open>
  \<open>send_rtsp_to_server_event_error_cb\<close>. The client is dereferenced before it is compared with
  \<open>NULL\<close>, and so is the device, so the comparisons never fail.
\<close>

definition disable_client_bev :: "CLIENT_LIST \<Rightarrow> server \<Rightarrow> server res" where
  "disable_client_bev cl s =
     bind (non_null (pSendVideoToServerEvent cl)) (\<lambda>b. on_bev b disable_both s)"

definition send_rtsp_to_server_event_error_cb :: "nat \<Rightarrow> server \<Rightarrow> server res" where
  "send_rtsp_to_server_event_error_cb a s =
     bind (lookup (s_args s) a) (\<lambda>m.
     bind (non_null (a_pDevNode m)) (\<lambda>d.
     bind (lookup (s_devs s) d) (\<lambda>n.
     bind (non_null (a_pClientNode m)) (\<lambda>c.
     bind (lookup (s_clients s) c) (\<lambda>cl.
     bind (disable_client_bev cl s) (\<lambda>s.
       if iStartThreadFlag (n_dev n) = 1 then Inr (set_client c (cl\<lparr>iDelFlag := 1\<rparr>) s)
       else
         bind (wrlock s) (\<lambda>s.
         bind (delete_rtsp d (Some c) s) (\<lambda>s.
         bind (rtsp_size d s) (\<lambda>k.
         bind (if k < 1 then delete_dev d s else Inr s) (\<lambda>s.
           free_arg a (unlock s)))))))))))"

section \<open>Asking a device for its SDP\<close>

text \<open>\<open>test_dev_connection\<close>.\<close>

definition test_dev_connection :: "nat \<Rightarrow> server \<Rightarrow> server res" where
  "test_dev_connection d s =
     bind (lookup (s_devs s) d) (\<lambda>n.
     bind (cstr_at (arrDevIp (n_dev n)) 0) (\<lambda>ip.
     case bufferevent_new
         (enable_read True (socket_connect ip (iDevRtspPort (n_dev n))
           (bufferevent_setcb (Some Read_Sdp_Basic) (Some Active_Connect) (Arg_Dev d) socket_new))) s of
       (b, s) \<Rightarrow> Inr s))"

definition active_connect_eventcb :: "nat \<Rightarrow> bev_what \<Rightarrow> nat \<Rightarrow> server \<Rightarrow> server res" where
  "active_connect_eventcb b what d s =
     bind (lookup (s_devs s) d) (\<lambda>n.
     if what = BEV_EVENT_CONNECTED then
       bind (basic_request (n_dev n)) (\<lambda>msg. on_bev b (bufferevent_write msg) s)
     else
       bind (wrlock (set_dev d (n\<lparr>n_dev := (n_dev n)\<lparr>enumDevConnectStatus := DISCONNECT\<rparr>\<rparr>) s)) (\<lambda>s.
       bind (destroy_wait d s) (\<lambda>s.
       bind (delete_dev d s) (\<lambda>s.
         bufferevent_free b (unlock s)))))"

text \<open>
  Lines 339-346 and 471-478: every waiting client gets the message and the callbacks of the
  second round. \<open>k\<close> is \<open>list_size(plistWaitClient) - i\<close>.
\<close>

definition answer_client :: "char list \<Rightarrow> nat \<Rightarrow> bev \<Rightarrow> bev" where
  "answer_client msg d v =
     enable_read True (bufferevent_setcb (Some Deal_Client_Cmd) (Some Cmd_Error_Cb2) (Arg_Dev d)
       (bufferevent_write msg v))"

fun answer_waiting :: "char list \<Rightarrow> nat \<Rightarrow> (nat, unit) list_t \<Rightarrow> nat \<Rightarrow> nat \<Rightarrow> server \<Rightarrow> server res" where
  "answer_waiting msg d l i 0 s = Inr s"
| "answer_waiting msg d l i (Suc k) s =
     bind (list_get_at l i) (\<lambda>w.
     bind (non_null w) (\<lambda>w.
     bind (lookup (s_waits s) w) (\<lambda>b.
     bind (on_bev b (answer_client msg d) s) (\<lambda>s.
       answer_waiting msg d l (i + 1) k s))))"

text \<open>Lines 325-349 and 456-481, with the bytes received as a string.\<close>

definition sdp_received :: "nat \<Rightarrow> char list \<Rightarrow> server \<Rightarrow> server res" where
  "sdp_received d text s =
     bind (lookup (s_devs s) d) (\<lambda>n.
     bind (analysis_sdp_info text (n_dev n)) (\<lambda>dev.
     bind (sdp_message dev) (\<lambda>msg.
     let s = set_dev d (n\<lparr>n_dev := dev\<lparr>enumDevConnectStatus := CONNECTED\<rparr>\<rparr>) s in
     bind (answer_waiting msg d (n_wait n) 0 (list_size (n_wait n)) s) (\<lambda>s.
     bind (wrlock s) (\<lambda>s.
     bind (destroy_wait d s) (\<lambda>s. Inr (unlock s)))))))"

text \<open>\<open>bufferevent_read(bev, cRecvBuf, sizeof(cRecvBuf))\<close> into 10240 zero bytes.\<close>

definition RECV_MAX :: nat where "RECV_MAX = 10240"

definition recv_text :: "char list \<Rightarrow> char list res" where
  "recv_text input = cstr_at (take RECV_MAX input @ zeros (RECV_MAX - length input)) 0"

definition read_dev_sdp_digest_cb :: "nat \<Rightarrow> nat \<Rightarrow> server \<Rightarrow> server res" where
  "read_dev_sdp_digest_cb b d s =
     bind (lookup (s_bevs s) b) (\<lambda>v.
     bind (recv_text (b_in v)) (\<lambda>text.
     bind (bufferevent_free b s) (\<lambda>s. sdp_received d text s)))"

text \<open>\<open>strcasestr\<close>.\<close>

definition strcasestr :: "char list \<Rightarrow> char list \<Rightarrow> nat option" where
  "strcasestr h n = strstr (map tolower h) (map tolower n)"

text \<open>
  Lines 410-450: the second \<open>DESCRIBE\<close>, with the digest of the challenge; without a realm
  the connection is closed.
\<close>

definition digest_round :: "env \<Rightarrow> nat \<Rightarrow> nat \<Rightarrow> char list \<Rightarrow> server \<Rightarrow> server res" where
  "digest_round e b d auth s =
     bind (lookup (s_devs s) d) (\<lambda>n.
     bind (get_realm_and_nonce auth (n_dev n)) (\<lambda>(dev, r).
     if r < 0 then bufferevent_free b s
     else
       let s = set_dev d (n\<lparr>n_dev := dev\<rparr>) s in
       bind (get_response (e_junk e) ''DESCRIBE'' dev) (\<lambda>response.
       bind (digest_request response dev) (\<lambda>msg.
         on_bev b (\<lambda>v. enable_read True (bufferevent_setcb (Some Read_Sdp_Digest) (Some Active_Connect) (Arg_Dev d)
           (bufferevent_write msg v))) s))))"

text \<open>
  Lines 394-452: \<open>WWW-Authenticate\<close> is looked up, the parser destroyed, and the value read
  through the pointer into it. The result says whether the function returned here.
\<close>

definition unauthorized :: "env \<Rightarrow> nat \<Rightarrow> nat \<Rightarrow> rtsp_parser \<Rightarrow> server \<Rightarrow> (server \<times> bool) res" where
  "unauthorized e b d p s =
     bind (rtsp_get_header_by_name p ''WWW-Authenticate'') (\<lambda>h.
     bind (rtsp_parser_destroy p) (\<lambda>_.
     case h of
       None \<Rightarrow> bind (bufferevent_free b s) (\<lambda>s. Inr (s, True))
     | Some i \<Rightarrow>
         bind (cstr_at (p_raw p) i) (\<lambda>value.
         bind (e_stale e value) (\<lambda>auth.
           if strcasestr auth ''Digest'' \<noteq> None
           then bind (digest_round e b d auth s) (\<lambda>s. Inr (s, True))
           else Inr (s, False)))))"

definition read_dev_sdp_basic_cb :: "env \<Rightarrow> nat \<Rightarrow> nat \<Rightarrow> server \<Rightarrow> server res" where
  "read_dev_sdp_basic_cb e b d s =
     bind (lookup (s_bevs s) b) (\<lambda>v.
     bind (on_bev b (\<lambda>v. v\<lparr>b_in := drop RECV_MAX (b_in v)\<rparr>) s) (\<lambda>s.
     bind (recv_text (b_in v)) (\<lambda>text.
     case rtsp_parser_create True RTSP_PARSER_CLIENT of
       None \<Rightarrow> bufferevent_free b s
     | Some p \<Rightarrow>
         bind (rtsp_parser_input (e_rtsp e) p text) (\<lambda>(p, r, _).
         if r \<noteq> 0 then bufferevent_free b s
         else
           bind (rtsp_get_status_code p) (\<lambda>code.
           if code \<noteq> 200 \<and> code \<noteq> 401 then
             bind (bufferevent_free b s) (\<lambda>s. bind (rtsp_parser_destroy p) (\<lambda>_. Inr s))
           else
             bind (if code = 401 then unauthorized e b d p s else Inr (s, False)) (\<lambda>(s, returned).
             if returned then Inr s
             else bind (bufferevent_free b s) (\<lambda>s. sdp_received d text s)))))))"

end
