(* ===== verification/Server_Cmd.thy ===== *)
theory Server_Cmd
  imports Server
begin

text \<open>
  The commands of a client (\<open>src/src/libevent_server.c\<close>): accepting a connection, reading a
  framed command, its JSON, and \<open>open_video\<close>, \<open>server_info\<close>, \<open>play\<close> and \<open>stop\<close>; the SQLite
  front end; and the video thread of \<open>src/src/dev_opt.c\<close> around the loop of Video_Pump.
\<close>

section \<open>JSON fields\<close>

text \<open>\<open>item->valuestring\<close> and \<open>item->valueint\<close>, with no check of the item.\<close>

definition json_text :: "cJSON option \<Rightarrow> char list res" where
  "json_text it = bind (non_null it) (\<lambda>c. non_null (valuestring c))"

definition json_int :: "cJSON option \<Rightarrow> int res" where
  "json_int it = bind (non_null it) (\<lambda>c. Inr (valueint c))"

text \<open>\<open>strncpy(arr, item->valuestring, sizeof(arr))\<close> into a zeroed array.\<close>

definition field_array :: "cJSON option \<Rightarrow> char list \<Rightarrow> nat \<Rightarrow> char list res" where
  "field_array js key n =
     bind (cJSON_GetObjectItem js key) (\<lambda>it. bind (json_text it) (\<lambda>v. strncpy (zeros n) v n))"

definition field_int :: "cJSON option \<Rightarrow> char list \<Rightarrow> int res" where
  "field_int js key = bind (cJSON_GetObjectItem js key) json_int"

text \<open>\<open>analysis_json_dev_info\<close>: the status, the id array, the channel and the stream.\<close>

definition open_video_fields ::
  "cJSON option \<Rightarrow> char list \<times> int \<times> int \<Rightarrow> (char list \<times> int \<times> int) res" where
  "open_video_fields js out = (case out of (devid, chnl, strm) \<Rightarrow>
     bind (cJSON_GetObjectItem js ''devId'') (\<lambda>it.
     bind (if it = None then Inr devid else bind (json_text it) (\<lambda>v. wr_block devid 0 (v @ [NUL]))) (\<lambda>devid.
     bind (cJSON_GetObjectItem js ''devChnl'') (\<lambda>it.
     bind (if it = None then Inr chnl else json_int it) (\<lambda>chnl.
     bind (cJSON_GetObjectItem js ''devStreamType'') (\<lambda>it.
     bind (if it = None then Inr strm else json_int it) (\<lambda>strm.
       Inr (devid, chnl, strm))))))))"

definition analysis_json_dev_info ::
  "char list \<Rightarrow> nat \<Rightarrow> char list \<times> int \<times> int \<Rightarrow> (int \<times> char list \<times> int \<times> int) res" where
  "analysis_json_dev_info buf i out =
     bind (cJSON_Parse buf i) (\<lambda>js.
     if js = None then Inr (- 1, out)
     else bind (cJSON_GetObjectItem js ''cmdType'') (\<lambda>it.
       if it = None then Inr (- 1, out)
       else bind (json_text it) (\<lambda>cmd.
         if cmd = ''open_video'' then bind (open_video_fields js out) (\<lambda>out. Inr (0, out))
         else Inr (- 1, out))))"

section \<open>Finding a device\<close>

text \<open>
  \<open>DevSeeker\<close> on the heap of devices. At a freed device the search stops as well: the caller
  finds it freed, which stands for the read of freed memory.
\<close>

definition same_key :: "DEV_LIST \<Rightarrow> DEV_INFO \<Rightarrow> bool" where
  "same_key d k \<longleftrightarrow> cstr_at (pDevId d) 0 = cstr_at (k_DevId k) 0 \<and> iDevChnl d = k_DevChnl k
     \<and> iDevStreamType d = k_DevStreamType k"

definition DevSeeker :: "(nat \<Rightarrow> dev_node option) \<Rightarrow> nat option \<Rightarrow> DEV_INFO \<Rightarrow> bool" where
  "DevSeeker h p k = (case p of None \<Rightarrow> False
     | Some d \<Rightarrow> (case h d of None \<Rightarrow> True | Some n \<Rightarrow> same_key (n_dev n) k))"

definition seek_dev :: "DEV_INFO \<Rightarrow> server \<Rightarrow> (server \<times> nat option) res" where
  "seek_dev k s =
     (let l = list_attributes_seeker (s_devlist s) (Some (DevSeeker (s_devs s))) in
      bind (list_seek l k) (\<lambda>r.
      bind (case r of None \<Rightarrow> Inr () | Some d \<Rightarrow> bind (lookup (s_devs s) d) (\<lambda>_. Inr ())) (\<lambda>_.
        Inr (s\<lparr>s_devlist := l\<rparr>, r))))"

section \<open>SQLite\<close>

fun exec_rows :: "('a \<Rightarrow> 'r \<Rightarrow> 'r res) \<Rightarrow> 'a list \<Rightarrow> 'r \<Rightarrow> 'r res" where
  "exec_rows cb [] arg = Inr arg"
| "exec_rows cb (r # rs) arg = bind (cb r arg) (\<lambda>arg. exec_rows cb rs arg)"

definition sql_operation ::
  "(char list \<Rightarrow> db_result) \<Rightarrow> char list \<Rightarrow> (char list option list \<Rightarrow> 'r \<Rightarrow> 'r res) \<Rightarrow> 'r \<Rightarrow> ('r \<times> int) res" where
  "sql_operation db sql cb arg =
     (case db sql of
        Db_Open_Failed \<Rightarrow> Inr (arg, - 1)
      | Db_Exec rows err \<Rightarrow>
          bind (exec_rows cb rows arg) (\<lambda>arg. Inr (arg,
            case err of None \<Rightarrow> 0
            | Some m \<Rightarrow> if m = ''UNIQUE constraint failed: dev_add_web_data.dev_id'' then - 2 else - 3)))"

definition device_query :: "char list \<Rightarrow> int \<Rightarrow> char list" where
  "device_query devid chnl = sn_text 1024
     (''select dev_ip,rtsp_port,dev_login_usr,dev_login_passwd,basic_authenticate,rtsp_list.rtsp_main,rtsp_list.rtsp_sub from onvif_dev_data left join rtsp_list on onvif_dev_data.dev_id='' @
      CHR 0x27 # devid @ CHR 0x27 #
      '' where rtsp_list.[dev_id]=onvif_dev_data.dev_id and rtsp_list.[dev_chnl_num]='' @
      CHR 0x27 # show_int chnl @ [CHR 0x27])"

text \<open>
  Lines 498-523 and 672-696: the row is loaded into a zeroed device, and the device is dropped
  (\<open>None\<close>) when the statement fails or yields no address.
\<close>

definition load_device :: "env \<Rightarrow> char list \<Rightarrow> int \<Rightarrow> int \<Rightarrow> DEV_LIST option res" where
  "load_device e devid chnl strm =
     bind (sql_operation (e_db e) (device_query devid chnl) load_device_ip_port_cb zero_dev) (\<lambda>(dev, r).
     if r < 0 then Inr None
     else bind (cstr_at (arrDevIp dev) 0) (\<lambda>ip.
       if length ip < 7 then Inr None
       else bind (strncpy (pDevId dev) devid MAX_DEV_ID_LEN) (\<lambda>field.
         Inr (Some (dev\<lparr>pDevId := field, iDevChnl := chnl, iDevStreamType := strm\<rparr>)))))"

section \<open>open_video\<close>

text \<open>Lines 487-537.\<close>

definition open_new_device :: "env \<Rightarrow> char list \<Rightarrow> int \<Rightarrow> int \<Rightarrow> nat \<Rightarrow> server \<Rightarrow> (server \<times> int) res" where
  "open_new_device e devid chnl strm client s =
     bind (load_device e devid chnl strm) (\<lambda>r. case r of
         None \<Rightarrow> Inr (unlock s, - 1)
       | Some dev \<Rightarrow>
           (case malloc_dev \<lparr>n_dev = dev\<lparr>enumDevConnectStatus := CONNECTING\<rparr>,
                             n_rtsp = list_init, n_wait = list_init\<rparr> s of (d, s) \<Rightarrow>
           bind (append_dev d s) (\<lambda>s.
           case malloc_wait client s of (w, s) \<Rightarrow>
           bind (append_wait d w s) (\<lambda>s.
           bind (test_dev_connection d (unlock s)) (\<lambda>s. Inr (s, 0))))))"

text \<open>Lines 538-571: a device in a state that is neither connected nor connecting is left alone, the
  lock still held.\<close>

definition open_known_device :: "nat \<Rightarrow> nat \<Rightarrow> server \<Rightarrow> (server \<times> int) res" where
  "open_known_device d client s =
     bind (lookup (s_devs s) d) (\<lambda>n.
     if enumDevConnectStatus (n_dev n) = CONNECTED then
       bind (sdp_message (n_dev n)) (\<lambda>msg.
       bind (on_bev client (\<lambda>v. enable_read True (bufferevent_setcb (Some Deal_Client_Cmd) None (Arg_Dev d)
         (bufferevent_write msg v))) (unlock s)) (\<lambda>s. Inr (s, 0)))
     else if enumDevConnectStatus (n_dev n) = CONNECTING then
       (case malloc_wait client s of (w, s) \<Rightarrow>
       bind (append_wait d w s) (\<lambda>s. Inr (unlock s, 0)))
     else Inr (s, 0))"

definition deal_open_video_cmd :: "env \<Rightarrow> char list \<Rightarrow> nat \<Rightarrow> nat \<Rightarrow> server \<Rightarrow> (server \<times> int) res" where
  "deal_open_video_cmd e buf i client s =
     bind (analysis_json_dev_info buf i (zeros MAX_DEV_ID_LEN, - 1, - 1)) (\<lambda>(r, arr, chnl, strm).
     bind (cstr_at arr 0) (\<lambda>devid.
     bind (url_decode devid (int (length devid)) (zeros MAX_DEV_ID_LEN) MAX_DEV_ID_LEN) (\<lambda>(_, key).
     bind (wrlock s) (\<lambda>s.
     bind (seek_dev \<lparr>k_DevId = key, k_DevChnl = chnl, k_DevStreamType = strm\<rparr> s) (\<lambda>(s, found).
     case found of
       None \<Rightarrow> open_new_device e devid chnl strm client s
     | Some d \<Rightarrow> open_known_device d client s)))))"

section \<open>play and stop over HLS\<close>

text \<open>\<open>push_stream\<close>: the wait list of its device is never initialised.\<close>

definition push_new_device :: "env \<Rightarrow> char list \<Rightarrow> int \<Rightarrow> int \<Rightarrow> char list \<Rightarrow> int \<Rightarrow> server \<Rightarrow> (server \<times> int) res" where
  "push_new_device e devid chnl strm ip port s =
     bind (load_device e devid chnl strm) (\<lambda>r. case r of
         None \<Rightarrow> Inr (unlock s, - 1)
       | Some dev \<Rightarrow>
           (case malloc_dev \<lparr>n_dev = dev, n_rtsp = list_init, n_wait = zero_list\<rparr> s of (d, s) \<Rightarrow>
           bind (append_dev d s) (\<lambda>s.
           bind (connect_to_rtsp_server ip port (Some d) (unlock s)) (\<lambda>s. Inr (s, 0)))))"

definition push_stream :: "env \<Rightarrow> char list \<Rightarrow> nat \<Rightarrow> server \<Rightarrow> (server \<times> int) res" where
  "push_stream e buf i s =
     bind (cJSON_Parse buf i) (\<lambda>js.
     bind (field_array js ''protocol'' 8) (\<lambda>_.
     bind (field_array js ''serverIp'' 16) (\<lambda>ip.
     bind (field_int js ''serverPort'') (\<lambda>port.
     bind (field_array js ''devId'' MAX_DEV_ID_LEN) (\<lambda>tmp.
     bind (field_int js ''devChnl'') (\<lambda>chnl.
     bind (field_int js ''streamType'') (\<lambda>strm.
     bind (cstr_at tmp 0) (\<lambda>enc.
     bind (url_decode enc (int (length enc)) (zeros MAX_DEV_ID_LEN) MAX_DEV_ID_LEN) (\<lambda>(_, dec).
     bind (cstr_at dec 0) (\<lambda>devid.
     bind (strncpy (zeros MAX_DEV_ID_LEN) devid MAX_DEV_ID_LEN) (\<lambda>key.
     bind (wrlock s) (\<lambda>s.
     bind (seek_dev \<lparr>k_DevId = key, k_DevChnl = chnl, k_DevStreamType = strm\<rparr> s) (\<lambda>(s, found).
     case found of
       None \<Rightarrow> push_new_device e devid chnl strm ip port s
     | Some d \<Rightarrow> bind (connect_to_rtsp_server ip port (Some d) (unlock s)) (\<lambda>s. Inr (s, 0)))))))))))))))"

text \<open>A connection to the push client on the box: its callback gets a buffer of this stack frame.\<close>

definition connect_push_client :: "server \<Rightarrow> server" where
  "connect_push_client s =
     snd (bufferevent_new (socket_connect ''127.0.0.1'' 8103
       (bufferevent_setcb None (Some Send_To_Push) Arg_Stack socket_new)) s)"

definition stop_message :: "char list \<Rightarrow> int \<Rightarrow> int \<Rightarrow> char list" where
  \<open>stop_message devid chnl strm = sn_text 128
     (''{"cmdType":"stop","serverIp":"","serverPort":0,"devId":"'' @ devid @ ''","devChnl":'' @
      show_int chnl @ '',"streamType":'' @ show_int strm @ ''}'')\<close>

text \<open>\<open>stop_stream\<close>: the message and its buffer, then the connection. The address is never filled in.\<close>

definition stop_stream :: "char list \<Rightarrow> nat \<Rightarrow> server \<Rightarrow> (server \<times> char list) res" where
  "stop_stream buf i s =
     bind (cJSON_Parse buf i) (\<lambda>js.
     bind (field_array js ''protocol'' 8) (\<lambda>_.
     bind (field_array js ''devId'' MAX_DEV_ID_LEN) (\<lambda>tmp.
     bind (field_int js ''devChnl'') (\<lambda>chnl.
     bind (field_int js ''streamType'') (\<lambda>strm.
     bind (cstr_at tmp 0) (\<lambda>enc.
     bind (url_decode enc (int (length enc)) (zeros MAX_DEV_ID_LEN) MAX_DEV_ID_LEN) (\<lambda>(_, dec).
     bind (cstr_at dec 16) (\<lambda>rest.
     bind (strncpy (zeros MAX_DEV_ID_LEN) rest MAX_DEV_ID_LEN) (\<lambda>arr.
     bind (cstr_at arr 0) (\<lambda>devid.
     let body = stop_message devid chnl strm;
         head = encode_cmd (zero_cmd\<lparr>c_header := cmd_magic, c_cmd_length := of_nat (length body)\<rparr>) in
     bind (wr_block (zeros 256) 0 (head @ body)) (\<lambda>sendbuf.
       Inr (connect_push_client s, sendbuf))))))))))))"

section \<open>Reading a command\<close>

text \<open>\<open>strncmp(array, literal, strlen(literal)) == 0\<close>.\<close>

definition starts_with :: "char list \<Rightarrow> char list \<Rightarrow> bool" where
  "starts_with lit arr \<longleftrightarrow> prefix_of lit arr"

text \<open>Lines 878-887: the client's own header, a new length, and a body of 32 bytes.\<close>

definition play_reply :: "char list \<Rightarrow> char list" where
  \<open>play_reply buf = take 8 buf @ le_chars 4 (unat (htonl 10)) @ take 20 (drop 12 buf) @
     ''{"code":0}'' @ zeros 22\<close>

text \<open>An optional string field into a zeroed array (lines 835-846).\<close>

definition optional_array :: "cJSON option \<Rightarrow> char list \<Rightarrow> nat \<Rightarrow> char list res" where
  "optional_array js key n =
     bind (cJSON_GetObjectItem js key) (\<lambda>it.
       if it = None then Inr (zeros n) else bind (json_text it) (\<lambda>v. strncpy (zeros n) v n))"

definition arg_dev :: "cb_arg \<Rightarrow> nat option" where
  "arg_dev a = (case a of Arg_Dev d \<Rightarrow> Some d | _ \<Rightarrow> None)"

definition deal_server_info :: "nat \<Rightarrow> cb_arg \<Rightarrow> cJSON option \<Rightarrow> server \<Rightarrow> server res" where
  "deal_server_info b arg js s =
     bind (optional_array js ''serverIp'' 16) (\<lambda>ip.
     bind (cJSON_GetObjectItem js ''serverPort'') (\<lambda>it.
     bind (if it = None then Inr (- 1) else json_int it) (\<lambda>port.
     bind (bufferevent_free b s) (\<lambda>s.
       connect_to_rtsp_server ip port (arg_dev arg) s))))"

text \<open>Lines 878-928. \<open>deal_write_ok\<close> is passed as the read callback, and reading is disabled.\<close>

definition deal_play_cmd :: "env \<Rightarrow> nat \<Rightarrow> char list \<Rightarrow> char list \<Rightarrow> char list \<Rightarrow> server \<Rightarrow> server res" where
  "deal_play_cmd e b buf protocol cmdtype s =
     bind (on_bev b (\<lambda>v. enable_write True (bufferevent_setcb (Some Deal_Write_Ok) None No_Arg
       (bufferevent_write (play_reply buf) v))) s) (\<lambda>s.
     if starts_with ''rtsp'' protocol then Inr (connect_push_client s)
     else if starts_with ''hls'' protocol then
       if starts_with ''play'' cmdtype then bind (push_stream e buf cmd_size s) (\<lambda>(s, _). Inr s)
       else if starts_with ''stop'' cmdtype then bind (stop_stream buf cmd_size s) (\<lambda>(s, _). Inr s)
       else Inr s
     else bufferevent_free b s)"

definition dispatch_cmd :: "env \<Rightarrow> nat \<Rightarrow> cb_arg \<Rightarrow> char list \<Rightarrow> server \<Rightarrow> server res" where
  "dispatch_cmd e b arg buf s =
     bind (cJSON_Parse buf cmd_size) (\<lambda>js.
     bind (optional_array js ''protocol'' 8) (\<lambda>protocol.
     bind (optional_array js ''cmdType'' 32) (\<lambda>cmdtype.
     if starts_with ''open_video'' cmdtype then
       bind (deal_open_video_cmd e buf cmd_size b s) (\<lambda>(s, _). Inr s)
     else if starts_with ''server_info'' cmdtype then deal_server_info b arg js s
     else deal_play_cmd e b buf protocol cmdtype s)))"

definition deal_client_cmd :: "env \<Rightarrow> nat \<Rightarrow> cb_arg \<Rightarrow> server \<Rightarrow> server res" where
  "deal_client_cmd e b arg s =
     bind (lookup (s_bevs s) b) (\<lambda>v.
     bind (read_cmd (b_in v)) (\<lambda>f. case f of
         Wait_More \<Rightarrow> Inr s
       | Bad_Header \<Rightarrow> bufferevent_free b s
       | Command buf rest \<Rightarrow>
           bind (on_bev b (\<lambda>v. enable_read False (v\<lparr>b_in := rest\<rparr>)) s) (\<lambda>s.
             dispatch_cmd e b arg buf s)))"

text \<open>\<open>accept_client_connect_cb\<close>.\<close>

definition accept_client_connect_cb :: "server \<Rightarrow> nat \<times> server" where
  "accept_client_connect_cb s =
     bufferevent_new (enable_read True (bufferevent_setcb (Some Deal_Client_Cmd) (Some Cmd_Error_Cb1) No_Arg
       (socket_new\<lparr>b_open := True\<rparr>))) s"

section \<open>The video thread\<close>

definition pump_of :: "server \<Rightarrow> pump" where
  "pump_of s = \<lparr>v_clients = s_clients s, v_out = (\<lambda>b. map_option b_out (s_bevs s b))\<rparr>"

definition put_pump :: "pump \<Rightarrow> server \<Rightarrow> server" where
  "put_pump p s = s\<lparr>s_clients := v_clients p,
     s_bevs := (\<lambda>b. case (s_bevs s b, v_out p b) of (Some v, Some out) \<Rightarrow> Some (v\<lparr>b_out := out\<rparr>) | _ \<Rightarrow> None)\<rparr>"

text \<open>Lines 636-659: the last stream of each kind.\<close>

fun scan_streams :: "int \<Rightarrow> int \<Rightarrow> int \<Rightarrow> codec_type list \<Rightarrow> int \<times> int" where
  "scan_streams i v a [] = (v, a)"
| "scan_streams i v a (c # cs) = scan_streams (i + 1)
     (if c = Codec_Video then i else v) (if c = Codec_Audio then i else a) cs"

text \<open>\<open>End\<close> (lines 811-823).\<close>

definition thread_end :: "nat \<Rightarrow> server \<Rightarrow> server res" where
  "thread_end t s =
     bind (lookup (s_threads s) t) (\<lambda>th.
     bind (wrlock s) (\<lambda>s.
     bind (destroy_rtsp (t_dev th) s) (\<lambda>s.
     bind (delete_dev (t_dev th) s) (\<lambda>s.
     bind (free_dev (t_dev th) (unlock s)) (\<lambda>s.
       Inr (s\<lparr>s_threads := (s_threads s)(t := None)\<rparr>))))))"

text \<open>
  Lines 539-663, without the lock: the URL is opened over TCP, then over UDP; a thread that
  cannot open it goes to \<open>End\<close>.
\<close>

definition to_phase :: "nat \<Rightarrow> video_thread \<Rightarrow> thread_phase \<Rightarrow> server \<Rightarrow> server" where
  "to_phase t th ph s = s\<lparr>s_threads := (s_threads s)(t \<mapsto> th\<lparr>t_phase := ph\<rparr>)\<rparr>"

definition thread_start :: "env \<Rightarrow> nat \<Rightarrow> server \<Rightarrow> server res" where
  "thread_start e t s =
     bind (lookup (s_threads s) t) (\<lambda>th.
     bind (lookup (s_devs s) (t_dev th)) (\<lambda>n.
     let s = set_dev (t_dev th) (n\<lparr>n_dev := (n_dev n)\<lparr>iStartThreadFlag := 1\<rparr>\<rparr>) s in
     bind (open_url (n_dev n)) (\<lambda>url.
     case (case e_open e url True of None \<Rightarrow> e_open e url False | Some cs \<Rightarrow> Some cs) of
       None \<Rightarrow> Inr (to_phase t th Ending s)
     | Some cs \<Rightarrow> (case scan_streams 0 (- 1) (- 1) cs of (v, a) \<Rightarrow>
         Inr (to_phase t th (Streaming v a 0) s)))))"

text \<open>
  The head of the loop, without the lock (lines 670-748): the clients are counted, a packet is
  read (\<open>None\<close> when \<open>av_read_frame\<close> fails), and a packet that passes the gate is taken to the
  lock, with the clients counted again.
\<close>

definition thread_turn :: "nat \<Rightarrow> AVPacket option \<Rightarrow> server \<Rightarrow> server res" where
  "thread_turn t pkt s =
     bind (lookup (s_threads s) t) (\<lambda>th.
     case t_phase th of
       Streaming v a flag \<Rightarrow>
         bind (lookup (s_devs s) (t_dev th)) (\<lambda>n.
         if list_size (n_rtsp n) < 1 then Inr (to_phase t th Ending s)
         else (case pkt of
             None \<Rightarrow> Inr (to_phase t th Ending s)
           | Some p \<Rightarrow> (case gate v a flag p of (flag, fwd) \<Rightarrow>
               Inr (to_phase t th (if fwd then Sending v a flag p (list_size (n_rtsp n)) else Streaming v a flag) s))))
     | _ \<Rightarrow> Inr s)"

text \<open>The sweep over the clients, under the lock (lines 750-799).\<close>

definition thread_send :: "nat \<Rightarrow> server \<Rightarrow> server res" where
  "thread_send t s =
     bind (lookup (s_threads s) t) (\<lambda>th.
     case t_phase th of
       Sending v a flag p iClientNum \<Rightarrow>
         bind (wrlock s) (\<lambda>s.
         bind (lookup (s_devs s) (t_dev th)) (\<lambda>n.
         bind (send_counted p iClientNum (n_rtsp n) (pump_of s)) (\<lambda>(l, q).
           Inr (to_phase t th (Streaming v a flag)
             (unlock (set_dev (t_dev th) (n\<lparr>n_rtsp := l\<rparr>) (put_pump q s)))))))
     | _ \<Rightarrow> Inr s)"

end
