(* ===== verification/Server_Step.thy ===== *)
theory Server_Step
  imports Server_Cmd
begin

text \<open>
  The running server as a labelled step relation: what the network, the peers and the video
  threads can do, each step running the handler the code registered. A handler runs to its end
  before the next step (libevent runs them one after the other); a video thread takes four kinds
  of steps, its start, the head of its loop, and the two sections it runs under
  \<open>rwlockMyLock\<close>, so that handlers come in between counting the clients and the sweep over them.
  The invariant of the heap is proved by rule induction: the device list is a well-formed list of
  distinct live devices, and every list of a device is well-formed or destroyed.
\<close>

section \<open>Dispatch\<close>

definition arg_msg :: "cb_arg \<Rightarrow> nat option" where
  "arg_msg a = (case a of Arg_Msg m \<Rightarrow> Some m | _ \<Rightarrow> None)"

definition run_read_cb :: "env \<Rightarrow> nat \<Rightarrow> server \<Rightarrow> server res" where
  "run_read_cb e b s =
     bind (lookup (s_bevs s) b) (\<lambda>v. case b_read v of
         None \<Rightarrow> Inr s
       | Some Deal_Client_Cmd \<Rightarrow> deal_client_cmd e b (b_arg v) s
       | Some Read_Sdp_Basic \<Rightarrow> bind (non_null (arg_dev (b_arg v))) (\<lambda>d. read_dev_sdp_basic_cb e b d s)
       | Some Read_Sdp_Digest \<Rightarrow> bind (non_null (arg_dev (b_arg v))) (\<lambda>d. read_dev_sdp_digest_cb b d s)
       | Some Deal_Write_Ok \<Rightarrow> deal_write_ok b s)"

definition run_event_cb :: "nat \<Rightarrow> bev_what \<Rightarrow> server \<Rightarrow> server res" where
  "run_event_cb b what s =
     bind (lookup (s_bevs s) b) (\<lambda>v. case b_event v of
         None \<Rightarrow> Inr s
       | Some Cmd_Error_Cb1 \<Rightarrow> deal_client_cmd_error_cb1 b s
       | Some Cmd_Error_Cb2 \<Rightarrow> deal_client_cmd_error_cb2 b (arg_dev (b_arg v)) s
       | Some Active_Connect \<Rightarrow> bind (non_null (arg_dev (b_arg v))) (\<lambda>d. active_connect_eventcb b what d s)
       | Some Connect_Rtsp \<Rightarrow> bind (non_null (arg_msg (b_arg v))) (\<lambda>a. connect_to_rtsp_server_event_cb b what a s)
       | Some Send_Rtsp_Error \<Rightarrow> bind (non_null (arg_msg (b_arg v))) (\<lambda>a. send_rtsp_to_server_event_error_cb a s)
       | Some Send_To_Push \<Rightarrow> send_msg_to_push_client b what s)"

section \<open>Steps\<close>

datatype action =
    Accept
  | Receive nat "char list"
  | Sent nat nat
  | Ready nat
  | Happens nat bev_what
  | Thread_Start nat
  | Thread_Turn nat "AVPacket option"
  | Thread_Send nat
  | Thread_End nat

text \<open>
  What libevent documents of its callbacks: data arrives only while reading is enabled, a
  connecting bufferevent reports \<open>BEV_EVENT_CONNECTED\<close> once, other events come to one that is
  connecting or has a direction enabled. A thread waits in the two places where it takes the
  lock, in front of the sweep and at \<open>End\<close>; the rest of its code runs whoever holds it.
\<close>

definition enabled :: "server \<Rightarrow> action \<Rightarrow> bool" where
  "enabled s a = (case a of
      Accept \<Rightarrow> True
    | Receive b bs \<Rightarrow> (case s_bevs s b of None \<Rightarrow> False | Some v \<Rightarrow> b_open v \<and> b_en_read v)
    | Sent b n \<Rightarrow> (case s_bevs s b of None \<Rightarrow> False | Some v \<Rightarrow> b_open v \<and> b_en_write v)
    | Ready b \<Rightarrow> (case s_bevs s b of None \<Rightarrow> False | Some v \<Rightarrow> b_open v \<and> b_en_read v \<and> b_in v \<noteq> [])
    | Happens b what \<Rightarrow> (case s_bevs s b of None \<Rightarrow> False
        | Some v \<Rightarrow> if what = BEV_EVENT_CONNECTED then b_peer v \<noteq> None \<and> \<not> b_open v
                    else b_peer v \<noteq> None \<and> \<not> b_open v \<or> b_en_read v \<or> b_en_write v)
    | Thread_Start t \<Rightarrow> (case s_threads s t of None \<Rightarrow> False | Some th \<Rightarrow> t_phase th = Created)
    | Thread_Turn t p \<Rightarrow> (case s_threads s t of None \<Rightarrow> False
        | Some th \<Rightarrow> (case t_phase th of Streaming _ _ _ \<Rightarrow> True | _ \<Rightarrow> False))
    | Thread_Send t \<Rightarrow> \<not> s_locked s \<and> (case s_threads s t of None \<Rightarrow> False
        | Some th \<Rightarrow> (case t_phase th of Sending _ _ _ _ _ \<Rightarrow> True | _ \<Rightarrow> False))
    | Thread_End t \<Rightarrow> \<not> s_locked s \<and> (case s_threads s t of None \<Rightarrow> False | Some th \<Rightarrow> t_phase th = Ending))"

fun exec :: "env \<Rightarrow> action \<Rightarrow> server \<Rightarrow> server res" where
  "exec e Accept s = Inr (snd (accept_client_connect_cb s))"
| "exec e (Receive b bs) s = on_bev b (\<lambda>v. v\<lparr>b_in := b_in v @ bs\<rparr>) s"
| "exec e (Sent b n) s = on_bev b (\<lambda>v. v\<lparr>b_out := drop n (b_out v)\<rparr>) s"
| "exec e (Ready b) s = run_read_cb e b s"
| "exec e (Happens b what) s =
     bind (if what = BEV_EVENT_CONNECTED then on_bev b (\<lambda>v. v\<lparr>b_open := True\<rparr>) s else Inr s) (\<lambda>s.
       run_event_cb b what s)"
| "exec e (Thread_Start t) s = thread_start e t s"
| "exec e (Thread_Turn t p) s = thread_turn t p s"
| "exec e (Thread_Send t) s = thread_send t s"
| "exec e (Thread_End t) s = thread_end t s"

inductive step :: "env \<Rightarrow> server \<Rightarrow> action \<Rightarrow> server \<Rightarrow> bool" for e where
  step: "enabled s a \<Longrightarrow> exec e a s = Inr s' \<Longrightarrow> step e s a s'"

inductive reach :: "env \<Rightarrow> server \<Rightarrow> bool" for e where
  start: "reach e server_init"
| next_step: "reach e s \<Longrightarrow> step e s a s' \<Longrightarrow> reach e s'"

inductive_cases stepE: "step e s a s'"
inductive_simps step_iff: "step e s a s'"

text \<open>A run of actions, each enabled when it comes.\<close>

fun run :: "env \<Rightarrow> action list \<Rightarrow> server \<Rightarrow> server res" where
  "run e [] s = Inr s"
| "run e (a # as) s = (if enabled s a then bind (exec e a s) (run e as) else Inr s)"

lemma reach_run:
  assumes "reach e s" "run e as s = Inr s'"
  shows "reach e s'"
  using assms
proof (induction "as" arbitrary: s)
  case (Cons a as)
  show ?case
  proof (cases "enabled s a")
    case True
    then obtain s1 where s1: "exec e a s = Inr s1" "run e as s1 = Inr s'"
      using Cons.prems(2) by (auto simp: bind_Inr_iff)
    have "reach e s1" by (rule reach.next_step [OF Cons.prems(1) step.step [OF True s1(1)]])
    then show ?thesis using Cons.IH s1(2) by blast
  next
    case False
    then show ?thesis using Cons.prems by simp
  qed
qed simp

section \<open>The invariant of the heap\<close>

definition list_ok :: "('a, 'k) list_t \<Rightarrow> bool" where
  "list_ok l \<longleftrightarrow> (\<exists>xs. holds_list l xs) \<or> dead_list l"

definition node_ok :: "dev_node \<Rightarrow> bool" where
  "node_ok n \<longleftrightarrow> list_ok (n_rtsp n) \<and> list_ok (n_wait n)"

definition fresh_ok :: "server \<Rightarrow> bool" where
  "fresh_ok s \<longleftrightarrow> (\<forall>a \<in> dom (s_devs s) \<union> dom (s_clients s) \<union> dom (s_waits s) \<union> dom (s_args s)
     \<union> dom (s_bevs s) \<union> dom (s_threads s). a < s_brk s)"

text \<open>
  \<open>heap_inv D s\<close>: the devices \<open>D\<close> are not on the list, the devices on the list are live and
  distinct, and the lists of all live devices are in order.
\<close>

definition devs_inv :: "nat set \<Rightarrow> server \<Rightarrow> bool" where
  "devs_inv D s \<longleftrightarrow> (\<exists>ds. holds_list (s_devlist s) ds \<and> distinct ds \<and> set ds \<inter> D = {} \<and>
     set ds \<subseteq> dom (s_devs s)) \<and> (\<forall>d n. s_devs s d = Some n \<longrightarrow> node_ok n)"

definition heap_inv :: "nat set \<Rightarrow> server \<Rightarrow> bool" where
  "heap_inv D s \<longleftrightarrow> devs_inv D s \<and> fresh_ok s"

lemma heap_invI:
  "holds_list (s_devlist s) ds \<Longrightarrow> distinct ds \<Longrightarrow> set ds \<inter> D = {} \<Longrightarrow> set ds \<subseteq> dom (s_devs s) \<Longrightarrow>
   (\<And>d n. s_devs s d = Some n \<Longrightarrow> node_ok n) \<Longrightarrow> fresh_ok s \<Longrightarrow> heap_inv D s"
  unfolding heap_inv_def devs_inv_def by blast

lemma heap_invE:
  assumes "heap_inv D s"
  obtains ds where "holds_list (s_devlist s) ds" "distinct ds" "set ds \<inter> D = {}" "set ds \<subseteq> dom (s_devs s)"
    "\<forall>d n. s_devs s d = Some n \<longrightarrow> node_ok n" "fresh_ok s"
  using assms unfolding heap_inv_def devs_inv_def by blast

lemma server_init_inv: "heap_inv {} server_init"
  using list_init_holds by (fastforce simp: heap_inv_def devs_inv_def fresh_ok_def server_init_def)

lemma heap_inv_mono: "heap_inv D s \<Longrightarrow> E \<subseteq> D \<Longrightarrow> heap_inv E s"
  unfolding heap_inv_def devs_inv_def by blast

text \<open>The lists.\<close>

lemma list_ok_init [simp]: "list_ok list_init"
  using list_init_holds by (auto simp: list_ok_def)

lemma list_ok_zero [simp]: "list_ok zero_list"
  by (simp add: list_ok_def dead_list_def zero_list_def list_init_def list_attributes_setdefaults_def)

lemma list_ok_append: "list_ok l \<Longrightarrow> holds UNIV (\<lambda>r. list_ok (fst r)) (list_append True l (Some x))"
  using append_holds [of l _ x] dead_append [of l "Some x"]
  by (fastforce simp: list_ok_def holds_def split: sum.splits)

lemma list_ok_delete: "list_ok l \<Longrightarrow> holds UNIV (\<lambda>r. list_ok (fst r)) (list_delete l (Some x))"
  using delete_holds [of l _ x] dead_delete [of l "Some x"]
  by (fastforce simp: list_ok_def holds_def split: sum.splits)

lemma list_ok_destroy: "list_ok l \<Longrightarrow> holds UNIV list_ok (list_destroy l)"
  using destroy_dead [of l] dead_destroy [of l]
  by (fastforce simp: list_ok_def holds_def split: sum.splits)

section \<open>Backward rules\<close>

named_theorems heap_wp \<open>backward rules for the heap invariant\<close>

lemma holds_pair: "holds F Q (f a b) \<Longrightarrow> holds F Q (case (a, b) of (x, y) \<Rightarrow> f x y)"
  by simp

named_theorems malloc_wp \<open>backward rules for an allocation\<close>

lemmas [heap_wp] = holds_bind holds_Inr holds_if holds_option

lemma holds_false [heap_wp]: "holds UNIV Q (Inl f)" by simp

lemma holds_any: "(\<And>x. Q x) \<Longrightarrow> holds UNIV Q m" by (cases m) simp_all

lemma lookup_wp [heap_wp]: "(\<And>v. h a = Some v \<Longrightarrow> Q v) \<Longrightarrow> holds UNIV Q (lookup h a)"
  by (simp add: lookup_def split: option.split)

lemma non_null_wp [heap_wp]: "(\<And>v. p = Some v \<Longrightarrow> Q v) \<Longrightarrow> holds UNIV Q (non_null p)"
  by (simp add: non_null_def split: option.split)

text \<open>Fields the invariant does not look at, or only through their domains.\<close>

lemma heap_inv_lock [simp]: "heap_inv D (s\<lparr>s_locked := x\<rparr>) = heap_inv D s"
  by (simp add: heap_inv_def devs_inv_def fresh_ok_def)

lemma heap_inv_unlock [simp]: "heap_inv D (unlock s) = heap_inv D s"
  by (simp add: unlock_def)

lemma heap_inv_set:
  "heap_inv D s \<Longrightarrow> s_clients s c \<noteq> None \<Longrightarrow> heap_inv D (set_client c cl s)"
  "heap_inv D s \<Longrightarrow> s_bevs s b \<noteq> None \<Longrightarrow> heap_inv D (set_bev b v s)"
  "heap_inv D s \<Longrightarrow> s_threads s t \<noteq> None \<Longrightarrow> heap_inv D (s\<lparr>s_threads := (s_threads s)(t \<mapsto> th)\<rparr>)"
  by (auto simp: heap_inv_def devs_inv_def fresh_ok_def set_client_def set_bev_def)

lemma heap_inv_free:
  "heap_inv D s \<Longrightarrow> heap_inv D (s\<lparr>s_clients := (s_clients s)(c := None)\<rparr>)"
  "heap_inv D s \<Longrightarrow> heap_inv D (s\<lparr>s_bevs := (s_bevs s)(b := None)\<rparr>)"
  "heap_inv D s \<Longrightarrow> heap_inv D (s\<lparr>s_args := (s_args s)(a := None)\<rparr>)"
  "heap_inv D s \<Longrightarrow> heap_inv D (s\<lparr>s_threads := (s_threads s)(t := None)\<rparr>)"
  by (auto simp: heap_inv_def devs_inv_def fresh_ok_def)

lemma heap_inv_set_dev:
  assumes "heap_inv D s" "s_devs s d \<noteq> None" "node_ok n"
  shows "heap_inv D (set_dev d n s)"
  using assms by (auto simp: heap_inv_def devs_inv_def fresh_ok_def set_dev_def)

lemma heap_inv_node: "heap_inv D s \<Longrightarrow> s_devs s d = Some n \<Longrightarrow> node_ok n"
  by (simp add: heap_inv_def devs_inv_def)

lemma wrlock_wp [heap_wp]: "heap_inv D s \<Longrightarrow> (\<And>s'. heap_inv D s' \<Longrightarrow> s_devs s' = s_devs s \<Longrightarrow> s_bevs s' = s_bevs s \<Longrightarrow> Q s') \<Longrightarrow>
   holds UNIV Q (wrlock s)"
  by (simp add: wrlock_def)

lemma on_bev_wp [heap_wp]:
  assumes I: "heap_inv D s"
    and Q: "\<And>s'. heap_inv D s' \<Longrightarrow> s_devs s' = s_devs s \<Longrightarrow> s_clients s' = s_clients s \<Longrightarrow> Q s'"
  shows "holds UNIV Q (on_bev b f s)"
  unfolding on_bev_def
proof (intro heap_wp Q)
  fix v assume "s_bevs s b = Some v"
  then show "heap_inv D (set_bev b (f v) s)" by (simp add: heap_inv_set I)
qed (simp_all add: set_bev_def)

lemma bufferevent_free_wp [heap_wp]:
  "heap_inv D s \<Longrightarrow> (\<And>s'. heap_inv D s' \<Longrightarrow> Q s') \<Longrightarrow> holds UNIV Q (bufferevent_free b s)"
  unfolding bufferevent_free_def by (intro heap_wp) (simp add: heap_inv_free)

lemma free_client_wp [heap_wp]:
  "heap_inv D s \<Longrightarrow> (\<And>s'. heap_inv D s' \<Longrightarrow> Q s') \<Longrightarrow> holds UNIV Q (free_client c s)"
  unfolding free_client_def by (intro heap_wp) (simp add: heap_inv_free)

lemma free_arg_wp [heap_wp]:
  "heap_inv D s \<Longrightarrow> (\<And>s'. heap_inv D s' \<Longrightarrow> Q s') \<Longrightarrow> holds UNIV Q (free_arg a s)"
  unfolding free_arg_def by (intro heap_wp) (simp add: heap_inv_free)

lemma heap_inv_free_dev:
  assumes "heap_inv (insert d D) s"
  shows "heap_inv D (s\<lparr>s_devs := (s_devs s)(d := None)\<rparr>)"
proof -
  let ?s = "s\<lparr>s_devs := (s_devs s)(d := None)\<rparr>"
  from assms obtain ds where ds: "holds_list (s_devlist s) ds" "distinct ds" "set ds \<inter> insert d D = {}"
    "set ds \<subseteq> dom (s_devs s)" by (auto simp: heap_inv_def devs_inv_def)
  then have "holds_list (s_devlist ?s) ds \<and> distinct ds \<and> set ds \<inter> D = {} \<and> set ds \<subseteq> dom (s_devs ?s)"
    by auto
  moreover have "\<forall>d n. s_devs ?s d = Some n \<longrightarrow> node_ok n"
    using assms by (simp add: heap_inv_def devs_inv_def)
  moreover have "fresh_ok ?s" using assms by (auto simp: heap_inv_def fresh_ok_def)
  ultimately show ?thesis unfolding heap_inv_def devs_inv_def by blast
qed

lemma free_dev_wp [heap_wp]:
  "heap_inv (insert d D) s \<Longrightarrow> (\<And>s'. heap_inv D s' \<Longrightarrow> Q s') \<Longrightarrow> holds UNIV Q (free_dev d s)"
  unfolding free_dev_def by (intro heap_wp) (simp add: heap_inv_free_dev)

text \<open>The operations on the lists of a device.\<close>

lemma append_rtsp_wp [heap_wp]:
  assumes I: "heap_inv D s" and Q: "\<And>s'. heap_inv D s' \<Longrightarrow> Q s'"
  shows "holds UNIV Q (append_rtsp d c s)"
  unfolding append_rtsp_def
proof (intro heap_wp)
  fix n assume n: "s_devs s d = Some n"
  show "holds UNIV (\<lambda>x. holds UNIV Q (case x of (l, _) \<Rightarrow> Inr (set_dev d (n\<lparr>n_rtsp := l\<rparr>) s)))
      (list_append True (n_rtsp n) (Some c))"
    using list_ok_append [of "n_rtsp n" c] heap_inv_node [OF I n] n I Q
    by (auto simp: node_ok_def holds_def heap_inv_set_dev split: sum.splits)
qed

lemma append_wait_wp [heap_wp]:
  assumes I: "heap_inv D s" and Q: "\<And>s'. heap_inv D s' \<Longrightarrow> s_devs s' d \<noteq> None \<Longrightarrow> Q s'"
  shows "holds UNIV Q (append_wait d c s)"
  unfolding append_wait_def
proof (intro heap_wp)
  fix n assume n: "s_devs s d = Some n"
  show "holds UNIV (\<lambda>x. holds UNIV Q (case x of (l, _) \<Rightarrow> Inr (set_dev d (n\<lparr>n_wait := l\<rparr>) s)))
      (list_append True (n_wait n) (Some c))"
    using list_ok_append [of "n_wait n" c] heap_inv_node [OF I n] n I
    by (auto simp: node_ok_def holds_def heap_inv_set_dev intro!: Q split: sum.splits) (simp add: set_dev_def)
qed

lemma delete_rtsp_wp [heap_wp]:
  assumes I: "heap_inv D s" and Q: "\<And>s'. heap_inv D s' \<Longrightarrow> Q s'"
  shows "holds UNIV Q (delete_rtsp d (Some c) s)"
  unfolding delete_rtsp_def
proof (intro heap_wp)
  fix n assume n: "s_devs s d = Some n"
  show "holds UNIV (\<lambda>x. holds UNIV Q (case x of (l, _) \<Rightarrow> Inr (set_dev d (n\<lparr>n_rtsp := l\<rparr>) s)))
      (list_delete (n_rtsp n) (Some c))"
    using list_ok_delete [of "n_rtsp n" c] heap_inv_node [OF I n] n I Q
    by (auto simp: node_ok_def holds_def heap_inv_set_dev split: sum.splits)
qed

lemma destroy_rtsp_wp [heap_wp]:
  assumes I: "heap_inv D s" and Q: "\<And>s'. heap_inv D s' \<Longrightarrow> Q s'"
  shows "holds UNIV Q (destroy_rtsp d s)"
  unfolding destroy_rtsp_def
proof (intro heap_wp)
  fix n assume n: "s_devs s d = Some n"
  show "holds UNIV (\<lambda>l. holds UNIV Q (Inr (set_dev d (n\<lparr>n_rtsp := l\<rparr>) s))) (list_destroy (n_rtsp n))"
    using list_ok_destroy [of "n_rtsp n"] heap_inv_node [OF I n] n I Q
    by (auto simp: node_ok_def holds_def heap_inv_set_dev split: sum.splits)
qed

lemma destroy_wait_wp [heap_wp]:
  assumes I: "heap_inv D s" and Q: "\<And>s'. heap_inv D s' \<Longrightarrow> Q s'"
  shows "holds UNIV Q (destroy_wait d s)"
  unfolding destroy_wait_def
proof (intro heap_wp)
  fix n assume n: "s_devs s d = Some n"
  show "holds UNIV (\<lambda>l. holds UNIV Q (Inr (set_dev d (n\<lparr>n_wait := l\<rparr>) s))) (list_destroy (n_wait n))"
    using list_ok_destroy [of "n_wait n"] heap_inv_node [OF I n] n I Q
    by (auto simp: node_ok_def holds_def heap_inv_set_dev split: sum.splits)
qed

text \<open>The device list.\<close>

lemma fresh_ok_devlist [simp]: "fresh_ok (s\<lparr>s_devlist := l\<rparr>) = fresh_ok s"
  by (simp add: fresh_ok_def)

lemma delete_dev_strong:
  assumes I: "heap_inv D s" and Q: "\<And>s'. heap_inv (insert d D) s' \<Longrightarrow> s_devs s' = s_devs s \<Longrightarrow> Q s'"
  shows "holds UNIV Q (delete_dev d s)"
proof -
  from heap_invE [OF I] obtain ds where ds: "holds_list (s_devlist s) ds" "distinct ds"
    "set ds \<inter> D = {}" "set ds \<subseteq> dom (s_devs s)"
    "\<forall>d n. s_devs s d = Some n \<longrightarrow> node_ok n" "fresh_ok s" .
  from delete_holds [OF ds(1), of d] obtain l r where
    l: "list_delete (s_devlist s) (Some d) = Inr (l, r)" "holds_list l (remove1 d ds)" by blast
  have "heap_inv (insert d D) (s\<lparr>s_devlist := l\<rparr>)"
    by (rule heap_invI [of _ "remove1 d ds"]) (use ds l(2) in \<open>auto simp: set_remove1_eq\<close>)
  then show ?thesis using l(1) Q by (simp add: delete_dev_def)
qed

lemma delete_dev_wp [heap_wp]:
  "heap_inv D s \<Longrightarrow> (\<And>s'. heap_inv (insert d D) s' \<Longrightarrow> Q s') \<Longrightarrow> holds UNIV Q (delete_dev d s)"
  by (rule delete_dev_strong)

lemma append_dev_wp [heap_wp]:
  assumes I: "heap_inv (insert d D) s" and d: "s_devs s d \<noteq> None"
    and Q: "\<And>s'. heap_inv {} s' \<Longrightarrow> s_devs s' = s_devs s \<Longrightarrow> Q s'"
  shows "holds UNIV Q (append_dev d s)"
proof -
  from heap_invE [OF I] obtain ds where ds: "holds_list (s_devlist s) ds" "distinct ds"
    "set ds \<inter> insert d D = {}" "set ds \<subseteq> dom (s_devs s)"
    "\<forall>d n. s_devs s d = Some n \<longrightarrow> node_ok n" "fresh_ok s" .
  from append_holds [OF ds(1), of d] obtain l where
    l: "list_append True (s_devlist s) (Some d) = Inr (l, 1)" "holds_list l (ds @ [d])" by blast
  have "heap_inv {} (s\<lparr>s_devlist := l\<rparr>)"
    by (rule heap_invI [of _ "ds @ [d]"]) (use ds l(2) d in auto)
  then show ?thesis using l(1) Q by (simp add: append_dev_def)
qed

lemma holds_list_seeker: "holds_list l xs \<Longrightarrow> holds_list (list_attributes_seeker l f) xs"
  unfolding holds_list_def represents_def list_rep_def plain_def
  by (auto simp: list_attributes_seeker_def linked_def)

lemma seek_dev_wp [heap_wp]:
  assumes I: "heap_inv D s" and Q: "\<And>s' r. heap_inv D s' \<Longrightarrow> s_devs s' = s_devs s \<Longrightarrow> Q (s', r)"
  shows "holds UNIV Q (seek_dev k s)"
proof -
  let ?l = "list_attributes_seeker (s_devlist s) (Some (DevSeeker (s_devs s)))"
  from heap_invE [OF I] obtain ds where ds: "holds_list (s_devlist s) ds" "distinct ds"
    "set ds \<inter> D = {}" "set ds \<subseteq> dom (s_devs s)"
    "\<forall>d n. s_devs s d = Some n \<longrightarrow> node_ok n" "fresh_ok s" .
  have "heap_inv D (s\<lparr>s_devlist := ?l\<rparr>)"
    by (rule heap_invI [of _ ds]) (use ds holds_list_seeker in auto)
  then show ?thesis
    unfolding seek_dev_def Let_def by (intro holds_bind holds_any holds_Inr Q) simp_all
qed

text \<open>Allocation.\<close>

lemma fresh_brk:
  assumes "heap_inv D s"
  shows "s_devs s (s_brk s) = None"
  using assms by (force simp: heap_inv_def fresh_ok_def)

lemma malloc_dev_wp [malloc_wp]:
  assumes I: "heap_inv D s" and n: "node_ok n"
    and Q: "\<And>d s'. heap_inv (insert d D) s' \<Longrightarrow> s_devs s' d = Some n \<Longrightarrow> holds UNIV Q (f d s')"
  shows "holds UNIV Q (case malloc_dev n s of (d, s) \<Rightarrow> f d s)"
proof -
  let ?s = "s\<lparr>s_devs := (s_devs s)(s_brk s \<mapsto> n), s_brk := s_brk s + 1\<rparr>"
  from heap_invE [OF I] obtain ds where ds: "holds_list (s_devlist s) ds" "distinct ds"
    "set ds \<inter> D = {}" "set ds \<subseteq> dom (s_devs s)"
    "\<forall>d n. s_devs s d = Some n \<longrightarrow> node_ok n" "fresh_ok s" .
  have new: "s_brk s \<notin> set ds" using ds(4) fresh_brk [OF I] by blast
  have "fresh_ok ?s" using ds(6) by (auto simp: fresh_ok_def less_Suc_eq)
  then have "heap_inv (insert (s_brk s) D) ?s"
    by (intro heap_invI [of _ ds]) (use ds new n in \<open>auto split: if_splits\<close>)
  then show ?thesis using Q by (simp add: malloc_dev_def)
qed

lemma fresh_ok_malloc:
  "heap_inv D s \<Longrightarrow> heap_inv D (s\<lparr>s_clients := (s_clients s)(s_brk s \<mapsto> cl), s_brk := Suc (s_brk s)\<rparr>)"
  "heap_inv D s \<Longrightarrow> heap_inv D (s\<lparr>s_waits := (s_waits s)(s_brk s \<mapsto> w), s_brk := Suc (s_brk s)\<rparr>)"
  "heap_inv D s \<Longrightarrow> heap_inv D (s\<lparr>s_args := (s_args s)(s_brk s \<mapsto> a), s_brk := Suc (s_brk s)\<rparr>)"
  "heap_inv D s \<Longrightarrow> heap_inv D (s\<lparr>s_bevs := (s_bevs s)(s_brk s \<mapsto> v), s_brk := Suc (s_brk s)\<rparr>)"
  "heap_inv D s \<Longrightarrow> heap_inv D (s\<lparr>s_threads := (s_threads s)(s_brk s \<mapsto> t), s_brk := Suc (s_brk s)\<rparr>)"
  by (auto simp: heap_inv_def devs_inv_def fresh_ok_def less_Suc_eq)

lemma malloc_client_wp [malloc_wp]:
  "heap_inv D s \<Longrightarrow> (\<And>c s'. heap_inv D s' \<Longrightarrow> s_devs s' = s_devs s \<Longrightarrow> holds UNIV Q (f c s')) \<Longrightarrow>
   holds UNIV Q (case malloc_client cl s of (c, s) \<Rightarrow> f c s)"
  by (simp add: malloc_client_def fresh_ok_malloc)

lemma malloc_wait_wp [malloc_wp]:
  "heap_inv D s \<Longrightarrow> (\<And>c s'. heap_inv D s' \<Longrightarrow> s_devs s' = s_devs s \<Longrightarrow> holds UNIV Q (f c s')) \<Longrightarrow>
   holds UNIV Q (case malloc_wait b s of (c, s) \<Rightarrow> f c s)"
  by (simp add: malloc_wait_def fresh_ok_malloc)

lemma malloc_arg_wp [malloc_wp]:
  "heap_inv D s \<Longrightarrow> (\<And>c s'. heap_inv D s' \<Longrightarrow> s_devs s' = s_devs s \<Longrightarrow> holds UNIV Q (f c s')) \<Longrightarrow>
   holds UNIV Q (case malloc_arg v s of (c, s) \<Rightarrow> f c s)"
  by (simp add: malloc_arg_def fresh_ok_malloc)

lemma bufferevent_new_wp [malloc_wp]:
  "heap_inv D s \<Longrightarrow> (\<And>c s'. heap_inv D s' \<Longrightarrow> s_devs s' = s_devs s \<Longrightarrow> holds UNIV Q (f c s')) \<Longrightarrow>
   holds UNIV Q (case bufferevent_new v s of (c, s) \<Rightarrow> f c s)"
  by (simp add: bufferevent_new_def fresh_ok_malloc)

lemma pthread_create_inv: "heap_inv D s \<Longrightarrow> heap_inv D (pthread_create d s)"
  by (simp add: pthread_create_def fresh_ok_malloc)

section \<open>Every handler keeps the invariant\<close>

text \<open>What the handlers compute without touching the server's state.\<close>

lemmas pure_wp [heap_wp] =
  holds_any [where m = "cstr_at a i" for a i]
  holds_any [where m = "strncpy a v n" for a v n]
  holds_any [where m = "wr_block a i v" for a i v]
  holds_any [where m = "list_get_at l i" for l :: "(nat, unit) list_t" and i]
  holds_any [where m = "basic_request d" for d]
  holds_any [where m = "sdp_message d" for d]
  holds_any [where m = "analysis_sdp_info t d" for t d]
  holds_any [where m = "recv_text t" for t]
  holds_any [where m = "rtsp_parser_input r p t" for r p t]
  holds_any [where m = "rtsp_get_status_code p" for p]
  holds_any [where m = "rtsp_get_header_by_name p k" for p k]
  holds_any [where m = "rtsp_parser_destroy p" for p]
  holds_any [where m = "e_stale e v" for e v]
  holds_any [where m = "get_realm_and_nonce t d" for t d]
  holds_any [where m = "get_response j t d" for j t d]
  holds_any [where m = "digest_request t d" for t d]
  holds_any [where m = "cJSON_Parse t i" for t i]
  holds_any [where m = "cJSON_GetObjectItem c k" for c k]
  holds_any [where m = "json_int c" for c]
  holds_any [where m = "field_array c k n" for c k n]
  holds_any [where m = "field_int c k" for c k]
  holds_any [where m = "optional_array c k n" for c k n]
  holds_any [where m = "analysis_json_dev_info t i out" for t i out]
  holds_any [where m = "url_decode t n a k" for t n a k]
  holds_any [where m = "load_device e t c k" for e t c k]
  holds_any [where m = "read_cmd t" for t]
  holds_any [where m = "open_url d" for d]

lemma rtsp_size_wp [heap_wp]: "(\<And>k. s_devs s d \<noteq> None \<Longrightarrow> Q k) \<Longrightarrow> holds UNIV Q (rtsp_size d s)"
  unfolding rtsp_size_def by (intro heap_wp) auto

lemma wait_size_wp [heap_wp]: "(\<And>k. s_devs s d \<noteq> None \<Longrightarrow> Q k) \<Longrightarrow> holds UNIV Q (wait_size d s)"
  unfolding wait_size_def by (intro heap_wp) auto

lemma node_ok_dev [simp]: "node_ok (n\<lparr>n_dev := d\<rparr>) = node_ok n"
  by (simp add: node_ok_def)

lemma node_ok_new [simp]: "node_ok \<lparr>n_dev = d, n_rtsp = list_init, n_wait = list_init\<rparr>"
  "node_ok \<lparr>n_dev = d, n_rtsp = list_init, n_wait = zero_list\<rparr>"
  by (simp_all add: node_ok_def)

lemma set_dev_inv:
  "heap_inv D s \<Longrightarrow> s_devs s d = Some n \<Longrightarrow> heap_inv D (set_dev d (n\<lparr>n_dev := x\<rparr>) s)"
  by (simp add: heap_inv_set_dev heap_inv_node)

lemma heap_inv_unlockI: "heap_inv D s \<Longrightarrow> heap_inv D (unlock s)"
  by simp

lemma set_client_inv: "heap_inv D s \<Longrightarrow> s_clients s c = Some v \<Longrightarrow> heap_inv D (set_client c cl s)"
  by (simp add: heap_inv_set)

lemma set_thread_inv:
  "heap_inv D s \<Longrightarrow> s_threads s t = Some v \<Longrightarrow> heap_inv D (s\<lparr>s_threads := (s_threads s)(t \<mapsto> th)\<rparr>)"
  by (simp add: heap_inv_set)

lemma heap_inv_if: "heap_inv D s \<Longrightarrow> heap_inv D t \<Longrightarrow> heap_inv D (if b then s else t)"
  by simp

lemmas state_rules = heap_inv_unlockI heap_inv_free set_client_inv set_thread_inv set_dev_inv
  pthread_create_inv heap_inv_if

text \<open>The read, write and event callbacks.\<close>

lemma deal_write_ok_wp: "heap_inv D s \<Longrightarrow> holds UNIV (heap_inv D) (deal_write_ok b s)"
  unfolding deal_write_ok_def by (rule heap_wp | assumption)+

lemma cb1_wp: "heap_inv D s \<Longrightarrow> holds UNIV (heap_inv D) (deal_client_cmd_error_cb1 b s)"
  unfolding deal_client_cmd_error_cb1_def by (rule heap_wp | assumption)+

lemma cb2_wp: "heap_inv {} s \<Longrightarrow> holds UNIV (heap_inv {}) (deal_client_cmd_error_cb2 b dev s)"
  unfolding deal_client_cmd_error_cb2_def
  by (rule heap_wp state_rules | assumption | erule heap_inv_mono, rule empty_subsetI)+

lemma send_msg_wp: "heap_inv D s \<Longrightarrow> holds UNIV (heap_inv D) (send_msg_to_push_client b what s)"
  unfolding send_msg_to_push_client_def by (rule heap_wp | assumption)+

lemma connect_to_rtsp_server_wp [heap_wp]:
  assumes "heap_inv D s" "\<And>s'. heap_inv D s' \<Longrightarrow> Q s'"
  shows "holds UNIV Q (connect_to_rtsp_server ip port dev s)"
  unfolding connect_to_rtsp_server_def Let_def
  by (rule malloc_wp | rule heap_wp state_rules assms | assumption)+

lemma rtsp_connected_wp: "heap_inv {} s \<Longrightarrow> holds UNIV (heap_inv {}) (rtsp_connected b a d c s)"
  unfolding rtsp_connected_def Let_def
  by (rule heap_wp state_rules | assumption)+

lemma rtsp_connect_failed_wp: "heap_inv {} s \<Longrightarrow> holds UNIV (heap_inv {}) (rtsp_connect_failed b a d c s)"
  unfolding rtsp_connect_failed_def
  by (rule heap_wp state_rules | assumption)+


lemma connect_cb_wp: "heap_inv {} s \<Longrightarrow> holds UNIV (heap_inv {}) (connect_to_rtsp_server_event_cb b what a s)"
  unfolding connect_to_rtsp_server_event_cb_def
  by (rule heap_wp rtsp_connected_wp rtsp_connect_failed_wp | assumption)+

lemma disable_client_bev_wp [heap_wp]:
  assumes "heap_inv D s" "\<And>s'. heap_inv D s' \<Longrightarrow> s_devs s' = s_devs s \<Longrightarrow> s_clients s' = s_clients s \<Longrightarrow> Q s'"
  shows "holds UNIV Q (disable_client_bev cl s)"
  unfolding disable_client_bev_def by (rule heap_wp assms | assumption)+

lemma send_rtsp_error_wp:
  "heap_inv {} s \<Longrightarrow> holds UNIV (heap_inv {}) (send_rtsp_to_server_event_error_cb a s)"
  unfolding send_rtsp_to_server_event_error_cb_def
  by (rule heap_wp state_rules | assumption | erule heap_inv_mono, rule empty_subsetI | simp)+

lemma test_dev_connection_wp [heap_wp]:
  assumes "heap_inv D s" "\<And>s'. heap_inv D s' \<Longrightarrow> Q s'"
  shows "holds UNIV Q (test_dev_connection d s)"
  unfolding test_dev_connection_def by (rule malloc_wp | rule heap_wp assms | assumption)+

lemma active_connect_wp: "heap_inv {} s \<Longrightarrow> holds UNIV (heap_inv {}) (active_connect_eventcb b what d s)"
  unfolding active_connect_eventcb_def
  by (rule heap_wp state_rules | assumption | erule heap_inv_mono, rule empty_subsetI)+

lemma answer_waiting_wp [heap_wp]:
  assumes "heap_inv D s" "\<And>s'. heap_inv D s' \<Longrightarrow> Q s'"
  shows "holds UNIV Q (answer_waiting msg d l i k s)"
  using assms
proof (induction k arbitrary: i s)
  case (Suc k)
  show ?case unfolding answer_waiting.simps
    by (rule heap_wp Suc | assumption)+
qed simp

lemma sdp_received_wp [heap_wp]:
  assumes "heap_inv D s" "\<And>s'. heap_inv D s' \<Longrightarrow> Q s'"
  shows "holds UNIV Q (sdp_received d t s)"
  unfolding sdp_received_def Let_def
  by (rule heap_wp state_rules assms | assumption)+

lemma digest_cb_wp: "heap_inv {} s \<Longrightarrow> holds UNIV (heap_inv {}) (read_dev_sdp_digest_cb b d s)"
  unfolding read_dev_sdp_digest_cb_def by (rule heap_wp | assumption)+

lemma digest_round_wp [heap_wp]:
  assumes "heap_inv D s" "\<And>s'. heap_inv D s' \<Longrightarrow> Q s'"
  shows "holds UNIV Q (digest_round e b d auth s)"
  unfolding digest_round_def Let_def
  by (rule heap_wp holds_prod state_rules assms | assumption)+

lemma unauthorized_wp [heap_wp]:
  assumes "heap_inv D s" "\<And>s' r. heap_inv D s' \<Longrightarrow> Q (s', r)"
  shows "holds UNIV Q (unauthorized e b d p s)"
  unfolding unauthorized_def by (rule heap_wp assms | assumption)+

lemma basic_cb_wp: "heap_inv {} s \<Longrightarrow> holds UNIV (heap_inv {}) (read_dev_sdp_basic_cb e b d s)"
  unfolding read_dev_sdp_basic_cb_def by (rule holds_pair | rule heap_wp holds_prod | assumption)+


text \<open>The commands.\<close>

lemma open_new_device_wp [heap_wp]:
  assumes "heap_inv {} s" "\<And>s' r. heap_inv {} s' \<Longrightarrow> Q (s', r)"
  shows "holds UNIV Q (open_new_device e devid chnl strm client s)"
  unfolding open_new_device_def
  by (rule malloc_wp | rule heap_wp state_rules assms node_ok_new | assumption | simp)+

lemma open_known_device_wp [heap_wp]:
  assumes "heap_inv {} s" "\<And>s' r. heap_inv {} s' \<Longrightarrow> Q (s', r)"
  shows "holds UNIV Q (open_known_device d client s)"
  unfolding open_known_device_def
  by (rule malloc_wp | rule heap_wp state_rules assms | assumption)+

lemma deal_open_video_wp [heap_wp]:
  assumes "heap_inv {} s" "\<And>s' r. heap_inv {} s' \<Longrightarrow> Q (s', r)"
  shows "holds UNIV Q (deal_open_video_cmd e buf i client s)"
  unfolding deal_open_video_cmd_def
  by (rule holds_pair | rule heap_wp state_rules assms | assumption | rule holds_prod)+

lemma push_new_device_wp [heap_wp]:
  assumes "heap_inv {} s" "\<And>s' r. heap_inv {} s' \<Longrightarrow> Q (s', r)"
  shows "holds UNIV Q (push_new_device e devid chnl strm ip port s)"
  unfolding push_new_device_def
  by (rule malloc_wp | rule heap_wp state_rules assms node_ok_new | assumption | simp)+

lemma push_stream_wp [heap_wp]:
  assumes "heap_inv {} s" "\<And>s' r. heap_inv {} s' \<Longrightarrow> Q (s', r)"
  shows "holds UNIV Q (push_stream e buf i s)"
  unfolding push_stream_def
  by (rule holds_pair | rule heap_wp state_rules assms | assumption | rule holds_prod)+

lemma connect_push_client_inv: "heap_inv D s \<Longrightarrow> heap_inv D (connect_push_client s)"
  by (simp add: connect_push_client_def bufferevent_new_def fresh_ok_malloc)

lemma stop_stream_wp [heap_wp]:
  assumes "heap_inv {} s" "\<And>s' r. heap_inv {} s' \<Longrightarrow> Q (s', r)"
  shows "holds UNIV Q (stop_stream buf i s)"
  unfolding stop_stream_def Let_def
  by (rule holds_pair | rule heap_wp state_rules assms connect_push_client_inv | assumption | rule holds_prod)+

lemma dispatch_cmd_wp [heap_wp]: "heap_inv {} s \<Longrightarrow> holds UNIV (heap_inv {}) (dispatch_cmd e b arg buf s)"
  unfolding dispatch_cmd_def deal_server_info_def deal_play_cmd_def
  by (rule holds_pair | rule heap_wp state_rules connect_push_client_inv | assumption)+

lemma deal_client_cmd_wp: "heap_inv {} s \<Longrightarrow> holds UNIV (heap_inv {}) (deal_client_cmd e b arg s)"
  unfolding deal_client_cmd_def
  by (intro heap_wp; simp split: frame_in.split) (intro conjI impI allI heap_wp; assumption)

lemma accept_inv: "heap_inv D s \<Longrightarrow> heap_inv D (snd (accept_client_connect_cb s))"
  by (simp add: accept_client_connect_cb_def bufferevent_new_def fresh_ok_malloc)

text \<open>The video thread.\<close>

lemma thread_end_wp [heap_wp]:
  assumes "heap_inv {} s" "\<And>s'. heap_inv {} s' \<Longrightarrow> Q s'"
  shows "holds UNIV Q (thread_end t s)"
  unfolding thread_end_def
  by (rule heap_wp state_rules assms | assumption)+

lemma thread_start_wp: "heap_inv {} s \<Longrightarrow> holds UNIV (heap_inv {}) (thread_start e t s)"
  unfolding thread_start_def Let_def to_phase_def
  by (rule heap_wp state_rules holds_prod | assumption | simp add: set_dev_def)+

lemma client_body_dom:
  "client_body p s c = Inr (s', dead) \<Longrightarrow> dom (v_clients s') = dom (v_clients s)"
  by (auto simp: client_body_def split: option.splits if_splits prod.splits)

lemma sweep_list_ok:
  assumes "list_ok l" "\<And>s x s' dead. body s x = Inr (s', dead) \<Longrightarrow> f s' = f s"
  shows "holds UNIV (\<lambda>r. list_ok (fst r) \<and> f (snd r) = f s)
    (sweep list_get_at (\<lambda>l x. list_delete l (Some x)) body k i l s)"
  using assms(1)
proof (induction k arbitrary: i l s)
  case (Suc k)
  have step: "holds UNIV (\<lambda>r. list_ok (fst r) \<and> f (snd r) = f s)
      (if dead then bind (list_delete l (Some x)) (\<lambda>(l, r).
            sweep list_get_at (\<lambda>l x. list_delete l (Some x)) body k i l s')
          else sweep list_get_at (\<lambda>l x. list_delete l (Some x)) body k (i + 1) l s')"
    if b: "body s x = Inr (s', dead)" for x s' dead
  proof (cases dead)
    case True
    show ?thesis
    proof (cases "list_delete l (Some x)")
      case (Inr lr)
      then have "list_ok (fst lr)" using list_ok_delete [OF Suc.prems, of x] by simp
      from Suc.IH [OF this, of s' i] show ?thesis using True Inr assms(2) [OF b] by (simp add: case_prod_beta)
    qed (simp add: True)
  next
    case False
    then show ?thesis using Suc.IH [OF Suc.prems, of s' "i + 1"] assms(2) [OF b] by simp
  qed
  show ?case
    by (cases "list_get_at l i") (auto simp: holds_def bind_Inr_iff split: sum.splits option.splits
        dest!: step [unfolded holds_def])
qed simp

lemma put_pump_inv:
  assumes "heap_inv D s" "dom (v_clients q) = dom (s_clients s)"
  shows "heap_inv D (put_pump q s)"
  using assms by (auto simp: heap_inv_def devs_inv_def fresh_ok_def put_pump_def split: option.splits)

lemma send_counted_wp [heap_wp]:
  assumes "list_ok l" "\<And>l' (q' :: pump). list_ok l' \<Longrightarrow> dom (v_clients q') = dom (v_clients q) \<Longrightarrow> Q (l', q')"
  shows "holds UNIV Q (send_counted p k l q)"
proof -
  have "holds UNIV (\<lambda>r. list_ok (fst r) \<and> dom (v_clients (snd r)) = dom (v_clients q)) (send_counted p k l q)"
    unfolding send_counted_def
    by (rule sweep_list_ok [where f = "\<lambda>q. dom (v_clients q)", OF assms(1)]) (rule client_body_dom)
  then show ?thesis by (rule holds_mono) (use assms(2) in auto)
qed

lemma thread_turn_wp: "heap_inv {} s \<Longrightarrow> holds UNIV (heap_inv {}) (thread_turn t pkt s)"
  unfolding thread_turn_def
  by (rule heap_wp, rule lookup_wp)
    (auto simp: to_phase_def holds_bind set_thread_inv split: thread_phase.split option.split prod.split
      intro!: heap_wp)

lemma swept_inv:
  assumes I: "heap_inv {} s" and n: "s_devs s d = Some n" and lq: "list_ok l" "dom (v_clients q) = dom (s_clients s)"
  shows "heap_inv {} (set_dev d (n\<lparr>n_rtsp := l\<rparr>) (put_pump q s))"
  using heap_inv_set_dev [OF put_pump_inv [OF I lq(2)], of d "n\<lparr>n_rtsp := l\<rparr>"] heap_inv_node [OF I n] n lq(1)
  by (simp add: put_pump_def node_ok_def)

lemma thread_send_wp:
  assumes I: "heap_inv {} s"
  shows "holds UNIV (heap_inv {}) (thread_send t s)"
  unfolding thread_send_def
proof (rule holds_bind, rule lookup_wp)
  fix th assume t: "s_threads s t = Some th"
  have frame: "holds UNIV (heap_inv {}) (bind (wrlock s) (\<lambda>s. bind (lookup (s_devs s) (t_dev th)) (\<lambda>n.
         bind (send_counted p k (n_rtsp n) (pump_of s)) (\<lambda>(l, q).
           Inr (to_phase t th ph (unlock (set_dev (t_dev th) (n\<lparr>n_rtsp := l\<rparr>) (put_pump q s))))))))" for p k ph
  proof (cases "s_locked s")
    case False
    let ?s = "s\<lparr>s_locked := True\<rparr>"
    have J: "heap_inv {} ?s" using I by simp
    have "holds UNIV (heap_inv {}) (bind (lookup (s_devs ?s) (t_dev th)) (\<lambda>n.
         bind (send_counted p k (n_rtsp n) (pump_of ?s)) (\<lambda>(l, q).
           Inr (to_phase t th ph (unlock (set_dev (t_dev th) (n\<lparr>n_rtsp := l\<rparr>) (put_pump q ?s)))))))"
    proof (rule holds_bind, rule lookup_wp, rule holds_bind, rule send_counted_wp)
      fix n assume n: "s_devs ?s (t_dev th) = Some n"
      then show "list_ok (n_rtsp n)" using heap_inv_node [OF J] by (simp add: node_ok_def)
      fix l :: "(nat, unit) list_t" and q :: pump
      assume lq: "list_ok l" "dom (v_clients q) = dom (v_clients (pump_of ?s))"
      let ?x = "unlock (set_dev (t_dev th) (n\<lparr>n_rtsp := l\<rparr>) (put_pump q ?s))"
      have "heap_inv {} ?x" using swept_inv [OF J n lq(1)] lq(2) by (simp add: pump_of_def)
      moreover have "s_threads ?x t = Some th" using t by (simp add: unlock_def set_dev_def put_pump_def)
      ultimately have "heap_inv {} (to_phase t th ph ?x)" unfolding to_phase_def by (rule set_thread_inv)
      then show "holds UNIV (heap_inv {}) (case (l, q) of (l, q) \<Rightarrow>
          Inr (to_phase t th ph (unlock (set_dev (t_dev th) (n\<lparr>n_rtsp := l\<rparr>) (put_pump q ?s)))))" by simp
    qed
    then show ?thesis using False by (simp add: wrlock_def)
  qed (simp add: wrlock_def)
  show "holds UNIV (heap_inv {}) (case t_phase th of Sending v a flag p k \<Rightarrow>
      bind (wrlock s) (\<lambda>s. bind (lookup (s_devs s) (t_dev th)) (\<lambda>n.
         bind (send_counted p k (n_rtsp n) (pump_of s)) (\<lambda>(l, q).
           Inr (to_phase t th (Streaming v a flag) (unlock (set_dev (t_dev th) (n\<lparr>n_rtsp := l\<rparr>) (put_pump q s)))))))
      | _ \<Rightarrow> Inr s)"
    using frame I by (simp split: thread_phase.split)
qed

section \<open>Reachable states\<close>

lemma run_read_cb_wp: "heap_inv {} s \<Longrightarrow> holds UNIV (heap_inv {}) (run_read_cb e b s)"
  unfolding run_read_cb_def
  by (intro holds_bind lookup_wp holds_option; simp split: read_cb.split;
      intro conjI impI holds_bind non_null_wp deal_client_cmd_wp basic_cb_wp digest_cb_wp deal_write_ok_wp; assumption)

lemma run_event_cb_wp: "heap_inv {} s \<Longrightarrow> holds UNIV (heap_inv {}) (run_event_cb b what s)"
  unfolding run_event_cb_def
  by (intro holds_bind lookup_wp holds_option; simp split: event_cb.split;
      intro conjI impI holds_bind non_null_wp cb1_wp cb2_wp active_connect_wp connect_cb_wp send_rtsp_error_wp
        send_msg_wp; assumption)

lemma exec_inv:
  assumes "heap_inv {} s"
  shows "holds UNIV (heap_inv {}) (exec e a s)"
proof (cases a)
  case (Happens b what)
  show ?thesis unfolding Happens exec.simps
    by (rule heap_wp run_event_cb_wp assms | assumption)+
qed (simp_all add: accept_inv assms run_read_cb_wp thread_start_wp thread_turn_wp thread_send_wp
    thread_end_wp [OF assms] on_bev_wp [OF assms])

lemma reach_inv: "reach e s \<Longrightarrow> heap_inv {} s"
proof (induction rule: reach.induct)
  case start
  show ?case by (rule server_init_inv)
next
  case (next_step s a s')
  from next_step.hyps(2) have "exec e a s = Inr s'" by (rule stepE)
  then show ?case using exec_inv [OF next_step.IH, of e a] by simp
qed

end
