(* ===== verification/Server_Lock.thy ===== *)
theory Server_Lock
  imports Server_Step
begin

text \<open>
  The lock \<open>rwlockMyLock\<close> across the handlers. \<open>lk B s\<close>: the lock is held in \<open>s\<close> when \<open>B\<close>. Every
  handler gives the lock back as it found it, or does not return because it finds it held; with
  the one exception of \<open>open_video\<close> for a device that is neither connected nor connecting.
\<close>

definition lk :: "bool \<Rightarrow> server \<Rightarrow> bool" where "lk B s \<longleftrightarrow> s_locked s = B"

named_theorems lock_wp \<open>backward rules for the lock\<close>

lemmas [lock_wp] = holds_bind holds_Inr holds_if holds_option holds_false pure_wp

section \<open>Operations that leave the lock alone\<close>

lemma keeps_lock:
  assumes "holds UNIV (\<lambda>s'. s_locked s' = s_locked s) m"
  shows "lk B s \<Longrightarrow> (\<And>s'. lk B s' \<Longrightarrow> Q s') \<Longrightarrow> holds UNIV Q m"
  using assms by (cases m) (auto simp: lk_def)

lemma keeps_lock_pair:
  assumes "\<And>s' r. m = Inr (s', r) \<Longrightarrow> s_locked s' = s_locked s"
  shows "lk B s \<Longrightarrow> (\<And>s' r. lk B s' \<Longrightarrow> Q (s', r)) \<Longrightarrow> holds UNIV Q m"
  using assms by (cases m) (auto simp: lk_def)

lemma lookup_lock [lock_wp]: "(\<And>v. h a = Some v \<Longrightarrow> Q v) \<Longrightarrow> holds UNIV Q (lookup h a)"
  by (rule lookup_wp)

lemma non_null_lock [lock_wp]: "(\<And>v. p = Some v \<Longrightarrow> Q v) \<Longrightarrow> holds UNIV Q (non_null p)"
  by (rule non_null_wp)

lemmas heap_ops = on_bev_def bufferevent_free_def free_client_def free_arg_def free_dev_def append_rtsp_def
  delete_rtsp_def destroy_rtsp_def append_wait_def destroy_wait_def append_dev_def delete_dev_def
  set_bev_def set_dev_def

lemma op_locked:
  "holds UNIV (\<lambda>s'. s_locked s' = s_locked s) (on_bev b f s)"
  "holds UNIV (\<lambda>s'. s_locked s' = s_locked s) (bufferevent_free b s)"
  "holds UNIV (\<lambda>s'. s_locked s' = s_locked s) (free_client c s)"
  "holds UNIV (\<lambda>s'. s_locked s' = s_locked s) (free_arg a s)"
  "holds UNIV (\<lambda>s'. s_locked s' = s_locked s) (free_dev d s)"
  "holds UNIV (\<lambda>s'. s_locked s' = s_locked s) (append_rtsp d c s)"
  "holds UNIV (\<lambda>s'. s_locked s' = s_locked s) (delete_rtsp d c' s)"
  "holds UNIV (\<lambda>s'. s_locked s' = s_locked s) (destroy_rtsp d s)"
  "holds UNIV (\<lambda>s'. s_locked s' = s_locked s) (append_wait d w s)"
  "holds UNIV (\<lambda>s'. s_locked s' = s_locked s) (destroy_wait d s)"
  "holds UNIV (\<lambda>s'. s_locked s' = s_locked s) (append_dev d s)"
  "holds UNIV (\<lambda>s'. s_locked s' = s_locked s) (delete_dev d s)"
  by (auto simp: heap_ops holds_def bind_Inr_iff split: prod.splits sum.splits)

lemmas op_lock [lock_wp] = keeps_lock [OF op_locked(1)]
  keeps_lock [OF op_locked(2)]
  keeps_lock [OF op_locked(3)]
  keeps_lock [OF op_locked(4)]
  keeps_lock [OF op_locked(5)]
  keeps_lock [OF op_locked(6)]
  keeps_lock [OF op_locked(7)]
  keeps_lock [OF op_locked(8)]
  keeps_lock [OF op_locked(9)]
  keeps_lock [OF op_locked(10)]
  keeps_lock [OF op_locked(11)]
  keeps_lock [OF op_locked(12)]

lemma rtsp_size_lock [lock_wp]: "(\<And>k. Q k) \<Longrightarrow> holds UNIV Q (rtsp_size d s)" by (rule holds_any)
lemma wait_size_lock [lock_wp]: "(\<And>k. Q k) \<Longrightarrow> holds UNIV Q (wait_size d s)" by (rule holds_any)

lemma seek_dev_lock [lock_wp]:
  "lk B s \<Longrightarrow> (\<And>s' r. lk B s' \<Longrightarrow> Q (s', r)) \<Longrightarrow> holds UNIV Q (seek_dev k s)"
  by (rule keeps_lock_pair) (auto simp: seek_dev_def Let_def bind_Inr_iff)

lemma wrlock_lock [lock_wp]:
  "lk B s \<Longrightarrow> (\<And>s'. B = False \<Longrightarrow> lk True s' \<Longrightarrow> Q s') \<Longrightarrow> holds UNIV Q (wrlock s)"
  by (auto simp: wrlock_def lk_def)

lemma lk_unlock [lock_wp]: "lk False (unlock s)" by (simp add: lk_def unlock_def)

text \<open>States, and allocation.\<close>

lemma lk_states [simp]:
  "lk B (set_dev d n s) = lk B s" "lk B (set_client c cl s) = lk B s" "lk B (set_bev b v s) = lk B s"
  "lk B (s\<lparr>s_threads := t\<rparr>) = lk B s" "lk B (put_pump q s) = lk B s"
  "lk B (pthread_create d s) = lk B s" "lk B (unlock s) = (B = False)"
  "lk B (connect_push_client s) = lk B s" "lk B (snd (accept_client_connect_cb s)) = lk B s"
  by (auto simp: lk_def set_dev_def set_client_def set_bev_def put_pump_def pthread_create_def unlock_def
      connect_push_client_def accept_client_connect_cb_def bufferevent_new_def)

lemma malloc_lock [lock_wp]:
  "lk B s \<Longrightarrow> (\<And>a s'. lk B s' \<Longrightarrow> holds UNIV Q (f a s')) \<Longrightarrow> holds UNIV Q (case malloc_dev n s of (a, s) \<Rightarrow> f a s)"
  "lk B s \<Longrightarrow> (\<And>a s'. lk B s' \<Longrightarrow> holds UNIV Q (f a s')) \<Longrightarrow> holds UNIV Q (case malloc_client cl s of (a, s) \<Rightarrow> f a s)"
  "lk B s \<Longrightarrow> (\<And>a s'. lk B s' \<Longrightarrow> holds UNIV Q (f a s')) \<Longrightarrow> holds UNIV Q (case malloc_wait w s of (a, s) \<Rightarrow> f a s)"
  "lk B s \<Longrightarrow> (\<And>a s'. lk B s' \<Longrightarrow> holds UNIV Q (f a s')) \<Longrightarrow> holds UNIV Q (case malloc_arg v s of (a, s) \<Rightarrow> f a s)"
  "lk B s \<Longrightarrow> (\<And>a s'. lk B s' \<Longrightarrow> holds UNIV Q (f a s')) \<Longrightarrow> holds UNIV Q (case bufferevent_new e s of (a, s) \<Rightarrow> f a s)"
  by (simp_all add: malloc_dev_def malloc_client_def malloc_wait_def malloc_arg_def bufferevent_new_def lk_def)

section \<open>The handlers\<close>

lemma deal_write_ok_lock: "lk B s \<Longrightarrow> holds UNIV (lk B) (deal_write_ok b s)"
  unfolding deal_write_ok_def by (rule lock_wp | assumption)+

lemma cb1_lock: "lk B s \<Longrightarrow> holds UNIV (lk B) (deal_client_cmd_error_cb1 b s)"
  unfolding deal_client_cmd_error_cb1_def by (rule lock_wp | assumption)+

lemma cb2_lock: "lk B s \<Longrightarrow> holds UNIV (lk B) (deal_client_cmd_error_cb2 b dev s)"
  unfolding deal_client_cmd_error_cb2_def by (rule lock_wp | assumption | simp)+

lemma send_msg_lock: "lk B s \<Longrightarrow> holds UNIV (lk B) (send_msg_to_push_client b what s)"
  unfolding send_msg_to_push_client_def by (rule lock_wp | assumption)+

lemma connect_to_rtsp_server_lock [lock_wp]:
  "lk B s \<Longrightarrow> (\<And>s'. lk B s' \<Longrightarrow> Q s') \<Longrightarrow> holds UNIV Q (connect_to_rtsp_server ip port dev s)"
  unfolding connect_to_rtsp_server_def Let_def by (rule lock_wp | assumption | simp)+

lemma rtsp_connected_lock: "lk B s \<Longrightarrow> holds UNIV (lk B) (rtsp_connected b a d c s)"
  unfolding rtsp_connected_def Let_def by (rule lock_wp | assumption | simp)+

lemma rtsp_connect_failed_lock: "lk B s \<Longrightarrow> holds UNIV (lk B) (rtsp_connect_failed b a d c s)"
  unfolding rtsp_connect_failed_def by (rule lock_wp | assumption | simp)+

lemma connect_cb_lock: "lk B s \<Longrightarrow> holds UNIV (lk B) (connect_to_rtsp_server_event_cb b what a s)"
  unfolding connect_to_rtsp_server_event_cb_def
  by (rule lock_wp rtsp_connected_lock rtsp_connect_failed_lock | assumption)+

lemma disable_client_bev_lock [lock_wp]:
  "lk B s \<Longrightarrow> (\<And>s'. lk B s' \<Longrightarrow> Q s') \<Longrightarrow> holds UNIV Q (disable_client_bev cl s)"
  unfolding disable_client_bev_def by (rule lock_wp | assumption)+

lemma send_rtsp_error_lock: "lk B s \<Longrightarrow> holds UNIV (lk B) (send_rtsp_to_server_event_error_cb a s)"
  unfolding send_rtsp_to_server_event_error_cb_def by (rule lock_wp | assumption | simp)+

lemma active_connect_lock: "lk B s \<Longrightarrow> holds UNIV (lk B) (active_connect_eventcb b what d s)"
  unfolding active_connect_eventcb_def by (rule lock_wp | assumption | simp)+

lemma answer_waiting_lock [lock_wp]:
  "lk B s \<Longrightarrow> (\<And>s'. lk B s' \<Longrightarrow> Q s') \<Longrightarrow> holds UNIV Q (answer_waiting msg d l i k s)"
proof (induction k arbitrary: i s)
  case (Suc k)
  show ?case unfolding answer_waiting.simps by (rule lock_wp Suc | assumption)+
qed simp

lemma sdp_received_lock [lock_wp]:
  "lk B s \<Longrightarrow> (\<And>s'. lk B s' \<Longrightarrow> Q s') \<Longrightarrow> holds UNIV Q (sdp_received d t s)"
  unfolding sdp_received_def Let_def by (rule lock_wp | assumption | simp)+

lemma digest_cb_lock: "lk B s \<Longrightarrow> holds UNIV (lk B) (read_dev_sdp_digest_cb b d s)"
  unfolding read_dev_sdp_digest_cb_def by (rule lock_wp | assumption)+

lemma digest_round_lock [lock_wp]:
  "lk B s \<Longrightarrow> (\<And>s'. lk B s' \<Longrightarrow> Q s') \<Longrightarrow> holds UNIV Q (digest_round e b d auth s)"
  unfolding digest_round_def Let_def by (rule lock_wp holds_prod | assumption | simp)+

lemma unauthorized_lock [lock_wp]:
  "lk B s \<Longrightarrow> (\<And>s' r. lk B s' \<Longrightarrow> Q (s', r)) \<Longrightarrow> holds UNIV Q (unauthorized e b d p s)"
  unfolding unauthorized_def by (rule lock_wp | assumption | simp)+

lemma basic_cb_lock: "lk B s \<Longrightarrow> holds UNIV (lk B) (read_dev_sdp_basic_cb e b d s)"
  unfolding read_dev_sdp_basic_cb_def by (rule holds_pair | rule lock_wp holds_prod | assumption)+

lemma thread_end_lock [lock_wp]:
  "lk B s \<Longrightarrow> (\<And>s'. lk B s' \<Longrightarrow> Q s') \<Longrightarrow> holds UNIV Q (thread_end t s)"
  unfolding thread_end_def by (rule lock_wp | assumption | simp)+

lemma thread_start_lock: "lk B s \<Longrightarrow> holds UNIV (lk B) (thread_start e t s)"
  unfolding thread_start_def Let_def to_phase_def by (rule lock_wp holds_prod | assumption | simp)+

lemma thread_turn_lock: "lk B s \<Longrightarrow> holds UNIV (lk B) (thread_turn t pkt s)"
  unfolding thread_turn_def
  by (rule holds_bind, rule lookup_lock)
    (auto simp: to_phase_def split: thread_phase.split option.split prod.split intro!: lock_wp)

lemma thread_send_lock:
  assumes "lk B s"
  shows "holds UNIV (lk B) (thread_send t s)"
proof -
  have "holds UNIV (lk B) (bind (wrlock s) (\<lambda>s. bind (lookup (s_devs s) d) (\<lambda>n.
      bind (send_counted p k (n_rtsp n) (pump_of s)) (\<lambda>(l, q).
        Inr (to_phase t th ph (unlock (set_dev d (n\<lparr>n_rtsp := l\<rparr>) (put_pump q s))))))))" for d p k th ph
    by (rule holds_bind, rule wrlock_lock [OF assms], rule holds_bind, rule lookup_lock, rule holds_bind, rule holds_any)
      (simp add: case_prod_beta to_phase_def)
  then show ?thesis
    unfolding thread_send_def using assms
    by (intro holds_bind lookup_lock) (simp split: thread_phase.split)
qed

section \<open>The commands\<close>

lemma test_dev_connection_lock [lock_wp]:
  "lk B s \<Longrightarrow> (\<And>s'. lk B s' \<Longrightarrow> Q s') \<Longrightarrow> holds UNIV Q (test_dev_connection d s)"
  unfolding test_dev_connection_def by (rule lock_wp | assumption)+

lemma open_new_device_lock [lock_wp]:
  "lk C s \<Longrightarrow> (\<And>s' r. lk False s' \<Longrightarrow> Q (s', r)) \<Longrightarrow> holds UNIV Q (open_new_device e devid chnl strm client s)"
  unfolding open_new_device_def by (rule lock_wp | assumption | simp)+

text \<open>A live device that is neither connected nor connecting.\<close>

definition idle_device :: "server \<Rightarrow> bool" where
  "idle_device s \<longleftrightarrow> (\<exists>d n. s_devs s d = Some n \<and> enumDevConnectStatus (n_dev n) \<notin> {CONNECTED, CONNECTING})"

definition lk_or_leak :: "bool \<Rightarrow> server \<Rightarrow> bool" where
  "lk_or_leak B s \<longleftrightarrow> lk B s \<or> s_locked s \<and> idle_device s"

lemma open_known_device_lock [lock_wp]:
  assumes "lk True s" "\<And>s' r. lk False s' \<Longrightarrow> Q (s', r)" "\<And>s' r. s_locked s' \<Longrightarrow> idle_device s' \<Longrightarrow> Q (s', r)"
  shows "holds UNIV Q (open_known_device d client s)"
proof (unfold open_known_device_def, rule holds_bind, rule lookup_lock)
  fix n assume n: "s_devs s d = Some n"
  have idle: "Q (s, 0)" if "enumDevConnectStatus (n_dev n) \<notin> {CONNECTED, CONNECTING}"
    using assms(1,3) n that by (auto simp: lk_def idle_device_def)
  show "holds UNIV Q (if enumDevConnectStatus (n_dev n) = CONNECTED then
       bind (sdp_message (n_dev n)) (\<lambda>msg.
       bind (on_bev client (\<lambda>v. enable_read True (bufferevent_setcb (Some Deal_Client_Cmd) None (Arg_Dev d)
         (bufferevent_write msg v))) (unlock s)) (\<lambda>s. Inr (s, 0)))
     else if enumDevConnectStatus (n_dev n) = CONNECTING then
       (case malloc_wait client s of (w, s) \<Rightarrow>
       bind (append_wait d w s) (\<lambda>s. Inr (unlock s, 0)))
     else Inr (s, 0))"
    by ((rule holds_Inr, rule idle, simp; fail) | rule lock_wp assms(1,2) | assumption)+
qed

lemma deal_open_video_lock [lock_wp]:
  assumes "lk B s" "\<And>s' r. lk B s' \<Longrightarrow> Q (s', r)" "\<And>s' r. s_locked s' \<Longrightarrow> idle_device s' \<Longrightarrow> Q (s', r)"
  shows "holds UNIV Q (deal_open_video_cmd e buf i client s)"
  unfolding deal_open_video_cmd_def
  by (rule holds_pair | rule lock_wp assms | assumption | rule holds_prod | simp)+

lemma push_new_device_lock [lock_wp]:
  "lk C s \<Longrightarrow> (\<And>s' r. lk False s' \<Longrightarrow> Q (s', r)) \<Longrightarrow> holds UNIV Q (push_new_device e devid chnl strm ip port s)"
  unfolding push_new_device_def by (rule lock_wp | assumption | simp)+

lemma push_stream_lock [lock_wp]:
  "lk B s \<Longrightarrow> (\<And>s' r. lk B s' \<Longrightarrow> Q (s', r)) \<Longrightarrow> holds UNIV Q (push_stream e buf i s)"
  unfolding push_stream_def
  by (rule holds_pair | rule lock_wp | assumption | rule holds_prod | simp)+

lemma stop_stream_lock [lock_wp]:
  "lk B s \<Longrightarrow> (\<And>s' r. lk B s' \<Longrightarrow> Q (s', r)) \<Longrightarrow> holds UNIV Q (stop_stream buf i s)"
  unfolding stop_stream_def Let_def
  by (rule holds_pair | rule lock_wp | assumption | rule holds_prod | simp)+

lemma dispatch_cmd_lock: "lk B s \<Longrightarrow> holds UNIV (lk_or_leak B) (dispatch_cmd e b arg buf s)"
  unfolding dispatch_cmd_def deal_server_info_def deal_play_cmd_def
  by (rule holds_pair | rule lock_wp | assumption | simp add: lk_or_leak_def)+

lemma deal_client_cmd_lock: "lk B s \<Longrightarrow> holds UNIV (lk_or_leak B) (deal_client_cmd e b arg s)"
  unfolding deal_client_cmd_def
proof (rule holds_bind, rule lookup_lock, rule holds_bind, rule holds_any)
  fix v f assume B: "lk B s"
  show "holds UNIV (lk_or_leak B) (case f of Wait_More \<Rightarrow> Inr s | Bad_Header \<Rightarrow> bufferevent_free b s
      | Command buf rest \<Rightarrow> bind (on_bev b (\<lambda>v. enable_read False (v\<lparr>b_in := rest\<rparr>)) s) (\<lambda>s. dispatch_cmd e b arg buf s))"
    by (cases f; simp) (rule lock_wp dispatch_cmd_lock B | assumption | simp add: lk_or_leak_def B)+
qed

section \<open>Steps\<close>

lemma lk_leak: "lk B s \<Longrightarrow> lk_or_leak B s" by (simp add: lk_or_leak_def)

lemma exec_lock: "lk B s \<Longrightarrow> holds UNIV (lk_or_leak B) (exec e a s)"
proof -
  assume B: "lk B s"
  note weak = holds_mono [where Q = "lk_or_leak B" and R = "lk B", OF _ lk_leak]
  show ?thesis
  proof (cases a)
    case (Ready b)
    show ?thesis unfolding Ready exec.simps run_read_cb_def
      by (intro holds_bind lookup_lock holds_option; simp split: read_cb.split add: lk_leak B)
        (intro conjI impI holds_bind non_null_lock deal_client_cmd_lock [OF B] weak basic_cb_lock digest_cb_lock
          deal_write_ok_lock B)
  next
    case (Happens b what)
    have cb: "holds UNIV (lk B) (run_event_cb b what s')" if "lk B s'" for s'
      unfolding run_event_cb_def
      by (intro holds_bind lookup_lock holds_option; simp split: event_cb.split add: that)
        (intro conjI impI holds_bind non_null_lock cb1_lock cb2_lock active_connect_lock connect_cb_lock send_rtsp_error_lock
          send_msg_lock that)
    show ?thesis unfolding Happens exec.simps
      by (rule weak) (rule lock_wp cb B | assumption)+
  qed (auto simp: B lk_leak intro!: weak [OF thread_start_lock] weak [OF thread_turn_lock]
        weak [OF thread_send_lock] weak [OF thread_end_lock]
        keeps_lock [OF op_locked(1) B])
qed

section \<open>What a held lock protects\<close>

text \<open>
  The device list, which devices are live, and the client and wait list of each: everything the
  lock is for. \<open>frozen L s\<close>: the lock is held in \<open>s\<close> and these are \<open>L\<close>.
\<close>

definition lists_of :: "server \<Rightarrow> (nat, DEV_INFO) list_t \<times> (nat \<Rightarrow> ((nat, unit) list_t \<times> (nat, unit) list_t) option)" where
  "lists_of s = (s_devlist s, \<lambda>d. map_option (\<lambda>n. (n_rtsp n, n_wait n)) (s_devs s d))"

definition frozen :: "(nat, DEV_INFO) list_t \<times> (nat \<Rightarrow> ((nat, unit) list_t \<times> (nat, unit) list_t) option) \<Rightarrow> server \<Rightarrow> bool" where
  "frozen L s \<longleftrightarrow> s_locked s \<and> lists_of s = L"

named_theorems frozen_wp \<open>backward rules for what the lock protects\<close>

lemmas [frozen_wp] = holds_bind holds_Inr holds_if holds_option holds_false pure_wp lookup_lock non_null_lock
  rtsp_size_lock wait_size_lock

lemma wrlock_frozen [frozen_wp]: "frozen L s \<Longrightarrow> holds UNIV Q (wrlock s)"
  by (simp add: wrlock_def frozen_def)

lemma on_bev_frozen [frozen_wp]:
  "frozen L s \<Longrightarrow> (\<And>s'. frozen L s' \<Longrightarrow> s_devs s' = s_devs s \<Longrightarrow> s_clients s' = s_clients s \<Longrightarrow> Q s') \<Longrightarrow> holds UNIV Q (on_bev b f s)"
  by (auto simp: on_bev_def set_bev_def frozen_def lists_of_def holds_def bind_Inr_iff split: sum.splits)

lemma bufferevent_free_frozen [frozen_wp]:
  "frozen L s \<Longrightarrow> (\<And>s'. frozen L s' \<Longrightarrow> s_devs s' = s_devs s \<Longrightarrow> Q s') \<Longrightarrow> holds UNIV Q (bufferevent_free b s)"
  by (auto simp: bufferevent_free_def frozen_def lists_of_def holds_def bind_Inr_iff split: sum.splits)

lemma frozen_states [simp]:
  "frozen L (set_client c cl s) = frozen L s" "frozen L (set_bev b v s) = frozen L s"
  "frozen L (to_phase t th ph s) = frozen L s" "frozen L (connect_push_client s) = frozen L s"
  "frozen L (snd (accept_client_connect_cb s)) = frozen L s"
  by (simp_all add: frozen_def lists_of_def set_client_def set_bev_def to_phase_def connect_push_client_def
      accept_client_connect_cb_def bufferevent_new_def)

lemma set_dev_frozen:
  "frozen L s \<Longrightarrow> s_devs s d = Some n \<Longrightarrow> frozen L (set_dev d (n\<lparr>n_dev := x\<rparr>) s)"
  by (auto simp: frozen_def lists_of_def set_dev_def fun_eq_iff)

lemma malloc_client_frozen [frozen_wp]:
  "frozen L s \<Longrightarrow> (\<And>c s'. frozen L s' \<Longrightarrow> holds UNIV Q (f c s')) \<Longrightarrow> holds UNIV Q (case malloc_client cl s of (c, s) \<Rightarrow> f c s)"
  by (simp add: malloc_client_def frozen_def lists_of_def)

lemma answer_waiting_frozen [frozen_wp]:
  "frozen L s \<Longrightarrow> (\<And>s'. frozen L s' \<Longrightarrow> Q s') \<Longrightarrow> holds UNIV Q (answer_waiting msg d l i k s)"
proof (induction k arbitrary: i s)
  case (Suc k)
  show ?case unfolding answer_waiting.simps by (rule frozen_wp Suc | assumption)+
qed simp

lemma sdp_received_frozen [frozen_wp]: "frozen L s \<Longrightarrow> holds UNIV Q (sdp_received d t s)"
  unfolding sdp_received_def Let_def by (rule frozen_wp set_dev_frozen | assumption)+

lemma digest_round_frozen [frozen_wp]:
  "frozen L s \<Longrightarrow> (\<And>s'. frozen L s' \<Longrightarrow> Q s') \<Longrightarrow> holds UNIV Q (digest_round e b d auth s)"
  unfolding digest_round_def Let_def by (rule frozen_wp holds_prod set_dev_frozen | assumption | simp)+

lemma unauthorized_frozen [frozen_wp]:
  "frozen L s \<Longrightarrow> (\<And>s' r. frozen L s' \<Longrightarrow> Q (s', r)) \<Longrightarrow> holds UNIV Q (unauthorized e b d p s)"
  unfolding unauthorized_def by (rule frozen_wp | assumption | simp)+

lemma basic_cb_frozen: "frozen L s \<Longrightarrow> holds UNIV (frozen L) (read_dev_sdp_basic_cb e b d s)"
  unfolding read_dev_sdp_basic_cb_def by (rule holds_pair | rule frozen_wp holds_prod | assumption)+

lemma digest_cb_frozen: "frozen L s \<Longrightarrow> holds UNIV (frozen L) (read_dev_sdp_digest_cb b d s)"
  unfolding read_dev_sdp_digest_cb_def by (rule frozen_wp | assumption)+

lemma connect_to_rtsp_server_frozen [frozen_wp]: "frozen L s \<Longrightarrow> holds UNIV Q (connect_to_rtsp_server ip port dev s)"
  unfolding connect_to_rtsp_server_def Let_def by (rule frozen_wp | assumption)+

lemma open_video_frozen [frozen_wp]: "frozen L s \<Longrightarrow> holds UNIV Q (deal_open_video_cmd e buf i client s)"
  unfolding deal_open_video_cmd_def by (rule frozen_wp holds_prod | assumption)+

lemma push_stream_frozen [frozen_wp]: "frozen L s \<Longrightarrow> holds UNIV Q (push_stream e buf i s)"
  unfolding push_stream_def by (rule frozen_wp holds_prod | assumption)+

lemma stop_stream_frozen [frozen_wp]:
  "frozen L s \<Longrightarrow> (\<And>s' r. frozen L s' \<Longrightarrow> Q (s', r)) \<Longrightarrow> holds UNIV Q (stop_stream buf i s)"
  unfolding stop_stream_def Let_def by (rule frozen_wp holds_prod | assumption | simp)+

lemma dispatch_cmd_frozen: "frozen L s \<Longrightarrow> holds UNIV (frozen L) (dispatch_cmd e b arg buf s)"
  unfolding dispatch_cmd_def deal_server_info_def deal_play_cmd_def
  by (rule holds_pair | rule frozen_wp | assumption | simp)+

lemma deal_client_cmd_frozen:
  assumes "frozen L s"
  shows "holds UNIV (frozen L) (deal_client_cmd e b arg s)"
  unfolding deal_client_cmd_def
proof (rule holds_bind, rule lookup_lock, rule holds_bind, rule holds_any)
  fix f
  show "holds UNIV (frozen L) (case f of Wait_More \<Rightarrow> Inr s | Bad_Header \<Rightarrow> bufferevent_free b s
      | Command buf rest \<Rightarrow> bind (on_bev b (\<lambda>v. enable_read False (v\<lparr>b_in := rest\<rparr>)) s) (\<lambda>s. dispatch_cmd e b arg buf s))"
    by (cases f; simp add: assms) (rule frozen_wp dispatch_cmd_frozen assms | assumption)+
qed

lemma event_cbs_frozen:
  assumes "frozen L s"
  shows "holds UNIV (frozen L) (deal_write_ok b s)" "holds UNIV (frozen L) (deal_client_cmd_error_cb1 b s)"
    "holds UNIV (frozen L) (deal_client_cmd_error_cb2 b dev s)" "holds UNIV (frozen L) (send_msg_to_push_client b what s)"
    "holds UNIV (frozen L) (connect_to_rtsp_server_event_cb b what a s)"
    "holds UNIV (frozen L) (send_rtsp_to_server_event_error_cb a s)"
    "holds UNIV (frozen L) (active_connect_eventcb b what d s)"
  unfolding deal_write_ok_def deal_client_cmd_error_cb1_def deal_client_cmd_error_cb2_def send_msg_to_push_client_def
    connect_to_rtsp_server_event_cb_def rtsp_connected_def rtsp_connect_failed_def Let_def
    send_rtsp_to_server_event_error_cb_def disable_client_bev_def active_connect_eventcb_def
  by (rule frozen_wp set_dev_frozen assms | assumption | simp)+

lemma threads_frozen:
  assumes "frozen L s"
  shows "holds UNIV (frozen L) (thread_start e t s)" "holds UNIV (frozen L) (thread_turn t pkt s)"
    "holds UNIV (frozen L) (thread_send t s)" "holds UNIV (frozen L) (thread_end t s)"
proof -
  show "holds UNIV (frozen L) (thread_start e t s)"
    unfolding thread_start_def Let_def by (rule frozen_wp holds_prod set_dev_frozen assms | assumption | simp)+
  show "holds UNIV (frozen L) (thread_turn t pkt s)"
    unfolding thread_turn_def using assms
    by (intro holds_bind lookup_lock) (auto split: thread_phase.split option.split prod.split intro!: frozen_wp)
  show "holds UNIV (frozen L) (thread_send t s)"
    unfolding thread_send_def using assms
    by (intro holds_bind lookup_lock) (simp add: frozen_wp split: thread_phase.split)
  show "holds UNIV (frozen L) (thread_end t s)"
    unfolding thread_end_def by (rule frozen_wp assms)+
qed

lemma exec_frozen:
  assumes "frozen L s"
  shows "holds UNIV (frozen L) (exec e a s)"
proof (cases a)
  case (Ready b)
  show ?thesis unfolding Ready exec.simps run_read_cb_def
    by (intro holds_bind lookup_lock holds_option; simp split: read_cb.split add: assms)
      (intro conjI impI holds_bind non_null_lock deal_client_cmd_frozen basic_cb_frozen digest_cb_frozen event_cbs_frozen assms)
next
  case (Happens b what)
  have cb: "holds UNIV (frozen L) (run_event_cb b what s')" if "frozen L s'" for s'
    unfolding run_event_cb_def
    by (intro holds_bind lookup_lock holds_option; simp split: event_cb.split add: that)
      (intro conjI impI holds_bind non_null_lock event_cbs_frozen that)
  show ?thesis unfolding Happens exec.simps by (rule frozen_wp cb assms | assumption)+
qed (auto simp: assms intro!: threads_frozen on_bev_frozen [OF assms])

section \<open>Properties\<close>

lemma run_frozen: "run e as s = Inr s' \<Longrightarrow> frozen L s \<Longrightarrow> frozen L s'"
proof (induction "as" arbitrary: s)
  case (Cons a as)
  show ?case
  proof (cases "enabled s a")
    case True
    then obtain s1 where s1: "exec e a s = Inr s1" "run e as s1 = Inr s'"
      using Cons.prems(1) by (auto simp: bind_Inr_iff)
    then show ?thesis using exec_frozen [OF Cons.prems(2), of e a] Cons.IH by simp
  next
    case False
    then show ?thesis using Cons.prems by simp
  qed
qed simp

text \<open>A box with one camera in its database, and a network where it answers over TCP.\<close>

definition camera_row :: "char list option list" where
  "camera_row = [Some ''10.0.0.9'', Some ''554'', Some ''admin'', Some ''12345'', Some ''YWQ='', Some ''/1'', Some ''/2'']"

definition box_env :: env where
  "box_env = \<lparr>e_rtsp = \<lparr>env_alloc = (\<lambda>n. True), env_body_max_size = 0\<rparr>, e_junk = replicate 64 0, e_stale = Inr,
     e_db = (\<lambda>sql. Db_Exec [camera_row] None), e_open = (\<lambda>url tcp. Some [Codec_Video])\<rparr>"

text \<open>
  C5: lock discipline. Whatever happens, network, peer or thread, a step that completes leaves
  the lock as it found it, unless a device is neither connected nor connecting: only then can a
  step end with the lock still held (\<open>open_video\<close> for such a device returns without the unlock).
\<close>

theorem lock_discipline:
  assumes "step e s a s'"
  shows "s_locked s' = s_locked s \<or> s_locked s' \<and> idle_device s'"
  using assms exec_lock [of "s_locked s" s e a] by (auto simp: step_iff lk_or_leak_def lk_def)

theorem lock_discipline_witness:
  "s_locked (snd (accept_client_connect_cb server_init)) = s_locked server_init \<or>
   s_locked (snd (accept_client_connect_cb server_init)) \<and> idle_device (snd (accept_client_connect_cb server_init))"
  by (rule lock_discipline [where e = box_env and a = Accept]) (simp add: step_iff enabled_def)



end
