(* ===== verification/Server_Props.thy ===== *)
theory Server_Props
  imports Server_Lock Rtsp_Roundtrip Dev_Props Cjson_Roundtrip
begin

text \<open>
  What the server does: an \<open>open_video\<close> command from the client to the device and back, the
  lock, the life of devices, clients and threads, and the schedules on which the code follows a
  dangling pointer or leaves a peer without an answer.
\<close>

section \<open>Frames\<close>

lemma set_dev_frame [simp]:
  "s_bevs (set_dev d n s) = s_bevs s" "s_waits (set_dev d n s) = s_waits s"
  "s_locked (set_dev d n s) = s_locked s" "s_devlist (set_dev d n s) = s_devlist s"
  "s_clients (set_dev d n s) = s_clients s" "s_args (set_dev d n s) = s_args s"
  "s_devs (set_dev d n s) = (s_devs s)(d \<mapsto> n)" "s_threads (set_dev d n s) = s_threads s"
  by (simp_all add: set_dev_def)

section \<open>The lists of the server\<close>

lemma seek_holds:
  assumes "holds_list l xs" "l_seeker l = Some sk"
  shows "list_seek l k = Inr (find (\<lambda>x. sk (Some x) k) xs)"
proof -
  from assms(1) obtain ns where R: "list_rep l ns (map Some xs)"
    by (auto simp: holds_list_def represents_def)
  have "(case first_hit (\<lambda>x. sk x k) (map Some xs) of None \<Rightarrow> None | Some j \<Rightarrow> map Some xs ! j)
      = find (\<lambda>x. sk (Some x) k) xs"
    by (induction xs) (auto split: option.splits)
  with list_seek_rep [OF R assms(2), of k] show ?thesis by simp
qed

text \<open>A search of a list of live devices finds the first one with the key.\<close>

lemma seek_dev_finds:
  assumes "holds_list (s_devlist s) ds" "set ds \<subseteq> dom (s_devs s)"
  shows "seek_dev k s = Inr (s\<lparr>s_devlist := list_attributes_seeker (s_devlist s) (Some (DevSeeker (s_devs s)))\<rparr>,
    find (\<lambda>d. same_key (n_dev (the (s_devs s d))) k) ds)"
proof -
  let ?l = "list_attributes_seeker (s_devlist s) (Some (DevSeeker (s_devs s)))"
  have l: "holds_list ?l ds" "l_seeker ?l = Some (DevSeeker (s_devs s))"
    using holds_list_seeker [OF assms(1)] by (simp_all add: list_attributes_seeker_def)
  have eq: "find (\<lambda>d. DevSeeker (s_devs s) (Some d) k) ds = find (\<lambda>d. same_key (n_dev (the (s_devs s d))) k) ds"
    using assms(2) by (induction ds) (auto simp: DevSeeker_def)
  have live: "\<exists>n. s_devs s d = Some n" if "find (\<lambda>d. same_key (n_dev (the (s_devs s d))) k) ds = Some d" for d
    using that assms(2) by (auto simp: find_Some_iff) (meson domD nth_mem subsetD)
  show ?thesis
    using seek_holds [OF l, of k] eq live
    by (auto simp: seek_dev_def Let_def lookup_def split: option.splits)
qed

text \<open>The answers to the clients that wait, as one update of the bufferevents.\<close>

lemma answer_waiting_spec:
  assumes "holds_list l ws" "length ws < 2 ^ 31" "map (s_waits s) ws = map Some bs" "distinct bs"
    "\<forall>b \<in> set bs. s_bevs s b \<noteq> None" "i + k = length ws"
  shows "answer_waiting msg d l i k s = Inr (s\<lparr>s_bevs := (\<lambda>b. if b \<in> set (drop i bs)
      then map_option (answer_client msg d) (s_bevs s b) else s_bevs s b)\<rparr>)"
  using assms
proof (induction k arbitrary: i s)
  case 0
  have "length bs = length ws" using 0(3) by (metis length_map)
  then show ?case using 0 by simp
next
  case (Suc k)
  have len: "length bs = length ws" using Suc.prems(3) by (metis length_map)
  have i: "i < length ws" using Suc.prems(6) by simp
  have w: "s_waits s (ws ! i) = Some (bs ! i)"
    using i len arg_cong [OF Suc.prems(3), of "\<lambda>xs. xs ! i"] by simp
  obtain v where v: "s_bevs s (bs ! i) = Some v" using Suc.prems(5) i len by fastforce
  let ?s = "set_bev (bs ! i) (answer_client msg d v) s"
  have dr: "drop i bs = bs ! i # drop (Suc i) bs" using i len by (simp add: Cons_nth_drop_Suc)
  have nin: "bs ! i \<notin> set (drop (Suc i) bs)"
    using Suc.prems(4) dr by (metis distinct.simps(2) distinct_drop)
  have IH: "answer_waiting msg d l (Suc i) k ?s = Inr (?s\<lparr>s_bevs := (\<lambda>b. if b \<in> set (drop (Suc i) bs)
      then map_option (answer_client msg d) (s_bevs ?s b) else s_bevs ?s b)\<rparr>)"
    by (rule Suc.IH) (use Suc.prems in \<open>auto simp: set_bev_def\<close>)
  have "answer_waiting msg d l i (Suc k) s = answer_waiting msg d l (Suc i) k ?s"
    using get_holds [OF Suc.prems(1,2) i] w v by (simp add: non_null_def lookup_def on_bev_def)
  also have "\<dots> = Inr (s\<lparr>s_bevs := (\<lambda>b. if b \<in> set (drop i bs)
      then map_option (answer_client msg d) (s_bevs s b) else s_bevs s b)\<rparr>)"
    unfolding IH using v nin by (auto simp: set_bev_def dr fun_eq_iff)
  finally show ?case .
qed

section \<open>The answer of a device\<close>

lemma destroy_wait_run:
  assumes "s_devs s d = Some n" "holds_list (n_wait n) ws"
  shows "\<exists>l. dead_list l \<and> destroy_wait d s = Inr (set_dev d (n\<lparr>n_wait := l\<rparr>) s)"
  using destroy_dead [OF assms(2)] assms(1) by (auto simp: destroy_wait_def lookup_def)

section \<open>Opening a device\<close>

lemma cstr_clean: "cstr_at m i = Inr s \<Longrightarrow> NUL \<notin> set s"
  by (auto simp: cstr_at_def split: if_splits dest!: set_takeWhileD)

lemma cstr_short: "cstr_at m i = Inr s \<Longrightarrow> i + length s < length m"
proof -
  assume "cstr_at m i = Inr s"
  then have i: "NUL \<in> set (drop i m)" "s = takeWhile (\<lambda>c. c \<noteq> NUL) (drop i m)" "i < length m"
    by (auto simp: cstr_at_def split: if_splits)
  have "length (takeWhile (\<lambda>c. c \<noteq> NUL) (drop i m)) < length (drop i m)"
    using i(1) by (metis (mono_tags, lifting) length_takeWhile_le le_neq_implies_less takeWhile_eq_all_conv take_all
        takeWhile_eq_take)
  then show ?thesis using i by simp
qed

lemma strncpy_str:
  assumes "length field = n" "length s < n" "NUL \<notin> set s"
  shows "\<exists>f. strncpy field s n = Inr f \<and> holds_str f s \<and> length f = n"
proof -
  have "replicate (n - length s) NUL = NUL # replicate (n - length s - 1) NUL"
    using assms(2) by (cases "n - length s") simp_all
  then show ?thesis using assms by (auto simp: strncpy_def wr_block_def holds_str_def min_def)
qed

text \<open>What the row of the database makes of a device.\<close>

lemma load_device_fields:
  assumes "load_device e devid chnl strm = Inr (Some dev)"
  shows "(\<exists>ip. cstr_at (arrDevIp dev) 0 = Inr ip \<and> 7 \<le> length ip) \<and>
    (\<exists>f. strncpy f devid MAX_DEV_ID_LEN = Inr (pDevId dev)) \<and> iDevChnl dev = chnl \<and> iDevStreamType dev = strm"
  using assms by (auto simp: load_device_def bind_Inr_iff split: if_splits)

lemma strncpy_cstr:
  assumes "strncpy f s n = Inr g" "length s < n" "NUL \<notin> set s"
  shows "cstr_at g 0 = Inr s"
proof -
  have "replicate (n - length s) NUL = NUL # replicate (n - length s - 1) NUL"
    using assms(2) by (cases "n - length s") simp_all
  then show ?thesis using assms by (auto simp: strncpy_def wr_block_def cstr_at_terminated split: if_splits)
qed

text \<open>The text of an \<open>open_video\<close> command, as a client prints it.\<close>

definition open_video_members :: "char list \<Rightarrow> int \<Rightarrow> int \<Rightarrow> (char list \<times> char list) list" where
  "open_video_members devid chnl strm =
     [(''cmdType'', quoted ''open_video''), (''devId'', quoted devid), (''devChnl'', show_int chnl),
      (''devStreamType'', show_int strm)]"

definition open_video_text :: "char list \<Rightarrow> int \<Rightarrow> int \<Rightarrow> char list" where
  "open_video_text devid chnl strm =
     CHR ''{'' # join '','' (map (member []) (open_video_members devid chnl strm)) @ ''}''"

definition int_ok :: "int \<Rightarrow> bool" where "int_ok i \<longleftrightarrow> INT_MIN \<le> i \<and> i \<le> INT_MAX"

definition open_video_item :: "char list \<Rightarrow> int \<Rightarrow> int \<Rightarrow> cJSON" where
  "open_video_item devid chnl strm = list_item cJSON_Object
     [name_item ''cmdType'' (string_item ''open_video''), name_item ''devId'' (string_item devid),
      name_item ''devChnl'' (number_item (of_int chnl) chnl),
      name_item ''devStreamType'' (number_item (of_int strm) strm)]"

lemma open_video_parses:
  assumes "NUL \<notin> set devid" "int_ok chnl" "int_ok strm"
  shows "parses (open_video_text devid chnl strm) (open_video_item devid chnl strm)"
proof -
  let ?vs = "[string_item ''open_video'', string_item devid, number_item (of_int chnl) chnl, number_item (of_int strm) strm]"
  have "list_all2 member_ok (open_video_members devid chnl strm) ?vs"
    using assms parses_string parses_int
    by (simp add: open_video_members_def member_ok_def int_ok_def NUL_def)
  from parses_object [OF this, of "[]" "[]" "[]" "[]"] show ?thesis
    by (simp add: open_video_text_def open_video_item_def open_video_members_def)
qed

lemma open_video_keys:
  "\<not> strcaseeq ''cmdType'' ''devId''" "\<not> strcaseeq ''cmdType'' ''devChnl''" "\<not> strcaseeq ''devId'' ''devChnl''"
  "\<not> strcaseeq ''cmdType'' ''devStreamType''" "\<not> strcaseeq ''devId'' ''devStreamType''"
  "\<not> strcaseeq ''devChnl'' ''devStreamType''"
  by code_simp+

text \<open>
  The part of \<open>deal_open_video_cmd\<close> before the device is known: a command text at \<open>i\<close> for an id
  that decodes, and the key the device is looked up with.
\<close>

definition key_for :: "char list \<Rightarrow> int \<Rightarrow> int \<Rightarrow> DEV_INFO" where
  "key_for dec chnl strm = \<lparr>k_DevId = dec @ NUL # zeros (MAX_DEV_ID_LEN - Suc (length dec)),
     k_DevChnl = chnl, k_DevStreamType = strm\<rparr>"

definition asks_for :: "char list \<Rightarrow> nat \<Rightarrow> char list \<Rightarrow> char list \<Rightarrow> int \<Rightarrow> int \<Rightarrow> bool" where
  "asks_for buf i devid dec chnl strm \<longleftrightarrow> int_ok chnl \<and> int_ok strm \<and> NUL \<notin> set devid \<and>
     length devid < MAX_DEV_ID_LEN \<and> url_dec devid = Some dec \<and>
     (\<exists>r. drop i buf = open_video_text devid chnl strm @ NUL # r)"

lemma asks_for_parsed:
  assumes "asks_for buf i devid dec chnl strm"
  shows "analysis_json_dev_info buf i (zeros MAX_DEV_ID_LEN, - 1, - 1) =
      Inr (0, devid @ NUL # zeros (MAX_DEV_ID_LEN - Suc (length devid)), chnl, strm)"
proof -
  from assms obtain r where r: "drop i buf = open_video_text devid chnl strm @ NUL # r"
    and ok: "int_ok chnl" "int_ok strm" "NUL \<notin> set devid" "length devid < MAX_DEV_ID_LEN"
    by (auto simp: asks_for_def)
  have "cJSON_Parse buf i = Inr (Some (open_video_item devid chnl strm))"
    by (rule parse_printed [OF open_video_parses r]) (use ok in simp_all)
  then show ?thesis using ok(4) open_video_keys
    by (simp add: analysis_json_dev_info_def open_video_item_def cJSON_GetObjectItem_def list_item_def name_item_def
        string_item_def number_item_def key_matches_def json_text_def json_int_def non_null_def open_video_fields_def)
qed

lemma asks_for_key:
  assumes "asks_for buf i devid dec chnl strm"
  shows "url_decode devid (int (length devid)) (zeros MAX_DEV_ID_LEN) MAX_DEV_ID_LEN = Inr (0, k_DevId (key_for dec chnl strm))"
  using assms url_dec_length [of devid dec]
  by (simp add: asks_for_def key_for_def url_decode_room)

abbreviation key_of :: "server \<Rightarrow> DEV_INFO \<Rightarrow> nat \<Rightarrow> bool" where
  "key_of s k d \<equiv> same_key (n_dev (the (s_devs s d))) k"

lemma open_video_seek:
  assumes "asks_for buf i devid dec chnl strm" "\<not> s_locked s" "holds_list (s_devlist s) ds" "set ds \<subseteq> dom (s_devs s)"
  shows "\<exists>l. holds_list l ds \<and> deal_open_video_cmd e buf i client s =
    (let s = s\<lparr>s_locked := True, s_devlist := l\<rparr> in
     case find (key_of s (key_for dec chnl strm)) ds of
       None \<Rightarrow> open_new_device e devid chnl strm client s
     | Some d \<Rightarrow> open_known_device d client s)"
proof -
  let ?s = "s\<lparr>s_locked := True\<rparr>" and ?k = "key_for dec chnl strm"
  let ?l = "list_attributes_seeker (s_devlist s) (Some (DevSeeker (s_devs s)))"
  have id: "cstr_at (devid @ NUL # zeros (MAX_DEV_ID_LEN - Suc (length devid))) 0 = Inr devid"
    using assms(1) by (simp add: asks_for_def cstr_at_terminated)
  have k: "\<lparr>k_DevId = k_DevId ?k, k_DevChnl = chnl, k_DevStreamType = strm\<rparr> = ?k" by (simp add: key_for_def)
  have "seek_dev ?k ?s = Inr (?s\<lparr>s_devlist := ?l\<rparr>, find (key_of s ?k) ds)"
    using seek_dev_finds [of ?s ds ?k] assms(3,4) by simp
  with assms(2) have "deal_open_video_cmd e buf i client s =
    (case find (key_of s ?k) ds of
       None \<Rightarrow> open_new_device e devid chnl strm client (?s\<lparr>s_devlist := ?l\<rparr>)
     | Some d \<Rightarrow> open_known_device d client (?s\<lparr>s_devlist := ?l\<rparr>))"
    by (simp add: deal_open_video_cmd_def asks_for_parsed [OF assms(1)] id asks_for_key [OF assms(1)] wrlock_def k)
  then show ?thesis using holds_list_seeker [OF assms(3)] by (auto simp: Let_def)
qed

lemma open_new_run:
  assumes "asks_for buf i devid dec chnl strm" "\<not> s_locked s" "holds_list (s_devlist s) ds" "set ds \<subseteq> dom (s_devs s)"
    "\<forall>d \<in> set ds. \<not> key_of s (key_for dec chnl strm) d" "load_device e devid chnl strm = Inr (Some dev)"
  shows "\<exists>s' ip w. deal_open_video_cmd e buf i client s = Inr (s', 0) \<and> cstr_at (arrDevIp dev) 0 = Inr ip \<and>
    holds_list (s_devlist s') (ds @ [s_brk s]) \<and>
    s_devs s' = (s_devs s)(s_brk s \<mapsto>
      \<lparr>n_dev = dev\<lparr>enumDevConnectStatus := CONNECTING\<rparr>, n_rtsp = list_init, n_wait = w\<rparr>) \<and>
    holds_list w [s_brk s + 1] \<and> s_waits s' = (s_waits s)(s_brk s + 1 \<mapsto> client) \<and>
    s_bevs s' = (s_bevs s)(s_brk s + 2 \<mapsto> enable_read True (socket_connect ip (iDevRtspPort dev)
      (bufferevent_setcb (Some Read_Sdp_Basic) (Some Active_Connect) (Arg_Dev (s_brk s)) socket_new))) \<and>
    \<not> s_locked s' \<and> s_clients s' = s_clients s \<and> s_args s' = s_args s \<and> s_threads s' = s_threads s"
proof -
  from load_device_fields [OF assms(6)] obtain ip where ip: "cstr_at (arrDevIp dev) 0 = Inr ip" by blast
  have none: "find (key_of s (key_for dec chnl strm)) ds = None" using assms(5) by (simp add: find_None_iff)
  from open_video_seek [OF assms(1-4)] obtain l where
    l: "holds_list l ds" and run: "deal_open_video_cmd e buf i client s =
      open_new_device e devid chnl strm client (s\<lparr>s_locked := True, s_devlist := l\<rparr>)"
    by (auto simp: Let_def none)
  from append_holds [OF l, of "s_brk s"] obtain l1 where
    l1: "list_append True l (Some (s_brk s)) = Inr (l1, 1)" "holds_list l1 (ds @ [s_brk s])" by blast
  obtain w :: "(nat, unit) list_t" where
    w: "list_append True list_init (Some (s_brk s + 1)) = Inr (w, 1)" "holds_list w [s_brk s + 1]"
    using append_holds [OF list_init_holds, of "s_brk s + 1"] by auto
  show ?thesis
    unfolding run using assms(6) ip l1 w list_init_holds
    by (simp add: open_new_device_def malloc_dev_def append_dev_def malloc_wait_def append_wait_def lookup_def
        test_dev_connection_def bufferevent_new_def unlock_def set_dev_def) blast
qed

text \<open>
  C6: \<open>open_video\<close> for a device of the database that nobody has opened: the device is put at the
  end of the list in state \<open>CONNECTING\<close> with this client as the only one waiting, a connection to its address is
  started whose callbacks are the \<open>DESCRIBE\<close> pair, and the lock is free again. Nothing else
  changes.
\<close>

theorem open_video_new_device:
  assumes "asks_for buf i devid dec chnl strm" "\<not> s_locked s" "holds_list (s_devlist s) ds" "set ds \<subseteq> dom (s_devs s)"
    "\<forall>d \<in> set ds. \<not> key_of s (key_for dec chnl strm) d" "load_device e devid chnl strm = Inr (Some dev)"
  shows "\<exists>s' ip w. deal_open_video_cmd e buf i client s = Inr (s', 0) \<and> cstr_at (arrDevIp dev) 0 = Inr ip \<and>
    holds_list (s_devlist s') (ds @ [s_brk s]) \<and>
    s_devs s' = (s_devs s)(s_brk s \<mapsto>
      \<lparr>n_dev = dev\<lparr>enumDevConnectStatus := CONNECTING\<rparr>, n_rtsp = list_init, n_wait = w\<rparr>) \<and>
    holds_list w [s_brk s + 1] \<and> s_waits s' = (s_waits s)(s_brk s + 1 \<mapsto> client) \<and>
    s_bevs s' = (s_bevs s)(s_brk s + 2 \<mapsto> enable_read True (socket_connect ip (iDevRtspPort dev)
      (bufferevent_setcb (Some Read_Sdp_Basic) (Some Active_Connect) (Arg_Dev (s_brk s)) socket_new))) \<and>
    \<not> s_locked s' \<and> s_clients s' = s_clients s \<and> s_args s' = s_args s \<and> s_threads s' = s_threads s"
  using assms by (rule open_new_run)

definition camera :: "char list \<Rightarrow> int \<Rightarrow> int \<Rightarrow> DEV_LIST" where
  "camera devid chnl strm = (case load_device box_env devid chnl strm of Inr (Some dev) \<Rightarrow> dev | _ \<Rightarrow> zero_dev)"

lemma camera_row_ok: "row_ok ''10.0.0.9'' ''554'' ''admin'' ''12345'' ''YWQ='' ''/1'' ''/2''"
proof -
  have "show_int (atoi ''554'') = ''554''" by code_simp
  then show ?thesis by (simp add: row_ok_def column_def NUL_def rtsp_url_def)
qed

lemma load_camera:
  assumes "NUL \<notin> set devid" "length devid < MAX_DEV_ID_LEN"
  shows "load_device box_env devid chnl strm = Inr (Some (camera devid chnl strm)) \<and>
    cstr_at (pDevId (camera devid chnl strm)) 0 = Inr devid \<and> iStartThreadFlag (camera devid chnl strm) = 0 \<and>
    m_video (camera devid chnl strm) = zeros 64 \<and> a_rtpmap_video (camera devid chnl strm) = zeros 128 \<and>
    a_fmtp_video (camera devid chnl strm) = zeros 512 \<and> m_audio (camera devid chnl strm) = zeros 64 \<and>
    a_rtpmap_audio (camera devid chnl strm) = zeros 128 \<and> iDevChnl (camera devid chnl strm) = chnl \<and>
    iDevStreamType (camera devid chnl strm) = strm \<and>
    holds_str (arrUserName (camera devid chnl strm)) ''admin'' \<and> holds_str (arrUserPasswd (camera devid chnl strm)) ''12345'' \<and>
    holds_str (arrDevRtspMainUrl (camera devid chnl strm)) ''rtsp://10.0.0.9:554/1'' \<and>
    holds_str (arrDevRtspSubUrl (camera devid chnl strm)) ''rtsp://10.0.0.9:554/2'' \<and>
    holds_str (arrBasicAuthenticate (camera devid chnl strm)) ''YWQ='' \<and>
    d_realm (camera devid chnl strm) = zeros 64 \<and> d_nonce (camera devid chnl strm) = zeros 128"
proof -
  have ip: "cstr_at (''10.0.0.9'' @ zeros 8) 0 = Inr ''10.0.0.9''"
    using cstr_at_terminated [of "''10.0.0.9''" "zeros 7"] zeros_Cons [of 8] by (simp add: NUL_def)
  obtain f where f: "strncpy (zeros MAX_DEV_ID_LEN) devid MAX_DEV_ID_LEN = Inr f" "holds_str f devid"
    using strncpy_str [of "zeros MAX_DEV_ID_LEN" MAX_DEV_ID_LEN devid] assms by auto
  have port: "show_int (atoi ''554'') = ''554''" by code_simp
  obtain u1 u2 where u: "holds_str u1 ''rtsp://10.0.0.9:554/1''" "holds_str u2 ''rtsp://10.0.0.9:554/2''"
    and "load_device_ip_port_cb camera_row zero_dev
     = Inr (zero_dev\<lparr>arrDevIp := ''10.0.0.9'' @ zeros 8, iDevRtspPort := atoi ''554'',
         arrUserName := ''admin'' @ zeros 59, arrUserPasswd := ''12345'' @ zeros 59,
         arrBasicAuthenticate := ''YWQ='' @ zeros 124, arrDevRtspMainUrl := u1, arrDevRtspSubUrl := u2\<rparr>)"
    using load_row [OF camera_row_ok] by (auto simp: camera_row_def rtsp_url_def port)
  moreover have "pDevId zero_dev = zeros MAX_DEV_ID_LEN" "iStartThreadFlag zero_dev = 0"
    "m_video zero_dev = zeros 64" "a_rtpmap_video zero_dev = zeros 128" "a_fmtp_video zero_dev = zeros 512"
    "m_audio zero_dev = zeros 64" "a_rtpmap_audio zero_dev = zeros 128"
    "d_realm zero_dev = zeros 64" "d_nonce zero_dev = zeros 128" by (simp_all add: zero_dev_def)
  moreover have "holds_str (''admin'' @ zeros 59) ''admin''" "holds_str (''12345'' @ zeros 59) ''12345''"
    "holds_str (''YWQ='' @ zeros 124) ''YWQ=''"
    using holds_str_padded [of "''admin''" 64] holds_str_padded [of "''12345''" 64] holds_str_padded [of "''YWQ=''" 128] by (simp_all add: NUL_def)
  ultimately show ?thesis
    using ip f u holds_str_cstr [OF f(2)]
    by (simp add: camera_def load_device_def sql_operation_def box_env_def)
qed

lemma asks_for_cam: "asks_for (open_video_text ''cam1'' 1 0 @ [NUL]) 0 ''cam1'' ''cam1'' 1 0"
proof -
  have "url_dec ''cam1'' = Some ''cam1''" by code_simp
  then show ?thesis by (simp add: asks_for_def int_ok_def INT_MIN_def INT_MAX_def NUL_def MAX_DEV_ID_LEN_def)
qed

lemma init_devlist: "holds_list (s_devlist server_init) []"
  using list_init_holds by (simp add: server_init_def)

theorem open_video_new_device_witness:
  "\<exists>s' w. deal_open_video_cmd box_env (open_video_text ''cam1'' 1 0 @ [NUL]) 0 7 server_init = Inr (s', 0) \<and>
    holds_list (s_devlist s') [0] \<and> holds_list w [1] \<and> s_waits s' = [1 \<mapsto> 7] \<and> \<not> s_locked s' \<and>
    s_devs s' = [0 \<mapsto> \<lparr>n_dev = (camera ''cam1'' 1 0)\<lparr>enumDevConnectStatus := CONNECTING\<rparr>, n_rtsp = list_init, n_wait = w\<rparr>]"
proof -
  have "load_device box_env ''cam1'' 1 0 = Inr (Some (camera ''cam1'' 1 0))"
    using load_camera [of "''cam1''"] by (simp add: NUL_def MAX_DEV_ID_LEN_def)
  from open_video_new_device [OF asks_for_cam _ init_devlist _ _ this, where client = 7] show ?thesis
    by (simp add: server_init_def) blast
qed

text \<open>The same box with that camera on its list in state \<open>st\<close>, and a client connected.\<close>

definition list_of_one :: "(nat, DEV_INFO) list_t" where
  "list_of_one = (case list_append True list_init (Some 0) of Inr (l, _) \<Rightarrow> l | Inl _ \<Rightarrow> list_init)"

lemma list_of_one_holds: "holds_list list_of_one [0]"
proof -
  have "holds_list (list_init :: (nat, DEV_INFO) list_t) []" by (rule list_init_holds)
  from append_holds [OF this, of 0] show ?thesis by (auto simp: list_of_one_def)
qed

definition one_camera :: "DEV_CONNECT_STATUS \<Rightarrow> server" where
  "one_camera st = server_init\<lparr>s_devlist := list_of_one,
     s_devs := [0 \<mapsto> \<lparr>n_dev = (camera ''cam1'' 1 0)\<lparr>enumDevConnectStatus := st\<rparr>, n_rtsp = list_init, n_wait = list_init\<rparr>],
     s_bevs := [7 \<mapsto> socket_new], s_brk := 8\<rparr>"

lemma camera_cam1:
  "cstr_at (pDevId (camera ''cam1'' 1 0)) 0 = Inr ''cam1''" "iDevChnl (camera ''cam1'' 1 0) = 1"
  "iDevStreamType (camera ''cam1'' 1 0) = 0" "iStartThreadFlag (camera ''cam1'' 1 0) = 0"
  "\<exists>msg. sdp_message ((camera ''cam1'' 1 0)\<lparr>enumDevConnectStatus := st\<rparr>) = Inr msg"
proof -
  have z: "cstr_at (zeros n) 0 = Inr []" if "0 < n" for n using holds_str_cstr [OF holds_str_zeros [OF that]] .
  show "cstr_at (pDevId (camera ''cam1'' 1 0)) 0 = Inr ''cam1''" "iDevChnl (camera ''cam1'' 1 0) = 1"
    "iDevStreamType (camera ''cam1'' 1 0) = 0" "iStartThreadFlag (camera ''cam1'' 1 0) = 0"
    "\<exists>msg. sdp_message ((camera ''cam1'' 1 0)\<lparr>enumDevConnectStatus := st\<rparr>) = Inr msg"
    using load_camera [of "''cam1''" 1 0] by (simp_all add: NUL_def MAX_DEV_ID_LEN_def sdp_message_def sdp_body_def z)
qed

lemma one_camera_facts:
  "\<not> s_locked (one_camera st)" "holds_list (s_devlist (one_camera st)) [0]" "set [0] \<subseteq> dom (s_devs (one_camera st))"
  "key_of (one_camera st) (key_for ''cam1'' 1 0) 0"
  "s_devs (one_camera st) 0 = Some \<lparr>n_dev = (camera ''cam1'' 1 0)\<lparr>enumDevConnectStatus := st\<rparr>, n_rtsp = list_init, n_wait = list_init\<rparr>"
  "s_bevs (one_camera st) 7 = Some socket_new"
  using list_of_one_holds camera_cam1 cstr_at_terminated [of "''cam1''"]
  by (simp_all add: one_camera_def server_init_def same_key_def key_for_def NUL_def)

lemma find_known:
  assumes "ds = xs @ d # ys" "\<forall>x \<in> set xs. \<not> P x" "P d"
  shows "find P ds = Some d"
  using assms by (induction xs arbitrary: ds) auto

text \<open>
  C7: \<open>open_video\<close> for a device that is already streaming: the client gets the SDP message at
  once, keeps the command callback with the device as argument, is read from again, and loses its
  event callback; nothing else changes, and the lock is free.
\<close>

theorem open_video_connected:
  assumes "asks_for buf i devid dec chnl strm" "\<not> s_locked s" "holds_list (s_devlist s) ds" "set ds \<subseteq> dom (s_devs s)"
    "ds = xs @ d # ys" "\<forall>x \<in> set xs. \<not> key_of s (key_for dec chnl strm) x" "key_of s (key_for dec chnl strm) d"
    "s_devs s d = Some n" "enumDevConnectStatus (n_dev n) = CONNECTED" "sdp_message (n_dev n) = Inr msg" "s_bevs s client = Some v"
  shows "\<exists>l. holds_list l ds \<and> deal_open_video_cmd e buf i client s = Inr (s\<lparr>s_devlist := l, s_bevs := (s_bevs s)(client \<mapsto>
    v\<lparr>b_out := b_out v @ msg, b_read := Some Deal_Client_Cmd, b_event := None, b_arg := Arg_Dev d, b_en_read := True\<rparr>)\<rparr>, 0)"
proof -
  from open_video_seek [OF assms(1-4), of e client] obtain l where l: "holds_list l ds"
    "deal_open_video_cmd e buf i client s = open_known_device d client (s\<lparr>s_locked := True, s_devlist := l\<rparr>)"
    by (auto simp: find_known [OF assms(5-7)])
  moreover have "s\<lparr>s_locked := False\<rparr> = s" using assms(2) by (cases s) simp
  ultimately show ?thesis using assms(2,8-11)
    by (intro exI [of _ l]) (cases s, simp add: open_known_device_def lookup_def on_bev_def set_bev_def unlock_def
        enable_read_def bufferevent_setcb_def bufferevent_write_def)
qed

theorem open_video_connected_witness:
  "\<exists>msg l. sdp_message ((camera ''cam1'' 1 0)\<lparr>enumDevConnectStatus := CONNECTED\<rparr>) = Inr msg \<and>
    deal_open_video_cmd box_env (open_video_text ''cam1'' 1 0 @ [NUL]) 0 7 (one_camera CONNECTED) =
      Inr ((one_camera CONNECTED)\<lparr>s_devlist := l, s_bevs := (s_bevs (one_camera CONNECTED))(7 \<mapsto> socket_new\<lparr>
        b_out := b_out socket_new @ msg, b_read := Some Deal_Client_Cmd, b_event := None, b_arg := Arg_Dev 0, b_en_read := True\<rparr>)\<rparr>, 0)"
proof -
  obtain msg where msg: "sdp_message ((camera ''cam1'' 1 0)\<lparr>enumDevConnectStatus := CONNECTED\<rparr>) = Inr msg"
    using camera_cam1(5) by blast
  note f = one_camera_facts [of CONNECTED]
  from open_video_connected [OF asks_for_cam f(1-3), of "[]" 0 "[]" _ msg, OF _ _ f(4,5) _ _ f(6)] msg show ?thesis by auto
qed

text \<open>
  C8: \<open>open_video\<close> for a device whose connection is under way: the client joins the end of its
  wait list, in the order of the commands, and nothing else changes.
\<close>

theorem open_video_connecting:
  assumes "asks_for buf i devid dec chnl strm" "\<not> s_locked s" "holds_list (s_devlist s) ds" "set ds \<subseteq> dom (s_devs s)"
    "ds = xs @ d # ys" "\<forall>x \<in> set xs. \<not> key_of s (key_for dec chnl strm) x" "key_of s (key_for dec chnl strm) d"
    "s_devs s d = Some n" "enumDevConnectStatus (n_dev n) = CONNECTING" "holds_list (n_wait n) ws"
  shows "\<exists>l w. holds_list l ds \<and> holds_list w (ws @ [s_brk s]) \<and> deal_open_video_cmd e buf i client s =
    Inr (s\<lparr>s_devlist := l, s_waits := (s_waits s)(s_brk s \<mapsto> client), s_brk := s_brk s + 1,
           s_devs := (s_devs s)(d \<mapsto> n\<lparr>n_wait := w\<rparr>)\<rparr>, 0)"
proof -
  from open_video_seek [OF assms(1-4), of e client] obtain l where l: "holds_list l ds"
    "deal_open_video_cmd e buf i client s = open_known_device d client (s\<lparr>s_locked := True, s_devlist := l\<rparr>)"
    by (auto simp: find_known [OF assms(5-7)])
  obtain w where w: "list_append True (n_wait n) (Some (s_brk s)) = Inr (w, 1)" "holds_list w (ws @ [s_brk s])"
    using append_holds [OF assms(10), of "s_brk s"] by blast
  show ?thesis using assms(2,8,9) l w
    by (intro exI [of _ l] exI [of _ w]) (cases s, simp add: open_known_device_def lookup_def malloc_wait_def append_wait_def
        unlock_def set_dev_def)
qed

theorem open_video_connecting_witness:
  "\<exists>l w. holds_list w [8] \<and> deal_open_video_cmd box_env (open_video_text ''cam1'' 1 0 @ [NUL]) 0 7 (one_camera CONNECTING) =
    Inr ((one_camera CONNECTING)\<lparr>s_devlist := l, s_waits := (s_waits (one_camera CONNECTING))(8 \<mapsto> 7), s_brk := 9,
           s_devs := (s_devs (one_camera CONNECTING))(0 \<mapsto> \<lparr>n_dev = (camera ''cam1'' 1 0)\<lparr>enumDevConnectStatus := CONNECTING\<rparr>,
             n_rtsp = list_init, n_wait = w\<rparr>)\<rparr>, 0)"
proof -
  note f = one_camera_facts [of CONNECTING]
  have b: "s_brk (one_camera CONNECTING) = 8" by (simp add: one_camera_def)
  from open_video_connecting [OF asks_for_cam f(1-3), of "[]" 0 "[]" _ "[]", OF _ _ f(4,5), of box_env 7] list_init_holds
  show ?thesis by (auto simp: b)
qed

text \<open>
  C25: \<open>open_video\<close> for a device on the list that is neither connected nor connecting (one that an
  HLS \<open>play\<close> put there): the call reports success, answers nobody, and returns with the lock held.
\<close>

theorem open_video_keeps_lock:
  assumes "asks_for buf i devid dec chnl strm" "\<not> s_locked s" "holds_list (s_devlist s) ds" "set ds \<subseteq> dom (s_devs s)"
    "ds = xs @ d # ys" "\<forall>x \<in> set xs. \<not> key_of s (key_for dec chnl strm) x" "key_of s (key_for dec chnl strm) d"
    "s_devs s d = Some n" "enumDevConnectStatus (n_dev n) \<notin> {CONNECTED, CONNECTING}"
  shows "\<exists>l. holds_list l ds \<and> deal_open_video_cmd e buf i client s = Inr (s\<lparr>s_locked := True, s_devlist := l\<rparr>, 0)"
  using open_video_seek [OF assms(1-4), of e client] assms(8,9)
  by (auto simp: find_known [OF assms(5-7)] open_known_device_def lookup_def)

theorem open_video_keeps_lock_witness:
  "\<exists>l. deal_open_video_cmd box_env (open_video_text ''cam1'' 1 0 @ [NUL]) 0 7 (one_camera NOT_SET) =
    Inr ((one_camera NOT_SET)\<lparr>s_locked := True, s_devlist := l\<rparr>, 0)"
proof -
  note f = one_camera_facts [of NOT_SET]
  from open_video_keeps_lock [OF asks_for_cam f(1-3), of "[]" 0 "[]", OF _ _ f(4,5)] show ?thesis by auto
qed

end
