(* ===== verification/Server_Device.thy ===== *)
theory Server_Device
  imports Server_Props
begin

text \<open>
  A device's answer to \<open>DESCRIBE\<close>, from the bytes on its connection to the clients that wait for
  it (\<open>read_dev_sdp_basic_cb\<close> and \<open>read_dev_sdp_digest_cb\<close> of \<open>src/src/dev_opt.c\<close>): the two
  rounds of the handshake put together from the RTSP parser, the challenge, the digest, the SDP
  analysis, the frame and the lists.
\<close>

section \<open>The clients that wait\<close>

text \<open>Device \<open>d\<close> is \<open>n\<close>, and the connections \<open>bs\<close>, in this order, wait for it.\<close>

definition waiting :: "server \<Rightarrow> nat \<Rightarrow> dev_node \<Rightarrow> nat list \<Rightarrow> bool" where
  "waiting s d n bs \<longleftrightarrow> s_devs s d = Some n \<and> distinct bs \<and> (\<forall>b \<in> set bs. s_bevs s b \<noteq> None) \<and>
     (\<exists>ws. holds_list (n_wait n) ws \<and> length ws < 2 ^ 31 \<and> map (s_waits s) ws = map Some bs)"

text \<open>
  A connection that has been told \<open>msg\<close>: the message is at the end of what it is to be sent,
  reading is enabled, and its callbacks are those of the next command, for device \<open>d\<close>.
\<close>

definition told :: "char list \<Rightarrow> nat \<Rightarrow> bev \<Rightarrow> bev" where
  "told msg d v = v\<lparr>b_out := b_out v @ msg, b_read := Some Deal_Client_Cmd, b_event := Some Cmd_Error_Cb2,
     b_arg := Arg_Dev d, b_en_read := True\<rparr>"

text \<open>
  From \<open>s\<close> to \<open>s'\<close> the connections \<open>bs\<close> have been told \<open>msg\<close>, and the device is connected with the
  description \<open>dev\<close> and its wait list destroyed. Nothing else differs: no other connection, no
  other device, no list, no thread, and the lock is as it was.
\<close>

definition answered :: "nat \<Rightarrow> dev_node \<Rightarrow> nat list \<Rightarrow> DEV_LIST \<Rightarrow> char list \<Rightarrow> server \<Rightarrow> server \<Rightarrow> bool" where
  "answered d n bs dev msg s s' \<longleftrightarrow> (\<exists>l. dead_list l \<and>
     s' = s\<lparr>s_bevs := (\<lambda>b. if b \<in> set bs then map_option (told msg d) (s_bevs s b) else s_bevs s b),
       s_devs := (s_devs s)(d \<mapsto> n\<lparr>n_dev := dev\<lparr>enumDevConnectStatus := CONNECTED\<rparr>, n_wait := l\<rparr>)\<rparr>)"

lemma answer_told: "answer_client msg d = told msg d"
  by (rule ext) (simp add: answer_client_def told_def enable_read_def bufferevent_setcb_def bufferevent_write_def)

lemma sdp_run:
  assumes "waiting s d n bs" "\<not> s_locked s"
    "analysis_sdp_info text (n_dev n) = Inr dev" "sdp_message dev = Inr msg"
  shows "\<exists>s'. sdp_received d text s = Inr s' \<and> answered d n bs dev msg s s'"
proof -
  let ?n = "n\<lparr>n_dev := dev\<lparr>enumDevConnectStatus := CONNECTED\<rparr>\<rparr>"
  let ?s = "set_dev d ?n s"
  let ?bevs = "\<lambda>b. if b \<in> set bs then map_option (told msg d) (s_bevs s b) else s_bevs s b"
  let ?s2 = "?s\<lparr>s_bevs := ?bevs\<rparr>"
  obtain ws where n: "s_devs s d = Some n" "distinct bs" "\<forall>b \<in> set bs. s_bevs s b \<noteq> None"
    and ws: "holds_list (n_wait n) ws" "length ws < 2 ^ 31" "map (s_waits s) ws = map Some bs"
    using assms(1) by (auto simp: waiting_def)
  have sz: "list_size (n_wait n) = length ws" by (rule size_holds [OF ws(1)])
  have a: "answer_waiting msg d (n_wait n) 0 (length ws) ?s = Inr ?s2"
    using answer_waiting_spec [OF ws(1,2), of ?s bs 0 "length ws" msg d] ws(3) n(2,3) by (simp add: answer_told cong: if_cong)
  let ?s3 = "?s2\<lparr>s_locked := True\<rparr>"
  have w: "wrlock ?s2 = Inr ?s3" using assms(2) by (simp add: wrlock_def set_dev_def)
  have "s_devs ?s3 d = Some ?n" "holds_list (n_wait ?n) ws" using ws(1) by (simp_all add: set_dev_def)
  from destroy_wait_run [OF this] obtain l where
    l: "dead_list l" "destroy_wait d ?s3 = Inr (set_dev d (?n\<lparr>n_wait := l\<rparr>) ?s3)" by blast
  have "sdp_received d text s = Inr (unlock (set_dev d (?n\<lparr>n_wait := l\<rparr>) ?s3))"
    using n(1) assms(3,4) by (simp add: sdp_received_def lookup_def Let_def sz a w l(2))
  moreover have "unlock (set_dev d (?n\<lparr>n_wait := l\<rparr>) ?s3) =
      s\<lparr>s_bevs := ?bevs, s_devs := (s_devs s)(d \<mapsto> n\<lparr>n_dev := dev\<lparr>enumDevConnectStatus := CONNECTED\<rparr>, n_wait := l\<rparr>)\<rparr>"
    using assms(2) by (simp add: unlock_def set_dev_def)
  ultimately show ?thesis using l(1) by (auto simp: answered_def)
qed

section \<open>The bytes of an answer\<close>

lemma recv_plain:
  assumes "NUL \<notin> set t" "length t < RECV_MAX"
  shows "recv_text t = Inr t"
proof -
  have "zeros (RECV_MAX - length t) = NUL # zeros (RECV_MAX - length t - 1)"
    using assms(2) by (simp add: zeros_Cons)
  then show ?thesis using assms by (simp add: recv_text_def cstr_at_terminated)
qed

text \<open>What is asked of a response: well-formed, in one piece, and within the first allocation.\<close>

definition response_ok ::
  "rtsp_env \<Rightarrow> char list \<Rightarrow> char list \<Rightarrow> (char list \<times> char list) list \<Rightarrow> char list \<Rightarrow> bool" where
  "response_ok env code reason hs body \<longleftrightarrow> code_ok code \<and> value_ok reason \<and> reason \<noteq> [] \<and>
     (\<forall>nv \<in> set hs. header_ok env nv) \<and> (\<forall>n. env_alloc env n) \<and>
     int (length body) = max 0 (announced_length hs) \<and>
     length (print_response code reason hs body) + 1 < 8 * KB \<and> NUL \<notin> set (print_response code reason hs body)"

lemma parser_created: "rtsp_parser_create True RTSP_PARSER_CLIENT = Some client_parser"
  by (simp add: rtsp_parser_create_def client_parser_def)

lemma client_parser_wf: "parser_wf client_parser"
  using rtsp_parser_create_wf [OF parser_created] by (simp add: parser_wf_def)

lemma answer_parsed:
  assumes "response_ok env code reason hs body"
  shows "\<exists>p q. rtsp_parser_input env client_parser (print_response code reason hs body) = Inr (p, 0, 0)
    \<and> rtsp_get_status_code p = Inr (int (dec_val code)) \<and> rtsp_parser_destroy p = Inr q
    \<and> recv_text (print_response code reason hs body) = Inr (print_response code reason hs body)
    \<and> (\<forall>name v. lookup_header hs name = Some v \<longrightarrow>
         (\<exists>i. rtsp_get_header_by_name p name = Inr (Some i) \<and> cstr_at (p_raw p) i = Inr v))"
proof -
  from assms response_parsed [of code reason hs env body] obtain p where
    p: "rtsp_parser_input env client_parser (print_response code reason hs body) = Inr (p, 0, 0)"
      "rtsp_get_status_code p = Inr (int (dec_val code))"
      "\<forall>name. \<exists>r. rtsp_get_header_by_name p name = Inr r \<and> (case lookup_header hs name of None \<Rightarrow> r = None
         | Some v \<Rightarrow> \<exists>i. r = Some i \<and> cstr_at (p_raw p) i = Inr v)"
    unfolding response_ok_def by blast
  obtain q where "rtsp_parser_destroy p = Inr q"
    using rtsp_destroy_wf [OF rtsp_input_wf [OF client_parser_wf p(1)]] by blast
  moreover have "recv_text (print_response code reason hs body) = Inr (print_response code reason hs body)"
    by (rule recv_plain) (use assms in \<open>simp_all add: response_ok_def RECV_MAX_def\<close>)
  moreover have "\<exists>i. rtsp_get_header_by_name p name = Inr (Some i) \<and> cstr_at (p_raw p) i = Inr v"
    if "lookup_header hs name = Some v" for name v
    using p(3) [THEN spec, of name] that by auto
  ultimately show ?thesis using p(1,2) by blast
qed

section \<open>The first round\<close>

lemma describe_run:
  assumes "s_bevs s b = Some v" "b_in v = print_response ''200'' reason hs body"
    "response_ok (e_rtsp e) ''200'' reason hs body"
    "waiting (s\<lparr>s_bevs := (s_bevs s)(b := None)\<rparr>) d n bs" "\<not> s_locked s"
    "analysis_sdp_info (b_in v) (n_dev n) = Inr dev" "sdp_message dev = Inr msg"
  shows "\<exists>s'. read_dev_sdp_basic_cb e b d s = Inr s' \<and>
    answered d n bs dev msg (s\<lparr>s_bevs := (s_bevs s)(b := None)\<rparr>) s'"
proof -
  from answer_parsed [OF assms(3)] obtain p q where
    p: "rtsp_parser_input (e_rtsp e) client_parser (b_in v) = Inr (p, 0, 0)"
      "rtsp_get_status_code p = Inr (int (dec_val ''200''))" "recv_text (b_in v) = Inr (b_in v)"
    unfolding assms(2) by blast
  have "int (dec_val ''200'') = 200" by code_simp
  with p assms(1) have "read_dev_sdp_basic_cb e b d s =
      sdp_received d (b_in v) (s\<lparr>s_bevs := (s_bevs s)(b := None)\<rparr>)"
    by (simp add: read_dev_sdp_basic_cb_def lookup_def on_bev_def set_bev_def parser_created bufferevent_free_def)
  then show ?thesis using sdp_run [OF assms(4) _ assms(6,7)] assms(5) by simp
qed

text \<open>
  C9: a device that answers the first \<open>DESCRIBE\<close> with a well-formed \<open>200\<close> in one piece (under
  8 KB, every allocation succeeding) and a description the code can analyse and announce: the
  response is parsed, its description analysed, the connection to the device closed, and every
  client that waits for the device (distinct live connections, fewer than \<open>2 ^ 31\<close>) gets exactly
  the SDP message at the end of its output, reading enabled and the command callbacks with the
  device as argument. The device is connected, its wait list destroyed, the
  lock free, and nothing else in the server changes.
\<close>

theorem device_describe_answered:
  assumes "s_bevs s b = Some v" "b_in v = print_response ''200'' reason hs body"
    "response_ok (e_rtsp e) ''200'' reason hs body"
    "waiting (s\<lparr>s_bevs := (s_bevs s)(b := None)\<rparr>) d n bs" "\<not> s_locked s"
    "analysis_sdp_info (b_in v) (n_dev n) = Inr dev" "sdp_message dev = Inr msg"
  shows "\<exists>s'. read_dev_sdp_basic_cb e b d s = Inr s' \<and> \<not> s_locked s' \<and>
    answered d n bs dev msg (s\<lparr>s_bevs := (s_bevs s)(b := None)\<rparr>) s'"
  using describe_run [OF assms] assms(5) by (auto simp: answered_def)

section \<open>The second round\<close>

text \<open>
  C11: the answer to the second \<open>DESCRIBE\<close>, the one with the digest: the connection to the device
  is closed, every client that waits for the device (distinct live connections, fewer than
  \<open>2 ^ 31\<close>) gets exactly the SDP message at the end of
  its output, reading enabled and the command callbacks with the device as argument, the device
  is connected with its wait list destroyed, and nothing else changes. This round does not parse
  the response: whatever text comes back is searched for its media lines, here one the code can
  analyse and announce.
\<close>

theorem sdp_answers_waiting_clients:
  assumes "s_bevs s b = Some v" "recv_text (b_in v) = Inr text"
    "waiting (s\<lparr>s_bevs := (s_bevs s)(b := None)\<rparr>) d n bs" "\<not> s_locked s"
    "analysis_sdp_info text (n_dev n) = Inr dev" "sdp_message dev = Inr msg"
  shows "\<exists>s'. read_dev_sdp_digest_cb b d s = Inr s' \<and> \<not> s_locked s' \<and>
    answered d n bs dev msg (s\<lparr>s_bevs := (s_bevs s)(b := None)\<rparr>) s'"
proof -
  have "read_dev_sdp_digest_cb b d s = sdp_received d text (s\<lparr>s_bevs := (s_bevs s)(b := None)\<rparr>)"
    using assms(1,2) by (simp add: read_dev_sdp_digest_cb_def lookup_def bufferevent_free_def)
  then show ?thesis using sdp_run [OF assms(3) _ assms(5,6)] assms(4) by (auto simp: answered_def)
qed

section \<open>The challenge\<close>

text \<open>A digest challenge with realm \<open>r\<close> and nonce \<open>c\<close>.\<close>

definition challenge :: "char list \<Rightarrow> char list \<Rightarrow> char list \<Rightarrow> bool" where
  "challenge auth r c \<longleftrightarrow> strcasestr auth ''Digest'' \<noteq> None \<and> quotable 64 r \<and> quotable 128 c \<and>
     (\<exists>pre s1 mid s2 post. auth = pre @ ''realm'' @ s1 @ CHR 0x22 # r @ CHR 0x22 # mid @ ''nonce'' @ s2 @
          CHR 0x22 # c @ CHR 0x22 # post \<and>
        CHR 0x22 \<notin> set s1 \<and> CHR 0x22 \<notin> set s2 \<and> first_at pre ''realm'' \<and>
        first_at (pre @ ''realm'' @ s1 @ CHR 0x22 # r @ CHR 0x22 # mid) ''nonce'')"

text \<open>The account and the URLs in a device's fields.\<close>

definition account :: "DEV_LIST \<Rightarrow> char list \<Rightarrow> char list \<Rightarrow> char list \<Rightarrow> char list \<Rightarrow> bool" where
  "account dev user passwd main sub \<longleftrightarrow> holds_str (arrUserName dev) user \<and> holds_str (arrUserPasswd dev) passwd \<and>
     holds_str (arrDevRtspMainUrl dev) main \<and> holds_str (arrDevRtspSubUrl dev) sub \<and>
     d_realm dev = zeros 64 \<and> d_nonce dev = zeros 128"

definition digest_describe :: "DEV_LIST \<Rightarrow> char list \<Rightarrow> char list \<Rightarrow> char list \<Rightarrow> char list \<Rightarrow> char list \<Rightarrow> char list \<Rightarrow> char list" where
  "digest_describe dev user passwd main sub r c =
     (let uri = (if iDevStreamType dev = 0 \<or> sub = [] then main else sub) in
      describe_digest uri user r c (rfc2617_response user r passwd ''DESCRIBE'' uri c))"

lemma digest_round_run:
  assumes "challenge auth r c" "account (n_dev n) user passwd main sub" "length (e_junk e) = 64"
    "s_devs s d = Some n" "s_bevs s b = Some v"
    "length user + length r + length passwd + 2 < 512" "8 + length main + 1 < 512" "8 + length sub + 1 < 512"
    "length (digest_describe (n_dev n) user passwd main sub r c) < 1024"
  shows "digest_round e b d auth s = Inr (s\<lparr>s_devs := (s_devs s)(d \<mapsto>
        n\<lparr>n_dev := (n_dev n)\<lparr>d_realm := r @ zeros (64 - length r), d_nonce := c @ zeros (128 - length c)\<rparr>\<rparr>),
      s_bevs := (s_bevs s)(b \<mapsto> v\<lparr>b_out := b_out v @ digest_describe (n_dev n) user passwd main sub r c,
        b_read := Some Read_Sdp_Digest, b_event := Some Active_Connect, b_arg := Arg_Dev d, b_en_read := True\<rparr>)\<rparr>)"
proof -
  let ?uri = "if iDevStreamType (n_dev n) = 0 \<or> sub = [] then main else sub"
  let ?dev = "(n_dev n)\<lparr>d_realm := r @ zeros (64 - length r), d_nonce := c @ zeros (128 - length c)\<rparr>"
  from assms(1) obtain pre s1 mid s2 post where a:
    "auth = pre @ ''realm'' @ s1 @ CHR 0x22 # r @ CHR 0x22 # mid @ ''nonce'' @ s2 @ CHR 0x22 # c @ CHR 0x22 # post"
    "CHR 0x22 \<notin> set s1" "CHR 0x22 \<notin> set s2" "first_at pre ''realm''"
    "first_at (pre @ ''realm'' @ s1 @ CHR 0x22 # r @ CHR 0x22 # mid) ''nonce''" "quotable 64 r" "quotable 128 c"
    by (auto simp: challenge_def)
  have acc: "holds_str (arrUserName ?dev) user" "holds_str (arrUserPasswd ?dev) passwd"
    "holds_str (arrDevRtspMainUrl ?dev) main" "holds_str (arrDevRtspSubUrl ?dev) sub"
    using assms(2) by (simp_all add: account_def)
  have g: "get_realm_and_nonce auth (n_dev n) = Inr (?dev, 0)"
    unfolding a(1) by (rule realm_and_nonce_fields [OF a(6,7,2,3,4,5)]) (use assms(2) in \<open>simp_all add: account_def\<close>)
  have rc: "holds_str (d_realm ?dev) r" "holds_str (d_nonce ?dev) c" "length c < 446"
    using holds_str_padded [of r 64] holds_str_padded [of c 128] a(6,7) by (auto simp: quotable_def)
  have resp: "get_response (e_junk e) ''DESCRIBE'' ?dev = Inr (rfc2617_response user r passwd ''DESCRIBE'' ?uri c)"
    using response_digest [OF assms(3) acc(1) rc(1) acc(2) rc(2) acc(3,4), of "''DESCRIBE''"] assms(6-8) rc(3) by simp
  have "stream_url ?dev = Inr ?uri"
    by (simp add: stream_url_def holds_str_cstr [OF acc(3), simplified] holds_str_cstr [OF acc(4), simplified])
  then have req: "digest_request (rfc2617_response user r passwd ''DESCRIBE'' ?uri c) ?dev =
      Inr (digest_describe (n_dev n) user passwd main sub r c)"
    using assms(9) unfolding digest_request_def holds_str_cstr [OF acc(1)] holds_str_cstr [OF rc(1)] holds_str_cstr [OF rc(2)]
    by (simp add: sn_text_def digest_describe_def Let_def)
  show ?thesis
    using g resp req assms(4,5)
    by (simp add: digest_round_def lookup_def on_bev_def set_bev_def set_dev_def enable_read_def bufferevent_setcb_def
        bufferevent_write_def)
qed


section \<open>The camera answers\<close>

lemma no_media:
  assumes "strstr t ''m=video'' = None" "strstr t ''m=audio'' = None"
  shows "\<exists>dev msg. analysis_sdp_info t ((camera ''cam1'' 1 0)\<lparr>enumDevConnectStatus := CONNECTING\<rparr>) = Inr dev \<and> sdp_message dev = Inr msg"
proof -
  have z: "\<exists>f. strncpy (zeros n) ''NULL'' n = Inr f \<and> cstr_at f 0 = Inr ''NULL''" if "5 \<le> n" for n
    using strncpy_str [of "zeros n" n "''NULL''"] that holds_str_cstr by (fastforce simp: NUL_def)
  obtain f1 f2 f3 where f: "strncpy (zeros 64) ''NULL'' 64 = Inr f1" "cstr_at f1 0 = Inr ''NULL''"
      "strncpy (zeros 128) ''NULL'' 128 = Inr f2" "cstr_at f2 0 = Inr ''NULL''"
      "strncpy (zeros 512) ''NULL'' 512 = Inr f3" "cstr_at f3 0 = Inr ''NULL''"
    using z [of 64] z [of 128] z [of 512] by auto
  show ?thesis
    using load_camera [of "''cam1''" 1 0] f assms
    by (simp add: analysis_sdp_info_def analysis_sdp_video_def analysis_sdp_audio_def sdp_message_def sdp_body_def
        NUL_def MAX_DEV_ID_LEN_def)
qed


text \<open>The camera at 0 with the client at 7 waiting and \<open>inp\<close> received on its connection 9.\<close>

definition camera_node :: "(nat, unit) list_t \<Rightarrow> dev_node" where
  "camera_node w = \<lparr>n_dev = (camera ''cam1'' 1 0)\<lparr>enumDevConnectStatus := CONNECTING\<rparr>, n_rtsp = list_init, n_wait = w\<rparr>"

definition camera_answers :: "(nat, unit) list_t \<Rightarrow> char list \<Rightarrow> server" where
  "camera_answers w inp = (one_camera CONNECTING)\<lparr>s_waits := [8 \<mapsto> 7], s_devs := [0 \<mapsto> camera_node w],
     s_bevs := [7 \<mapsto> socket_new, 9 \<mapsto> socket_new\<lparr>b_in := inp\<rparr>]\<rparr>"

lemma camera_waiting:
  assumes "holds_list w [8]"
  shows "waiting ((camera_answers w inp)\<lparr>s_bevs := (s_bevs (camera_answers w inp))(9 := None)\<rparr>) 0 (camera_node w) [7]"
  using assms by (auto simp: waiting_def camera_answers_def intro!: exI [of _ "[8]"] simp: camera_node_def)

lemma camera_answers_facts:
  "s_bevs (camera_answers w inp) 9 = Some (socket_new\<lparr>b_in := inp\<rparr>)" "\<not> s_locked (camera_answers w inp)"
  "s_bevs (camera_answers w inp) 7 = Some socket_new" "s_devs (camera_answers w inp) 0 = Some (camera_node w)"
  using one_camera_facts(1) [of CONNECTING] by (simp_all add: camera_answers_def)

lemma waiting_list: "\<exists>w :: (nat, unit) list_t. holds_list w [8]"
proof -
  have "holds_list (list_init :: (nat, unit) list_t) []" by (rule list_init_holds)
  from append_holds [OF this, of 8] show ?thesis by auto
qed

theorem sdp_answers_waiting_clients_witness:
  "\<exists>w msg s'. read_dev_sdp_digest_cb 9 0 (camera_answers w ''v=0'') = Inr s' \<and>
    s_bevs s' 7 = Some (socket_new\<lparr>b_out := msg, b_read := Some Deal_Client_Cmd, b_event := Some Cmd_Error_Cb2,
      b_arg := Arg_Dev 0, b_en_read := True\<rparr>) \<and> s_bevs s' 9 = None \<and> \<not> s_locked s'"
proof -
  obtain w :: "(nat, unit) list_t" where w: "holds_list w [8]" using waiting_list by blast
  have m: "strstr ''v=0'' ''m=video'' = None" "strstr ''v=0'' ''m=audio'' = None" by code_simp+
  obtain dev msg where d: "analysis_sdp_info ''v=0'' (n_dev (camera_node w)) = Inr dev" "sdp_message dev = Inr msg"
    using no_media [of "''v=0''"] m by (auto simp: camera_node_def)
  have t: "recv_text (b_in (socket_new\<lparr>b_in := ''v=0''\<rparr>)) = Inr ''v=0''"
    using recv_plain [of "''v=0''"] by (simp add: NUL_def RECV_MAX_def)
  from sdp_answers_waiting_clients [OF camera_answers_facts(1) t camera_waiting [OF w] camera_answers_facts(2) d]
  obtain s' where "read_dev_sdp_digest_cb 9 0 (camera_answers w ''v=0'') = Inr s'"
    "answered 0 (camera_node w) [7] dev msg ((camera_answers w ''v=0'')\<lparr>s_bevs := (s_bevs (camera_answers w ''v=0''))(9 := None)\<rparr>) s'"
    by blast
  then show ?thesis using camera_answers_facts
    by (intro exI [of _ w] exI [of _ msg] exI [of _ s']) (auto simp: answered_def told_def socket_new_def)
qed

definition sdp_response :: "char list" where
  "sdp_response = print_response ''200'' ''OK'' [(''CSeq'', ''3''), (''Content-Length'', ''3'')] ''v=0''"

definition auth_header :: "char list" where
  \<open>auth_header = ''Digest realm="IPCAM", nonce="a1b2"''\<close>

definition auth_response :: "char list" where
  "auth_response = print_response ''401'' ''Unauthorized'' [(''CSeq'', ''3''), (''WWW-Authenticate'', auth_header)] []"

lemma box_header:
  assumes "name_ok n" "value_ok v" "\<not> strcaseeq ''Transfer-Encoding'' n" "\<not> strcaseeq ''Content-Length'' n"
  shows "header_ok (e_rtsp box_env) (n, v)"
  using assms by (simp add: header_ok_def)

lemma sdp_response_ok: "response_ok (e_rtsp box_env) ''200'' ''OK'' [(''CSeq'', ''3''), (''Content-Length'', ''3'')] ''v=0''"
proof -
  have o: "atoi ''3'' = int (dec_val ''3'')" by (rule atoi_digits) (simp_all, code_simp)
  moreover have "name_ok ''Content-Length''" "value_ok ''3''" "name_ok ''CSeq''" "value_ok ''OK''" "\<forall>c \<in> set ''200''. isdigit c"
    "\<not> strcaseeq ''Transfer-Encoding'' ''CSeq''" "\<not> strcaseeq ''Transfer-Encoding'' ''Content-Length''"
    "\<not> strcaseeq ''Content-Length'' ''CSeq''" "strcaseeq ''Content-Length'' ''Content-Length''" "dec_val ''3'' = 3"
    "length sdp_response = 50" "NUL \<notin> set sdp_response"
    by code_simp+
  ultimately show ?thesis
    by (simp add: response_ok_def header_ok_def box_env_def announced_length_def header_length_def code_ok_def sdp_response_def)
qed

lemma auth_response_ok:
  "response_ok (e_rtsp box_env) ''401'' ''Unauthorized'' [(''CSeq'', ''3''), (''WWW-Authenticate'', auth_header)] []"
  "lookup_header [(''CSeq'', ''3''), (''WWW-Authenticate'', auth_header)] ''WWW-Authenticate'' = Some auth_header"
proof -
  have "name_ok ''WWW-Authenticate''" "value_ok ''3''" "value_ok auth_header" "name_ok ''CSeq''" "value_ok ''Unauthorized''"
    "\<forall>c \<in> set ''401''. isdigit c" "\<not> strcaseeq ''Transfer-Encoding'' ''CSeq''" "\<not> strcaseeq ''Content-Length'' ''CSeq''"
    "\<not> strcaseeq ''Transfer-Encoding'' ''WWW-Authenticate''" "\<not> strcaseeq ''Content-Length'' ''WWW-Authenticate''"
    "length auth_response < 200" "NUL \<notin> set auth_response"
    by code_simp+
  then show "response_ok (e_rtsp box_env) ''401'' ''Unauthorized'' [(''CSeq'', ''3''), (''WWW-Authenticate'', auth_header)] []"
    by (simp add: response_ok_def header_ok_def box_env_def announced_length_def header_length_def code_ok_def auth_response_def)
  show "lookup_header [(''CSeq'', ''3''), (''WWW-Authenticate'', auth_header)] ''WWW-Authenticate'' = Some auth_header"
    by code_simp
qed

lemma auth_challenge: "challenge auth_header ''IPCAM'' ''a1b2''"
proof -
  have "first_at ''Digest '' ''realm''" "strcasestr auth_header ''Digest'' \<noteq> None"
    "first_at (''Digest '' @ ''realm'' @ ''='' @ CHR 0x22 # ''IPCAM'' @ CHR 0x22 # '', '') ''nonce''"
    by code_simp+
  moreover have "auth_header = ''Digest '' @ ''realm'' @ ''='' @ CHR 0x22 # ''IPCAM'' @ CHR 0x22 # '', '' @ ''nonce'' @ ''='' @
          CHR 0x22 # ''a1b2'' @ CHR 0x22 # []"
    by (simp add: auth_header_def)
  moreover have "quotable 64 ''IPCAM''" "quotable 128 ''a1b2''" "CHR 0x22 \<notin> set ''=''" by (simp_all add: quotable_def NUL_def)
  ultimately show ?thesis unfolding challenge_def by blast
qed

theorem device_describe_answered_witness:
  "\<exists>w msg s'. read_dev_sdp_basic_cb box_env 9 0 (camera_answers w sdp_response) = Inr s' \<and>
    s_bevs s' 7 = Some (socket_new\<lparr>b_out := msg, b_read := Some Deal_Client_Cmd, b_event := Some Cmd_Error_Cb2,
      b_arg := Arg_Dev 0, b_en_read := True\<rparr>) \<and> s_bevs s' 9 = None \<and> \<not> s_locked s'"
proof -
  obtain w :: "(nat, unit) list_t" where w: "holds_list w [8]" using waiting_list by blast
  have m: "strstr sdp_response ''m=video'' = None" "strstr sdp_response ''m=audio'' = None" by code_simp+
  have b: "b_in (socket_new\<lparr>b_in := sdp_response\<rparr>) = sdp_response" by simp
  obtain dev msg where d: "analysis_sdp_info (b_in (socket_new\<lparr>b_in := sdp_response\<rparr>)) (n_dev (camera_node w)) = Inr dev"
    "sdp_message dev = Inr msg"
    using no_media [OF m] by (auto simp: camera_node_def)
  from device_describe_answered [OF camera_answers_facts(1) b [unfolded sdp_response_def] sdp_response_ok
      camera_waiting [OF w] camera_answers_facts(2) d [unfolded sdp_response_def]]
  obtain s' where "read_dev_sdp_basic_cb box_env 9 0 (camera_answers w sdp_response) = Inr s'"
    "answered 0 (camera_node w) [7] dev msg ((camera_answers w sdp_response)\<lparr>s_bevs := (s_bevs (camera_answers w sdp_response))(9 := None)\<rparr>) s'"
    by (auto simp: sdp_response_def)
  then show ?thesis using camera_answers_facts
    by (intro exI [of _ w] exI [of _ msg] exI [of _ s']) (auto simp: answered_def told_def socket_new_def)
qed


end
