(* ===== verification/Server_Session.thy ===== *)
theory Server_Session
  imports Server_Device
begin

text \<open>
  A whole session, from the bytes a client sends to the bytes it gets back, as a run of the
  server: accept, command, connection to the device, \<open>DESCRIBE\<close>, answer. Every component of the
  program takes part: framing, JSON, percent-decoding, the list, the database row, the RTSP
  parser, the SDP analysis and the command frame.
\<close>

section \<open>The command of a client\<close>

lemma open_video_head:
  "cJSON_GetObjectItem (Some (open_video_item devid chnl strm)) ''protocol'' = Inr None"
  "cJSON_GetObjectItem (Some (open_video_item devid chnl strm)) ''cmdType'' =
     Inr (Some (name_item ''cmdType'' (string_item ''open_video'')))"
proof -
  have "\<not> strcaseeq ''cmdType'' ''protocol''" "\<not> strcaseeq ''devId'' ''protocol''"
    "\<not> strcaseeq ''devChnl'' ''protocol''" "\<not> strcaseeq ''devStreamType'' ''protocol''" "strcaseeq ''cmdType'' ''cmdType''"
    by code_simp+
  then show "cJSON_GetObjectItem (Some (open_video_item devid chnl strm)) ''protocol'' = Inr None"
    "cJSON_GetObjectItem (Some (open_video_item devid chnl strm)) ''cmdType'' =
       Inr (Some (name_item ''cmdType'' (string_item ''open_video'')))"
    by (simp_all add: open_video_item_def cJSON_GetObjectItem_def list_item_def name_item_def string_item_def
        number_item_def key_matches_def non_null_def)
qed

text \<open>A command that fits is read, recognised and handed to \<open>deal_open_video_cmd\<close>.\<close>

definition command_buffer :: "char list \<Rightarrow> char list" where
  "command_buffer body = frame_msg body @ zeros (480 - length body)"

lemma command_asks:
  assumes "int_ok chnl" "int_ok strm" "NUL \<notin> set devid" "length devid < MAX_DEV_ID_LEN" "url_dec devid = Some dec"
    "length (open_video_text devid chnl strm) < 480"
  shows "asks_for (command_buffer (open_video_text devid chnl strm)) cmd_size devid dec chnl strm"
proof -
  let ?t = "open_video_text devid chnl strm"
  have h: "drop cmd_size (frame_msg ?t @ x) = ?t @ x" for x
    by (simp add: frame_msg_def cmd_size_def encode_cmd_def cmd_magic_def zero_cmd_def)
  have "zeros (480 - length ?t) = NUL # zeros (480 - length ?t - 1)" by (rule zeros_Cons) (use assms(6) in simp)
  then show ?thesis using assms(1-5) by (simp add: asks_for_def command_buffer_def h del: drop_append)
qed

lemma deal_open_video_command:
  assumes "asks_for (command_buffer (open_video_text devid chnl strm)) cmd_size devid dec chnl strm"
    "length (open_video_text devid chnl strm) < 480" "s_bevs s b = Some v"
    "b_in v = frame_msg (open_video_text devid chnl strm) @ rest"
  shows "deal_client_cmd e b arg s =
    bind (deal_open_video_cmd e (command_buffer (open_video_text devid chnl strm)) cmd_size b
        (s\<lparr>s_bevs := (s_bevs s)(b \<mapsto> v\<lparr>b_in := rest, b_en_read := False\<rparr>)\<rparr>)) (\<lambda>(s, _). Inr s)"
proof -
  let ?t = "open_video_text devid chnl strm"
  let ?buf = "command_buffer ?t"
  have r: "read_cmd (b_in v) = Inr (Command ?buf rest)"
    unfolding assms(4) command_buffer_def by (rule read_cmd_whole) (use assms(2) in simp)
  obtain x where x: "drop cmd_size ?buf = ?t @ NUL # x" using assms(1) by (auto simp: asks_for_def)
  have p: "cJSON_Parse ?buf cmd_size = Inr (Some (open_video_item devid chnl strm))"
    by (rule parse_printed [OF open_video_parses x]) (use assms(1) in \<open>simp_all add: asks_for_def\<close>)
  obtain f where f: "strncpy (zeros 32) ''open_video'' 32 = Inr f" "holds_str f ''open_video''"
    using strncpy_str [of "zeros 32" 32 "''open_video''"] by (auto simp: NUL_def)
  have j: "json_text (Some (name_item ''cmdType'' (string_item ''open_video''))) = Inr ''open_video''"
    by (simp add: json_text_def name_item_def string_item_def non_null_def)
  have st: "starts_with ''open_video'' f" using f(2) by (auto simp: starts_with_def holds_str_def)
  show ?thesis
    using assms(3) r p f(1) j st
    by (simp add: deal_client_cmd_def lookup_def on_bev_def set_bev_def enable_read_def dispatch_cmd_def
        optional_array_def open_video_head)
qed

section \<open>From the command to the device\<close>

text \<open>The connection to a device, and what the client's connection is until it is answered.\<close>

definition device_bev :: "char list \<Rightarrow> int \<Rightarrow> bev" where
  "device_bev ip port = enable_read True (socket_connect ip port
     (bufferevent_setcb (Some Read_Sdp_Basic) (Some Active_Connect) (Arg_Dev 1) socket_new))"

definition client_bev :: bev where
  "client_bev = bufferevent_setcb (Some Deal_Client_Cmd) (Some Cmd_Error_Cb1) No_Arg (socket_new\<lparr>b_open := True\<rparr>)"

definition new_node :: "DEV_LIST \<Rightarrow> (nat, unit) list_t \<Rightarrow> dev_node" where
  "new_node dev w = \<lparr>n_dev = dev\<lparr>enumDevConnectStatus := CONNECTING\<rparr>, n_rtsp = list_init, n_wait = w\<rparr>"

lemma run_to_connect:
  assumes "asks_for (command_buffer (open_video_text devid chnl strm)) cmd_size devid dec chnl strm"
    "length (open_video_text devid chnl strm) < 480" "load_device e devid chnl strm = Inr (Some dev)"
  shows "\<exists>s ip w. (\<forall>as. run e (Accept # Receive 0 (frame_msg (open_video_text devid chnl strm)) # Ready 0 # as) server_init
      = run e as s) \<and>
    holds_list w [2] \<and> s_devs s = [1 \<mapsto> new_node dev w] \<and> holds_list (s_devlist s) [1] \<and> s_waits s = [2 \<mapsto> 0] \<and>
    s_bevs s = [0 \<mapsto> client_bev, 3 \<mapsto> device_bev ip (iDevRtspPort dev)] \<and> \<not> s_locked s"
proof -
  let ?t = "open_video_text devid chnl strm"
  let ?v = "client_bev\<lparr>b_en_read := True, b_in := frame_msg ?t\<rparr>"
  let ?s2 = "server_init\<lparr>s_bevs := [0 \<mapsto> ?v], s_brk := 1\<rparr>"
  let ?s3 = "?s2\<lparr>s_bevs := [0 \<mapsto> client_bev]\<rparr>"
  have ne: "frame_msg ?t \<noteq> []" by (simp add: frame_msg_def encode_cmd_def cmd_magic_def)
  have r2: "run e (Accept # Receive 0 (frame_msg ?t) # Ready 0 # as) server_init
      = bind (deal_client_cmd e 0 No_Arg ?s2) (run e as)" for "as"
    using ne by (simp add: enabled_def accept_client_connect_cb_def bufferevent_new_def server_init_def on_bev_def lookup_def
        set_bev_def enable_read_def bufferevent_setcb_def socket_new_def client_bev_def run_read_cb_def)
  have cb: "client_bev\<lparr>b_in := [], b_en_read := False\<rparr> = client_bev"
    by (simp add: client_bev_def bufferevent_setcb_def socket_new_def)
  have "deal_client_cmd e 0 No_Arg ?s2 =
      bind (deal_open_video_cmd e (command_buffer ?t) cmd_size 0 ?s3) (\<lambda>(s, _). Inr s)"
    using deal_open_video_command [OF assms(1,2), of ?s2 0 ?v "[]" e No_Arg] cb by simp
  moreover have "holds_list (s_devlist ?s3) []" "\<not> s_locked ?s3" using init_devlist by (simp_all add: server_init_def)
  note open_new_run [OF assms(1) this(2,1) _ _ assms(3), of 0]
  ultimately show ?thesis
    unfolding r2 device_bev_def new_node_def by (auto simp: server_init_def numeral_eq_Suc) blast
qed

section \<open>From the device to the client\<close>

lemma device_connects:
  assumes "s_devs s 1 = Some (new_node dev w)" "s_bevs s 3 = Some (device_bev ip port)" "basic_request dev = Inr req"
  shows "run e (Happens 3 BEV_EVENT_CONNECTED # as) s =
    run e as (s\<lparr>s_bevs := (s_bevs s)(3 \<mapsto> (device_bev ip port)\<lparr>b_open := True, b_out := req\<rparr>)\<rparr>)"
proof -
  have "stream_url (dev\<lparr>enumDevConnectStatus := CONNECTING\<rparr>) = stream_url dev"
    by (simp add: stream_url_def cong: if_cong)
  then have "basic_request (dev\<lparr>enumDevConnectStatus := CONNECTING\<rparr>) = Inr req"
    using assms(3) by (simp add: basic_request_def)
  then show ?thesis using assms(1,2)
    by (simp add: enabled_def on_bev_def lookup_def set_bev_def run_event_cb_def active_connect_eventcb_def
        device_bev_def enable_read_def socket_connect_def bufferevent_setcb_def socket_new_def non_null_def
        bufferevent_write_def new_node_def arg_dev_def)
qed

lemma device_replies:
  assumes "s_bevs s 3 = Some v" "b_open v" "b_en_read v" "b_in v = []" "b_read v = Some Read_Sdp_Basic" "b_arg v = Arg_Dev 1"
    "inp \<noteq> []"
  shows "run e [Receive 3 inp, Ready 3] s = read_dev_sdp_basic_cb e 3 1 (s\<lparr>s_bevs := (s_bevs s)(3 \<mapsto> v\<lparr>b_in := inp\<rparr>)\<rparr>)"
  using assms
  by (cases "read_dev_sdp_basic_cb e 3 1 (s\<lparr>s_bevs := (s_bevs s)(3 \<mapsto> v\<lparr>b_in := inp\<rparr>)\<rparr>)")
    (simp_all add: enabled_def on_bev_def lookup_def set_bev_def run_read_cb_def arg_dev_def non_null_def)

text \<open>
  C3: a whole session. A client connects to the fresh server and sends the \<open>open_video\<close> command
  (under 480 bytes, the id within its field) for a device of the database; the box connects to
  the device, sends it the \<open>DESCRIBE\<close> request, and gets a well-formed \<open>200\<close> back, in one piece,
  under 8 KB and with every allocation succeeding, whose description it can analyse and announce. Then no step faults, the device has been sent exactly the request, the
  client has been sent exactly the SDP message of the description, and the server is left with
  that device alone on its device list, connected and with its wait list destroyed, the client's
  connection ready for the next command, the connection to the device closed, and the lock free.
\<close>

theorem open_video_session:
  assumes "int_ok chnl" "int_ok strm" "NUL \<notin> set devid" "length devid < MAX_DEV_ID_LEN" "url_dec devid = Some dec"
    "length (open_video_text devid chnl strm) < 480"
    "load_device e devid chnl strm = Inr (Some dev)" "basic_request dev = Inr req"
    "response_ok (e_rtsp e) ''200'' reason hs body"
    "analysis_sdp_info (print_response ''200'' reason hs body) (dev\<lparr>enumDevConnectStatus := CONNECTING\<rparr>) = Inr dev'"
    "sdp_message dev' = Inr msg"
  shows "\<exists>s1 s2 u v n. run e [Accept, Receive 0 (frame_msg (open_video_text devid chnl strm)), Ready 0,
        Happens 3 BEV_EVENT_CONNECTED] server_init = Inr s1 \<and> s_bevs s1 3 = Some u \<and> b_out u = req \<and>
    run e [Accept, Receive 0 (frame_msg (open_video_text devid chnl strm)), Ready 0, Happens 3 BEV_EVENT_CONNECTED,
        Receive 3 (print_response ''200'' reason hs body), Ready 3] server_init = Inr s2 \<and>
    s_bevs s2 = [0 \<mapsto> v] \<and> b_out v = msg \<and> b_read v = Some Deal_Client_Cmd \<and> b_arg v = Arg_Dev 1 \<and> b_en_read v \<and>
    s_devs s2 = [1 \<mapsto> n] \<and> holds_list (s_devlist s2) [1] \<and> enumDevConnectStatus (n_dev n) = CONNECTED \<and>
    dead_list (n_wait n) \<and> \<not> s_locked s2"
proof -
  let ?c = "frame_msg (open_video_text devid chnl strm)" and ?m = "print_response ''200'' reason hs body"
  from run_to_connect [OF command_asks [OF assms(1-6)] assms(6,7)] obtain s ip w where
    s: "\<And>as. run e (Accept # Receive 0 ?c # Ready 0 # as) server_init = run e as s" "holds_list w [2]"
      "s_devs s = [1 \<mapsto> new_node dev w]" "s_waits s = [2 \<mapsto> 0]" "holds_list (s_devlist s) [1]"
      "s_bevs s = [0 \<mapsto> client_bev, 3 \<mapsto> device_bev ip (iDevRtspPort dev)]" "\<not> s_locked s"
    by blast
  let ?u = "(device_bev ip (iDevRtspPort dev))\<lparr>b_open := True, b_out := req\<rparr>"
  let ?s1 = "s\<lparr>s_bevs := (s_bevs s)(3 \<mapsto> ?u)\<rparr>"
  have c: "run e (Happens 3 BEV_EVENT_CONNECTED # as) s = run e as ?s1" for "as"
    by (rule device_connects [OF _ _ assms(8)]) (simp_all add: s)
  let ?s2 = "?s1\<lparr>s_bevs := (s_bevs ?s1)(3 \<mapsto> ?u\<lparr>b_in := ?m\<rparr>)\<rparr>"
  have "?m \<noteq> []" by (simp add: print_response_def)
  then have r: "run e [Receive 3 ?m, Ready 3] ?s1 = read_dev_sdp_basic_cb e 3 1 ?s2"
    using device_replies [of ?s1 ?u ?m e] by (simp add: device_bev_def enable_read_def socket_connect_def bufferevent_setcb_def socket_new_def)
  have wt: "waiting (?s2\<lparr>s_bevs := (s_bevs ?s2)(3 := None)\<rparr>) 1 (new_node dev w) [0]"
    using s by (auto simp: waiting_def new_node_def intro!: exI [of _ "[2]"])
  have "s_bevs ?s2 3 = Some (?u\<lparr>b_in := ?m\<rparr>)" "b_in (?u\<lparr>b_in := ?m\<rparr>) = ?m" by simp_all
  from describe_run [OF this assms(9) wt, of dev' msg] s(7) assms(10,11) obtain s' where
    s': "read_dev_sdp_basic_cb e 3 1 ?s2 = Inr s'"
      "answered 1 (new_node dev w) [0] dev' msg (?s2\<lparr>s_bevs := (s_bevs ?s2)(3 := None)\<rparr>) s'"
    by (auto simp: new_node_def)
  from s'(2) obtain l where l: "dead_list l" "\<not> s_locked s'" "holds_list (s_devlist s') [1]"
    "s_bevs s' = [0 \<mapsto> told msg 1 client_bev]"
    "s_devs s' = [1 \<mapsto> (new_node dev w)\<lparr>n_dev := dev'\<lparr>enumDevConnectStatus := CONNECTED\<rparr>, n_wait := l\<rparr>]"
    using s by (fastforce simp: answered_def)
  show ?thesis
    unfolding s(1) c r
    using l s'(1) by (intro exI [of _ ?s1] exI [of _ s'] exI [of _ ?u] exI [of _ "told msg 1 client_bev"]
        exI [of _ "(new_node dev w)\<lparr>n_dev := dev'\<lparr>enumDevConnectStatus := CONNECTED\<rparr>, n_wait := l\<rparr>"])
      (simp add: told_def client_bev_def bufferevent_setcb_def socket_new_def)
qed

lemma cam1_command:
  "asks_for (command_buffer (open_video_text ''cam1'' 1 0)) cmd_size ''cam1'' ''cam1'' 1 0"
  "length (open_video_text ''cam1'' 1 0) < 480" "url_dec ''cam1'' = Some ''cam1''" "int_ok 1" "int_ok 0"
  "NUL \<notin> set ''cam1''" "length ''cam1'' < MAX_DEV_ID_LEN"
  "load_device box_env ''cam1'' 1 0 = Inr (Some (camera ''cam1'' 1 0))"
proof -
  show l: "length (open_video_text ''cam1'' 1 0) < 480" "url_dec ''cam1'' = Some ''cam1''" by code_simp+
  show i: "int_ok 1" "int_ok 0" by (simp_all add: int_ok_def INT_MIN_def INT_MAX_def)
  show n: "NUL \<notin> set ''cam1''" "length ''cam1'' < MAX_DEV_ID_LEN" by (simp_all add: NUL_def MAX_DEV_ID_LEN_def)
  show "load_device box_env ''cam1'' 1 0 = Inr (Some (camera ''cam1'' 1 0))" using load_camera [OF n] by blast
  show "asks_for (command_buffer (open_video_text ''cam1'' 1 0)) cmd_size ''cam1'' ''cam1'' 1 0"
    by (rule command_asks [OF i n l(2,1)])
qed

theorem open_video_session_witness:
  "\<exists>s2 v msg. run box_env [Accept, Receive 0 (frame_msg (open_video_text ''cam1'' 1 0)), Ready 0,
      Happens 3 BEV_EVENT_CONNECTED, Receive 3 sdp_response, Ready 3] server_init = Inr s2 \<and>
    s_bevs s2 = [0 \<mapsto> v] \<and> b_out v = msg \<and> holds_list (s_devlist s2) [1] \<and> \<not> s_locked s2"
proof -
  let ?cam = "camera ''cam1'' 1 0"
  have a: "account ?cam ''admin'' ''12345'' ''rtsp://10.0.0.9:554/1'' ''rtsp://10.0.0.9:554/2''"
    "iDevStreamType ?cam = 0" "holds_str (arrBasicAuthenticate ?cam) ''YWQ=''"
    using load_camera [of "''cam1''" 1 0] by (simp_all add: account_def NUL_def MAX_DEV_ID_LEN_def)
  then obtain req where req: "basic_request ?cam = Inr req"
    using holds_str_cstr [of "arrDevRtspMainUrl ?cam"] holds_str_cstr [OF a(3)]
    by (auto simp: basic_request_def stream_url_def account_def)
  have m: "strstr sdp_response ''m=video'' = None" "strstr sdp_response ''m=audio'' = None" by code_simp+
  obtain dev msg where d: "analysis_sdp_info sdp_response (?cam\<lparr>enumDevConnectStatus := CONNECTING\<rparr>) = Inr dev"
    "sdp_message dev = Inr msg" using no_media [OF m] by auto
  from open_video_session [OF cam1_command(4-7,3,2,8) req sdp_response_ok d [unfolded sdp_response_def]]
  show ?thesis unfolding sdp_response_def by blast
qed

section \<open>What every run keeps\<close>

text \<open>
  C4: in every state the server can reach, whatever the network, the peers and the video threads
  do, the device list is a well-formed list of distinct devices, every device on it is live
  memory, and the stream and wait lists of every live device are well-formed or destroyed.
\<close>

theorem reachable_devices:
  assumes "reach e s"
  shows "(\<exists>ds. holds_list (s_devlist s) ds \<and> distinct ds \<and> set ds \<subseteq> dom (s_devs s)) \<and>
    (\<forall>d \<in> dom (s_devs s). list_ok (n_rtsp (the (s_devs s d))) \<and> list_ok (n_wait (the (s_devs s d))))"
  using reach_inv [OF assms] by (fastforce simp: heap_inv_def devs_inv_def node_ok_def)

theorem reachable_devices_witness:
  "\<exists>s. reach box_env s \<and> 1 \<in> dom (s_devs s) \<and> (\<exists>ds. holds_list (s_devlist s) ds \<and> distinct ds \<and> set ds \<subseteq> dom (s_devs s)) \<and>
    list_ok (n_wait (the (s_devs s 1)))"
proof -
  from run_to_connect [OF cam1_command(1,2,8)] obtain s w where
    s: "\<And>as. run box_env (Accept # Receive 0 (frame_msg (open_video_text ''cam1'' 1 0)) # Ready 0 # as) server_init
      = run box_env as s" "s_devs s = [1 \<mapsto> new_node (camera ''cam1'' 1 0) w]" by blast
  have "run box_env [Accept, Receive 0 (frame_msg (open_video_text ''cam1'' 1 0)), Ready 0] server_init = Inr s"
    using s(1) [of "[]"] by simp
  then have "reach box_env s" by (rule reach_run [OF reach.start])
  from this reachable_devices [OF this] s(2) show ?thesis by (intro exI [of _ s]) auto
qed

end
