(* ===== verification/Spec2Isabelle.thy ===== *)
theory Spec2Isabelle
  imports Url_Code Md5_Digest Rtsp_Roundtrip Simclist_Sort Simclist_Range Simclist_Concat Simclist_Restore Dev_Props Video_Pump Cjson_Typed
    Cjson_Props Server_Lock Server_Session
begin

text \<open>
  \<^bold>\<open>BoxRtsp\<close> is a box that sits between IP cameras and video clients. A client connects to its
  command port and asks, in a framed JSON command, for the video of a device; the box looks the
  device up in its database, asks it for its description with RTSP \<open>DESCRIBE\<close> (Basic, then Digest
  authentication), tells the waiting clients the description, and pumps the device's video to
  them from a thread of its own. This library models the box's own C code and proves what makes
  it correct, and where it is not, what goes wrong.

  \<^bold>\<open>Parts, theories and sources.\<close>

  \<^item> \<open>Box_Prelude\<close>: results (\<open>res\<close>: a fault or a value), C memory as lists of bytes with checked
    reads and writes, C strings, the predicate \<open>holds F Q r\<close> (a result is a value in \<open>Q\<close> or a
    fault in \<open>F\<close>) with its rules (\<open>wp\<close>), loops over automata. \<open>C_Strings\<close>: \<open>strncpy\<close>,
    \<open>snprintf\<close>, \<open>htonl\<close>, numbers as text.
  \<^item> \<open>Url_Code\<close>: \<open>common/url_code.c\<close>. \<open>Md5\<close>, \<open>Md5_Spec\<close>, \<open>Md5_Digest\<close>: \<open>common/md5.c\<close> and
    \<open>md5gen.c\<close>, the specification of RFC 1321, and the proof that the streaming code meets it.
  \<^item> \<open>Rtsp_Parser\<close>, \<open>Rtsp_Safety\<close>, \<open>Rtsp_Roundtrip\<close>: \<open>common/rtsp-parser.c\<close>, the record of the
    parser and its automata; memory safety on any input; parsing as the inverse of printing.
  \<^item> \<open>Cjson\<close>, \<open>Cjson_Print\<close>, \<open>Cjson_Safe\<close>, \<open>Cjson_Roundtrip\<close>: \<open>common/cJSON.c\<close>, the parser and
    the printer; termination and bounds; parsing undoes printing. \<open>Cjson_Typed\<close>: the shape of
    what the parser returns. \<open>Cjson_Heap\<close>: the operations that build, change, copy and delete
    items, on linked memory whose allocations may fail. \<open>Cjson_Tree\<close>, \<open>Cjson_Edit\<close>,
    \<open>Cjson_Copy\<close>, \<open>Cjson_Props\<close>: the tree a piece of memory represents, and each operation as an
    edit of that tree.
  \<^item> \<open>Simclist\<close>, \<open>Simclist_Rep\<close>, \<open>Simclist_Spec\<close>: \<open>common/simclist.c\<close> on a heap of entries, the
    representation relation, and the refinement of lists. The locale \<open>list_adt\<close> states the
    contract the rest of the program relies on; it is interpreted on the model of the code.
    \<open>Simclist_Ops\<close>, \<open>Simclist_Sort\<close>: the operations on whole lists, and the sort, for every
    comparator that meets the locale \<open>comparison\<close>. \<open>Simclist_Range\<close>, \<open>Simclist_Concat\<close>: the
    deletion of a range and the concatenation on the represented lists. \<open>Simclist_Dump\<close>: dump
    files, over files as bytes with an offset whose system calls may fail; \<open>Simclist_Dumped\<close>: the
    bytes of a dump; \<open>Simclist_Restore\<close>: what a restore and \<open>list_dump_getinfo_file\<close> make of them.
  \<^item> \<open>Dev_Info\<close>, \<open>Dev_Props\<close>: the device record and the functions of \<open>dev_opt.c\<close> and
    \<open>libevent_server.c\<close> that compute on it (SDP, digest, requests, database row, frames).
    \<open>Video_Pump\<close>: the loop of \<open>read_video_data_from_dev_task\<close> over packets and clients.
  \<^item> \<open>Server_State\<close>, \<open>Server\<close>, \<open>Server_Cmd\<close>: the server's heap (devices, clients, waiting clients,
    callback arguments, bufferevents, threads, the lock \<open>rwlockMyLock\<close>) and every handler and
    callback of \<open>libevent_server.c\<close> and \<open>dev_opt.c\<close>, in the order of the code.
    \<open>Server_Step\<close>: the step relation and its invariant. \<open>Server_Lock\<close>: the lock.
    \<open>Server_Props\<close>: \<open>open_video\<close> on each state of the device. \<open>Server_Device\<close>: the two rounds of
    \<open>DESCRIBE\<close>. \<open>Server_Session\<close>: a whole session as one run.

  \<^bold>\<open>State and faults.\<close> A struct is a record with the fields of the source, an array field a
  byte list of its length. Pointers between heap objects are numbers and the heap maps them to
  records; memory that has been freed is absent, so that following a dangling pointer is the
  fault \<open>Use_After_Free\<close>. \<open>Out_Of_Bounds\<close>, \<open>Null_Deref\<close>, \<open>Assert_Failed\<close> and \<open>Diverges\<close> (a lock
  taken twice) are the other faults; a theorem that says \<open>f x = Inr y\<close> also says that none of
  them happens. Machine integers are words where they can wrap.

  \<^bold>\<open>The environment.\<close> libevent, SQLite, FFmpeg, the allocator and the network are not under
  \<open>src/\<close>'s own code. What they may do is a parameter (\<open>env\<close>: the rows a statement yields, the
  streams a URL has, whether an allocation succeeds, what freed or uninitialised bytes hold) or
  an action of the step relation (\<open>Accept\<close>, \<open>Receive\<close>, \<open>Sent\<close>, \<open>Ready\<close>, \<open>Happens\<close>), enabled
  when libevent's documentation allows it. A handler runs to its end before the next action:
  libevent's loop is one thread. A video thread takes four kinds of actions: it starts and opens
  its stream (\<open>Thread_Start\<close>), counts its clients, reads a packet and decides whether it passes
  (\<open>Thread_Turn\<close>), sends it to the clients counted (\<open>Thread_Send\<close>), and ends (\<open>Thread_End\<close>). Only
  the last two take the lock, and only they wait for it; handlers and other threads come in
  between. A handler that takes the lock while it is held does not complete: POSIX lets
  \<open>pthread_rwlock_wrlock\<close> deadlock or fail for a thread that already has the lock, and the code
  never looks at the result.

  \<^bold>\<open>What the lemmas show.\<close> Of the components: the digest is MD5 for every way of cutting the
  input; percent-encoding, RTSP responses, JSON items and command frames survive the round trip;
  the list code refines lists, its middle pointer and spare entries included, and sorts them; the parsers stay
  in bounds, with the exact conditions under which they do not; each change of a JSON tree is the
  edit of its children that its name says and frees exactly the blocks that leave the tree. Of the composition: what
  \<open>open_video\<close> does for an unknown, a connecting, a connected and an abandoned device; what a
  device's answer does to every client that waits; a complete session from bytes to bytes;
  that every reachable state has a device list of distinct live devices; that the lock is
  released by every handler except on one path, and that a lock left held freezes the device
  list and every list of a device, since nothing changes them without taking it.

  \<^bold>\<open>Bounds and fuel.\<close> The JSON parser recurses over arrays and objects with fuel \<open>2 * n + 2\<close> for
  \<open>n\<close> bytes of text; \<open>cJSON_Parse_ends\<close> shows that it never runs out. The RTSP automata and the
  list loops are total functions with measures. Lists are shorter than \<open>2 ^ 31\<close>, as their
  \<open>int\<close> counts require; so are texts, whose lengths (\<open>str_len\<close>) the code counts in an \<open>int\<close> and
  the model in a natural number. A comparator's result times \<open>versus\<close> (\<open>cmp_at\<close>) is an integer of
  the model and an \<open>int\<close> of the code: a comparator that returns the least \<open>int\<close> is left out.
  Doubles are rationals rounded to 53 bits, without infinities: a number
  out of range is a fault of the model and is excluded by the hypotheses of the round trip.

  \<^bold>\<open>Not modelled.\<close> Traces and log calls; the listener, the signal mask and the event loop itself;
  leaked memory; what happens inside one of the four actions of a video thread while another
  thread runs (the loop of \<open>Video_Pump\<close> alone, \<open>pump_loop\<close>, also has no network that empties
  buffers between its packets; in the step relation that is the action \<open>Sent\<close>); the
  variants of \<open>simclist.c\<close> with threads or hashes of addresses, which the build does not enable.
\<close>

end
